(* ===== verification/Prelude.thy ===== *)
theory Prelude
  imports Main "HOL-Library.Word"
begin

text \<open>
  The prelude of the development: the vocabulary and the generic lemmas that every
  component theory uses.

  \<^item> \<open>bindE\<close> sequences computations of type \<open>'e + 'a\<close>: \<open>Inl\<close> is the
    point where the C program stops (a panic, a failed assertion, a kernel crash, undefined
    behaviour), \<open>Inr\<close> a result with the state it leaves.
  \<^item> \<open>chain\<close> reads a singly linked list off a link field of a heap; \<open>dll\<close> a doubly
    linked one. The components that keep intrusive lists state their invariants with them.
  \<^item> the collections \<open>heap_simps\<close> and \<open>step_simps\<close> gather the field-update
    and the one-step equations that carry the component proofs.
\<close>

named_theorems heap_simps \<open>reading a field after writing a field of the modelled memory\<close>
named_theorems step_simps \<open>one-step equations of the modelled operations\<close>

section \<open>Stopping computations\<close>

fun bindE :: "'e + 'a \<Rightarrow> ('a \<Rightarrow> 'e + 'b) \<Rightarrow> 'e + 'b" where
  "bindE (Inl e) f = Inl e"
| "bindE (Inr a) f = f a"

lemma bindE_eq_Inr_conv: "bindE m f = Inr b \<longleftrightarrow> (\<exists>a. m = Inr a \<and> f a = Inr b)"
  by (cases m) auto

lemma bindE_eq_Inl_conv: "bindE m f = Inl e \<longleftrightarrow> m = Inl e \<or> (\<exists>a. m = Inr a \<and> f a = Inl e)"
  by (cases m) auto

lemma bindE_assoc: "bindE (bindE m f) g = bindE m (\<lambda>a. bindE (f a) g)"
  by (cases m) auto

lemma bindE_cong [fundef_cong]:
  "m = m' \<Longrightarrow> (\<And>a. m' = Inr a \<Longrightarrow> f a = g a) \<Longrightarrow> bindE m f = bindE m' g"
  by (cases m') auto

lemmas bindE_convs = bindE_eq_Inr_conv bindE_eq_Inl_conv

text \<open>
  \<open>ends E P m\<close>: the computation stops with one of the errors \<open>E\<close> or returns a value with \<open>P\<close>.
  With \<open>E\<close> empty it is total correctness; a large \<open>E\<close> says which errors are possible at all.
\<close>

definition ends :: "'e set \<Rightarrow> ('a \<Rightarrow> bool) \<Rightarrow> 'e + 'a \<Rightarrow> bool" where
  "ends E P m \<longleftrightarrow> (case m of Inl e \<Rightarrow> e \<in> E | Inr a \<Rightarrow> P a)"

lemma ends_simps [simp]: "ends E P (Inl e) \<longleftrightarrow> e \<in> E" "ends E P (Inr a) \<longleftrightarrow> P a"
  by (simp_all add: ends_def)

lemma ends_bind: "ends E P m \<Longrightarrow> (\<And>a. m = Inr a \<Longrightarrow> P a \<Longrightarrow> ends E Q (f a)) \<Longrightarrow> ends E Q (bindE m f)"
  by (cases m) auto

lemma ends_bindE: "ends E P (bindE m f) \<longleftrightarrow> ends E (\<lambda>a. ends E P (f a)) m"
  by (cases m) auto

lemma ends_mono: "ends E P m \<Longrightarrow> E \<subseteq> F \<Longrightarrow> (\<And>a. P a \<Longrightarrow> Q a) \<Longrightarrow> ends F Q m"
  by (cases m) auto

lemma ends_none: "ends {} P m \<longleftrightarrow> (\<exists>a. m = Inr a \<and> P a)"
  by (cases m) auto

section \<open>C integers\<close>

text \<open>
  C's \<open>/\<close> and \<open>%\<close> truncate towards zero, unlike HOL's \<open>div\<close> and \<open>mod\<close>.
\<close>

definition c_div :: "int \<Rightarrow> int \<Rightarrow> int" where
  "c_div a b = sgn a * sgn b * (\<bar>a\<bar> div \<bar>b\<bar>)"

definition c_mod :: "int \<Rightarrow> int \<Rightarrow> int" where
  "c_mod a b = a - b * c_div a b"

lemma c_mod_nonneg: "0 \<le> a \<Longrightarrow> 0 < b \<Longrightarrow> c_mod a b = a mod b"
  by (cases "a = 0") (auto simp: c_mod_def c_div_def minus_mult_div_eq_mod)

lemma c_mod_neg: "a < 0 \<Longrightarrow> 0 < b \<Longrightarrow> c_mod a b = - ((- a) mod b)"
  by (auto simp: c_mod_def c_div_def minus_mult_div_eq_mod [symmetric])

lemma c_mod_bounds:
  assumes "0 < b"
  shows "- b < c_mod a b" and "c_mod a b < b"
proof -
  consider "0 \<le> a" | "a < 0" by linarith
  then have "- b < c_mod a b \<and> c_mod a b < b"
  proof cases
    case 1
    with assms show ?thesis
      using pos_mod_bound [of b a] pos_mod_sign [of b a] c_mod_nonneg [of a b] by linarith
  next
    case 2
    with assms show ?thesis
      using pos_mod_bound [of b "- a"] pos_mod_sign [of b "- a"] c_mod_neg [of a b] by linarith
  qed
  then show "- b < c_mod a b" and "c_mod a b < b" by simp_all
qed

section \<open>Linked chains in a heap\<close>

type_synonym ptr = "nat option"

text \<open>
  \<open>chain nx p xs\<close>: following the link field \<open>nx\<close> from the pointer \<open>p\<close> visits
  exactly the cells \<open>xs\<close> and then meets the null pointer. \<open>seg\<close> is the same up to
  a given end pointer.
\<close>

fun chain :: "(nat \<Rightarrow> ptr) \<Rightarrow> ptr \<Rightarrow> nat list \<Rightarrow> bool" where
  "chain nx p [] \<longleftrightarrow> p = None"
| "chain nx p (x # xs) \<longleftrightarrow> p = Some x \<and> chain nx (nx x) xs"

fun seg :: "(nat \<Rightarrow> ptr) \<Rightarrow> ptr \<Rightarrow> nat list \<Rightarrow> ptr \<Rightarrow> bool" where
  "seg nx p [] q \<longleftrightarrow> p = q"
| "seg nx p (x # xs) q \<longleftrightarrow> p = Some x \<and> seg nx (nx x) xs q"

lemma chain_seg: "chain nx p xs \<longleftrightarrow> seg nx p xs None"
  by (induction xs arbitrary: p) auto

lemma seg_append: "seg nx p (xs @ ys) q \<longleftrightarrow> (\<exists>r. seg nx p xs r \<and> seg nx r ys q)"
  by (induction xs arbitrary: p) auto

lemma chain_append: "chain nx p (xs @ ys) \<longleftrightarrow> (\<exists>r. seg nx p xs r \<and> chain nx r ys)"
  by (simp add: chain_seg seg_append)

lemma chain_None [simp]: "chain nx None xs \<longleftrightarrow> xs = []"
  by (cases xs) auto

lemma chain_Some: "chain nx (Some x) xs \<longleftrightarrow> (\<exists>ys. xs = x # ys \<and> chain nx (nx x) ys)"
  by (cases xs) auto

lemma chain_unique: "chain nx p xs \<Longrightarrow> chain nx p ys \<Longrightarrow> xs = ys"
proof (induction xs arbitrary: p ys)
  case Nil
  then show ?case by simp
next
  case (Cons x xs)
  then obtain zs where "ys = x # zs" "chain nx (nx x) zs"
    by (auto simp: chain_Some)
  with Cons show ?case by auto
qed

lemma chain_hd_notin: "chain nx (nx x) xs \<Longrightarrow> x \<notin> set xs"
proof
  assume c: "chain nx (nx x) xs" and "x \<in> set xs"
  then obtain as bs where xs: "xs = as @ x # bs"
    by (meson split_list)
  with c have "chain nx (Some x) (x # bs)"
    by (auto simp: chain_append)
  then have "chain nx (nx x) bs" by simp
  with c have "xs = bs" by (rule chain_unique)
  with xs show False by simp
qed

lemma chain_distinct: "chain nx p xs \<Longrightarrow> distinct xs"
  by (induction xs arbitrary: p) (auto dest: chain_hd_notin)

lemma chain_fun_upd [simp]: "y \<notin> set xs \<Longrightarrow> chain (nx(y := q)) p xs = chain nx p xs"
  by (induction xs arbitrary: p) auto

lemma seg_fun_upd [simp]: "y \<notin> set xs \<Longrightarrow> seg (nx(y := q)) p xs r = seg nx p xs r"
  by (induction xs arbitrary: p) auto

lemma chain_cong: "(\<And>x. x \<in> set xs \<Longrightarrow> nx x = nx' x) \<Longrightarrow> chain nx p xs = chain nx' p xs"
  by (induction xs arbitrary: p) auto

lemma chain_snoc:
  "chain nx p (xs @ [x]) \<longleftrightarrow> seg nx p xs (Some x) \<and> nx x = None"
  by (auto simp: chain_append)

text \<open>The last cell's predecessor: where a segment ends, or the head when it is empty.\<close>

lemma seg_last_upd:
  assumes "seg nx p (xs @ [y]) q" and "y \<notin> set xs"
  shows "seg (nx(y := r)) p (xs @ [y]) r"
  using assms by (auto simp: seg_append)

lemma seg_end: "seg nx p xs q \<Longrightarrow> xs \<noteq> [] \<Longrightarrow> nx (last xs) = q"
  by (induction xs arbitrary: p) auto

lemma seg_start: "seg nx p xs q \<Longrightarrow> xs \<noteq> [] \<Longrightarrow> p = Some (hd xs)"
  by (cases xs) auto

text \<open>
  \<open>dll nx pv f r xs\<close>: the doubly linked list \<open>xs\<close> between the end pointers \<open>f\<close>
  and \<open>r\<close>. It reads the same in both directions, so one half of each lemma gives the
  other.
\<close>

definition dll :: "(nat \<Rightarrow> ptr) \<Rightarrow> (nat \<Rightarrow> ptr) \<Rightarrow> ptr \<Rightarrow> ptr \<Rightarrow> nat list \<Rightarrow> bool" where
  "dll nx pv f r xs \<longleftrightarrow> chain nx f xs \<and> chain pv r (rev xs)"

lemma dll_rev: "dll nx pv f r xs = dll pv nx r f (rev xs)"
  by (auto simp: dll_def)

lemma dll_distinct: "dll nx pv f r xs \<Longrightarrow> distinct xs"
  by (auto simp: dll_def dest: chain_distinct)

lemma chain_head: "chain nx p xs \<Longrightarrow> p = (if xs = [] then None else Some (hd xs))"
  by (cases xs) auto

lemma dll_hd: "dll nx pv f r xs \<Longrightarrow> f = (if xs = [] then None else Some (hd xs))"
  by (auto simp: dll_def dest: chain_head)

lemma dll_last: "dll nx pv f r xs \<Longrightarrow> r = (if xs = [] then None else Some (last xs))"
  by (auto simp: dll_def hd_rev dest: chain_head)

lemma chain_remove:
  assumes "chain nx f (as @ b # bs)"
  shows "chain (if as = [] then nx else nx(last as := nx b)) (if as = [] then nx b else f) (as @ bs)"
proof (cases as rule: rev_cases)
  case Nil
  with assms show ?thesis by simp
next
  case (snoc cs c)
  have "distinct (as @ b # bs)" using assms by (rule chain_distinct)
  with snoc assms show ?thesis by (auto simp: chain_append seg_append)
qed

lemma dll_neighbours:
  assumes "dll nx pv f r (as @ b # bs)"
  shows "nx b = (if bs = [] then None else Some (hd bs))"
    and "pv b = (if as = [] then None else Some (last as))"
  using assms
  by (auto simp: dll_def chain_append hd_rev dest!: chain_head)

lemma dll_remove:
  assumes "dll nx pv f r (as @ b # bs)"
  shows "dll (case pv b of Some p \<Rightarrow> nx(p := nx b) | None \<Rightarrow> nx)
             (case nx b of Some n \<Rightarrow> pv(n := pv b) | None \<Rightarrow> pv)
             (case pv b of Some p \<Rightarrow> f | None \<Rightarrow> nx b)
             (case nx b of Some n \<Rightarrow> r | None \<Rightarrow> pv b) (as @ bs)"
  using chain_remove [of nx f as b bs] chain_remove [of pv r "rev bs" b "rev as"] assms
    dll_neighbours [OF assms]
  by (simp add: dll_def last_rev split: if_splits)

lemma chain_push_end:
  assumes "chain nx p xs" and "b \<notin> set xs"
  shows "chain (if xs = [] then nx(b := None) else nx(b := None, last xs := Some b))
           (if xs = [] then Some b else p) (xs @ [b])"
proof (cases xs rule: rev_cases)
  case Nil
  then show ?thesis by simp
next
  case (snoc ys y)
  have "distinct xs" using assms(1) by (rule chain_distinct)
  with snoc assms show ?thesis by (auto simp: chain_append seg_append)
qed

lemma dll_push_front:
  assumes "dll nx pv f r xs" and "b \<notin> set xs"
  shows "dll (nx(b := f)) (case f of None \<Rightarrow> pv(b := None) | Some x \<Rightarrow> pv(b := None, x := Some b))
             (Some b) (case f of None \<Rightarrow> Some b | Some x \<Rightarrow> r) (b # xs)"
  using chain_push_end [of pv r "rev xs" b] assms dll_hd [OF assms(1)]
  by (cases "xs = []") (simp_all add: dll_def last_rev)

lemma dll_push_rear:
  assumes "dll nx pv f r xs" and "b \<notin> set xs"
  shows "dll (case r of None \<Rightarrow> nx(b := None) | Some x \<Rightarrow> nx(b := None, x := Some b)) (pv(b := r))
             (case r of None \<Rightarrow> Some b | Some x \<Rightarrow> f) (Some b) (xs @ [b])"
proof -
  have "dll pv nx r f (rev xs)" using assms(1) by (simp add: dll_def)
  from dll_push_front [OF this, of b] assms(2) show ?thesis
    by (simp add: dll_def)
qed

section \<open>Searching an interval\<close>

lemma find_upt_Cons: "i < n \<Longrightarrow> find P [i..<n] = (if P i then Some i else find P [Suc i..<n])"
  by (simp add: upt_conv_Cons)

lemma find_map: "find P (map f xs) = map_option f (find (\<lambda>x. P (f x)) xs)"
  by (induction xs) auto

lemma find_append:
  "find P (xs @ ys) = (case find P xs of None \<Rightarrow> find P ys | Some x \<Rightarrow> Some x)"
  by (induction xs) auto

lemma find_list_update_other:
  "j < length xs \<Longrightarrow> P y = P (xs ! j) \<Longrightarrow> find P xs = Some a \<Longrightarrow> a \<noteq> xs ! j \<Longrightarrow>
   find P (xs[j := y]) = Some a"
  by (induction xs arbitrary: j) (auto split: nat.splits if_splits)

lemma find_upt_SomeI:
  assumes "i \<le> k" "k < n" "P k" "\<And>j. i \<le> j \<Longrightarrow> j < k \<Longrightarrow> \<not> P j"
  shows "find P [i..<n] = Some k"
  using assms
proof (induction "k - i" arbitrary: i)
  case 0
  then show ?case by (simp add: find_upt_Cons)
next
  case (Suc d)
  then have "\<not> P i" "find P [Suc i..<n] = Some k" by auto
  with Suc show ?case by (simp add: find_upt_Cons)
qed

lemma find_upt_SomeD:
  assumes "find P [i..<n] = Some k"
  shows "i \<le> k" "k < n" "P k" "i \<le> j \<Longrightarrow> j < k \<Longrightarrow> \<not> P j"
proof -
  from assms obtain m where m: "m < n - i" "P (i + m)" "k = i + m" "\<forall>j<m. \<not> P (i + j)"
    by (auto simp: find_Some_iff)
  then show "i \<le> k" "k < n" "P k" by auto
  show "\<not> P j" if "i \<le> j" "j < k"
    using m(3,4) that by (metis le_add_diff_inverse nat_add_left_cancel_less)
qed

lemma find_upt_None: "find P [i..<n] = None \<longleftrightarrow> (\<forall>j. i \<le> j \<and> j < n \<longrightarrow> \<not> P j)"
  by (auto simp: find_None_iff)

end
