(* ===== verification/Dadfs_Layout.thy ===== *)
theory Dadfs_Layout
  imports Prelude
begin

unbundle bit_operations_syntax

text \<open>
  The on-disk structures of dadfs (\<open>Lab/Lab 7/dadfs/base.h\<close>) as byte layouts.

  A block is 4096 bytes, addressed by offset. The C code casts a block's buffer to
  \<open>struct dadfs_super_block\<close>, to an array of \<open>struct dadfs_inode\<close> or to an array of
  \<open>struct dadfs_dir_record\<close>; here a field is read and written at the offset the x86-64
  ABI gives it, in little-endian order. The two arrays implement the interface
  \<open>slot_array\<close>: reading a slot gives what was last written to that slot, and writing
  a slot leaves the others alone. \<open>mkfs-dadfs.c\<close> and \<open>base.c\<close> share these layouts.
\<close>

type_synonym byte = "8 word"
type_synonym block = "nat \<Rightarrow> byte"

section \<open>Little-endian fields\<close>

primrec le_get :: "nat \<Rightarrow> block \<Rightarrow> nat \<Rightarrow> 64 word" where
  "le_get 0 m off = 0"
| "le_get (Suc k) m off = ucast (m off) OR push_bit 8 (le_get k m (Suc off))"

primrec le_put :: "nat \<Rightarrow> block \<Rightarrow> nat \<Rightarrow> 64 word \<Rightarrow> block" where
  "le_put 0 m off w = m"
| "le_put (Suc k) m off w = le_put k (m(off := ucast w)) (Suc off) (drop_bit 8 w)"

definition put_bytes :: "block \<Rightarrow> nat \<Rightarrow> byte list \<Rightarrow> block" where
  "put_bytes m off bs =
     (\<lambda>x. if off \<le> x \<and> x < off + length bs then bs ! (x - off) else m x)"

definition get_bytes :: "block \<Rightarrow> nat \<Rightarrow> nat \<Rightarrow> byte list" where
  "get_bytes m off n = map (\<lambda>i. m (off + i)) [0..<n]"

lemma le_put_outside [heap_simps]:
  "x < off \<or> off + k \<le> x \<Longrightarrow> le_put k m off w x = m x"
  by (induction k arbitrary: m off w) auto

lemma put_bytes_outside [heap_simps]:
  "x < off \<or> off + length bs \<le> x \<Longrightarrow> put_bytes m off bs x = m x"
  by (auto simp: put_bytes_def)

lemma le_get_cong:
  "(\<And>x. off \<le> x \<Longrightarrow> x < off + k \<Longrightarrow> m x = m' x) \<Longrightarrow> le_get k m off = le_get k m' off"
  by (induction k arbitrary: off) auto

lemma le_get_shift:
  "(\<And>x. x < k \<Longrightarrow> m (off + x) = m' (off' + x)) \<Longrightarrow> le_get k m off = le_get k m' off'"
proof (induction k arbitrary: off off')
  case 0
  then show ?case by simp
next
  case (Suc k)
  have "m (Suc off + x) = m' (Suc off' + x)" if "x < k" for x
    using Suc.prems [of "Suc x"] that by simp
  then have "le_get k m (Suc off) = le_get k m' (Suc off')" by (rule Suc.IH)
  with Suc.prems [of 0] show ?case by simp
qed

lemma le_get_le_put_other [heap_simps]:
  "off + k \<le> off' \<or> off' + k' \<le> off \<Longrightarrow> le_get k (le_put k' m off' w) off = le_get k m off"
  by (rule le_get_cong) (auto simp: heap_simps)

lemma le_get_put_bytes_other [heap_simps]:
  "off + k \<le> off' \<or> off' + length bs \<le> off \<Longrightarrow>
   le_get k (put_bytes m off' bs) off = le_get k m off"
  by (rule le_get_cong) (auto simp: heap_simps)

lemma le_byte_step:
  "(ucast (ucast w :: byte) :: 64 word) OR push_bit 8 (take_bit (8 * k) (drop_bit 8 w))
     = take_bit (8 * Suc k) w"
  by (rule bit_eqI) (auto simp: bit_simps)

lemma le_get_le_put_same: "le_get k (le_put k m off w) off = take_bit (8 * k) w"
proof (induction k arbitrary: m off w)
  case 0
  then show ?case by simp
next
  case (Suc k)
  then show ?case
    using le_byte_step [of w k] by (simp add: heap_simps)
qed

lemma le64_roundtrip [simp]: "le_get 8 (le_put 8 m off w) off = w"
  by (simp add: le_get_le_put_same take_bit_word_eq_self)

lemma le32_roundtrip [simp]:
  "(ucast (le_get 4 (le_put 4 m off (ucast (v :: 32 word))) off) :: 32 word) = v"
  by (simp add: le_get_le_put_same) (rule bit_eqI, simp add: bit_simps)

lemma get_put_bytes_same [simp]:
  "n \<le> length bs \<Longrightarrow> get_bytes (put_bytes m off bs) off n = take n bs"
  by (rule nth_equalityI) (auto simp: get_bytes_def put_bytes_def)

lemma le_put_fun_upd: "x < off \<Longrightarrow> le_put k (m(x := v)) off w = (le_put k m off w)(x := v)"
proof (induction k arbitrary: m off w)
  case 0
  then show ?case by simp
next
  case (Suc k)
  then have "m(x := v, off := ucast w) = m(off := ucast w, x := v)"
    by (intro fun_upd_twist) simp
  then show ?case
    using Suc.IH [of "Suc off" "m(off := ucast w)"] Suc.prems by (simp only: le_put.simps less_SucI)
qed

lemma le_put_twice [simp]: "le_put k (le_put k m off w) off w' = le_put k m off w'"
  by (induction k arbitrary: m off w w') (simp_all add: le_put_fun_upd)

section \<open>Constants of base.h\<close>

definition DADFS_MAGIC :: "64 word" where "DADFS_MAGIC = 0x10032013"
definition DADFS_DEFAULT_BLOCK_SIZE :: nat where "DADFS_DEFAULT_BLOCK_SIZE = 4096"
definition DADFS_FILENAME_MAXLEN :: nat where "DADFS_FILENAME_MAXLEN = 255"
definition DADFS_START_INO :: "64 word" where "DADFS_START_INO = 10"
definition DADFS_RESERVED_INODES :: "64 word" where "DADFS_RESERVED_INODES = 3"
definition DADFS_ROOTDIR_INODE_NUMBER :: "64 word" where "DADFS_ROOTDIR_INODE_NUMBER = 1"
definition DADFS_SUPERBLOCK_BLOCK_NUMBER :: nat where "DADFS_SUPERBLOCK_BLOCK_NUMBER = 0"
definition DADFS_INODESTORE_BLOCK_NUMBER :: nat where "DADFS_INODESTORE_BLOCK_NUMBER = 1"
definition DADFS_JOURNAL_INODE_NUMBER :: "64 word" where "DADFS_JOURNAL_INODE_NUMBER = 2"
definition DADFS_JOURNAL_BLOCK_NUMBER :: nat where "DADFS_JOURNAL_BLOCK_NUMBER = 2"
definition DADFS_JOURNAL_BLOCKS :: nat where "DADFS_JOURNAL_BLOCKS = 2"
definition DADFS_ROOTDIR_DATABLOCK_NUMBER :: nat where "DADFS_ROOTDIR_DATABLOCK_NUMBER = 4"
definition DADFS_LAST_RESERVED_BLOCK :: nat where
  "DADFS_LAST_RESERVED_BLOCK = DADFS_ROOTDIR_DATABLOCK_NUMBER"
definition DADFS_LAST_RESERVED_INODE :: "64 word" where
  "DADFS_LAST_RESERVED_INODE = DADFS_JOURNAL_INODE_NUMBER"
definition DADFS_MAX_FILESYSTEM_OBJECTS_SUPPORTED :: nat where
  "DADFS_MAX_FILESYSTEM_OBJECTS_SUPPORTED = 64"

lemmas dadfs_consts =
  DADFS_MAGIC_def DADFS_DEFAULT_BLOCK_SIZE_def DADFS_FILENAME_MAXLEN_def DADFS_START_INO_def
  DADFS_RESERVED_INODES_def DADFS_ROOTDIR_INODE_NUMBER_def DADFS_SUPERBLOCK_BLOCK_NUMBER_def
  DADFS_INODESTORE_BLOCK_NUMBER_def DADFS_JOURNAL_INODE_NUMBER_def DADFS_JOURNAL_BLOCK_NUMBER_def
  DADFS_JOURNAL_BLOCKS_def DADFS_ROOTDIR_DATABLOCK_NUMBER_def DADFS_LAST_RESERVED_BLOCK_def
  DADFS_LAST_RESERVED_INODE_def DADFS_MAX_FILESYSTEM_OBJECTS_SUPPORTED_def

section \<open>The super block\<close>

text \<open>
  \<open>struct dadfs_super_block\<close>: five 64-bit fields, the journal pointer (64 bits, null
  is 0) and padding up to 4096 bytes. The kernel keeps using the buffer of block 0 as the
  structure, so its fields are read and written in that buffer.
\<close>

definition sb_version :: "block \<Rightarrow> 64 word" where "sb_version b = le_get 8 b 0"
definition sb_magic :: "block \<Rightarrow> 64 word" where "sb_magic b = le_get 8 b 8"
definition sb_block_size :: "block \<Rightarrow> 64 word" where "sb_block_size b = le_get 8 b 16"
definition sb_inodes_count :: "block \<Rightarrow> 64 word" where "sb_inodes_count b = le_get 8 b 24"
definition sb_free_blocks :: "block \<Rightarrow> 64 word" where "sb_free_blocks b = le_get 8 b 32"
definition sb_journal :: "block \<Rightarrow> 64 word" where "sb_journal b = le_get 8 b 40"

definition set_sb_inodes_count :: "64 word \<Rightarrow> block \<Rightarrow> block" where
  "set_sb_inodes_count w b = le_put 8 b 24 w"
definition set_sb_free_blocks :: "64 word \<Rightarrow> block \<Rightarrow> block" where
  "set_sb_free_blocks w b = le_put 8 b 32 w"
definition set_sb_journal :: "64 word \<Rightarrow> block \<Rightarrow> block" where
  "set_sb_journal w b = le_put 8 b 40 w"

definition sizeof_super_block :: nat where "sizeof_super_block = 4096"

record dadfs_super_block =
  version :: "64 word"
  magic :: "64 word"
  block_size :: "64 word"
  inodes_count :: "64 word"
  free_blocks :: "64 word"
  journal :: "64 word"

definition put_super_block :: "block \<Rightarrow> dadfs_super_block \<Rightarrow> block" where
  "put_super_block b sb =
     le_put 8 (le_put 8 (le_put 8 (le_put 8 (le_put 8 (le_put 8 b
       0 (version sb)) 8 (magic sb)) 16 (block_size sb)) 24 (inodes_count sb))
       32 (free_blocks sb)) 40 (journal sb)"

lemmas sb_field_defs = sb_version_def sb_magic_def sb_block_size_def sb_inodes_count_def
  sb_free_blocks_def sb_journal_def set_sb_inodes_count_def set_sb_free_blocks_def
  set_sb_journal_def

lemma sb_fields_set [heap_simps]:
  "sb_version (set_sb_inodes_count w b) = sb_version b"
  "sb_magic (set_sb_inodes_count w b) = sb_magic b"
  "sb_block_size (set_sb_inodes_count w b) = sb_block_size b"
  "sb_inodes_count (set_sb_inodes_count w b) = w"
  "sb_free_blocks (set_sb_inodes_count w b) = sb_free_blocks b"
  "sb_journal (set_sb_inodes_count w b) = sb_journal b"
  "sb_version (set_sb_free_blocks w b) = sb_version b"
  "sb_magic (set_sb_free_blocks w b) = sb_magic b"
  "sb_block_size (set_sb_free_blocks w b) = sb_block_size b"
  "sb_inodes_count (set_sb_free_blocks w b) = sb_inodes_count b"
  "sb_free_blocks (set_sb_free_blocks w b) = w"
  "sb_journal (set_sb_free_blocks w b) = sb_journal b"
  "sb_version (set_sb_journal w b) = sb_version b"
  "sb_magic (set_sb_journal w b) = sb_magic b"
  "sb_block_size (set_sb_journal w b) = sb_block_size b"
  "sb_inodes_count (set_sb_journal w b) = sb_inodes_count b"
  "sb_free_blocks (set_sb_journal w b) = sb_free_blocks b"
  "sb_journal (set_sb_journal w b) = w"
  by (simp_all add: sb_field_defs heap_simps)

lemma sb_fields_put [heap_simps]:
  "sb_version (put_super_block b sb) = version sb"
  "sb_magic (put_super_block b sb) = magic sb"
  "sb_block_size (put_super_block b sb) = block_size sb"
  "sb_inodes_count (put_super_block b sb) = inodes_count sb"
  "sb_free_blocks (put_super_block b sb) = free_blocks sb"
  "sb_journal (put_super_block b sb) = journal sb"
  by (simp_all add: sb_field_defs put_super_block_def heap_simps)

section \<open>Arrays of slots\<close>

text \<open>
  The interface of a block used as an array of C structures. The client lemmas speak of
  the first \<open>n\<close> slots as a list.
\<close>

locale slot_array =
  fixes get_slot :: "'b \<Rightarrow> nat \<Rightarrow> 'r"
    and put_slot :: "'b \<Rightarrow> nat \<Rightarrow> 'r \<Rightarrow> 'b"
    and valid_slot :: "'r \<Rightarrow> bool"
  assumes get_put_same: "valid_slot r \<Longrightarrow> get_slot (put_slot b i r) i = r"
    and get_put_other: "valid_slot r \<Longrightarrow> i \<noteq> j \<Longrightarrow> get_slot (put_slot b i r) j = get_slot b j"
begin

lemma slots_append:
  "valid_slot r \<Longrightarrow>
   map (get_slot (put_slot b n r)) [0..<Suc n] = map (get_slot b) [0..<n] @ [r]"
  by (auto simp: get_put_same get_put_other)

lemma slots_update:
  "valid_slot r \<Longrightarrow> k < n \<Longrightarrow>
   map (get_slot (put_slot b k r)) [0..<n] = (map (get_slot b) [0..<n])[k := r]"
  by (rule nth_equalityI) (auto simp: get_put_same get_put_other nth_list_update)

lemma slots_beyond:
  "valid_slot r \<Longrightarrow> n \<le> k \<Longrightarrow>
   map (get_slot (put_slot b k r)) [0..<n] = map (get_slot b) [0..<n]"
  by (auto simp: get_put_other)

end

section \<open>The inode store\<close>

text \<open>
  \<open>struct dadfs_inode\<close>: the mode (4 bytes and 4 of padding), the inode number, the data
  block number, and the union of \<open>file_size\<close> and \<open>dir_children_count\<close>, 32 bytes in
  all. The union is one field, read as either.
\<close>

record dadfs_inode =
  mode :: "32 word"
  inode_no :: "64 word"
  data_block_number :: "64 word"
  size_or_children :: "64 word"

definition file_size :: "dadfs_inode \<Rightarrow> 64 word" where
  "file_size i = size_or_children i"

definition dir_children_count :: "dadfs_inode \<Rightarrow> 64 word" where
  "dir_children_count i = size_or_children i"

definition sizeof_inode :: nat where "sizeof_inode = 32"

definition inode_at :: "block \<Rightarrow> nat \<Rightarrow> dadfs_inode" where
  "inode_at b i =
     \<lparr>mode = ucast (le_get 4 b (32 * i)), inode_no = le_get 8 b (32 * i + 8),
      data_block_number = le_get 8 b (32 * i + 16), size_or_children = le_get 8 b (32 * i + 24)\<rparr>"

definition put_inode :: "block \<Rightarrow> nat \<Rightarrow> dadfs_inode \<Rightarrow> block" where
  "put_inode b i ino =
     le_put 8 (le_put 8 (le_put 8 (le_put 4 b (32 * i) (ucast (mode ino)))
       (32 * i + 8) (inode_no ino)) (32 * i + 16) (data_block_number ino))
       (32 * i + 24) (size_or_children ino)"

lemma inode_at_put_same: "inode_at (put_inode b i ino) i = ino"
  by (simp add: inode_at_def put_inode_def heap_simps)

lemma inode_at_put_other:
  assumes "i \<noteq> j"
  shows "inode_at (put_inode b i ino) j = inode_at b j"
proof -
  from assms have "32 * j + 32 \<le> 32 * i \<or> 32 * i + 32 \<le> 32 * j" by linarith
  then show ?thesis by (auto simp: inode_at_def put_inode_def heap_simps)
qed

lemma inode_at_shift:
  assumes "\<And>x. x < 32 \<Longrightarrow> b (32 * i + x) = b' (32 * j + x)"
  shows "inode_at b i = inode_at b' j"
proof -
  have "le_get k b (32 * i + o') = le_get k b' (32 * j + o')" if "o' + k \<le> 32" for k o'
    using assms [of "o' + x" for x] that by (intro le_get_shift) (simp add: add.assoc)
  from this [of 0 4] this [of 8 8] this [of 16 8] this [of 24 8] show ?thesis
    by (simp add: inode_at_def)
qed

interpretation inodes: slot_array inode_at put_inode "\<lambda>_. True"
  by unfold_locales (simp_all add: inode_at_put_same inode_at_put_other)

section \<open>Directory blocks\<close>

text \<open>
  \<open>struct dadfs_dir_record\<close>: \<open>char filename[255]\<close>, one byte of padding and the inode
  number, 264 bytes in all, so 15 records fit a block. \<open>strcpy\<close> writes the name and its
  terminating zero; \<open>strcmp\<close> reads up to the first difference or zero. A name of 255
  bytes puts its terminating zero in the padding byte.
\<close>

record dadfs_dir_record =
  filename :: "byte list"
  rec_inode_no :: "64 word"

definition sizeof_dir_record :: nat where "sizeof_dir_record = 264"

definition valid_name :: "byte list \<Rightarrow> bool" where
  "valid_name nm \<longleftrightarrow> length nm \<le> 255 \<and> 0 \<notin> set nm"

fun strcmp0 :: "block \<Rightarrow> nat \<Rightarrow> byte list \<Rightarrow> bool" where
  "strcmp0 b off [] \<longleftrightarrow> b off = 0"
| "strcmp0 b off (c # cs) \<longleftrightarrow> b off = c \<and> strcmp0 b (Suc off) cs"

definition rec_name_at :: "block \<Rightarrow> nat \<Rightarrow> byte list" where
  "rec_name_at b i = takeWhile (\<lambda>c. c \<noteq> 0) (get_bytes b (264 * i) 256)"

definition rec_ino_at :: "block \<Rightarrow> nat \<Rightarrow> 64 word" where
  "rec_ino_at b i = le_get 8 b (264 * i + 256)"

definition dir_record_at :: "block \<Rightarrow> nat \<Rightarrow> dadfs_dir_record" where
  "dir_record_at b i = \<lparr>filename = rec_name_at b i, rec_inode_no = rec_ino_at b i\<rparr>"

text \<open>The two assignments of \<open>dadfs_create_fs_object\<close> to the record: number, then name.\<close>

definition put_dir_record :: "block \<Rightarrow> nat \<Rightarrow> dadfs_dir_record \<Rightarrow> block" where
  "put_dir_record b i r =
     put_bytes (le_put 8 b (264 * i + 256) (rec_inode_no r)) (264 * i) (filename r @ [0])"

lemma strcmp0_iff:
  "strcmp0 b off nm \<longleftrightarrow> get_bytes b off (length nm) = nm \<and> b (off + length nm) = 0"
proof (induction nm arbitrary: off)
  case Nil
  then show ?case by (simp add: get_bytes_def)
next
  case (Cons c cs)
  have "get_bytes b off (length (c # cs)) = b off # get_bytes b (Suc off) (length cs)"
    by (simp add: get_bytes_def upt_conv_Cons map_Suc_upt [symmetric] comp_def del: upt_Suc)
  with Cons show ?case by auto
qed

lemma get_bytes_split:
  "k \<le> n \<Longrightarrow> get_bytes b off n = get_bytes b off k @ get_bytes b (off + k) (n - k)"
  by (rule nth_equalityI) (auto simp: get_bytes_def nth_append)

lemma takeWhile_zero:
  assumes "0 \<notin> set nm" and "length nm < n" and "get_bytes b off (length nm) = nm"
    and "b (off + length nm) = 0"
  shows "takeWhile (\<lambda>c. c \<noteq> 0) (get_bytes b off n) = nm"
proof -
  have "get_bytes b off n = nm @ get_bytes b (off + length nm) (n - length nm)"
    using assms get_bytes_split [of "length nm" n b off] by simp
  moreover have "takeWhile (\<lambda>c. c \<noteq> 0) (get_bytes b (off + length nm) (n - length nm)) = []"
    using assms by (simp add: get_bytes_def upt_conv_Cons takeWhile_eq_Nil_iff)
  moreover have "takeWhile (\<lambda>c. c \<noteq> 0) nm = nm"
    using assms(1) by (auto simp: takeWhile_eq_all_conv)
  ultimately show ?thesis
    using assms(1) by (auto simp: takeWhile_append2)
qed

text \<open>On a name the kernel can pass, \<open>strcmp\<close> compares with the record's name.\<close>

lemma strcmp0_rec_name:
  assumes "valid_name nm"
  shows "strcmp0 b (264 * i) nm \<longleftrightarrow> rec_name_at b i = nm"
proof
  assume "strcmp0 b (264 * i) nm"
  with assms show "rec_name_at b i = nm"
    by (auto simp: strcmp0_iff rec_name_at_def valid_name_def intro!: takeWhile_zero)
next
  assume eq: "rec_name_at b i = nm"
  let ?bs = "get_bytes b (264 * i) 256"
  have len: "length nm < length ?bs"
    using assms by (simp add: valid_name_def get_bytes_def)
  have pre: "take (length nm) ?bs = nm"
    using eq unfolding rec_name_at_def by (metis takeWhile_eq_take)
  have "?bs ! length nm = 0"
    using len eq unfolding rec_name_at_def by (metis (mono_tags, lifting) nth_length_takeWhile)
  then have "b (264 * i + length nm) = 0"
    using len by (simp add: get_bytes_def)
  moreover have "get_bytes b (264 * i) (length nm) = nm"
    using pre len get_bytes_split [of "length nm" 256 b "264 * i"] by (simp add: get_bytes_def)
  ultimately show "strcmp0 b (264 * i) nm" by (simp add: strcmp0_iff)
qed

lemma dir_record_at_put_same:
  assumes "valid_name (filename r)"
  shows "dir_record_at (put_dir_record b i r) i = r"
proof -
  let ?b = "put_dir_record b i r"
  have "strcmp0 ?b (264 * i) (filename r)"
    by (simp add: strcmp0_iff put_dir_record_def) (simp add: put_bytes_def)
  with assms have "rec_name_at ?b i = filename r" by (simp add: strcmp0_rec_name)
  moreover have "rec_ino_at ?b i = rec_inode_no r"
    using assms by (simp add: rec_ino_at_def put_dir_record_def heap_simps valid_name_def)
  ultimately show ?thesis by (simp add: dir_record_at_def)
qed

lemma dir_record_at_put_other:
  assumes "valid_name (filename r)" and "i \<noteq> j"
  shows "dir_record_at (put_dir_record b i r) j = dir_record_at b j"
proof -
  from assms(2) have far: "264 * j + 264 \<le> 264 * i \<or> 264 * i + 264 \<le> 264 * j" by linarith
  from assms(1) have len: "length (filename r) \<le> 255" by (simp add: valid_name_def)
  have "get_bytes (put_dir_record b i r) (264 * j) 256 = get_bytes b (264 * j) 256"
    using far len by (auto simp: get_bytes_def put_dir_record_def heap_simps)
  moreover have "rec_ino_at (put_dir_record b i r) j = rec_ino_at b j"
    using far len by (auto simp: rec_ino_at_def put_dir_record_def heap_simps)
  ultimately show ?thesis by (simp add: dir_record_at_def rec_name_at_def)
qed

lemma dir_record_at_shift:
  assumes "\<And>x. x < 264 \<Longrightarrow> b (264 * i + x) = b' (264 * j + x)"
  shows "dir_record_at b i = dir_record_at b' j"
proof -
  have "le_get 8 b (264 * i + 256) = le_get 8 b' (264 * j + 256)"
    using assms [of "256 + x" for x] by (intro le_get_shift) (simp add: add.assoc)
  moreover have "get_bytes b (264 * i) 256 = get_bytes b' (264 * j) 256"
    using assms by (auto simp: get_bytes_def)
  ultimately show ?thesis by (simp add: dir_record_at_def rec_name_at_def rec_ino_at_def)
qed

interpretation dirents: slot_array dir_record_at put_dir_record "\<lambda>r. valid_name (filename r)"
  by unfold_locales (simp_all add: dir_record_at_put_same dir_record_at_put_other)

section \<open>File types\<close>

definition S_IFMT :: "32 word" where "S_IFMT = 0xF000"
definition S_IFDIR :: "32 word" where "S_IFDIR = 0x4000"
definition S_IFREG :: "32 word" where "S_IFREG = 0x8000"
definition S_IFBLK :: "32 word" where "S_IFBLK = 0x6000"

definition S_ISDIR :: "32 word \<Rightarrow> bool" where "S_ISDIR m \<longleftrightarrow> m AND S_IFMT = S_IFDIR"
definition S_ISREG :: "32 word \<Rightarrow> bool" where "S_ISREG m \<longleftrightarrow> m AND S_IFMT = S_IFREG"
definition S_ISBLK :: "32 word \<Rightarrow> bool" where "S_ISBLK m \<longleftrightarrow> m AND S_IFMT = S_IFBLK"

end
