(* ===== verification/Dadfs_Core.thy ===== *)
theory Dadfs_Core
  imports Dadfs_Layout
begin

unbundle bit_operations_syntax

text \<open>
  The core of the dadfs kernel module (\<open>Lab/Lab 7/dadfs/base.c\<close>): the super block, the
  free-block map and the inode store.

  The state \<open>kfs\<close> holds the buffer cache (the contents every \<open>sb_bread\<close> of a block
  returns), the dirty flags, the contents on the device, and which of the module's three
  mutexes are held. \<open>DADFS_SB\<close> is the buffer of block 0, as in the module, which stores the
  pointer to that buffer in \<open>s_fs_info\<close>.

  The Linux functions the module calls are not part of the repository. Their results are
  oracles in the environment \<open>kenv\<close>: the n-th call made since the state's \<open>tick\<close> was 0 asks
  the oracle at n, so every sequence of results is covered by some environment. \<open>Inl\<close> is a
  run that leaves the defined behaviour of the code: a \<open>BUG_ON\<close>, a null dereference, an
  access outside a 4096-byte block, a shift by 32 or more, a lock taken twice, or the unlock
  of a mutex that is not held.
\<close>

section \<open>Errors, locks, environment, state\<close>

datatype fault = Bug_on | Null_deref | Out_of_bounds | Undefined_shift | Uninitialised
  | Self_deadlock | Bad_unlock

definition EPERM :: int where "EPERM = 1"
definition EINTR :: int where "EINTR = 4"
definition EIO :: int where "EIO = 5"
definition ENOMEM :: int where "ENOMEM = 12"
definition EFAULT :: int where "EFAULT = 14"
definition ENOTDIR :: int where "ENOTDIR = 20"
definition EINVAL :: int where "EINVAL = 22"
definition ENOSPC :: int where "ENOSPC = 28"

lemmas errno_defs = EPERM_def EINTR_def EIO_def ENOMEM_def EFAULT_def ENOTDIR_def EINVAL_def
  ENOSPC_def

datatype lock = Sb_lock | Inodes_mgmt_lock | Directory_children_update_lock

record kenv =
  interrupted :: "nat \<Rightarrow> bool"
  bread_fails :: "nat \<Rightarrow> nat \<Rightarrow> bool"
  new_inode_fails :: "nat \<Rightarrow> bool"
  kmem_fails :: "nat \<Rightarrow> bool"
  user_fault :: "nat \<Rightarrow> bool"

record kfs =
  bcache :: "nat \<Rightarrow> block"
  bdirty :: "nat \<Rightarrow> bool"
  disk :: "nat \<Rightarrow> block"
  held :: "lock \<Rightarrow> bool"
  tick :: nat

section \<open>The kernel services the module calls\<close>

definition mutex_lock_interruptible ::
  "('e kenv_scheme) \<Rightarrow> lock \<Rightarrow> kfs \<Rightarrow> fault + (bool \<times> kfs)" where
  "mutex_lock_interruptible e l s =
     (let s' = s\<lparr>tick := Suc (tick s)\<rparr> in
      if interrupted e (tick s) then Inr (True, s')
      else if held s l then Inl Self_deadlock
      else Inr (False, s'\<lparr>held := (held s)(l := True)\<rparr>))"

definition mutex_unlock :: "lock \<Rightarrow> kfs \<Rightarrow> fault + kfs" where
  "mutex_unlock l s =
     (if held s l then Inr (s\<lparr>held := (held s)(l := False)\<rparr>) else Inl Bad_unlock)"

text \<open>\<open>sb_bread\<close> gives the buffer of block \<open>n\<close> (identified with \<open>n\<close>) or null.\<close>

definition sb_bread :: "('e kenv_scheme) \<Rightarrow> nat \<Rightarrow> kfs \<Rightarrow> nat option \<times> kfs" where
  "sb_bread e n s =
     (if bread_fails e (tick s) n then None else Some n, s\<lparr>tick := Suc (tick s)\<rparr>)"

text \<open>\<open>sb_bread\<close> followed by \<open>BUG_ON(!bh)\<close>.\<close>

definition sb_bread_or_bug :: "('e kenv_scheme) \<Rightarrow> nat \<Rightarrow> kfs \<Rightarrow> fault + kfs" where
  "sb_bread_or_bug e n s =
     (case sb_bread e n s of (None, s') \<Rightarrow> Inl Bug_on | (Some _, s') \<Rightarrow> Inr s')"

definition mark_buffer_dirty :: "nat \<Rightarrow> kfs \<Rightarrow> kfs" where
  "mark_buffer_dirty n s = s\<lparr>bdirty := (bdirty s)(n := True)\<rparr>"

definition sync_dirty_buffer :: "nat \<Rightarrow> kfs \<Rightarrow> kfs" where
  "sync_dirty_buffer n s =
     (if bdirty s n
      then s\<lparr>disk := (disk s)(n := bcache s n), bdirty := (bdirty s)(n := False)\<rparr> else s)"

definition set_buffer :: "nat \<Rightarrow> block \<Rightarrow> kfs \<Rightarrow> kfs" where
  "set_buffer n b s = s\<lparr>bcache := (bcache s)(n := b)\<rparr>"

text \<open>\<open>kmem_cache_alloc\<close> (or \<open>new_inode\<close>) whose result is dereferenced without a check.\<close>

definition kmem_alloc_used :: "('e kenv_scheme) \<Rightarrow> kfs \<Rightarrow> fault + kfs" where
  "kmem_alloc_used e s =
     (if kmem_fails e (tick s) then Inl Null_deref else Inr (s\<lparr>tick := Suc (tick s)\<rparr>))"

definition DADFS_SB :: "kfs \<Rightarrow> block" where
  "DADFS_SB s = bcache s DADFS_SUPERBLOCK_BLOCK_NUMBER"

section \<open>Super block, free blocks and inode store\<close>

definition dadfs_sb_sync :: "('e kenv_scheme) \<Rightarrow> kfs \<Rightarrow> fault + kfs" where
  "dadfs_sb_sync e s =
     bindE (sb_bread_or_bug e DADFS_SUPERBLOCK_BLOCK_NUMBER s) (\<lambda>s.
       Inr (sync_dirty_buffer DADFS_SUPERBLOCK_BLOCK_NUMBER
             (mark_buffer_dirty DADFS_SUPERBLOCK_BLOCK_NUMBER s)))"

text \<open>
  The scan of \<open>dadfs_inode_search\<close>: \<open>start\<close> is the slot number and equals \<open>count\<close>. It
  stops at a match or at slot \<open>inodes_count\<close>, which it still reads.
\<close>

function inode_search_from :: "block \<Rightarrow> nat \<Rightarrow> 64 word \<Rightarrow> nat \<Rightarrow> fault + nat" where
  "inode_search_from b n ino c =
     (if DADFS_DEFAULT_BLOCK_SIZE < sizeof_inode * Suc c then Inl Out_of_bounds
      else if inode_no (inode_at b c) \<noteq> ino \<and> c < n then inode_search_from b n ino (Suc c)
      else Inr c)"
  by pat_completeness auto
termination
  by (relation "measure (\<lambda>(b, n, ino, c). n - c)") auto

declare inode_search_from.simps [simp del]

definition dadfs_inode_search :: "kfs \<Rightarrow> block \<Rightarrow> dadfs_inode \<Rightarrow> fault + nat option" where
  "dadfs_inode_search s b search =
     bindE (inode_search_from b (unat (sb_inodes_count (DADFS_SB s))) (inode_no search) 0) (\<lambda>c.
       Inr (if inode_no (inode_at b c) = inode_no search then Some c else None))"

definition dadfs_inode_add ::
  "('e kenv_scheme) \<Rightarrow> dadfs_inode \<Rightarrow> kfs \<Rightarrow> fault + kfs" where
  "dadfs_inode_add e ino s =
     bindE (mutex_lock_interruptible e Inodes_mgmt_lock s) (\<lambda>(intr, s).
     if intr then Inr s else
     bindE (sb_bread_or_bug e DADFS_INODESTORE_BLOCK_NUMBER s) (\<lambda>s.
     bindE (mutex_lock_interruptible e Sb_lock s) (\<lambda>(intr, s).
     if intr then Inr s else
     let c = unat (sb_inodes_count (DADFS_SB s)) in
     if DADFS_DEFAULT_BLOCK_SIZE < sizeof_inode * Suc c then Inl Out_of_bounds else
     let s = set_buffer DADFS_INODESTORE_BLOCK_NUMBER
               (put_inode (bcache s DADFS_INODESTORE_BLOCK_NUMBER) c ino) s;
         s = set_buffer DADFS_SUPERBLOCK_BLOCK_NUMBER
               (set_sb_inodes_count (sb_inodes_count (DADFS_SB s) + 1) (DADFS_SB s)) s;
         s = mark_buffer_dirty DADFS_INODESTORE_BLOCK_NUMBER s
     in bindE (dadfs_sb_sync e s) (\<lambda>s.
        bindE (mutex_unlock Sb_lock s) (\<lambda>s.
        mutex_unlock Inodes_mgmt_lock s)))))"

text \<open>
  \<open>1 << i\<close> on a 32-bit \<open>int\<close>, then converted to \<open>uint64_t\<close>: sign extended at
  \<open>i = 31\<close> (GNU C), undefined from 32 on.
\<close>

definition int_shl1 :: "nat \<Rightarrow> fault + 64 word" where
  "int_shl1 i = (if i < 32 then Inr (scast (push_bit i 1 :: 32 word)) else Inl Undefined_shift)"

function freeblock_scan :: "64 word \<Rightarrow> nat \<Rightarrow> fault + nat" where
  "freeblock_scan free i =
     (if i < DADFS_MAX_FILESYSTEM_OBJECTS_SUPPORTED then
        bindE (int_shl1 i) (\<lambda>m. if free AND m \<noteq> 0 then Inr i else freeblock_scan free (Suc i))
      else Inr i)"
  by pat_completeness auto
termination
  by (relation "measure (\<lambda>(free, i). DADFS_MAX_FILESYSTEM_OBJECTS_SUPPORTED - i)") auto

declare freeblock_scan.simps [simp del]

text \<open>
  The label \<open>end:\<close> unlocks \<open>dadfs_sb_lock\<close> on every path, also on the one where taking it
  was interrupted. The result pairs the return value with the block stored to \<open>*out\<close>.
\<close>

definition dadfs_sb_get_a_freeblock ::
  "('e kenv_scheme) \<Rightarrow> kfs \<Rightarrow> fault + (int \<times> nat option \<times> kfs)" where
  "dadfs_sb_get_a_freeblock e s =
     bindE (mutex_lock_interruptible e Sb_lock s) (\<lambda>(intr, s).
     if intr then bindE (mutex_unlock Sb_lock s) (\<lambda>s. Inr (- EINTR, None, s)) else
     bindE (freeblock_scan (sb_free_blocks (DADFS_SB s)) 3) (\<lambda>i.
     if i = DADFS_MAX_FILESYSTEM_OBJECTS_SUPPORTED
     then bindE (mutex_unlock Sb_lock s) (\<lambda>s. Inr (- ENOSPC, None, s))
     else
     bindE (int_shl1 i) (\<lambda>m.
     let s = set_buffer DADFS_SUPERBLOCK_BLOCK_NUMBER
               (set_sb_free_blocks (sb_free_blocks (DADFS_SB s) AND NOT m) (DADFS_SB s)) s
     in bindE (dadfs_sb_sync e s) (\<lambda>s.
        bindE (mutex_unlock Sb_lock s) (\<lambda>s. Inr (0, Some i, s))))))"

definition dadfs_sb_get_objects_count ::
  "('e kenv_scheme) \<Rightarrow> kfs \<Rightarrow> fault + (int \<times> 64 word option \<times> kfs)" where
  "dadfs_sb_get_objects_count e s =
     bindE (mutex_lock_interruptible e Inodes_mgmt_lock s) (\<lambda>(intr, s).
     if intr then Inr (- EINTR, None, s) else
     let out = sb_inodes_count (DADFS_SB s)
     in bindE (mutex_unlock Inodes_mgmt_lock s) (\<lambda>s. Inr (0, Some out, s)))"

text \<open>
  The loop of \<open>dadfs_get_inode\<close> over the slots \<open>i, i + 1, \<dots>\<close> below \<open>inodes_count\<close>:
  the first slot with the number, if any.
\<close>

function get_inode_from :: "block \<Rightarrow> nat \<Rightarrow> 64 word \<Rightarrow> nat \<Rightarrow> fault + nat option" where
  "get_inode_from b n ino i =
     (if i < n then
        if DADFS_DEFAULT_BLOCK_SIZE < sizeof_inode * Suc i then Inl Out_of_bounds
        else if inode_no (inode_at b i) = ino then Inr (Some i)
        else get_inode_from b n ino (Suc i)
      else Inr None)"
  by pat_completeness auto
termination
  by (relation "measure (\<lambda>(b, n, ino, i). n - i)") auto

declare get_inode_from.simps [simp del]

definition dadfs_get_inode ::
  "('e kenv_scheme) \<Rightarrow> 64 word \<Rightarrow> kfs \<Rightarrow> fault + (dadfs_inode option \<times> kfs)" where
  "dadfs_get_inode e ino s =
     bindE (sb_bread_or_bug e DADFS_INODESTORE_BLOCK_NUMBER s) (\<lambda>s.
     let b = bcache s DADFS_INODESTORE_BLOCK_NUMBER in
     bindE (get_inode_from b (unat (sb_inodes_count (DADFS_SB s))) ino 0) (\<lambda>r.
     case r of
       None \<Rightarrow> Inr (None, s)
     | Some i \<Rightarrow> bindE (kmem_alloc_used e s) (\<lambda>s. Inr (Some (inode_at b i), s))))"

definition dadfs_inode_save ::
  "('e kenv_scheme) \<Rightarrow> dadfs_inode \<Rightarrow> kfs \<Rightarrow> fault + (int \<times> kfs)" where
  "dadfs_inode_save e ino s =
     bindE (sb_bread_or_bug e DADFS_INODESTORE_BLOCK_NUMBER s) (\<lambda>s.
     bindE (mutex_lock_interruptible e Sb_lock s) (\<lambda>(intr, s).
     if intr then Inr (- EINTR, s) else
     let b = bcache s DADFS_INODESTORE_BLOCK_NUMBER in
     bindE (dadfs_inode_search s b ino) (\<lambda>r.
     case r of
       Some c \<Rightarrow>
         let s = set_buffer DADFS_INODESTORE_BLOCK_NUMBER (put_inode b c ino) s;
             s = sync_dirty_buffer DADFS_INODESTORE_BLOCK_NUMBER
                   (mark_buffer_dirty DADFS_INODESTORE_BLOCK_NUMBER s)
         in bindE (mutex_unlock Sb_lock s) (\<lambda>s. Inr (0, s))
     | None \<Rightarrow> bindE (mutex_unlock Sb_lock s) (\<lambda>s. Inr (- EIO, s)))))"

section \<open>The abstract view\<close>

text \<open>
  What the core promises is stated on lists: the inode store is the list of the first
  \<open>inodes_count\<close> slots, the free map the set of bits. \<open>quiet e\<close> says that no kernel
  service fails and no signal arrives; \<open>unlocked\<close> that no mutex of the module is held.
\<close>

definition inode_list :: "kfs \<Rightarrow> dadfs_inode list" where
  "inode_list s = map (inode_at (bcache s DADFS_INODESTORE_BLOCK_NUMBER))
                    [0..<unat (sb_inodes_count (DADFS_SB s))]"

definition quiet :: "('e kenv_scheme) \<Rightarrow> bool" where
  "quiet e \<longleftrightarrow> (\<forall>t. \<not> interrupted e t \<and> \<not> new_inode_fails e t \<and> \<not> kmem_fails e t \<and>
                  \<not> user_fault e t \<and> (\<forall>n. \<not> bread_fails e t n))"

definition unlocked :: "kfs \<Rightarrow> bool" where
  "unlocked s \<longleftrightarrow> (\<forall>l. \<not> held s l)"

abbreviation tick1 :: "kfs \<Rightarrow> kfs" where
  "tick1 s \<equiv> s\<lparr>tick := Suc (tick s)\<rparr>"

lemma quiet_lock [step_simps]:
  "quiet e \<Longrightarrow> \<not> held s l \<Longrightarrow>
   mutex_lock_interruptible e l s = Inr (False, (tick1 s)\<lparr>held := (held s)(l := True)\<rparr>)"
  by (simp add: mutex_lock_interruptible_def quiet_def)

lemma quiet_bread [step_simps]: "quiet e \<Longrightarrow> sb_bread_or_bug e n s = Inr (tick1 s)"
  by (simp add: sb_bread_or_bug_def sb_bread_def quiet_def)

lemma quiet_kmem [step_simps]: "quiet e \<Longrightarrow> kmem_alloc_used e s = Inr (tick1 s)"
  by (simp add: kmem_alloc_used_def quiet_def)

lemma unlock_held [step_simps]:
  "held s l \<Longrightarrow> mutex_unlock l s = Inr (s\<lparr>held := (held s)(l := False)\<rparr>)"
  by (simp add: mutex_unlock_def)

lemma quiet_sb_sync [step_simps]:
  "quiet e \<Longrightarrow> dadfs_sb_sync e s =
     Inr ((tick1 s)\<lparr>disk := (disk s)(0 := bcache s 0), bdirty := (bdirty s)(0 := False)\<rparr>)"
  by (simp add: dadfs_sb_sync_def step_simps mark_buffer_dirty_def sync_dirty_buffer_def
      dadfs_consts)

lemma bcache_set_buffer [simp]: "bcache (set_buffer n b s) = (bcache s)(n := b)"
  by (simp add: set_buffer_def)

lemma set_buffer_simps [simp]:
  "disk (set_buffer n b s) = disk s" "bdirty (set_buffer n b s) = bdirty s"
  "held (set_buffer n b s) = held s" "tick (set_buffer n b s) = tick s"
  by (simp_all add: set_buffer_def)

lemma DADFS_SB_simps [simp]:
  "DADFS_SB (s\<lparr>tick := t\<rparr>) = DADFS_SB s"
  "DADFS_SB (s\<lparr>held := h\<rparr>) = DADFS_SB s"
  "DADFS_SB (s\<lparr>bdirty := d\<rparr>) = DADFS_SB s"
  "DADFS_SB (s\<lparr>disk := k\<rparr>) = DADFS_SB s"
  by (simp_all add: DADFS_SB_def)

lemma inode_list_simps [simp]:
  "inode_list (s\<lparr>tick := t\<rparr>) = inode_list s"
  "inode_list (s\<lparr>held := h\<rparr>) = inode_list s"
  "inode_list (s\<lparr>bdirty := d\<rparr>) = inode_list s"
  "inode_list (s\<lparr>disk := k\<rparr>) = inode_list s"
  by (simp_all add: inode_list_def)

section \<open>The inode store\<close>

lemma get_inode_from_find:
  "n \<le> 128 \<Longrightarrow>
   get_inode_from b n ino i = Inr (find (\<lambda>j. inode_no (inode_at b j) = ino) [i..<n])"
proof (induction b n ino i rule: get_inode_from.induct)
  case (1 b n ino i)
  then show ?case
    by (auto simp: get_inode_from.simps [of b n ino i] find_upt_Cons sizeof_inode_def dadfs_consts)
qed

lemma inode_search_from_find:
  "n < 128 \<Longrightarrow> c \<le> n \<Longrightarrow>
   inode_search_from b n ino c =
     Inr (case find (\<lambda>j. inode_no (inode_at b j) = ino) [c..<n] of Some j \<Rightarrow> j | None \<Rightarrow> n)"
proof (induction b n ino c rule: inode_search_from.induct)
  case (1 b n ino c)
  show ?case
  proof (cases "c < n")
    case True
    with 1 show ?thesis
      by (auto simp: inode_search_from.simps [of b n ino c] find_upt_Cons sizeof_inode_def
          dadfs_consts)
  next
    case False
    with 1 have "c = n" by simp
    with 1 show ?thesis
      by (simp add: inode_search_from.simps [of b n ino n] sizeof_inode_def dadfs_consts)
  qed
qed

text \<open>
  \<open>dadfs_get_inode\<close> is a linear search of the store: the first inode with the number.
\<close>

lemma get_inode_refines:
  assumes "quiet e" and "unat (sb_inodes_count (DADFS_SB s)) \<le> 128"
  shows "\<exists>t. dadfs_get_inode e ino s =
              Inr (find (\<lambda>i. inode_no i = ino) (inode_list s), s\<lparr>tick := t\<rparr>)"
proof -
  let ?b = "bcache s DADFS_INODESTORE_BLOCK_NUMBER"
  let ?n = "unat (sb_inodes_count (DADFS_SB s))"
  have "get_inode_from ?b ?n ino 0 = Inr (find (\<lambda>j. inode_no (inode_at ?b j) = ino) [0..<?n])"
    using assms(2) by (rule get_inode_from_find)
  then show ?thesis
    using assms(1)
    by (cases "find (\<lambda>j. inode_no (inode_at ?b j) = ino) [0..<?n]")
      (auto simp: dadfs_get_inode_def step_simps inode_list_def find_map)
qed

text \<open>\<open>dadfs_inode_add\<close> appends to the store and writes the super block through.\<close>

lemma quiet_inode_add [step_simps]:
  assumes "quiet e" and "\<not> held s Sb_lock" and "\<not> held s Inodes_mgmt_lock"
    and "unat (sb_inodes_count (DADFS_SB s)) < 128"
  shows "dadfs_inode_add e ino s =
    (let n = sb_inodes_count (DADFS_SB s); sb = set_sb_inodes_count (n + 1) (bcache s 0) in
     Inr (s\<lparr>bcache := (bcache s)(1 := put_inode (bcache s 1) (unat n) ino, 0 := sb),
           bdirty := (bdirty s)(1 := True, 0 := False), disk := (disk s)(0 := sb),
           tick := tick s + 4\<rparr>))"
  using assms
  by (simp add: dadfs_inode_add_def step_simps Let_def dadfs_consts sizeof_inode_def
      mark_buffer_dirty_def set_buffer_def DADFS_SB_def fun_upd_twist fun_upd_idem)

lemma inode_list_add:
  assumes "bcache s' 1 = put_inode (bcache s 1) (unat (sb_inodes_count (DADFS_SB s))) ino"
    and "sb_inodes_count (DADFS_SB s') = sb_inodes_count (DADFS_SB s) + 1"
    and "unat (sb_inodes_count (DADFS_SB s)) < 128"
  shows "inode_list s' = inode_list s @ [ino]"
proof -
  have "unat (sb_inodes_count (DADFS_SB s) + 1) = Suc (unat (sb_inodes_count (DADFS_SB s)))"
    using assms(3) by (simp add: unat_word_ariths)
  with assms(1,2) show ?thesis
    using inodes.slots_append [where b = "bcache s 1" and r = ino]
    by (simp add: inode_list_def dadfs_consts)
qed

text \<open>
  \<open>dadfs_inode_save\<close> overwrites the first inode with the same number and writes the store
  through; the inode is looked for in one slot more than the store has.
\<close>

lemma inode_search_found:
  assumes "unat (sb_inodes_count (DADFS_SB s)) < 128"
    and "find (\<lambda>j. inode_no (inode_at b j) = inode_no ino)
           [0..<unat (sb_inodes_count (DADFS_SB s))] = Some k"
  shows "dadfs_inode_search s b ino = Inr (Some k)"
  using assms find_upt_SomeD(3) [OF assms(2)]
  by (simp add: dadfs_inode_search_def inode_search_from_find)

lemma quiet_inode_save [step_simps]:
  assumes "quiet e" and "\<not> held s Sb_lock" and "unat (sb_inodes_count (DADFS_SB s)) < 128"
    and "find (\<lambda>j. inode_no (inode_at (bcache s 1) j) = inode_no ino)
           [0..<unat (sb_inodes_count (DADFS_SB s))] = Some k"
  shows "dadfs_inode_save e ino s =
    Inr (0, s\<lparr>bcache := (bcache s)(1 := put_inode (bcache s 1) k ino),
              bdirty := (bdirty s)(1 := False),
              disk := (disk s)(1 := put_inode (bcache s 1) k ino), tick := tick s + 2\<rparr>)"
proof -
  define s1 where "s1 = s\<lparr>tick := tick s + 2, held := (held s)(Sb_lock := True)\<rparr>"
  have "dadfs_inode_search s1 (bcache s 1) ino = Inr (Some k)"
    using assms(3,4) by (intro inode_search_found) (simp_all add: s1_def)
  then show ?thesis
    using assms(1,2)
    by (simp add: dadfs_inode_save_def step_simps Let_def dadfs_consts set_buffer_def
        mark_buffer_dirty_def sync_dirty_buffer_def fun_upd_idem s1_def)
qed

lemma inode_list_save:
  assumes "bcache s' 1 = put_inode (bcache s 1) k ino" and "bcache s' 0 = bcache s 0"
    and "k < unat (sb_inodes_count (DADFS_SB s))"
  shows "inode_list s' = (inode_list s)[k := ino]"
  using assms inodes.slots_update [where b = "bcache s 1" and k = k and r = ino]
  by (simp add: inode_list_def dadfs_consts DADFS_SB_def)

section \<open>The free-block map\<close>

definition shl1 :: "nat \<Rightarrow> 64 word" where
  "shl1 i = scast (push_bit i 1 :: 32 word)"

lemma freeblock_scan_find:
  "i \<le> 32 \<Longrightarrow> freeblock_scan free i =
     (case find (\<lambda>j. free AND shl1 j \<noteq> 0) [i..<32] of
        Some j \<Rightarrow> Inr j | None \<Rightarrow> Inl Undefined_shift)"
proof (induction free i rule: freeblock_scan.induct)
  case (1 free i)
  show ?case
  proof (cases "i < 32")
    case True
    with 1 show ?thesis
      by (auto simp: freeblock_scan.simps [of free i] find_upt_Cons int_shl1_def shl1_def
          dadfs_consts)
  next
    case False
    with 1 have "i = 32" by simp
    with 1 show ?thesis
      by (simp add: freeblock_scan.simps [of free 32] int_shl1_def dadfs_consts)
  qed
qed

lemma shl1_low: "i < 31 \<Longrightarrow> shl1 i = push_bit i 1"
  by (rule bit_eqI) (auto simp: shl1_def bit_simps)

lemma free_and_shl1: "i < 31 \<Longrightarrow> free AND shl1 i \<noteq> 0 \<longleftrightarrow> bit free i"
  by (simp add: shl1_low and_exp_eq_0_iff_not_bit)

lemma free_and_not_shl1: "i < 31 \<Longrightarrow> free AND NOT (shl1 i) = unset_bit i free"
  by (simp add: shl1_low unset_bit_eq_and_not)

lemma shl1_31: "shl1 31 = NOT (mask 31)"
  by (simp add: shl1_def mask_eq_exp_minus_1)

text \<open>
  With a free block below 31, the allocator returns the lowest free block from 3 on, takes
  exactly its bit out of the map and writes the super block through.
\<close>

lemma quiet_get_a_freeblock [step_simps]:
  assumes "quiet e" and "\<not> held s Sb_lock" and "3 \<le> k" and "k < 31"
    and "bit (sb_free_blocks (DADFS_SB s)) k"
    and "\<And>j. 3 \<le> j \<Longrightarrow> j < k \<Longrightarrow> \<not> bit (sb_free_blocks (DADFS_SB s)) j"
  shows "dadfs_sb_get_a_freeblock e s =
    (let sb = set_sb_free_blocks (unset_bit k (sb_free_blocks (DADFS_SB s))) (bcache s 0) in
     Inr (0, Some k, s\<lparr>bcache := (bcache s)(0 := sb), bdirty := (bdirty s)(0 := False),
                       disk := (disk s)(0 := sb), tick := tick s + 2\<rparr>))"
proof -
  let ?free = "sb_free_blocks (DADFS_SB s)"
  have "find (\<lambda>j. ?free AND shl1 j \<noteq> 0) [3..<32] = Some k"
    using assms(3-6) by (intro find_upt_SomeI) (auto simp: free_and_shl1)
  then have "freeblock_scan ?free 3 = Inr k"
    by (simp add: freeblock_scan_find)
  moreover have "int_shl1 k = Inr (shl1 k)"
    using assms(4) by (simp add: int_shl1_def shl1_def)
  ultimately show ?thesis
    using assms(1,2,4)
    by (simp add: dadfs_sb_get_a_freeblock_def step_simps Let_def dadfs_consts set_buffer_def
        DADFS_SB_def fun_upd_idem free_and_not_shl1)
qed

lemma freeblock_scan_3:
  assumes "freeblock_scan free 3 = Inr i"
  shows "3 \<le> i \<and> i < 32"
proof -
  let ?f = "find (\<lambda>j. free AND shl1 j \<noteq> 0) [3..<32]"
  have scan: "freeblock_scan free 3 = (case ?f of Some j \<Rightarrow> Inr j | None \<Rightarrow> Inl Undefined_shift)"
    by (rule freeblock_scan_find) simp
  obtain j where j: "?f = Some j" "j = i"
    using assms unfolding scan by (cases ?f) simp_all
  from find_upt_SomeD(1,2) [OF j(1)] j(2) show ?thesis by simp
qed

lemma freeblock_scan_exhausted:
  assumes "\<And>i. 3 \<le> i \<Longrightarrow> \<not> bit free i"
  shows "freeblock_scan free 3 = Inl Undefined_shift"
proof -
  have "free AND shl1 31 = 0"
  proof (rule bit_eqI)
    fix n
    show "bit (free AND shl1 31) n \<longleftrightarrow> bit (0 :: 64 word) n"
      using assms [of n] by (cases "3 \<le> n") (auto simp: shl1_31 bit_simps)
  qed
  moreover have "free AND shl1 j = 0" if "3 \<le> j" "j < 31" for j
    using that assms [of j] free_and_shl1 [of j free] by blast
  ultimately have "free AND shl1 j = 0" if "3 \<le> j" "j < 32" for j
    using that by (cases "j = 31") auto
  then have "find (\<lambda>j. free AND shl1 j \<noteq> 0) [3..<32] = None"
    by (simp add: find_upt_None)
  then show ?thesis by (simp add: freeblock_scan_find)
qed

section \<open>An example file system\<close>

text \<open>
  The contents \<open>mkfs-dadfs\<close> writes, as a mounted file system: the root directory
  (inode 1, block 4) with one record, the journal inode and the welcome file. The
  witnesses run the operations on it.
\<close>

definition bytes_of :: "string \<Rightarrow> byte list" where
  "bytes_of cs = map of_char cs"

definition root_dir :: dadfs_inode where
  "root_dir = \<lparr>mode = S_IFDIR, inode_no = 1, data_block_number = 4, size_or_children = 1\<rparr>"

definition journal_ino :: dadfs_inode where
  "journal_ino = \<lparr>mode = 0, inode_no = 2, data_block_number = 2, size_or_children = 0\<rparr>"

definition welcome_ino :: dadfs_inode where
  "welcome_ino = \<lparr>mode = S_IFREG, inode_no = 3, data_block_number = 5, size_or_children = 40\<rparr>"

definition example_block :: "nat \<Rightarrow> block" where
  "example_block n =
     (if n = 0 then put_super_block (\<lambda>_. 0)
        \<lparr>version = 1, magic = DADFS_MAGIC, block_size = 4096, inodes_count = 3,
         free_blocks = NOT 16, journal = 0\<rparr>
      else if n = 1 then
        put_inode (put_inode (put_inode (\<lambda>_. 0) 0 root_dir) 1 journal_ino) 2 welcome_ino
      else if n = 4 then
        put_dir_record (\<lambda>_. 0) 0 \<lparr>filename = bytes_of ''awordfromdad'', rec_inode_no = 3\<rparr>
      else (\<lambda>_. 0))"

definition example_fs :: kfs where
  "example_fs = \<lparr>bcache = example_block, bdirty = (\<lambda>_. False), disk = example_block,
                 held = (\<lambda>_. False), tick = 0\<rparr>"

definition quiet_env :: kenv where
  "quiet_env = \<lparr>interrupted = (\<lambda>_. False), bread_fails = (\<lambda>_ _. False),
                new_inode_fails = (\<lambda>_. False), kmem_fails = (\<lambda>_. False),
                user_fault = (\<lambda>_. False)\<rparr>"

definition full_fs :: kfs where
  "full_fs = example_fs\<lparr>bcache := (example_block)(0 := set_sb_free_blocks 7 (example_block 0))\<rparr>"

lemma quiet_quiet_env: "quiet quiet_env"
  by (simp add: quiet_def quiet_env_def)

lemma bytes_of_simps [simp]: "length (bytes_of cs) = length cs"
  by (simp add: bytes_of_def)

lemma example_sb:
  "sb_inodes_count (DADFS_SB example_fs) = 3" "sb_free_blocks (DADFS_SB example_fs) = NOT 16"
  "sb_magic (DADFS_SB example_fs) = DADFS_MAGIC" "sb_block_size (DADFS_SB example_fs) = 4096"
  by (simp_all add: DADFS_SB_def example_fs_def example_block_def dadfs_consts heap_simps)

lemma upt_3: "[0..<3] = [0, 1, 2::nat]"
  by (simp add: upt_rec)

lemma example_inodes: "inode_list example_fs = [root_dir, journal_ino, welcome_ino]"
  by (simp add: inode_list_def example_sb upt_3)
    (simp add: example_fs_def example_block_def dadfs_consts inode_at_put_same inode_at_put_other)

section \<open>Properties\<close>

text \<open>
  The allocator takes the lowest free block. With no failing service, when some block
  from 3 to 30 is free, \<open>dadfs_sb_get_a_freeblock\<close> returns 0 with the lowest such block,
  clears exactly its bit, keeps the rest of the super block, and has the super block on the
  device when it returns.
\<close>

theorem dadfs_alloc_takes_lowest:
  assumes "quiet e" and "\<not> held s Sb_lock" and "3 \<le> k" and "k < 31"
    and "bit (sb_free_blocks (DADFS_SB s)) k"
    and "\<forall>j. 3 \<le> j \<and> j < k \<longrightarrow> \<not> bit (sb_free_blocks (DADFS_SB s)) j"
  shows "\<exists>s'. dadfs_sb_get_a_freeblock e s = Inr (0, Some k, s') \<and>
    (\<forall>i. bit (sb_free_blocks (DADFS_SB s')) i \<longleftrightarrow> bit (sb_free_blocks (DADFS_SB s)) i \<and> i \<noteq> k) \<and>
    sb_inodes_count (DADFS_SB s') = sb_inodes_count (DADFS_SB s) \<and>
    (\<forall>n. n \<noteq> 0 \<longrightarrow> bcache s' n = bcache s n) \<and> disk s' 0 = bcache s' 0 \<and> held s' = held s"
proof -
  have low: "\<not> bit (sb_free_blocks (DADFS_SB s)) j" if "3 \<le> j" "j < k" for j
    using assms(6) that by simp
  have "bit (unset_bit k w) i \<longleftrightarrow> bit w i \<and> i \<noteq> k" for i and w :: "64 word"
    by (auto simp: bit_unset_bit_iff)
  then show ?thesis
    by (simp add: quiet_get_a_freeblock [OF assms(1-5) low] Let_def)
      (simp add: DADFS_SB_def dadfs_consts heap_simps)
qed

theorem dadfs_alloc_takes_lowest_witness:
  "\<exists>s'. dadfs_sb_get_a_freeblock quiet_env example_fs = Inr (0, Some 3, s') \<and>
        disk s' 0 = bcache s' 0"
proof -
  have "\<forall>j. 3 \<le> j \<and> j < 3 \<longrightarrow> \<not> bit (sb_free_blocks (DADFS_SB example_fs)) j" by auto
  moreover have "bit (sb_free_blocks (DADFS_SB example_fs)) 3" by (simp add: example_sb)
  moreover have "\<not> held example_fs Sb_lock" by (simp add: example_fs_def)
  ultimately show ?thesis
    using dadfs_alloc_takes_lowest [OF quiet_quiet_env, of example_fs 3] by auto
qed

text \<open>
  The allocator never reports a full map. Whatever the state and the environment,
  \<open>dadfs_sb_get_a_freeblock\<close> does not return \<open>-ENOSPC\<close>: a block it returns lies
  between 3 and 31. With no bit from 3 on set the scan reaches \<open>1 << 32\<close> on an
  \<open>int\<close>, which is undefined.
\<close>

theorem dadfs_alloc_never_enospc:
  "(\<forall>ret out s'. dadfs_sb_get_a_freeblock e s = Inr (ret, out, s') \<longrightarrow>
      ret = 0 \<and> (\<exists>i. out = Some i \<and> 3 \<le> i \<and> i < 32) \<or> ret = - EINTR \<and> out = None) \<and>
   (quiet e \<and> \<not> held s Sb_lock \<and> (\<forall>i. 3 \<le> i \<longrightarrow> \<not> bit (sb_free_blocks (DADFS_SB s)) i) \<longrightarrow>
      dadfs_sb_get_a_freeblock e s = Inl Undefined_shift)"
proof (intro conjI allI impI)
  fix ret out s'
  assume "dadfs_sb_get_a_freeblock e s = Inr (ret, out, s')"
  then show "ret = 0 \<and> (\<exists>i. out = Some i \<and> 3 \<le> i \<and> i < 32) \<or> ret = - EINTR \<and> out = None"
    by (auto simp: dadfs_sb_get_a_freeblock_def bindE_convs Let_def
        DADFS_MAX_FILESYSTEM_OBJECTS_SUPPORTED_def dest!: freeblock_scan_3 split: if_splits)
next
  assume h: "quiet e \<and> \<not> held s Sb_lock \<and> (\<forall>i. 3 \<le> i \<longrightarrow> \<not> bit (sb_free_blocks (DADFS_SB s)) i)"
  then have "freeblock_scan (sb_free_blocks (DADFS_SB s)) 3 = Inl Undefined_shift"
    by (intro freeblock_scan_exhausted) simp
  with h show "dadfs_sb_get_a_freeblock e s = Inl Undefined_shift"
    by (simp add: dadfs_sb_get_a_freeblock_def step_simps)
qed

theorem dadfs_alloc_never_enospc_witness:
  "dadfs_sb_get_a_freeblock quiet_env full_fs = Inl Undefined_shift"
proof -
  have free: "sb_free_blocks (DADFS_SB full_fs) = mask 3"
    by (simp add: full_fs_def DADFS_SB_def dadfs_consts heap_simps mask_eq_exp_minus_1)
  have "\<not> held full_fs Sb_lock" by (simp add: full_fs_def example_fs_def)
  moreover have "\<forall>i. 3 \<le> i \<longrightarrow> \<not> bit (sb_free_blocks (DADFS_SB full_fs)) i"
    by (simp add: free bit_mask_iff)
  ultimately show ?thesis
    using dadfs_alloc_never_enospc [of quiet_env full_fs] quiet_quiet_env by blast
qed

text \<open>
  An interrupted allocation unlocks a mutex it does not hold. When the signal arrives
  while \<open>dadfs_sb_get_a_freeblock\<close> waits for \<open>dadfs_sb_lock\<close>, the shared exit path
  unlocks that mutex all the same.
\<close>

theorem dadfs_alloc_interrupted_unlocks:
  assumes "interrupted e (tick s)" and "\<not> held s Sb_lock"
  shows "dadfs_sb_get_a_freeblock e s = Inl Bad_unlock"
  using assms
  by (simp add: dadfs_sb_get_a_freeblock_def mutex_lock_interruptible_def mutex_unlock_def)

theorem dadfs_alloc_interrupted_unlocks_witness:
  "dadfs_sb_get_a_freeblock (quiet_env\<lparr>interrupted := (\<lambda>t. t = 0)\<rparr>) example_fs = Inl Bad_unlock"
  by (rule dadfs_alloc_interrupted_unlocks) (simp_all add: example_fs_def)

text \<open>
  An interrupted \<open>dadfs_inode_add\<close> keeps a lock. When the signal arrives at the second
  of its two locks, the function returns (it has no result to report the failure) with
  nothing stored and \<open>dadfs_inodes_mgmt_lock\<close> still held, so the next operation that takes
  this lock without a signal blocks.
\<close>

theorem dadfs_inode_add_interrupted_keeps_lock:
  assumes "\<not> interrupted e (tick s)" and "\<not> bread_fails e (Suc (tick s)) 1"
    and "interrupted e (Suc (Suc (tick s)))" and "\<not> held s Inodes_mgmt_lock"
  shows "\<exists>s'. dadfs_inode_add e ino s = Inr s' \<and> bcache s' = bcache s \<and>
    held s' Inodes_mgmt_lock \<and> (\<forall>e'. quiet e' \<longrightarrow> dadfs_inode_add e' ino' s' = Inl Self_deadlock)"
  using assms
  by (simp add: dadfs_inode_add_def mutex_lock_interruptible_def sb_bread_or_bug_def sb_bread_def
      Let_def dadfs_consts quiet_def)

theorem dadfs_inode_add_interrupted_keeps_lock_witness:
  "\<exists>s'. dadfs_inode_add (quiet_env\<lparr>interrupted := (\<lambda>t. t = 2)\<rparr>) welcome_ino example_fs = Inr s' \<and>
        dadfs_inode_add quiet_env root_dir s' = Inl Self_deadlock"
  using dadfs_inode_add_interrupted_keeps_lock
      [of "quiet_env\<lparr>interrupted := (\<lambda>t. t = 2)\<rparr>" example_fs welcome_ino root_dir] quiet_quiet_env
  by (auto simp: example_fs_def quiet_env_def)

text \<open>
  The inode store is a list. With no failing service and at most 127 inodes,
  \<open>dadfs_get_inode\<close> returns the first inode of the store with the number asked for, and
  \<open>dadfs_inode_save\<close> of an inode whose number the store has returns 0, replaces the first
  inode with that number, leaves the other inodes and the other blocks alone and has the
  store on the device.
\<close>

theorem dadfs_inode_store_refines_list:
  assumes "quiet e" and "\<not> held s Sb_lock" and "unat (sb_inodes_count (DADFS_SB s)) < 128"
    and "j < length (inode_list s)" and "inode_no (inode_list s ! j) = inode_no ino"
    and "\<forall>i < j. inode_no (inode_list s ! i) \<noteq> inode_no ino"
  shows "\<exists>t s'. dadfs_get_inode e (inode_no ino) s = Inr (Some (inode_list s ! j), s\<lparr>tick := t\<rparr>) \<and>
    dadfs_inode_save e ino s = Inr (0, s') \<and> inode_list s' = (inode_list s)[j := ino] \<and>
    (\<forall>n. n \<noteq> 1 \<longrightarrow> bcache s' n = bcache s n) \<and> disk s' 1 = bcache s' 1 \<and> held s' = held s"
proof -
  let ?n = "unat (sb_inodes_count (DADFS_SB s))"
  have len: "length (inode_list s) = ?n" by (simp add: inode_list_def)
  have nth: "inode_list s ! i = inode_at (bcache s 1) i" if "i < ?n" for i
    using that by (simp add: inode_list_def dadfs_consts)
  have slot: "find (\<lambda>i. inode_no (inode_at (bcache s 1) i) = inode_no ino) [0..<?n] = Some j"
    using assms(4-6) len nth by (intro find_upt_SomeI) (auto dest: less_trans)
  then have "find (\<lambda>i. inode_no i = inode_no ino) (inode_list s) = Some (inode_list s ! j)"
    using assms(4) len nth by (simp add: inode_list_def find_map dadfs_consts)
  then obtain t where t: "dadfs_get_inode e (inode_no ino) s = Inr (Some (inode_list s ! j), s\<lparr>tick := t\<rparr>)"
    using get_inode_refines [OF assms(1), of s "inode_no ino"] assms(3) by auto
  let ?s = "s\<lparr>bcache := (bcache s)(1 := put_inode (bcache s 1) j ino),
    bdirty := (bdirty s)(1 := False), disk := (disk s)(1 := put_inode (bcache s 1) j ino),
    tick := tick s + 2\<rparr>"
  have "inode_list ?s = (inode_list s)[j := ino]"
    using assms(4) len by (intro inode_list_save) simp_all
  with t quiet_inode_save [OF assms(1-3) slot] show ?thesis by auto
qed

theorem dadfs_inode_store_refines_list_witness:
  "\<exists>t s'. dadfs_get_inode quiet_env 3 example_fs = Inr (Some welcome_ino, example_fs\<lparr>tick := t\<rparr>) \<and>
     dadfs_inode_save quiet_env (welcome_ino\<lparr>size_or_children := 9\<rparr>) example_fs = Inr (0, s') \<and>
     inode_list s' = [root_dir, journal_ino, welcome_ino\<lparr>size_or_children := 9\<rparr>]"
proof -
  have "\<not> held example_fs Sb_lock" by (simp add: example_fs_def)
  moreover have "\<forall>i < 2. inode_no (inode_list example_fs ! i) \<noteq> inode_no welcome_ino"
    by (auto simp: example_inodes root_dir_def journal_ino_def welcome_ino_def less_2_cases_iff)
  ultimately show ?thesis
    using dadfs_inode_store_refines_list
      [OF quiet_quiet_env, of example_fs 2 "welcome_ino\<lparr>size_or_children := 9\<rparr>"]
    by (auto simp: example_sb example_inodes) (auto simp: welcome_ino_def)
qed

end
