(* ===== verification/Dadfs_Dir.thy ===== *)
theory Dadfs_Dir
  imports Dadfs_Core
begin

unbundle bit_operations_syntax

text \<open>
  Directories of dadfs: the directory operations of \<open>base.c\<close> (\<open>dadfs_iterate\<close>,
  \<open>dadfs_readdir\<close>, \<open>dadfs_create_fs_object\<close>, \<open>dadfs_mkdir\<close>, \<open>dadfs_create\<close>, \<open>dadfs_iget\<close>,
  \<open>dadfs_lookup\<close>) over the inode store of \<open>Dadfs_Core\<close>.

  A directory is passed as its in-memory \<open>struct dadfs_inode\<close> (\<open>i_private\<close> of the VFS
  inode) and returned updated. What \<open>d_add\<close> attaches to the dentry is returned as an
  optional VFS inode.
\<close>

section \<open>VFS inodes\<close>

datatype fops = Dir_operations | File_operations

record vfs_inode =
  i_ino :: "64 word"
  i_fop :: "fops option"
  i_private :: "dadfs_inode option"

section \<open>Listing a directory\<close>

text \<open>
  Every record is emitted with the full 255 bytes of its name field. A second call with
  the advanced position emits nothing.
\<close>

function dir_emit_from :: "block \<Rightarrow> nat \<Rightarrow> nat \<Rightarrow> fault + (byte list \<times> 64 word) list" where
  "dir_emit_from b n i =
     (if i < n then
        if DADFS_DEFAULT_BLOCK_SIZE < sizeof_dir_record * Suc i then Inl Out_of_bounds
        else bindE (dir_emit_from b n (Suc i)) (\<lambda>es.
          Inr ((get_bytes b (sizeof_dir_record * i) DADFS_FILENAME_MAXLEN, rec_ino_at b i) # es))
      else Inr [])"
  by pat_completeness auto
termination
  by (relation "measure (\<lambda>(b, n, i). n - i)") auto

declare dir_emit_from.simps [simp del]

definition dadfs_iterate ::
  "('e kenv_scheme) \<Rightarrow> dadfs_inode \<Rightarrow> 64 word \<Rightarrow> kfs \<Rightarrow>
   fault + (int \<times> (byte list \<times> 64 word) list \<times> 64 word \<times> kfs)" where
  "dadfs_iterate e d pos s =
     (if pos \<noteq> 0 then Inr (0, [], pos, s)
      else if \<not> S_ISDIR (mode d) then Inr (- ENOTDIR, [], pos, s)
      else
        let n = unat (data_block_number d); c = unat (dir_children_count d) in
        bindE (sb_bread_or_bug e n s) (\<lambda>s.
        bindE (dir_emit_from (bcache s n) c 0) (\<lambda>es.
        Inr (0, es, pos + of_nat (sizeof_dir_record * c), s))))"

text \<open>
  The variant for kernels before 3.11 hands each record to \<open>filldir\<close>, with the position of the
  record, and keeps the position in the file.
\<close>

function filldir_from :: "block \<Rightarrow> nat \<Rightarrow> nat \<Rightarrow> 64 word \<Rightarrow> fault + (byte list \<times> 64 word \<times> 64 word) list" where
  "filldir_from b n i pos =
     (if i < n then
        if DADFS_DEFAULT_BLOCK_SIZE < sizeof_dir_record * Suc i then Inl Out_of_bounds
        else bindE (filldir_from b n (Suc i) (pos + of_nat sizeof_dir_record)) (\<lambda>es.
          Inr ((get_bytes b (sizeof_dir_record * i) DADFS_FILENAME_MAXLEN, pos, rec_ino_at b i) # es))
      else Inr [])"
  by pat_completeness auto
termination
  by (relation "measure (\<lambda>(b, n, i, pos). n - i)") auto

declare filldir_from.simps [simp del]

definition dadfs_readdir ::
  "('e kenv_scheme) \<Rightarrow> dadfs_inode \<Rightarrow> 64 word \<Rightarrow> kfs \<Rightarrow>
   fault + (int \<times> (byte list \<times> 64 word \<times> 64 word) list \<times> 64 word \<times> kfs)" where
  "dadfs_readdir e d f_pos s =
     (if f_pos \<noteq> 0 then Inr (0, [], f_pos, s)
      else if \<not> S_ISDIR (mode d) then Inr (- ENOTDIR, [], f_pos, s)
      else
        let n = unat (data_block_number d); c = unat (dir_children_count d) in
        bindE (sb_bread_or_bug e n s) (\<lambda>s.
        bindE (filldir_from (bcache s n) c 0 f_pos) (\<lambda>es.
        Inr (0, es, f_pos + of_nat (sizeof_dir_record * c), s))))"

section \<open>Creating an object\<close>

text \<open>The record at \<open>dir_children_count\<close> and the copied name must lie in the block.\<close>

definition dir_record_fits :: "nat \<Rightarrow> byte list \<Rightarrow> bool" where
  "dir_record_fits i nm \<longleftrightarrow>
     sizeof_dir_record * Suc i \<le> DADFS_DEFAULT_BLOCK_SIZE \<and>
     sizeof_dir_record * i + length nm + 1 \<le> DADFS_DEFAULT_BLOCK_SIZE"

text \<open>
  The tail of \<open>dadfs_create_fs_object\<close>, from the new inode on disk to the updated parent:
  the record is appended to the parent's block, then the parent's inode is saved.
\<close>

definition link_into_parent ::
  "('e kenv_scheme) \<Rightarrow> dadfs_inode \<Rightarrow> byte list \<Rightarrow> vfs_inode \<Rightarrow> dadfs_inode \<Rightarrow> kfs \<Rightarrow>
   fault + (int \<times> dadfs_inode \<times> vfs_inode option \<times> kfs)" where
  "link_into_parent e dir nm inode sfs_inode s =
     (let n = unat (data_block_number dir); c = unat (dir_children_count dir) in
      bindE (sb_bread_or_bug e n s) (\<lambda>s.
      if \<not> dir_record_fits c nm then Inl Out_of_bounds else
      let s = set_buffer n (put_dir_record (bcache s n) c
                \<lparr>filename = nm, rec_inode_no = inode_no sfs_inode\<rparr>) s;
          s = sync_dirty_buffer n (mark_buffer_dirty n s)
      in bindE (mutex_lock_interruptible e Inodes_mgmt_lock s) (\<lambda>(intr, s).
      if intr then
        bindE (mutex_unlock Directory_children_update_lock s) (\<lambda>s. Inr (- EINTR, dir, None, s))
      else
      let dir = dir\<lparr>size_or_children := dir_children_count dir + 1\<rparr> in
      bindE (dadfs_inode_save e dir s) (\<lambda>(ret, s).
      bindE (mutex_unlock Inodes_mgmt_lock s) (\<lambda>s.
      bindE (mutex_unlock Directory_children_update_lock s) (\<lambda>s.
      if ret \<noteq> 0 then Inr (ret, dir, None, s) else Inr (0, dir, Some inode, s)))))))"

definition dadfs_create_fs_object ::
  "('e kenv_scheme) \<Rightarrow> dadfs_inode \<Rightarrow> byte list \<Rightarrow> 32 word \<Rightarrow> kfs \<Rightarrow>
   fault + (int \<times> dadfs_inode \<times> vfs_inode option \<times> kfs)" where
  "dadfs_create_fs_object e dir nm md s =
     bindE (mutex_lock_interruptible e Directory_children_update_lock s) (\<lambda>(intr, s).
     if intr then Inr (- EINTR, dir, None, s) else
     let fail = (\<lambda>ret s. bindE (mutex_unlock Directory_children_update_lock s) (\<lambda>s.
                   Inr (ret, dir, None, s)))
     in bindE (dadfs_sb_get_objects_count e s) (\<lambda>(ret, out, s).
     if ret < 0 then fail ret s else
     case out of None \<Rightarrow> Inl Uninitialised | Some count \<Rightarrow>
     if DADFS_MAX_FILESYSTEM_OBJECTS_SUPPORTED \<le> unat count then fail (- ENOSPC) s
     else if \<not> S_ISDIR md \<and> \<not> S_ISREG md then fail (- EINVAL) s
     else if new_inode_fails e (tick s) then fail (- ENOMEM) (tick1 s) else
     let s = tick1 s; ino = count + DADFS_START_INO - DADFS_RESERVED_INODES + 1;
         fop = (if S_ISDIR md then Dir_operations else File_operations)
     in bindE (kmem_alloc_used e s) (\<lambda>s.
     bindE (dadfs_sb_get_a_freeblock e s) (\<lambda>(ret, out, s).
     if ret < 0 then fail ret s else
     case out of None \<Rightarrow> Inl Uninitialised | Some blk \<Rightarrow>
     let sfs_inode = \<lparr>mode = md, inode_no = ino, data_block_number = of_nat blk,
                      size_or_children = 0\<rparr>;
         inode = \<lparr>i_ino = ino, i_fop = Some fop, i_private = Some sfs_inode\<rparr>
     in bindE (dadfs_inode_add e sfs_inode s) (\<lambda>s.
     link_into_parent e dir nm inode sfs_inode s)))))"

definition dadfs_mkdir ::
  "('e kenv_scheme) \<Rightarrow> dadfs_inode \<Rightarrow> byte list \<Rightarrow> 32 word \<Rightarrow> kfs \<Rightarrow>
   fault + (int \<times> dadfs_inode \<times> vfs_inode option \<times> kfs)" where
  "dadfs_mkdir e dir nm md s = dadfs_create_fs_object e dir nm (S_IFDIR OR md) s"

definition dadfs_create ::
  "('e kenv_scheme) \<Rightarrow> dadfs_inode \<Rightarrow> byte list \<Rightarrow> 32 word \<Rightarrow> kfs \<Rightarrow>
   fault + (int \<times> dadfs_inode \<times> vfs_inode option \<times> kfs)" where
  "dadfs_create e dir nm md s = dadfs_create_fs_object e dir nm md s"

section \<open>Looking up a name\<close>

text \<open>The inode number is a C \<open>int\<close> here: the record's 64-bit number is truncated.\<close>

definition iget_inode :: "64 word \<Rightarrow> dadfs_inode \<Rightarrow> vfs_inode" where
  "iget_inode ino sfs_inode =
     \<lparr>i_ino = ino,
      i_fop = (if S_ISDIR (mode sfs_inode) then Some Dir_operations
               else if S_ISREG (mode sfs_inode) \<or> ino = DADFS_JOURNAL_INODE_NUMBER
               then Some File_operations else None),
      i_private = Some sfs_inode\<rparr>"

definition dadfs_iget ::
  "('e kenv_scheme) \<Rightarrow> 32 word \<Rightarrow> kfs \<Rightarrow> fault + (vfs_inode \<times> kfs)" where
  "dadfs_iget e ino s =
     bindE (dadfs_get_inode e (scast ino) s) (\<lambda>(r, s).
     if new_inode_fails e (tick s) then Inl Null_deref else
     let s = tick1 s in
     case r of None \<Rightarrow> Inl Null_deref | Some sfs_inode \<Rightarrow>
     Inr (iget_inode (scast ino) sfs_inode, s))"

function lookup_from :: "block \<Rightarrow> nat \<Rightarrow> byte list \<Rightarrow> nat \<Rightarrow> fault + nat option" where
  "lookup_from b n nm i =
     (if i < n then
        if DADFS_DEFAULT_BLOCK_SIZE < sizeof_dir_record * Suc i then Inl Out_of_bounds
        else if strcmp0 b (sizeof_dir_record * i) nm then Inr (Some i)
        else lookup_from b n nm (Suc i)
      else Inr None)"
  by pat_completeness auto
termination
  by (relation "measure (\<lambda>(b, n, nm, i). n - i)") auto

declare lookup_from.simps [simp del]

definition dadfs_lookup ::
  "('e kenv_scheme) \<Rightarrow> dadfs_inode \<Rightarrow> byte list \<Rightarrow> kfs \<Rightarrow>
   fault + (vfs_inode option \<times> kfs)" where
  "dadfs_lookup e parent nm s =
     (let n = unat (data_block_number parent) in
      bindE (sb_bread_or_bug e n s) (\<lambda>s.
      bindE (lookup_from (bcache s n) (unat (dir_children_count parent)) nm 0) (\<lambda>r.
      case r of
        None \<Rightarrow> Inr (None, s)
      | Some i \<Rightarrow> bindE (dadfs_iget e (ucast (rec_ino_at (bcache s n) i)) s) (\<lambda>(inode, s).
                  Inr (Some inode, s)))))"

section \<open>Directories as lists of records\<close>

definition dirent_list :: "kfs \<Rightarrow> dadfs_inode \<Rightarrow> dadfs_dir_record list" where
  "dirent_list s d = map (dir_record_at (bcache s (unat (data_block_number d))))
                       [0..<unat (dir_children_count d)]"

text \<open>
  The invariant of a mounted file system: no lock is held, the store holds at most 64
  inodes, their numbers are distinct and below the next number to be given out.
\<close>

definition fs_wf :: "kfs \<Rightarrow> bool" where
  "fs_wf s \<longleftrightarrow>
     unlocked s \<and> unat (sb_inodes_count (DADFS_SB s)) \<le> DADFS_MAX_FILESYSTEM_OBJECTS_SUPPORTED \<and>
     distinct (map inode_no (inode_list s)) \<and>
     (\<forall>i \<in> set (inode_list s). unat (inode_no i) < unat (sb_inodes_count (DADFS_SB s)) + 8)"

text \<open>A directory whose inode is in the store and whose records lie in its own block.\<close>

definition dir_ok :: "kfs \<Rightarrow> dadfs_inode \<Rightarrow> bool" where
  "dir_ok s d \<longleftrightarrow>
     d \<in> set (inode_list s) \<and> unat (data_block_number d) \<noteq> DADFS_SUPERBLOCK_BLOCK_NUMBER \<and>
     unat (data_block_number d) \<noteq> DADFS_INODESTORE_BLOCK_NUMBER \<and>
     unat (dir_children_count d) \<le> 15"

text \<open>Listing shows the records of the directory, each name up to its zero byte.\<close>

definition shown :: "byte list \<times> 64 word \<Rightarrow> dadfs_dir_record" where
  "shown e = \<lparr>filename = takeWhile (\<lambda>c. c \<noteq> 0) (fst e), rec_inode_no = snd e\<rparr>"

lemma shown_record:
  assumes "length (filename (dir_record_at b i)) \<le> 255"
  shows "shown (get_bytes b (264 * i) 255, rec_ino_at b i) = dir_record_at b i"
proof -
  have split: "get_bytes b (264 * i) 256 = get_bytes b (264 * i) 255 @ [b (264 * i + 255)]"
    using get_bytes_split [of 255 256 b "264 * i"] by (simp add: get_bytes_def)
  have len: "length (get_bytes b (264 * i) 255) = 255" by (simp add: get_bytes_def)
  have "takeWhile (\<lambda>c. c \<noteq> 0) (get_bytes b (264 * i) 255) = takeWhile (\<lambda>c. c \<noteq> 0) (get_bytes b (264 * i) 256)"
  proof (cases "0 \<in> set (get_bytes b (264 * i) 255)")
    case True
    then show ?thesis unfolding split by (simp add: takeWhile_append1)
  next
    case False
    then have all: "\<And>c. c \<in> set (get_bytes b (264 * i) 255) \<Longrightarrow> c \<noteq> 0" by blast
    then have "takeWhile (\<lambda>c. c \<noteq> 0) (get_bytes b (264 * i) 256) =
        get_bytes b (264 * i) 255 @ takeWhile (\<lambda>c. c \<noteq> 0) [b (264 * i + 255)]"
      unfolding split by (rule takeWhile_append2)
    moreover from this have "b (264 * i + 255) = 0"
      using assms len by (auto simp: dir_record_at_def rec_name_at_def split: if_splits)
    moreover have "takeWhile (\<lambda>c. c \<noteq> 0) (get_bytes b (264 * i) 255) = get_bytes b (264 * i) 255"
      using all by (auto simp: takeWhile_eq_all_conv)
    ultimately show ?thesis by simp
  qed
  then show ?thesis by (simp add: shown_def dir_record_at_def rec_name_at_def)
qed

lemma dir_emit_from_records:
  assumes "n \<le> 15" and "\<forall>i < n. length (filename (dir_record_at b i)) \<le> 255" and "i \<le> n"
  shows "\<exists>es. dir_emit_from b n i = Inr es \<and> map shown es = map (dir_record_at b) [i..<n]"
  using assms(3)
proof (induction "n - i" arbitrary: i)
  case 0
  then show ?case by (simp add: dir_emit_from.simps)
next
  case (Suc m)
  have "m = n - Suc i" "Suc i \<le> n" using Suc.hyps(2) by simp_all
  then obtain es where es: "dir_emit_from b n (Suc i) = Inr es" "map shown es = map (dir_record_at b) [Suc i..<n]"
    using Suc.hyps(1) by blast
  have i: "i < n" "\<not> DADFS_DEFAULT_BLOCK_SIZE < sizeof_dir_record * Suc i"
    using Suc.hyps(2) assms(1) by (simp_all add: dadfs_consts sizeof_dir_record_def)
  then have "dir_emit_from b n i = Inr ((get_bytes b (264 * i) 255, rec_ino_at b i) # es)"
    using es(1) by (subst dir_emit_from.simps) (simp add: sizeof_dir_record_def dadfs_consts)
  then show ?case using es(2) i(1) shown_record assms(2) by (simp add: upt_conv_Cons)
qed

lemma iterate_lists:
  assumes "quiet e" and "S_ISDIR (mode d)" and "unat (dir_children_count d) \<le> 15"
    and "\<forall>r \<in> set (dirent_list s d). length (filename r) \<le> 255"
  shows "\<exists>es. dadfs_iterate e d 0 s = Inr (0, es, of_nat (264 * unat (dir_children_count d)), tick1 s) \<and>
    map shown es = dirent_list s d"
proof -
  let ?b = "bcache s (unat (data_block_number d))"
  obtain es where "dir_emit_from ?b (unat (dir_children_count d)) 0 = Inr es"
    "map shown es = map (dir_record_at ?b) [0..<unat (dir_children_count d)]"
    using dir_emit_from_records [OF assms(3), of ?b 0] assms(4) by (auto simp: dirent_list_def)
  then show ?thesis
    using quiet_bread [OF assms(1)] assms(2) by (simp add: dadfs_iterate_def sizeof_dir_record_def dirent_list_def)
qed

text \<open>Both variants hand over the same names and inode numbers and leave the same position.\<close>

lemma filldir_from_emits:
  "dir_emit_from b n i = bindE (filldir_from b n i pos) (\<lambda>es. Inr (map (\<lambda>(nm, _, ino). (nm, ino)) es))"
proof (induction "n - i" arbitrary: i pos)
  case 0
  then show ?case by (simp add: filldir_from.simps dir_emit_from.simps)
next
  case (Suc m)
  then have "m = n - Suc i" by simp
  note IH = Suc.hyps(1) [OF this, of "pos + of_nat sizeof_dir_record"]
  show ?case
    by (subst filldir_from.simps, subst dir_emit_from.simps, subst IH)
      (cases "filldir_from b n (Suc i) (pos + of_nat sizeof_dir_record)"; simp)
qed

lemma readdir_lists_as_iterate:
  "dadfs_iterate e d pos s = bindE (dadfs_readdir e d pos s)
     (\<lambda>(ret, es, p, s). Inr (ret, map (\<lambda>(nm, _, ino). (nm, ino)) es, p, s))"
proof (cases "pos = 0 \<and> S_ISDIR (mode d)")
  case False
  then show ?thesis by (auto simp: dadfs_readdir_def dadfs_iterate_def)
next
  case True
  show ?thesis
  proof (cases "sb_bread_or_bug e (unat (data_block_number d)) s")
    case (Inl f)
    then show ?thesis using True by (simp add: dadfs_readdir_def dadfs_iterate_def)
  next
    case (Inr s')
    let ?b = "bcache s' (unat (data_block_number d))" and ?n = "unat (dir_children_count d)"
    show ?thesis
      using True Inr filldir_from_emits [of ?b ?n 0 0]
      by (cases "filldir_from ?b ?n 0 0") (simp_all add: dadfs_readdir_def dadfs_iterate_def)
  qed
qed

lemma dirent_list_tick [simp]: "dirent_list (s\<lparr>tick := t\<rparr>) d = dirent_list s d"
  by (simp add: dirent_list_def)

lemma lookup_from_find:
  "valid_name nm \<Longrightarrow> n \<le> 15 \<Longrightarrow>
   lookup_from b n nm i = Inr (find (\<lambda>j. rec_name_at b j = nm) [i..<n])"
proof (induction b n nm i rule: lookup_from.induct)
  case (1 b n nm i)
  then show ?case
    by (auto simp: lookup_from.simps [of b n nm i] find_upt_Cons strcmp0_rec_name
        sizeof_dir_record_def dadfs_consts)
qed

lemma int_ino_id: "unat (w :: 64 word) < 2 ^ 31 \<Longrightarrow> scast (ucast w :: 32 word) = w"
proof -
  assume "unat w < 2 ^ 31"
  then have "take_bit 31 w = w"
    by (simp add: word_unat_eq_iff unsigned_take_bit_eq take_bit_nat_eq_self)
  then have low: "n < 31" if "bit w n" for n
    using that by (metis bit_take_bit_iff)
  show ?thesis
    by (rule bit_eqI) (auto simp: bit_simps min_def dest: low split: if_splits)
qed

lemma quiet_iget:
  assumes "quiet e" and "unat (sb_inodes_count (DADFS_SB s)) \<le> 128"
    and "find (\<lambda>i. inode_no i = scast ino) (inode_list s) = Some sfs_inode"
  shows "\<exists>t. dadfs_iget e ino s =
    Inr (iget_inode (scast ino) sfs_inode, s\<lparr>tick := t\<rparr>)"
proof -
  obtain t where "dadfs_get_inode e (scast ino) s = Inr (Some sfs_inode, s\<lparr>tick := t\<rparr>)"
    using get_inode_refines [OF assms(1,2), of "scast ino"] assms(3) by auto
  moreover have "\<not> new_inode_fails e t" using assms(1) by (simp add: quiet_def)
  ultimately show ?thesis by (auto simp: dadfs_iget_def)
qed

text \<open>
  \<open>dadfs_lookup\<close> refines the search of the record list: no record with the name gives no
  inode, the first record with the name gives the inode it points to.
\<close>

lemma find_dirent:
  "find (\<lambda>r. filename r = nm) (dirent_list s d) =
     map_option (dir_record_at (bcache s (unat (data_block_number d))))
       (find (\<lambda>j. rec_name_at (bcache s (unat (data_block_number d))) j = nm)
         [0..<unat (dir_children_count d)])"
  by (simp add: dirent_list_def find_map dir_record_at_def)

lemma lookup_absent:
  assumes "quiet e" and "valid_name nm" and "unat (dir_children_count d) \<le> 15"
    and "nm \<notin> filename ` set (dirent_list s d)"
  shows "dadfs_lookup e d nm s = Inr (None, tick1 s)"
proof -
  have "find (\<lambda>r. filename r = nm) (dirent_list s d) = None"
    using assms(4) by (auto simp: find_None_iff)
  then show ?thesis
    using assms(1-3) by (simp add: dadfs_lookup_def Let_def step_simps lookup_from_find find_dirent)
qed

lemma lookup_present:
  assumes "quiet e" and "valid_name nm" and "unat (dir_children_count d) \<le> 15"
    and "unat (sb_inodes_count (DADFS_SB s)) \<le> 128"
    and "find (\<lambda>r. filename r = nm) (dirent_list s d) = Some r"
    and "unat (rec_inode_no r) < 2 ^ 31"
    and "find (\<lambda>i. inode_no i = rec_inode_no r) (inode_list s) = Some sfs_inode"
  shows "\<exists>t. dadfs_lookup e d nm s =
    Inr (Some (iget_inode (rec_inode_no r) sfs_inode), s\<lparr>tick := t\<rparr>)"
proof -
  let ?b = "bcache s (unat (data_block_number d))"
  obtain i where i: "find (\<lambda>j. rec_name_at ?b j = nm) [0..<unat (dir_children_count d)] = Some i"
    and r: "r = dir_record_at ?b i"
    using assms(5) by (auto simp: find_dirent)
  have ino: "scast (ucast (rec_ino_at ?b i) :: 32 word) = rec_inode_no r"
    using assms(6) r by (simp add: int_ino_id dir_record_at_def)
  have "\<exists>t. dadfs_iget e (ucast (rec_ino_at ?b i)) (tick1 s) =
    Inr (iget_inode (rec_inode_no r) sfs_inode, s\<lparr>tick := t\<rparr>)"
    using quiet_iget [of e "tick1 s" "ucast (rec_ino_at ?b i)" sfs_inode] assms(1,4,7) ino by simp
  then show ?thesis
    using assms(1-3) i
    by (auto simp: dadfs_lookup_def Let_def step_simps lookup_from_find)
qed

section \<open>Creating refines appending\<close>

lemma quiet_link [step_simps]:
  assumes "quiet e" and "\<not> held s Sb_lock" and "\<not> held s Inodes_mgmt_lock"
    and "held s Directory_children_update_lock"
    and "unat (data_block_number dir) \<noteq> 1" and "unat (dir_children_count dir) < 15"
    and "length nm \<le> 255" and "unat (sb_inodes_count (DADFS_SB s)) < 128"
    and "unat (data_block_number dir) \<noteq> 0"
    and "find (\<lambda>j. inode_no (inode_at (bcache s 1) j) = inode_no dir)
           [0..<unat (sb_inodes_count (DADFS_SB s))] = Some k"
  shows "link_into_parent e dir nm inode sfs_inode s =
    (let n = unat (data_block_number dir);
         b = put_dir_record (bcache s n) (unat (dir_children_count dir))
               \<lparr>filename = nm, rec_inode_no = inode_no sfs_inode\<rparr>;
         dir' = dir\<lparr>size_or_children := dir_children_count dir + 1\<rparr>;
         st = put_inode (bcache s 1) k dir'
     in Inr (0, dir', Some inode,
         s\<lparr>bcache := (bcache s)(n := b, 1 := st), bdirty := (bdirty s)(n := False, 1 := False),
           disk := (disk s)(n := b, 1 := st),
           held := (held s)(Directory_children_update_lock := False), tick := tick s + 4\<rparr>))"
proof -
  let ?n = "unat (data_block_number dir)"
  have fits: "dir_record_fits (unat (dir_children_count dir)) nm"
    using assms(6,7) by (simp add: dir_record_fits_def sizeof_dir_record_def dadfs_consts)
  show ?thesis
    using assms fits
    by (simp add: link_into_parent_def Let_def step_simps set_buffer_def mark_buffer_dirty_def
        sync_dirty_buffer_def DADFS_SB_def dadfs_consts fun_upd_twist fun_upd_idem)
qed

text \<open>The inode a create call makes: number \<open>inodes_count + 8\<close>, empty, in the block given.\<close>

definition new_object :: "kfs \<Rightarrow> 32 word \<Rightarrow> nat \<Rightarrow> dadfs_inode" where
  "new_object s md blk =
     \<lparr>mode = md,
      inode_no = sb_inodes_count (DADFS_SB s) + DADFS_START_INO - DADFS_RESERVED_INODES + 1,
      data_block_number = of_nat blk, size_or_children = 0\<rparr>"

lemma new_object_ino: "inode_no (new_object s md k) = sb_inodes_count (DADFS_SB s) + 8"
  by (simp add: new_object_def dadfs_consts)

definition one_more_child :: "dadfs_inode \<Rightarrow> dadfs_inode" where
  "one_more_child d = d\<lparr>size_or_children := dir_children_count d + 1\<rparr>"

text \<open>The lowest free block from 3 on, below the sign bit of the mask.\<close>

definition lowest_free :: "kfs \<Rightarrow> nat \<Rightarrow> bool" where
  "lowest_free s k \<longleftrightarrow>
     3 \<le> k \<and> k < 31 \<and> bit (sb_free_blocks (DADFS_SB s)) k \<and>
     (\<forall>j. 3 \<le> j \<and> j < k \<longrightarrow> \<not> bit (sb_free_blocks (DADFS_SB s)) j)"

definition created :: "kfs \<Rightarrow> dadfs_inode \<Rightarrow> byte list \<Rightarrow> 32 word \<Rightarrow> nat \<Rightarrow> nat \<Rightarrow> nat \<Rightarrow> kfs" where
  "created s dir nm md k j t =
     (let n = unat (data_block_number dir); c = sb_inodes_count (DADFS_SB s);
          new = new_object s md k;
          sb = set_sb_inodes_count (c + 1)
                 (set_sb_free_blocks (unset_bit k (sb_free_blocks (DADFS_SB s))) (bcache s 0));
          st = put_inode (put_inode (bcache s 1) (unat c) new) j (one_more_child dir);
          b = put_dir_record (bcache s n) (unat (dir_children_count dir))
                \<lparr>filename = nm, rec_inode_no = inode_no new\<rparr>
      in s\<lparr>bcache := (bcache s)(0 := sb, n := b, 1 := st),
           bdirty := (bdirty s)(0 := False, n := False, 1 := False),
           disk := (disk s)(0 := sb, n := b, 1 := st), tick := t\<rparr>)"

lemma S_ISDIR_not_ISREG: "S_ISDIR m \<Longrightarrow> \<not> S_ISREG m"
  by (simp add: S_ISDIR_def S_ISREG_def S_IFDIR_def S_IFREG_def)

lemma quiet_objects_count [step_simps]:
  "quiet e \<Longrightarrow> \<not> held s Inodes_mgmt_lock \<Longrightarrow>
   dadfs_sb_get_objects_count e s = Inr (0, Some (sb_inodes_count (DADFS_SB s)), tick1 s)"
  by (simp add: dadfs_sb_get_objects_count_def step_simps Let_def fun_upd_idem)

text \<open>The store position of a directory stays the first match after the new inode is added.\<close>

lemma find_dir_slot:
  assumes "distinct (map inode_no (inode_list s))" and "j < length (inode_list s)"
    and "inode_list s ! j = dir" and "b = bcache s 1"
    and "n = unat (sb_inodes_count (DADFS_SB s))"
  shows "find (\<lambda>i. inode_no (inode_at (put_inode b n new) i) = inode_no dir) [0..<Suc n] = Some j"
proof -
  have at: "inode_at (put_inode b n new) i = inode_list s ! i" if "i < n" for i
    using that assms(4,5) by (simp add: inode_at_put_other inode_list_def dadfs_consts)
  have len: "length (inode_list s) = n" by (simp add: inode_list_def assms(5))
  show ?thesis
  proof (rule find_upt_SomeI)
    show "0 \<le> j" "j < Suc n" using assms(2) len by simp_all
    show "inode_no (inode_at (put_inode b n new) j) = inode_no dir"
      using at [of j] assms(2,3) len by simp
    show "inode_no (inode_at (put_inode b n new) i) \<noteq> inode_no dir" if "i < j" for i
      using at [of i] assms(1-3) len that by (auto simp: distinct_conv_nth)
  qed
qed

text \<open>
  The state between the two halves of a create call: the block is taken, the inode is in
  the store, the directory lock is still held.
\<close>

definition after_add :: "kfs \<Rightarrow> 32 word \<Rightarrow> nat \<Rightarrow> kfs" where
  "after_add s md k =
     (let c = sb_inodes_count (DADFS_SB s);
          sb = set_sb_inodes_count (c + 1)
                 (set_sb_free_blocks (unset_bit k (sb_free_blocks (DADFS_SB s))) (bcache s 0))
      in s\<lparr>bcache := (bcache s)(1 := put_inode (bcache s 1) (unat c) (new_object s md k), 0 := sb),
           bdirty := (bdirty s)(1 := True, 0 := False), disk := (disk s)(0 := sb),
           held := (held s)(Directory_children_update_lock := True), tick := tick s + 10\<rparr>)"

lemma after_add_simps:
  "sb_inodes_count (DADFS_SB (after_add s md k)) = sb_inodes_count (DADFS_SB s) + 1"
  "bcache (after_add s md k) (Suc 0) =
     put_inode (bcache s (Suc 0)) (unat (sb_inodes_count (DADFS_SB s))) (new_object s md k)"
  "held (after_add s md k) = (held s)(Directory_children_update_lock := True)"
  by (simp_all add: after_add_def Let_def DADFS_SB_def dadfs_consts heap_simps)

lemma alloc_then_add:
  assumes "quiet e" and "unlocked s" and "unat (sb_inodes_count (DADFS_SB s)) < 64"
    and "lowest_free s k"
    and "s2 = s\<lparr>held := (held s)(Directory_children_update_lock := True),
                tick := Suc (Suc (Suc (Suc (tick s))))\<rparr>"
  obtains s3 where "dadfs_sb_get_a_freeblock e s2 = Inr (0, Some k, s3)"
    and "dadfs_inode_add e (new_object s md k) s3 = Inr (after_add s md k)"
proof -
  let ?c = "sb_inodes_count (DADFS_SB s)"
  let ?sb = "set_sb_free_blocks (unset_bit k (sb_free_blocks (DADFS_SB s))) (bcache s 0)"
  define s3 where "s3 = s2\<lparr>bcache := (bcache s)(0 := ?sb), bdirty := (bdirty s)(0 := False),
    disk := (disk s)(0 := ?sb), tick := tick s + 6\<rparr>"
  have unl: "\<not> held s l" for l using assms(2) by (simp add: unlocked_def)
  have sb3: "DADFS_SB s3 = ?sb" "bcache s3 0 = ?sb" "bcache s3 (Suc 0) = bcache s (Suc 0)"
    by (simp_all add: s3_def DADFS_SB_def dadfs_consts)
  have cnt3: "sb_inodes_count ?sb = ?c" by (simp add: heap_simps DADFS_SB_def dadfs_consts)
  have held3: "held s3 = (held s)(Directory_children_update_lock := True)"
    by (simp add: s3_def assms(5))
  show ?thesis
  proof
    show "dadfs_sb_get_a_freeblock e s2 = Inr (0, Some k, s3)"
      using assms(1,4) unl quiet_get_a_freeblock [of e s2 k]
      by (auto simp: assms(5) s3_def lowest_free_def Let_def)
    show "dadfs_inode_add e (new_object s md k) s3 = Inr (after_add s md k)"
      using assms(1,3) unl
      by (simp add: quiet_inode_add sb3 cnt3 held3 Let_def after_add_def)
        (simp add: s3_def assms(5))
  qed
qed

lemma link_after_add:
  assumes "quiet e" and "fs_wf s" and "unat (sb_inodes_count (DADFS_SB s)) < 64"
    and "dir_ok s dir" and "unat (dir_children_count dir) < 15" and "valid_name nm"
    and "j < length (inode_list s)" and "inode_list s ! j = dir"
  shows "link_into_parent e dir nm inode (new_object s md k) (after_add s md k) =
    Inr (0, one_more_child dir, Some inode, created s dir nm md k j (tick s + 14))"
proof -
  let ?s = "after_add s md k" and ?n = "unat (data_block_number dir)"
  have unl: "\<not> held s l" for l using assms(2) by (simp add: fs_wf_def unlocked_def)
  have cnt: "unat (sb_inodes_count (DADFS_SB ?s)) = Suc (unat (sb_inodes_count (DADFS_SB s)))"
    using assms(3) by (simp add: after_add_simps unat_word_ariths)
  have "distinct (map inode_no (inode_list s))" using assms(2) by (simp add: fs_wf_def)
  note slot = find_dir_slot [OF this assms(7,8) refl refl]
  have found: "find (\<lambda>i. inode_no (inode_at (bcache ?s 1) i) = inode_no dir)
      [0..<unat (sb_inodes_count (DADFS_SB ?s))] = Some j"
    using slot [of "new_object s md k"] by (simp add: cnt after_add_simps(2) del: upt_Suc)
  have n: "?n \<noteq> 0" "?n \<noteq> 1" using assms(4) by (simp_all add: dir_ok_def dadfs_consts)
  have "unat (sb_inodes_count (DADFS_SB ?s)) < 128" using assms(3) by (simp add: cnt)
  note link = quiet_link [OF assms(1) _ _ _ n(2) assms(5) _ this n(1) found, of nm]
  have released: "(held s)(Directory_children_update_lock := False) = held s"
    using unl by (simp add: fun_upd_idem)
  show ?thesis
    using link unl n assms(6) released
    by (simp add: after_add_simps valid_name_def Let_def created_def one_more_child_def)
      (simp add: after_add_def Let_def fun_upd_twist)
qed

lemma quiet_create:
  assumes "quiet e" and "fs_wf s" and "unat (sb_inodes_count (DADFS_SB s)) < 64"
    and "dir_ok s dir" and "unat (dir_children_count dir) < 15" and "valid_name nm"
    and "S_ISDIR md \<or> S_ISREG md" and "lowest_free s k"
    and "j < length (inode_list s)" and "inode_list s ! j = dir"
  shows "dadfs_create_fs_object e dir nm md s =
    Inr (0, one_more_child dir, Some (iget_inode (inode_no (new_object s md k)) (new_object s md k)),
         created s dir nm md k j (tick s + 14))"
proof -
  define new where "new = new_object s md k"
  have unl: "unlocked s" using assms(2) by (simp add: fs_wf_def)
  obtain s3 where fb: "dadfs_sb_get_a_freeblock e
      (s\<lparr>held := (held s)(Directory_children_update_lock := True),
         tick := Suc (Suc (Suc (Suc (tick s))))\<rparr>) = Inr (0, Some k, s3)"
    and add: "dadfs_inode_add e new s3 = Inr (after_add s md k)"
    unfolding new_def using alloc_then_add [OF assms(1) unl assms(3,8) refl] by blast
  have link: "link_into_parent e dir nm inode new (after_add s md k) =
    Inr (0, one_more_child dir, Some inode, created s dir nm md k j (tick s + 14))" for inode
    unfolding new_def by (rule link_after_add [OF assms(1-6,9,10)])
  have ino: "inode_no new =
      sb_inodes_count (DADFS_SB s) + DADFS_START_INO - DADFS_RESERVED_INODES + 1"
    and fold_new: "\<lparr>mode = md,
      inode_no = sb_inodes_count (DADFS_SB s) + DADFS_START_INO - DADFS_RESERVED_INODES + 1,
      data_block_number = of_nat k, size_or_children = 0\<rparr> = new"
    by (simp_all add: new_def new_object_def)
  have fop: "iget_inode (inode_no new) new =
    \<lparr>i_ino = inode_no new, i_fop = Some (if S_ISDIR md then Dir_operations else File_operations),
     i_private = Some new\<rparr>"
    using assms(7) by (auto simp: iget_inode_def new_def new_object_def)
  have "\<not> new_inode_fails e t" for t using assms(1) by (simp add: quiet_def)
  then show ?thesis
    using assms(1,3,7) unl fb add link
    unfolding new_def [symmetric] fop
    by (auto simp: dadfs_create_fs_object_def step_simps Let_def ino fold_new unlocked_def
        DADFS_MAX_FILESYSTEM_OBJECTS_SUPPORTED_def)
qed

section \<open>What a create call leaves behind\<close>

lemma created_simps:
  assumes "dir_ok s dir" and "unat (sb_inodes_count (DADFS_SB s)) < 64"
  shows "sb_inodes_count (DADFS_SB (created s dir nm md k j t)) = sb_inodes_count (DADFS_SB s) + 1"
    and "sb_free_blocks (DADFS_SB (created s dir nm md k j t))
           = unset_bit k (sb_free_blocks (DADFS_SB s))"
    and "held (created s dir nm md k j t) = held s"
  using assms
  by (simp_all add: created_def Let_def DADFS_SB_def dadfs_consts heap_simps dir_ok_def)

lemma inode_list_created:
  assumes "dir_ok s dir" and "unat (sb_inodes_count (DADFS_SB s)) < 64"
    and "j < length (inode_list s)"
  shows "inode_list (created s dir nm md k j t) =
           (inode_list s)[j := one_more_child dir] @ [new_object s md k]"
proof -
  let ?c = "unat (sb_inodes_count (DADFS_SB s))" and ?new = "new_object s md k"
  let ?b = "put_inode (bcache s 1) ?c ?new"
  have c: "unat (sb_inodes_count (DADFS_SB s) + 1) = Suc ?c"
    using assms(2) by (simp add: unat_word_ariths)
  have len: "length (inode_list s) = ?c" by (simp add: inode_list_def)
  have st: "bcache (created s dir nm md k j t) 1 = put_inode ?b j (one_more_child dir)"
    by (simp add: created_def Let_def)
  have "map (inode_at (put_inode ?b j (one_more_child dir))) [0..<Suc ?c]
      = (map (inode_at ?b) [0..<Suc ?c])[j := one_more_child dir]"
    using assms(3) len by (intro inodes.slots_update) simp_all
  also have "map (inode_at ?b) [0..<Suc ?c] = map (inode_at (bcache s 1)) [0..<?c] @ [?new]"
    by (rule inodes.slots_append) simp
  finally show ?thesis
    using assms(3) len st created_simps(1) [OF assms(1,2)] c
    by (simp add: inode_list_def dadfs_consts list_update_append)
qed

lemma dirent_list_created:
  assumes "dir_ok s dir" and "unat (dir_children_count dir) < 15" and "valid_name nm"
  shows "dirent_list (created s dir nm md k j t) (one_more_child dir) =
           dirent_list s dir @ [\<lparr>filename = nm, rec_inode_no = inode_no (new_object s md k)\<rparr>]"
proof -
  let ?n = "unat (data_block_number dir)" and ?c = "unat (dir_children_count dir)"
  let ?r = "\<lparr>filename = nm, rec_inode_no = inode_no (new_object s md k)\<rparr>"
  have c: "unat (dir_children_count (one_more_child dir)) = Suc ?c"
    using assms(2) by (simp add: one_more_child_def dir_children_count_def unat_word_ariths)
  have "bcache (created s dir nm md k j t) ?n = put_dir_record (bcache s ?n) ?c ?r"
    using assms(1) by (simp add: created_def Let_def dir_ok_def dadfs_consts)
  moreover have "map (dir_record_at (put_dir_record (bcache s ?n) ?c ?r)) [0..<Suc ?c]
      = map (dir_record_at (bcache s ?n)) [0..<?c] @ [?r]"
    using assms(3) by (intro dirents.slots_append) simp
  ultimately show ?thesis
    unfolding dirent_list_def c by (simp add: one_more_child_def)
qed

lemma inode_no_one_more_child [simp]: "inode_no (one_more_child d) = inode_no d"
  by (simp add: one_more_child_def)

lemma new_ino_fresh:
  assumes "fs_wf s"
  shows "inode_no (new_object s md k) \<notin> inode_no ` set (inode_list s)"
    and "unat (inode_no (new_object s md k)) = unat (sb_inodes_count (DADFS_SB s)) + 8"
proof -
  have "unat (sb_inodes_count (DADFS_SB s)) \<le> 64"
    using assms by (simp add: fs_wf_def dadfs_consts)
  then show ino: "unat (inode_no (new_object s md k)) = unat (sb_inodes_count (DADFS_SB s)) + 8"
    by (simp add: new_object_ino unat_word_ariths)
  show "inode_no (new_object s md k) \<notin> inode_no ` set (inode_list s)"
    using assms ino by (auto simp: fs_wf_def)
qed

lemma map_inode_no_update:
  "j < length xs \<Longrightarrow> xs ! j = dir \<Longrightarrow> map inode_no (xs[j := one_more_child dir]) = map inode_no xs"
  by (simp add: map_update list_update_same_conv)

lemma fs_wf_created:
  assumes "fs_wf s" and "dir_ok s dir" and "unat (sb_inodes_count (DADFS_SB s)) < 64"
    and "j < length (inode_list s)" and "inode_list s ! j = dir"
  shows "fs_wf (created s dir nm md k j t)"
proof -
  let ?s = "created s dir nm md k j t" and ?new = "new_object s md k"
  have inos: "map inode_no (inode_list ?s) = map inode_no (inode_list s) @ [inode_no ?new]"
    using inode_list_created [OF assms(2,3,4)] map_inode_no_update [OF assms(4,5)] by simp
  have c: "unat (sb_inodes_count (DADFS_SB ?s)) = Suc (unat (sb_inodes_count (DADFS_SB s)))"
    using assms(3) created_simps(1) [OF assms(2,3)] by (simp add: unat_word_ariths)
  have "distinct (map inode_no (inode_list ?s))"
    using assms(1) new_ino_fresh(1) [OF assms(1), of md k] unfolding inos
    by (simp add: fs_wf_def)
  moreover have "unat i < unat (sb_inodes_count (DADFS_SB ?s)) + 8"
    if "i \<in> set (map inode_no (inode_list ?s))" for i
    using that assms(1) new_ino_fresh(2) [OF assms(1), of md k] unfolding inos c
    by (auto simp: fs_wf_def less_Suc_eq)
  ultimately show ?thesis
    using assms(1,3) created_simps(3) [OF assms(2,3)]
    by (auto simp: fs_wf_def unlocked_def c dadfs_consts)
qed

section \<open>The example file system\<close>

lemma example_fs_wf: "fs_wf example_fs"
  by (simp add: fs_wf_def unlocked_def example_sb example_inodes root_dir_def journal_ino_def
      welcome_ino_def dadfs_consts) (simp add: example_fs_def)

lemma valid_name_awordfromdad: "valid_name (bytes_of ''awordfromdad'')"
  by (simp add: valid_name_def) (simp add: bytes_of_def)

lemma example_root:
  "dirent_list example_fs root_dir =
     [\<lparr>filename = bytes_of ''awordfromdad'', rec_inode_no = 3\<rparr>]"
  using dir_record_at_put_same
    [of "\<lparr>filename = bytes_of ''awordfromdad'', rec_inode_no = 3\<rparr>" "\<lambda>_. 0" 0]
    valid_name_awordfromdad
  by (simp add: dirent_list_def root_dir_def dir_children_count_def example_fs_def
      example_block_def)

lemma example_dir_ok: "dir_ok example_fs root_dir"
  by (simp add: dir_ok_def example_inodes) (simp add: root_dir_def dir_children_count_def dadfs_consts)

lemma example_lowest_free: "lowest_free example_fs 3"
  by (auto simp: lowest_free_def example_sb)

section \<open>Properties\<close>

text \<open>
  C1. Creating an object refines appending. On a well-formed file system with room (fewer
  than 64 inodes, fewer than 15 children, a free block below 31) and no failing kernel
  service, \<open>dadfs_create_fs_object\<close> returns 0, appends the new inode to the inode store,
  bumps the parent's child count in memory and in the store, appends the record to the
  parent's block, takes exactly the chosen bit out of the free map, leaves every other block
  alone, has all three blocks on the device, and keeps the file system well formed.
\<close>

theorem dadfs_create_refines_append:
  assumes "quiet e" and "fs_wf s" and "unat (sb_inodes_count (DADFS_SB s)) < 64"
    and "dir_ok s dir" and "unat (dir_children_count dir) < 15" and "valid_name nm"
    and "S_ISDIR md \<or> S_ISREG md" and "lowest_free s k"
  shows "\<exists>s' j. j < length (inode_list s) \<and> inode_list s ! j = dir \<and>
    dadfs_create_fs_object e dir nm md s =
      Inr (0, one_more_child dir,
           Some (iget_inode (inode_no (new_object s md k)) (new_object s md k)), s') \<and>
    fs_wf s' \<and>
    inode_list s' = (inode_list s)[j := one_more_child dir] @ [new_object s md k] \<and>
    dirent_list s' (one_more_child dir) =
      dirent_list s dir @ [\<lparr>filename = nm, rec_inode_no = inode_no (new_object s md k)\<rparr>] \<and>
    sb_free_blocks (DADFS_SB s') = unset_bit k (sb_free_blocks (DADFS_SB s)) \<and>
    (\<forall>n. n \<noteq> 0 \<and> n \<noteq> 1 \<and> n \<noteq> unat (data_block_number dir) \<longrightarrow> bcache s' n = bcache s n) \<and>
    disk s' 0 = bcache s' 0 \<and> disk s' 1 = bcache s' 1 \<and>
    disk s' (unat (data_block_number dir)) = bcache s' (unat (data_block_number dir))"
proof -
  obtain j where j: "j < length (inode_list s)" "inode_list s ! j = dir"
    using assms(4) by (auto simp: dir_ok_def in_set_conv_nth)
  let ?s = "created s dir nm md k j (tick s + 14)"
  have blocks: "(\<forall>n. n \<noteq> 0 \<and> n \<noteq> 1 \<and> n \<noteq> unat (data_block_number dir) \<longrightarrow>
      bcache ?s n = bcache s n) \<and> disk ?s 0 = bcache ?s 0 \<and> disk ?s 1 = bcache ?s 1 \<and>
    disk ?s (unat (data_block_number dir)) = bcache ?s (unat (data_block_number dir))"
    by (simp add: created_def Let_def)
  show ?thesis
    by (intro exI [of _ ?s] exI [of _ j] conjI j quiet_create [OF assms j]
        fs_wf_created [OF assms(2,4,3) j] inode_list_created [OF assms(4,3) j(1)]
        dirent_list_created [OF assms(4,5,6)] created_simps(2) [OF assms(4,3)]
        blocks [THEN conjunct1] blocks [THEN conjunct2, THEN conjunct1]
        blocks [THEN conjunct2, THEN conjunct2, THEN conjunct1]
        blocks [THEN conjunct2, THEN conjunct2, THEN conjunct2])
qed

theorem dadfs_create_refines_append_witness:
  "\<exists>s'. dadfs_create_fs_object quiet_env root_dir (bytes_of ''dir'') S_IFDIR example_fs =
      Inr (0, one_more_child root_dir,
           Some (iget_inode 11 (new_object example_fs S_IFDIR 3)), s') \<and> fs_wf s'"
proof -
  have nm: "valid_name (bytes_of ''dir'')" by (simp add: valid_name_def) (simp add: bytes_of_def)
  have "unat (dir_children_count root_dir) < 15" "S_ISDIR S_IFDIR \<or> S_ISREG S_IFDIR"
    by (simp_all add: root_dir_def dir_children_count_def S_ISDIR_def S_IFDIR_def S_IFMT_def)
  moreover have "inode_no (new_object example_fs S_IFDIR 3) = 11"
    by (simp add: new_object_ino example_sb)
  ultimately show ?thesis
    using dadfs_create_refines_append [OF quiet_quiet_env example_fs_wf _ example_dir_ok _ nm _
        example_lowest_free, of S_IFDIR]
    by (auto simp: example_sb)
qed

text \<open>
  C3. A created name is found. After a create call that succeeded for a name the directory
  did not have, looking that name up in the updated directory attaches exactly the inode
  the create call attached: same number, same operations, same in-memory contents.
\<close>

theorem dadfs_create_then_lookup:
  assumes "quiet e" and "fs_wf s" and "unat (sb_inodes_count (DADFS_SB s)) < 64"
    and "dir_ok s dir" and "unat (dir_children_count dir) < 15" and "valid_name nm"
    and "S_ISDIR md \<or> S_ISREG md" and "lowest_free s k"
    and "nm \<notin> filename ` set (dirent_list s dir)"
  shows "\<exists>dir' v s' s''. dadfs_create_fs_object e dir nm md s = Inr (0, dir', Some v, s') \<and>
           dadfs_lookup e dir' nm s' = Inr (Some v, s'')"
proof -
  obtain j where j: "j < length (inode_list s)" "inode_list s ! j = dir"
    using assms(4) by (auto simp: dir_ok_def in_set_conv_nth)
  let ?s = "created s dir nm md k j (tick s + 14)" and ?new = "new_object s md k"
  let ?r = "\<lparr>filename = nm, rec_inode_no = inode_no ?new\<rparr>"
  note create = quiet_create [OF assms(1-8) j]
  have "find (\<lambda>r. filename r = nm) (dirent_list s dir) = None"
    using assms(9) by (auto simp: find_None_iff)
  then have rec: "find (\<lambda>r. filename r = nm) (dirent_list ?s (one_more_child dir)) = Some ?r"
    using dirent_list_created [OF assms(4-6)] by (simp add: find_append)
  have cnt: "unat (sb_inodes_count (DADFS_SB ?s)) \<le> 128"
    using assms(3) created_simps(1) [OF assms(4,3)] by (simp add: unat_word_ariths)
  have ch: "unat (dir_children_count (one_more_child dir)) \<le> 15"
    using assms(5) by (simp add: one_more_child_def dir_children_count_def unat_word_ariths)
  have "inode_no ?new \<notin> inode_no ` set ((inode_list s)[j := one_more_child dir])"
    using new_ino_fresh(1) [OF assms(2)] map_inode_no_update [OF j] by (metis set_map)
  then have "find (\<lambda>i. inode_no i = inode_no ?new) ((inode_list s)[j := one_more_child dir]) = None"
    by (auto simp: find_None_iff) (metis imageI)
  then have ino: "find (\<lambda>i. inode_no i = rec_inode_no ?r) (inode_list ?s) = Some ?new"
    by (simp add: inode_list_created [OF assms(4,3) j(1)] find_append)
  have "unat (rec_inode_no ?r) < 2 ^ 31"
    using new_ino_fresh(2) [OF assms(2), of md k] assms(3) by simp
  from lookup_present [OF assms(1,6) ch cnt rec this ino] create show ?thesis by auto
qed

theorem dadfs_create_then_lookup_witness:
  "\<exists>dir' v s' s''.
     dadfs_create_fs_object quiet_env root_dir (bytes_of ''f'') S_IFREG example_fs =
       Inr (0, dir', Some v, s') \<and> dadfs_lookup quiet_env dir' (bytes_of ''f'') s' = Inr (Some v, s'')"
proof -
  have nm: "valid_name (bytes_of ''f'')" by (simp add: valid_name_def) (simp add: bytes_of_def)
  have "bytes_of ''f'' \<notin> filename ` set (dirent_list example_fs root_dir)"
    by (simp add: example_root) (simp add: bytes_of_def)
  moreover have "unat (dir_children_count root_dir) < 15" "S_ISDIR S_IFREG \<or> S_ISREG S_IFREG"
    by (simp_all add: root_dir_def dir_children_count_def S_ISREG_def S_IFREG_def S_IFMT_def)
  ultimately show ?thesis
    using dadfs_create_then_lookup [OF quiet_quiet_env example_fs_wf _ example_dir_ok _ nm _
        example_lowest_free, of S_IFREG]
    by (simp add: example_sb)
qed

text \<open>
  C4. A created name is listed. Create an object in a directory and read the directory from
  position 0: the listing is the records the directory had, in their order, and then the new
  name with the number of the new inode. The position moves past the records, so that a second
  call lists nothing, and the variant for older kernels lists the same.
\<close>

theorem dadfs_create_then_list:
  assumes "quiet e" and "fs_wf s" and "unat (sb_inodes_count (DADFS_SB s)) < 64"
    and "dir_ok s dir" and "unat (dir_children_count dir) < 15" and "valid_name nm"
    and "S_ISDIR md \<or> S_ISREG md" and "lowest_free s k" and "S_ISDIR (mode dir)"
    and "\<forall>r \<in> set (dirent_list s dir). length (filename r) \<le> 255"
  shows "\<exists>dir' v s' es es' pos s''. dadfs_create_fs_object e dir nm md s = Inr (0, dir', Some v, s') \<and>
    dadfs_iterate e dir' 0 s' = Inr (0, es, pos, s'') \<and>
    map shown es = dirent_list s dir @ [\<lparr>filename = nm, rec_inode_no = i_ino v\<rparr>] \<and>
    pos \<noteq> 0 \<and> dadfs_iterate e dir' pos s'' = Inr (0, [], pos, s'') \<and>
    dadfs_readdir e dir' 0 s' = Inr (0, es', pos, s'') \<and> map (\<lambda>(nm, _, ino). (nm, ino)) es' = es"
proof -
  obtain j where j: "j < length (inode_list s)" "inode_list s ! j = dir"
    using assms(4) by (auto simp: dir_ok_def in_set_conv_nth)
  let ?s = "created s dir nm md k j (tick s + 14)" and ?d = "one_more_child dir"
  let ?pos = "of_nat (264 * unat (dir_children_count ?d)) :: 64 word"
  have c: "unat (dir_children_count ?d) = Suc (unat (dir_children_count dir))" "mode ?d = mode dir"
    using assms(5) by (simp_all add: one_more_child_def dir_children_count_def unat_word_ariths)
  note recs = dirent_list_created [OF assms(4-6), of md k j "tick s + 14"]
  have "length nm \<le> 255" using assms(6) by (simp add: valid_name_def)
  then have "\<forall>r \<in> set (dirent_list ?s ?d). length (filename r) \<le> 255"
    using assms(10) by (auto simp: recs)
  then obtain es where es: "dadfs_iterate e ?d 0 ?s = Inr (0, es, ?pos, tick1 ?s)"
    "map shown es = dirent_list ?s ?d"
    using iterate_lists [OF assms(1), of ?d ?s] assms(5,9) c by auto
  have "unat ?pos = 264 * Suc (unat (dir_children_count dir))"
    unfolding c unsigned_of_nat of_nat_id using assms(5) by (intro take_bit_nat_eq_self) simp
  then have pos: "?pos \<noteq> 0" by auto
  obtain es' where "dadfs_readdir e ?d 0 ?s = Inr (0, es', ?pos, tick1 ?s)"
    "map (\<lambda>(nm, _, ino). (nm, ino)) es' = es"
    using readdir_lists_as_iterate [of e ?d 0 ?s] es(1)
    by (cases "dadfs_readdir e ?d 0 ?s") auto
  moreover have "dadfs_iterate e ?d ?pos (tick1 ?s) = Inr (0, [], ?pos, tick1 ?s)"
    using pos by (simp add: dadfs_iterate_def)
  moreover have "i_ino (iget_inode (inode_no (new_object s md k)) (new_object s md k)) =
      inode_no (new_object s md k)"
    by (simp add: iget_inode_def)
  ultimately show ?thesis
    using quiet_create [OF assms(1-8) j] es pos unfolding recs by metis
qed

theorem dadfs_create_then_list_witness:
  "\<exists>dir' v s' es es' pos s''.
     dadfs_create_fs_object quiet_env root_dir (bytes_of ''f'') S_IFREG example_fs =
       Inr (0, dir', Some v, s') \<and>
     dadfs_iterate quiet_env dir' 0 s' = Inr (0, es, pos, s'') \<and>
     map shown es = [\<lparr>filename = bytes_of ''awordfromdad'', rec_inode_no = 3\<rparr>,
       \<lparr>filename = bytes_of ''f'', rec_inode_no = i_ino v\<rparr>] \<and>
     dadfs_readdir quiet_env dir' 0 s' = Inr (0, es', pos, s'')"
proof -
  have nm: "valid_name (bytes_of ''f'')" by (simp add: valid_name_def) (simp add: bytes_of_def)
  have "S_ISDIR S_IFREG \<or> S_ISREG S_IFREG" "S_ISDIR (mode root_dir)"
    "unat (dir_children_count root_dir) < 15"
    by (simp_all add: root_dir_def dir_children_count_def S_ISREG_def S_IFREG_def S_IFMT_def
        S_ISDIR_def S_IFDIR_def)
  moreover have "length (filename r) \<le> 255" if "r \<in> set (dirent_list example_fs root_dir)" for r
    using that valid_name_awordfromdad by (simp add: example_root valid_name_def)
  ultimately show ?thesis
    using dadfs_create_then_list [OF quiet_quiet_env example_fs_wf _ example_dir_ok _ nm _
        example_lowest_free, of S_IFREG]
    by (fastforce simp: example_sb example_root)
qed

text \<open>
  C6. Creating keeps the other names. A name other than the new one that the directory
  resolved before, to an inode other than the directory itself, resolves to the same VFS
  inode after the create call.
\<close>

theorem dadfs_create_keeps_other_names:
  assumes "quiet e" and "fs_wf s" and "unat (sb_inodes_count (DADFS_SB s)) < 64"
    and "dir_ok s dir" and "unat (dir_children_count dir) < 15" and "valid_name nm"
    and "S_ISDIR md \<or> S_ISREG md" and "lowest_free s k"
    and "valid_name nm'" and "nm' \<noteq> nm"
    and "find (\<lambda>r. filename r = nm') (dirent_list s dir) = Some r"
    and "find (\<lambda>i. inode_no i = rec_inode_no r) (inode_list s) = Some ino" and "ino \<noteq> dir"
  shows "\<exists>v w dir' s1 s' s''. dadfs_lookup e dir nm' s = Inr (Some v, s1) \<and>
    dadfs_create_fs_object e dir nm md s = Inr (0, dir', Some w, s') \<and>
    dadfs_lookup e dir' nm' s' = Inr (Some v, s'')"
proof -
  obtain j where j: "j < length (inode_list s)" "inode_list s ! j = dir"
    using assms(4) by (auto simp: dir_ok_def in_set_conv_nth)
  let ?s = "created s dir nm md k j (tick s + 14)"
  have cnt: "unat (sb_inodes_count (DADFS_SB s)) \<le> 128"
    "unat (sb_inodes_count (DADFS_SB ?s)) \<le> 128"
    using assms(3) created_simps(1) [OF assms(4,3)] by (simp_all add: unat_word_ariths)
  have ch: "unat (dir_children_count dir) \<le> 15"
    "unat (dir_children_count (one_more_child dir)) \<le> 15"
    using assms(5) by (simp_all add: one_more_child_def dir_children_count_def unat_word_ariths)
  have rec: "find (\<lambda>r. filename r = nm') (dirent_list ?s (one_more_child dir)) = Some r"
    using assms(11) dirent_list_created [OF assms(4-6)] by (simp add: find_append)
  have "find (\<lambda>i. inode_no i = rec_inode_no r) ((inode_list s)[j := one_more_child dir]) = Some ino"
    using j assms(12,13) by (intro find_list_update_other) auto
  then have ino: "find (\<lambda>i. inode_no i = rec_inode_no r) (inode_list ?s) = Some ino"
    by (simp add: inode_list_created [OF assms(4,3) j(1)] find_append)
  have "ino \<in> set (inode_list s)" "inode_no ino = rec_inode_no r"
    using assms(12) by (auto simp: find_Some_iff)
  then have small: "unat (rec_inode_no r) < 2 ^ 31"
    using assms(2,3) by (fastforce simp: fs_wf_def)
  from lookup_present [OF assms(1,9) ch(1) cnt(1) assms(11) small assms(12)]
    lookup_present [OF assms(1,9) ch(2) cnt(2) rec small ino] quiet_create [OF assms(1-8) j]
  show ?thesis by blast
qed

theorem dadfs_create_keeps_other_names_witness:
  "\<exists>v w dir' s1 s' s''.
     dadfs_lookup quiet_env root_dir (bytes_of ''awordfromdad'') example_fs = Inr (Some v, s1) \<and>
     dadfs_create_fs_object quiet_env root_dir (bytes_of ''f'') S_IFREG example_fs =
       Inr (0, dir', Some w, s') \<and>
     dadfs_lookup quiet_env dir' (bytes_of ''awordfromdad'') s' = Inr (Some v, s'')"
proof -
  have nm: "valid_name (bytes_of ''f'')" by (simp add: valid_name_def) (simp add: bytes_of_def)
  have "bytes_of ''awordfromdad'' \<noteq> bytes_of ''f''" by (simp add: bytes_of_def)
  moreover have "unat (dir_children_count root_dir) < 15" "S_ISDIR S_IFREG \<or> S_ISREG S_IFREG"
    by (simp_all add: root_dir_def dir_children_count_def S_ISREG_def S_IFREG_def S_IFMT_def)
  moreover have "find (\<lambda>i. inode_no i = 3) (inode_list example_fs) = Some welcome_ino"
    "welcome_ino \<noteq> root_dir"
    by (simp_all add: example_inodes root_dir_def journal_ino_def welcome_ino_def)
  ultimately show ?thesis
    using dadfs_create_keeps_other_names [OF quiet_quiet_env example_fs_wf _ example_dir_ok _ nm _
        example_lowest_free valid_name_awordfromdad, of S_IFREG
        "\<lparr>filename = bytes_of ''awordfromdad'', rec_inode_no = 3\<rparr>" welcome_ino]
    by (simp add: example_sb example_root)
qed

end
