(* ===== verification/Dadfs_File.thy ===== *)
theory Dadfs_File
  imports Dadfs_Dir
begin

unbundle bit_operations_syntax

text \<open>
  File contents of dadfs: \<open>dadfs_read\<close> and \<open>dadfs_write\<close> of \<open>base.c\<close>.

  \<open>dadfs_write\<close> is two functions in one text: the preprocessor chooses between the interface
  of kernels before 4.0 (\<open>dadfs_write_old\<close>: user buffer, length, position) and the one of
  later kernels (\<open>dadfs_write_iter\<close>: \<open>kiocb\<close> and \<open>iov_iter\<close>). The journal and
  the write checks are kernel code: their results are oracles of the environment \<open>jenv\<close>,
  indexed by the tick of the call as in \<open>Dadfs_Core\<close>. Besides the return value the model
  records the file position, the in-memory inode, whether the journal handle is still
  running when the call returns, and the state.
\<close>

section \<open>Environment\<close>

text \<open>
  \<open>write_checks t pos n\<close> is the result of \<open>generic_write_checks\<close> with the position and the
  count it leaves; \<open>copy_in t n\<close> the number of bytes a copy of \<open>n\<close> bytes from user space
  transfers. A \<open>journal_start\<close> of 0 is a handle, another value the error in it.
\<close>

record jenv = kenv +
  journal_start :: "nat \<Rightarrow> int"
  write_checks :: "nat \<Rightarrow> 64 word \<Rightarrow> nat \<Rightarrow> int \<times> 64 word \<times> nat"
  write_access :: "nat \<Rightarrow> int"
  copy_in :: "nat \<Rightarrow> nat \<Rightarrow> nat"
  dirty_metadata :: "nat \<Rightarrow> int"
  journal_stop :: "nat \<Rightarrow> int"

text \<open>The assignment of a 64-bit value to the variable \<open>int retval\<close>.\<close>

definition to_int32 :: "int \<Rightarrow> int" where
  "to_int32 r = sint (word_of_int r :: 32 word)"

lemma to_int32_id: "- (2 ^ 31) \<le> r \<Longrightarrow> r < 2 ^ 31 \<Longrightarrow> to_int32 r = r"
  by (simp add: to_int32_def signed_of_int signed_take_bit_int_eq_self)

section \<open>Reading\<close>

text \<open>
  The data always comes from the start of the block; the position only decides whether
  there is something to read. The result is the return value, the bytes delivered, the new
  position and the state.
\<close>

definition dadfs_read ::
  "('e kenv_scheme) \<Rightarrow> dadfs_inode \<Rightarrow> 64 word \<Rightarrow> 64 word \<Rightarrow> kfs \<Rightarrow>
   fault + (int \<times> byte list \<times> 64 word \<times> kfs)" where
  "dadfs_read e inode len pos s =
     (if file_size inode \<le> pos then Inr (0, [], pos, s)
      else
        case sb_bread e (unat (data_block_number inode)) s of
          (None, s) \<Rightarrow> Inr (0, [], pos, s)
        | (Some n, s) \<Rightarrow>
            let nbytes = ucast (min (file_size inode) len) :: 32 word;
                size = scast nbytes :: 64 word
            in if DADFS_DEFAULT_BLOCK_SIZE < unat size then Inl Out_of_bounds
               else if user_fault e (tick s) then Inr (- EFAULT, [], pos, tick1 s)
               else Inr (sint nbytes, get_bytes (bcache s n) 0 (unat size), pos + size, tick1 s))"

section \<open>Writing\<close>

text \<open>
  From the copied data to the return: the block goes to the journal and to the device, the
  size becomes the new position, the inode is saved. The result is 0 or the error, the
  in-memory inode, whether the handle is still running, and the state.
\<close>

definition write_commit ::
  "('e jenv_scheme) \<Rightarrow> dadfs_inode \<Rightarrow> 64 word \<Rightarrow> kfs \<Rightarrow>
   fault + (int \<times> dadfs_inode \<times> bool \<times> kfs)" where
  "write_commit e sfs_inode pos s =
     (let n = unat (data_block_number sfs_inode);
          r = dirty_metadata e (tick s); s = tick1 s
      in if r \<noteq> 0 then Inr (r, sfs_inode, True, s) else
      let r = journal_stop e (tick s); s = tick1 s
      in if r \<noteq> 0 then Inr (r, sfs_inode, False, s) else
      let s = sync_dirty_buffer n (mark_buffer_dirty n s) in
      bindE (mutex_lock_interruptible e Inodes_mgmt_lock s) (\<lambda>(intr, s).
      if intr then Inr (- EINTR, sfs_inode, False, s) else
      let sfs_inode = sfs_inode\<lparr>size_or_children := pos\<rparr> in
      bindE (dadfs_inode_save e sfs_inode s) (\<lambda>(r, s).
      bindE (mutex_unlock Inodes_mgmt_lock s) (\<lambda>s.
      Inr (r, sfs_inode, False, s)))))"

text \<open>
  Before 4.0. A short \<open>copy_from_user\<close> fills the rest of the destination with zeros before
  the call fails.
\<close>

definition dadfs_write_old ::
  "('e jenv_scheme) \<Rightarrow> byte list \<Rightarrow> 64 word \<Rightarrow> dadfs_inode \<Rightarrow> kfs \<Rightarrow>
   fault + (int \<times> 64 word \<times> dadfs_inode \<times> bool \<times> kfs)" where
  "dadfs_write_old e buf ppos sfs_inode s =
     (let h = journal_start e (tick s); s = tick1 s
      in if h \<noteq> 0 then Inr (h, ppos, sfs_inode, False, s) else
      let (r, ppos, len) = write_checks e (tick s) ppos (length buf);
          r = to_int32 r; s = tick1 s
      in if r \<noteq> 0 then Inr (r, ppos, sfs_inode, True, s) else
      case sb_bread e (unat (data_block_number sfs_inode)) s of
        (None, s) \<Rightarrow> Inr (0, ppos, sfs_inode, True, s)
      | (Some n, s) \<Rightarrow>
      let r = write_access e (tick s); s = tick1 s
      in if r \<noteq> 0 then Inr (r, ppos, sfs_inode, True, s) else
      if DADFS_DEFAULT_BLOCK_SIZE < unat ppos + len then Inl Out_of_bounds else
      let k = min (copy_in e (tick s) len) len; s = tick1 s;
          s = set_buffer n (put_bytes (bcache s n) (unat ppos)
                (take k buf @ replicate (len - k) 0)) s
      in if k < len then Inr (- EFAULT, ppos, sfs_inode, True, s) else
      let ppos = ppos + of_nat len in
      bindE (write_commit e sfs_inode ppos s) (\<lambda>(r, sfs_inode, running, s).
      Inr (if r \<noteq> 0 then r else int len, ppos, sfs_inode, running, s)))"

text \<open>
  From 4.0 on. \<open>copy_from_iter\<close> advances the iterator, so \<open>iov_iter->count\<close> is afterwards
  what has \<^emph>\<open>not\<close> been copied; the position and the return value use it all the same.
\<close>

definition dadfs_write_iter ::
  "('e jenv_scheme) \<Rightarrow> byte list \<Rightarrow> 64 word \<Rightarrow> dadfs_inode \<Rightarrow> kfs \<Rightarrow>
   fault + (int \<times> 64 word \<times> dadfs_inode \<times> bool \<times> kfs)" where
  "dadfs_write_iter e iov ki_pos sfs_inode s =
     (let h = journal_start e (tick s); s = tick1 s
      in if h \<noteq> 0 then Inr (h, ki_pos, sfs_inode, False, s) else
      let (r, ki_pos, count) = write_checks e (tick s) ki_pos (length iov);
          r = to_int32 r; s = tick1 s
      in if r \<noteq> 0 then Inr (r, ki_pos, sfs_inode, True, s) else
      case sb_bread e (unat (data_block_number sfs_inode)) s of
        (None, s) \<Rightarrow> Inr (0, ki_pos, sfs_inode, True, s)
      | (Some n, s) \<Rightarrow>
      let r = write_access e (tick s); s = tick1 s
      in if r \<noteq> 0 then Inr (r, ki_pos, sfs_inode, True, s) else
      let k = min (copy_in e (tick s) count) count; s = tick1 s
      in if k = 0 then Inr (- EFAULT, ki_pos, sfs_inode, True, s) else
      if DADFS_DEFAULT_BLOCK_SIZE < unat ki_pos + k then Inl Out_of_bounds else
      let s = set_buffer n (put_bytes (bcache s n) (unat ki_pos) (take k iov)) s;
          count = count - k; ki_pos = ki_pos + of_nat count
      in bindE (write_commit e sfs_inode ki_pos s) (\<lambda>(r, sfs_inode, running, s).
      Inr (if r \<noteq> 0 then r else int count, ki_pos, sfs_inode, running, s)))"

section \<open>Calls that do not fail\<close>

text \<open>
  \<open>quiet_journal\<close>: no service fails, and \<open>generic_write_checks\<close> accepts the request as it
  is, which before 4.0 it says with 0.
\<close>

definition quiet_journal :: "('e jenv_scheme) \<Rightarrow> bool" where
  "quiet_journal e \<longleftrightarrow>
     quiet e \<and> (\<forall>t. journal_start e t = 0 \<and> write_access e t = 0 \<and> dirty_metadata e t = 0 \<and>
       journal_stop e t = 0 \<and> (\<forall>n. copy_in e t n = n) \<and> (\<forall>p n. write_checks e t p n = (0, p, n)))"

text \<open>
  \<open>generic_write_checks\<close> of later kernels: a negative error, or the number of bytes left to
  write, at most \<open>MAX_RW_COUNT\<close>.
\<close>

definition write_checks_count :: "('e jenv_scheme) \<Rightarrow> bool" where
  "write_checks_count e \<longleftrightarrow>
     (\<forall>t p n. case write_checks e t p n of
        (r, _, n') \<Rightarrow> - 4095 \<le> r \<and> r < 0 \<or> r = int n' \<and> n' \<le> 0x7FFFF000)"

definition file_contents :: "kfs \<Rightarrow> dadfs_inode \<Rightarrow> byte list" where
  "file_contents s i = get_bytes (bcache s (unat (data_block_number i))) 0 (unat (file_size i))"

text \<open>An inode of the store whose data block is neither the super block nor the store.\<close>

definition file_ok :: "kfs \<Rightarrow> dadfs_inode \<Rightarrow> bool" where
  "file_ok s i \<longleftrightarrow> i \<in> set (inode_list s) \<and> unat (data_block_number i) \<noteq> 0 \<and>
                   unat (data_block_number i) \<noteq> 1"

lemma read_from_start:
  assumes "quiet e" and "pos < file_size inode" and "unat (file_size inode) \<le> 4096"
  shows "dadfs_read e inode len pos s =
    (let n = min (unat (file_size inode)) (unat len) in
     Inr (int n, take n (file_contents s inode), pos + of_nat n, s\<lparr>tick := tick s + 2\<rparr>))"
proof -
  define m where "m = min (file_size inode) len"
  have m: "unat m = min (unat (file_size inode)) (unat len)"
    by (auto simp: m_def min_def word_le_nat_alt)
  have small: "unat m \<le> 4096" using assms(3) m by simp
  have "unat m < 2 ^ 31" using small by simp
  from int_ino_id [OF this] have size: "scast (ucast m :: 32 word) = m" .
  have "uint m = int (unat m)" by simp
  with small have "uint m \<le> 4096" by linarith
  then have "sint (ucast m :: 32 word) = int (unat m)"
    using to_int32_id [of "uint m"] uint_ge_0 [of m] by (simp add: to_int32_def)
  moreover have "\<not> file_size inode \<le> pos" using assms(2) by simp
  ultimately show ?thesis
    using assms(1) small size
    by (simp add: dadfs_read_def sb_bread_def quiet_def Let_def m_def [symmetric] m [symmetric]
        dadfs_consts file_contents_def)
      (simp add: get_bytes_def take_map m)
qed


lemma quiet_write_commit:
  assumes "quiet_journal e" and "\<not> held s Sb_lock" and "\<not> held s Inodes_mgmt_lock"
    and "unat (sb_inodes_count (DADFS_SB s)) < 128" and "n = unat (data_block_number i)"
    and "n \<noteq> 0" and "n \<noteq> 1"
    and "find (\<lambda>j. inode_no (inode_at (bcache s 1) j) = inode_no i)
           [0..<unat (sb_inodes_count (DADFS_SB s))] = Some k"
  shows "write_commit e i pos s =
    (let i' = i\<lparr>size_or_children := pos\<rparr>; st = put_inode (bcache s 1) k i' in
     Inr (0, i', False, s\<lparr>bcache := (bcache s)(1 := st), bdirty := (bdirty s)(n := False, 1 := False),
       disk := (disk s)(n := bcache s n, 1 := st), tick := tick s + 5\<rparr>))"
proof -
  have "quiet e" and ok: "dirty_metadata e t = 0" "journal_stop e t = 0" for t
    using assms(1) by (auto simp: quiet_journal_def)
  then show ?thesis
    using assms(2-8)
    by (simp add: write_commit_def Let_def step_simps mark_buffer_dirty_def sync_dirty_buffer_def
        fun_upd_idem fun_upd_twist)
qed

lemma store_slot:
  assumes "fs_wf s" and "j < length (inode_list s)" and "inode_list s ! j = i"
  shows "find (\<lambda>k. inode_no (inode_at (bcache s 1) k) = inode_no i)
           [0..<unat (sb_inodes_count (DADFS_SB s))] = Some j"
proof -
  have len: "length (inode_list s) = unat (sb_inodes_count (DADFS_SB s))"
    by (simp add: inode_list_def)
  have nth: "inode_at (bcache s 1) k = inode_list s ! k" if "k < length (inode_list s)" for k
    using that by (simp add: inode_list_def dadfs_consts)
  have "inode_no (inode_list s ! k) \<noteq> inode_no i" if "k < j" for k
    using that assms by (auto simp: fs_wf_def distinct_conv_nth)
  with assms(2,3) nth len show ?thesis
    by (intro find_upt_SomeI) auto
qed

text \<open>The state a complete write leaves, with the inode in slot \<open>j\<close> of the store.\<close>

definition written :: "kfs \<Rightarrow> dadfs_inode \<Rightarrow> byte list \<Rightarrow> 64 word \<Rightarrow> nat \<Rightarrow> kfs" where
  "written s i bs pos j =
     (let n = unat (data_block_number i); b = put_bytes (bcache s n) (unat pos) bs;
          st = put_inode (bcache s 1) j (i\<lparr>size_or_children := pos + of_nat (length bs)\<rparr>)
      in s\<lparr>bcache := (bcache s)(n := b, 1 := st), bdirty := (bdirty s)(n := False, 1 := False),
           disk := (disk s)(n := b, 1 := st), tick := tick s + 10\<rparr>)"

lemma quiet_write_old:
  assumes "quiet_journal e" and "fs_wf s" and "file_ok s i"
    and "j < length (inode_list s)" and "inode_list s ! j = i"
    and "unat pos + length bs \<le> 4096"
  shows "dadfs_write_old e bs pos i s =
    Inr (int (length bs), pos + of_nat (length bs),
         i\<lparr>size_or_children := pos + of_nat (length bs)\<rparr>, False, written s i bs pos j)"
proof -
  let ?n = "unat (data_block_number i)"
  let ?s = "s\<lparr>tick := Suc (Suc (Suc (Suc (Suc (tick s))))),
    bcache := (bcache s)(?n := put_bytes (bcache s ?n) (unat pos) bs)\<rparr>"
  have q: "quiet e" "\<And>t. journal_start e t = 0" "\<And>t. write_access e t = 0"
    "\<And>t n. copy_in e t n = n" "\<And>t p n. write_checks e t p n = (0, p, n)"
    using assms(1) by (auto simp: quiet_journal_def)
  have n: "?n \<noteq> 0" "?n \<noteq> 1" using assms(3) by (simp_all add: file_ok_def)
  have sb: "DADFS_SB ?s = DADFS_SB s" using n by (simp add: DADFS_SB_def dadfs_consts)
  have slot: "find (\<lambda>k. inode_no (inode_at (bcache ?s 1) k) = inode_no i)
      [0..<unat (sb_inodes_count (DADFS_SB ?s))] = Some j"
    unfolding sb using store_slot [OF assms(2,4,5)] n by simp
  have locks: "\<not> held ?s Sb_lock" "\<not> held ?s Inodes_mgmt_lock"
    and cnt: "unat (sb_inodes_count (DADFS_SB ?s)) < 128"
    unfolding sb using assms(2) by (simp_all add: fs_wf_def unlocked_def dadfs_consts)
  have "to_int32 0 = 0" by (simp add: to_int32_def)
  then show ?thesis
    using q assms(6) quiet_write_commit [OF assms(1) locks cnt refl n slot]
    by (simp add: dadfs_write_old_def Let_def sb_bread_def quiet_def set_buffer_def dadfs_consts)
      (use n in \<open>simp add: written_def Let_def fun_upd_twist\<close>)
qed

lemma inode_list_written:
  assumes "file_ok s i" and "j < length (inode_list s)"
  shows "inode_list (written s i bs pos j) =
    (inode_list s)[j := i\<lparr>size_or_children := pos + of_nat (length bs)\<rparr>]"
  using assms
  by (intro inode_list_save) (auto simp: written_def Let_def file_ok_def inode_list_def)

lemma fs_wf_written:
  assumes "fs_wf s" and "file_ok s i" and "j < length (inode_list s)" and "inode_list s ! j = i"
  shows "fs_wf (written s i bs pos j)"
proof -
  let ?s = "written s i bs pos j"
  have sb: "DADFS_SB ?s = DADFS_SB s" and held: "held ?s = held s"
    using assms(2) by (simp_all add: written_def Let_def DADFS_SB_def file_ok_def dadfs_consts)
  have inos: "map inode_no (inode_list ?s) = map inode_no (inode_list s)"
    using assms(3,4) by (simp add: inode_list_written [OF assms(2,3)] map_update list_update_same_conv)
  have "unat (inode_no x) < unat (sb_inodes_count (DADFS_SB s)) + 8"
    if "x \<in> set (inode_list ?s)" for x
  proof -
    have "inode_no x \<in> inode_no ` set (inode_list s)"
      using that inos by (metis imageI set_map)
    with assms(1) show ?thesis by (auto simp: fs_wf_def)
  qed
  then show ?thesis
    using assms(1) inos unfolding fs_wf_def sb unlocked_def held by auto
qed

lemma file_contents_written:
  assumes "file_ok s i" and "unat pos + length bs \<le> 4096"
  shows "file_contents (written s i bs pos j) (i\<lparr>size_or_children := pos + of_nat (length bs)\<rparr>) =
    get_bytes (bcache s (unat (data_block_number i))) 0 (unat pos) @ bs"
proof -
  have "unat (pos + of_nat (length bs)) = unat pos + length bs"
    using assms(2) by (simp add: unat_word_ariths unat_of_nat take_bit_nat_eq_self)
  then show ?thesis
    using assms(1)
    by (auto simp: file_contents_def file_size_def written_def Let_def file_ok_def get_bytes_def
        put_bytes_def intro!: nth_equalityI simp: nth_append)
qed

section \<open>A concrete environment\<close>

definition quiet_jenv :: jenv where
  "quiet_jenv = kenv.extend quiet_env
     (jenv.fields (\<lambda>_. 0) (\<lambda>_ p n. (0, p, n)) (\<lambda>_. 0) (\<lambda>_ n. n) (\<lambda>_. 0) (\<lambda>_. 0))"

definition counting_jenv :: jenv where
  "counting_jenv = quiet_jenv\<lparr>write_checks := (\<lambda>_ p n. (int (min n 0x7FFFF000), p, min n 0x7FFFF000))\<rparr>"

lemmas jenv_defs = quiet_jenv_def counting_jenv_def quiet_env_def kenv.defs jenv.defs

lemma quiet_quiet_jenv: "quiet_journal quiet_jenv" "quiet quiet_jenv"
  by (simp_all add: quiet_journal_def quiet_def jenv_defs)

lemma write_checks_count_jenv: "write_checks_count counting_jenv"
  by (simp add: write_checks_count_def jenv_defs)

lemma example_file_ok: "file_ok example_fs welcome_ino"
  by (simp add: file_ok_def example_inodes) (simp add: welcome_ino_def)

section \<open>Properties\<close>

text \<open>
  C7. A write before 4.0 splices the block and truncates the file. On a well-formed file
  system with no failing service, writing \<open>bs\<close> at \<open>pos\<close> inside one block returns the
  length, advances the position, makes the contents the block's first \<open>pos\<close> bytes followed
  by \<open>bs\<close> (so a shorter rewrite truncates), replaces the inode in the store, has data and
  store on the device, touches no other block, stops the handle and keeps the file system
  well formed.
\<close>

theorem dadfs_write_refines_splice:
  assumes "quiet_journal e" and "fs_wf s" and "file_ok s i" and "unat pos + length bs \<le> 4096"
  shows "\<exists>s' i' j. i' = i\<lparr>size_or_children := pos + of_nat (length bs)\<rparr> \<and>
    dadfs_write_old e bs pos i s =
      Inr (int (length bs), pos + of_nat (length bs), i', False, s') \<and>
    j < length (inode_list s) \<and> inode_list s ! j = i \<and> inode_list s' = (inode_list s)[j := i'] \<and>
    file_contents s' i' = get_bytes (bcache s (unat (data_block_number i))) 0 (unat pos) @ bs \<and>
    (\<forall>n. n \<noteq> 1 \<and> n \<noteq> unat (data_block_number i) \<longrightarrow> bcache s' n = bcache s n) \<and>
    disk s' 1 = bcache s' 1 \<and>
    disk s' (unat (data_block_number i)) = bcache s' (unat (data_block_number i)) \<and> fs_wf s'"
proof -
  obtain j where j: "j < length (inode_list s)" "inode_list s ! j = i"
    using assms(3) by (auto simp: file_ok_def in_set_conv_nth)
  have blocks: "(\<forall>n. n \<noteq> 1 \<and> n \<noteq> unat (data_block_number i) \<longrightarrow>
      bcache (written s i bs pos j) n = bcache s n)"
    "disk (written s i bs pos j) 1 = bcache (written s i bs pos j) 1"
    "disk (written s i bs pos j) (unat (data_block_number i)) =
      bcache (written s i bs pos j) (unat (data_block_number i))"
    by (simp_all add: written_def Let_def)
  show ?thesis
    by (intro exI [of _ "written s i bs pos j"] exI [of _ j]
        exI [of _ "i\<lparr>size_or_children := pos + of_nat (length bs)\<rparr>"]
        conjI refl j blocks quiet_write_old [OF assms(1-3) j assms(4)]
        inode_list_written [OF assms(3) j(1)] file_contents_written [OF assms(3,4)]
        fs_wf_written [OF assms(2,3) j])
qed

theorem dadfs_write_refines_splice_witness:
  "\<exists>s'. dadfs_write_old quiet_jenv [1, 2, 3] 0 welcome_ino example_fs =
      Inr (3, 3, welcome_ino\<lparr>size_or_children := 3\<rparr>, False, s') \<and>
    file_contents s' (welcome_ino\<lparr>size_or_children := 3\<rparr>) = [1, 2, 3]"
  using dadfs_write_refines_splice [OF quiet_quiet_jenv(1) example_fs_wf example_file_ok,
      of 0 "[1, 2, 3]"]
  by (auto simp: get_bytes_def)

text \<open>
  C5. Write, then read back. What a write from position 0 stores before 4.0, a read from
  position 0 with a large enough buffer returns, byte for byte, and the next read reports
  the end of the file.
\<close>

theorem dadfs_write_then_read:
  assumes "quiet_journal e" and "fs_wf s" and "file_ok s i" and "length bs \<le> 4096" and "bs \<noteq> []"
    and "length bs \<le> unat len"
  shows "\<exists>pos' i' s' s''. dadfs_write_old e bs 0 i s = Inr (int (length bs), pos', i', False, s') \<and>
    dadfs_read e i' len 0 s' = Inr (int (length bs), bs, pos', s'') \<and>
    dadfs_read e i' len pos' s'' = Inr (0, [], pos', s'')"
proof -
  obtain j where j: "j < length (inode_list s)" "inode_list s ! j = i"
    using assms(3) by (auto simp: file_ok_def in_set_conv_nth)
  let ?i = "i\<lparr>size_or_children := of_nat (length bs)\<rparr>" and ?s = "written s i bs 0 j"
  have size: "unat (file_size ?i) = length bs"
    using assms(4) by (simp add: file_size_def unat_of_nat take_bit_nat_eq_self)
  have "file_contents ?s ?i = bs"
    using file_contents_written [OF assms(3), of 0 bs j] assms(4) by (simp add: get_bytes_def)
  moreover have "0 < file_size ?i"
    using size assms(5) by (metis length_0_conv unat_0 word_gt_0)
  moreover have "quiet e" using assms(1) by (simp add: quiet_journal_def)
  ultimately have "dadfs_read e ?i len 0 ?s =
      Inr (int (length bs), bs, of_nat (length bs), ?s\<lparr>tick := tick ?s + 2\<rparr>)"
    using read_from_start [of e 0 ?i len ?s] size assms(4,6) by (simp add: Let_def)
  moreover have "dadfs_read e ?i len (of_nat (length bs)) t = Inr (0, [], of_nat (length bs), t)" for t
    by (simp add: dadfs_read_def file_size_def)
  ultimately show ?thesis
    using quiet_write_old [OF assms(1-3) j, of 0 bs] assms(4) by auto
qed

theorem dadfs_write_then_read_witness:
  "\<exists>pos' i' s' s''.
    dadfs_write_old quiet_jenv [72, 105] 0 welcome_ino example_fs = Inr (2, pos', i', False, s') \<and>
    dadfs_read quiet_jenv i' 100 0 s' = Inr (2, [72, 105], pos', s'') \<and>
    dadfs_read quiet_jenv i' 100 pos' s'' = Inr (0, [], pos', s'')"
  using dadfs_write_then_read [OF quiet_quiet_jenv(1) example_fs_wf example_file_ok,
      of "[72, 105]" 100]
  by simp

text \<open>
  A read ignores the position. While the position lies before the end of the file, a
  read returns the first bytes of the file whatever the position is; so two successive
  reads of \<open>len\<close> bytes return the same bytes although the position has moved by \<open>len\<close>.
\<close>

theorem dadfs_read_ignores_position:
  assumes "quiet e" and "unat (file_size i) \<le> 4096" and "unat pos + unat len < unat (file_size i)"
  shows "\<exists>s' s''. dadfs_read e i len pos s =
      Inr (int (unat len), take (unat len) (file_contents s i), pos + len, s') \<and>
    dadfs_read e i len (pos + len) s' =
      Inr (int (unat len), take (unat len) (file_contents s i), pos + len + len, s'')"
proof -
  have sum: "unat (pos + len) = unat pos + unat len"
    using assms(2,3) by (simp add: unat_word_ariths)
  have lt: "pos < file_size i" "pos + len < file_size i"
    using assms(3) by (simp_all add: word_less_nat_alt sum)
  have "min (unat (file_size i)) (unat len) = unat len" using assms(3) by simp
  then show ?thesis
    using read_from_start [OF assms(1) lt(1) assms(2), of len s]
      read_from_start [OF assms(1) lt(2) assms(2), of len "s\<lparr>tick := tick s + 2\<rparr>"]
    by (simp add: Let_def) (simp add: file_contents_def)
qed

theorem dadfs_read_ignores_position_witness:
  "\<exists>s' s''. dadfs_read quiet_env welcome_ino 10 0 example_fs =
      Inr (10, take 10 (file_contents example_fs welcome_ino), 10, s') \<and>
    dadfs_read quiet_env welcome_ino 10 10 s' =
      Inr (10, take 10 (file_contents example_fs welcome_ino), 20, s'')"
  using dadfs_read_ignores_position [OF quiet_quiet_env, of welcome_ino 0 10 example_fs]
  by (simp add: welcome_ino_def file_size_def)

text \<open>
  C10. From 4.0 on nothing is ever written. When \<open>generic_write_checks\<close> returns the
  number of bytes left, as its kernels document, the test \<open>if (retval)\<close> takes success for
  failure: whatever else happens, a write that returns leaves every buffer, the device and
  the inode as they were, and the journal handle, if it was started, is left running.
\<close>

theorem dadfs_write_iter_never_writes:
  assumes "write_checks_count e" and "dadfs_write_iter e iov pos i s = Inr (ret, pos', i', running, s')"
  shows "bcache s' = bcache s \<and> disk s' = disk s \<and> i' = i \<and>
    running = (journal_start e (tick s) = 0)"
proof -
  obtain r p n where chk: "write_checks e (Suc (tick s)) pos (length iov) = (r, p, n)"
    by (cases "write_checks e (Suc (tick s)) pos (length iov)")
  have "- 4095 \<le> r \<and> r < 0 \<or> r = int n \<and> n \<le> 0x7FFFF000"
    using assms(1) chk unfolding write_checks_count_def by (metis (mono_tags, lifting) case_prod_conv)
  then have "to_int32 r = r" by (intro to_int32_id) auto
  moreover have "n = 0" if "r = 0" using that \<open>- 4095 \<le> r \<and> r < 0 \<or> r = int n \<and> _\<close> by auto
  ultimately show ?thesis
    using assms(2) chk
    by (auto simp: dadfs_write_iter_def Let_def sb_bread_def split: if_splits)
qed

theorem dadfs_write_iter_never_writes_witness:
  "\<exists>ret pos' i' running s'.
    dadfs_write_iter counting_jenv [1, 2, 3] 0 welcome_ino example_fs =
      Inr (ret, pos', i', running, s') \<and> bcache s' = bcache example_fs \<and> ret = 3 \<and> running"
proof -
  have "\<exists>s'. dadfs_write_iter counting_jenv [1, 2, 3] 0 welcome_ino example_fs =
      Inr (3, 0, welcome_ino, True, s')"
    by (simp add: dadfs_write_iter_def Let_def jenv_defs to_int32_id)
  then show ?thesis
    using dadfs_write_iter_never_writes [OF write_checks_count_jenv] by blast
qed

end
