(* ===== verification/Dadfs_Mount.thy ===== *)
theory Dadfs_Mount
  imports Dadfs_File
begin

unbundle bit_operations_syntax

text \<open>
  Mounting and unmounting dadfs (\<open>base.c\<close>): the journal set-up, the mount options,
  \<open>dadfs_fill_super\<close> and \<open>dadfs_put_super\<close>.

  The module keeps its journal pointer in the super block buffer itself, so loading a
  journal writes the pointer into the buffer of block 0. The parser of single options, path
  lookup, block devices and the journal are kernel code and enter as oracles of \<open>menv\<close>.
\<close>

section \<open>Environment\<close>

datatype opt_token = Opt_journal_dev "byte list" | Opt_journal_path "byte list"

text \<open>
  \<open>match_token\<close> gives the entry of the option table an option matches, with the argument
  substring, or nothing; \<open>kern_path\<close> an error or the mode, device number and VFS inode of
  the path. A journal pointer of 0 is null.
\<close>

record menv = kenv +
  match_token :: "byte list \<Rightarrow> opt_token option"
  match_int :: "byte list \<Rightarrow> int option"
  strdup_fails :: "nat \<Rightarrow> bool"
  kern_path :: "nat \<Rightarrow> byte list \<Rightarrow> int + (32 word \<times> int \<times> vfs_inode)"
  blkdev_get_fails :: "nat \<Rightarrow> int \<Rightarrow> bool"
  journal_init_dev :: "nat \<Rightarrow> 64 word"
  journal_init_inode :: "nat \<Rightarrow> vfs_inode \<Rightarrow> 64 word"
  journal_load :: "nat \<Rightarrow> 64 word \<Rightarrow> int"
  make_root_fails :: "nat \<Rightarrow> bool"

definition set_journal :: "64 word \<Rightarrow> kfs \<Rightarrow> kfs" where
  "set_journal j s =
     set_buffer DADFS_SUPERBLOCK_BLOCK_NUMBER (set_sb_journal j (DADFS_SB s)) s"

section \<open>Loading the journal\<close>

definition dadfs_load_journal :: "('e menv_scheme) \<Rightarrow> int \<Rightarrow> kfs \<Rightarrow> int \<times> kfs" where
  "dadfs_load_journal e devnum s =
     (let s1 = tick1 s; j = journal_init_dev e (tick s1); s2 = tick1 s1 in
      if blkdev_get_fails e (tick s) devnum then (1, s1)
      else if j = 0 then (1, s2) else (0, set_journal j s2))"

definition dadfs_sb_load_journal :: "('e menv_scheme) \<Rightarrow> vfs_inode \<Rightarrow> kfs \<Rightarrow> int \<times> kfs" where
  "dadfs_sb_load_journal e inode s =
     (let j = journal_init_inode e (tick s) inode; s = tick1 s in
      if j = 0 then (1, s) else (0, set_journal j s))"

section \<open>Mount options\<close>

text \<open>\<open>strsep\<close> with the separator \<open>','\<close> (byte 44): the pieces, empty ones included.\<close>

fun strsep_comma :: "byte list \<Rightarrow> byte list list" where
  "strsep_comma [] = [[]]"
| "strsep_comma (c # cs) =
     (if c = 44 then [] # strsep_comma cs
      else case strsep_comma cs of p # ps \<Rightarrow> (c # p) # ps | [] \<Rightarrow> [[c]])"

text \<open>
  One option. The option table has no terminating entry, so matching an option that neither
  pattern matches reads past the table. When the journal path is not found the function
  goes on with the uninitialised \<open>path\<close>.
\<close>

definition dadfs_parse_option :: "('e menv_scheme) \<Rightarrow> byte list \<Rightarrow> kfs \<Rightarrow> fault + (int \<times> kfs)" where
  "dadfs_parse_option e p s =
     (case match_token e p of
        None \<Rightarrow> Inl Out_of_bounds
      | Some (Opt_journal_dev a) \<Rightarrow>
          (case match_int e a of
             None \<Rightarrow> Inr (1, s)
           | Some arg \<Rightarrow> Inr (dadfs_load_journal e arg s))
      | Some (Opt_journal_path a) \<Rightarrow>
          if strdup_fails e (tick s) then Inl Bug_on else
          let s = tick1 s in
          case kern_path e (tick s) a of
            Inl _ \<Rightarrow> Inl Uninitialised
          | Inr (md, rdev, inode) \<Rightarrow>
              let s = tick1 s in
              if S_ISBLK md then Inr (dadfs_load_journal e rdev s)
              else Inr (dadfs_sb_load_journal e inode s))"

fun parse_pieces :: "('e menv_scheme) \<Rightarrow> byte list list \<Rightarrow> kfs \<Rightarrow> fault + (int \<times> kfs)" where
  "parse_pieces e [] s = Inr (0, s)"
| "parse_pieces e (p # ps) s =
     (if p = [] then parse_pieces e ps s
      else bindE (dadfs_parse_option e p s) (\<lambda>(ret, s).
        if ret \<noteq> 0 then Inr (ret, s) else parse_pieces e ps s))"

text \<open>\<open>options\<close> is a C string or null.\<close>

definition dadfs_parse_options ::
  "('e menv_scheme) \<Rightarrow> byte list option \<Rightarrow> kfs \<Rightarrow> fault + (int \<times> kfs)" where
  "dadfs_parse_options e options s =
     (case options of None \<Rightarrow> Inr (0, s) | Some cs \<Rightarrow> parse_pieces e (strsep_comma cs) s)"

section \<open>Filling and putting the super block\<close>

text \<open>The result is the return value, \<open>sb->s_root\<close> and the state.\<close>

definition dadfs_fill_super ::
  "('e menv_scheme) \<Rightarrow> byte list option \<Rightarrow> kfs \<Rightarrow> fault + (int \<times> vfs_inode option \<times> kfs)" where
  "dadfs_fill_super e data s =
     bindE (sb_bread_or_bug e DADFS_SUPERBLOCK_BLOCK_NUMBER s) (\<lambda>s.
     if sb_magic (DADFS_SB s) \<noteq> DADFS_MAGIC then Inr (- EPERM, None, s)
     else if sb_block_size (DADFS_SB s) \<noteq> of_nat DADFS_DEFAULT_BLOCK_SIZE
     then Inr (- EPERM, None, s)
     else
     let s = set_journal 0 s in
     if new_inode_fails e (tick s) then Inl Null_deref else
     bindE (dadfs_get_inode e DADFS_ROOTDIR_INODE_NUMBER (tick1 s)) (\<lambda>(priv, s).
     let root = \<lparr>i_ino = DADFS_ROOTDIR_INODE_NUMBER, i_fop = Some Dir_operations,
                 i_private = priv\<rparr>;
         failed = make_root_fails e (tick s); s = tick1 s
     in if failed then Inr (- ENOMEM, None, s) else
     bindE (dadfs_parse_options e data s) (\<lambda>(ret, s).
     if ret \<noteq> 0 then Inr (ret, Some root, s)
     else if sb_journal (DADFS_SB s) = 0 then
       bindE (dadfs_iget e (ucast DADFS_JOURNAL_INODE_NUMBER) s) (\<lambda>(inode, s).
       let (ret, s) = dadfs_sb_load_journal e inode s in Inr (ret, Some root, s))
     else Inr (journal_load e (tick s) (sb_journal (DADFS_SB s)), Some root, tick1 s))))"

text \<open>\<open>dadfs_put_super\<close>; a failing \<open>jbd2_journal_destroy\<close> only warns.\<close>

definition dadfs_put_super :: "kfs \<Rightarrow> kfs" where
  "dadfs_put_super s = set_journal 0 (if sb_journal (DADFS_SB s) \<noteq> 0 then tick1 s else s)"

section \<open>Lemmas\<close>

lemma set_journal_simps [simp]:
  "DADFS_SB (set_journal j s) = set_sb_journal j (DADFS_SB s)"
  "held (set_journal j s) = held s" "tick (set_journal j s) = tick s"
  "disk (set_journal j s) = disk s" "bdirty (set_journal j s) = bdirty s"
  "n \<noteq> 0 \<Longrightarrow> bcache (set_journal j s) n = bcache s n"
  by (simp_all add: set_journal_def DADFS_SB_def dadfs_consts)

lemma inode_list_set_journal [simp]: "inode_list (set_journal j s) = inode_list s"
  by (simp add: inode_list_def heap_simps dadfs_consts)

lemma fs_wf_tick [simp]: "fs_wf (s\<lparr>tick := t\<rparr>) = fs_wf s"
  by (simp add: fs_wf_def unlocked_def)

lemma fs_wf_set_journal [simp]: "fs_wf (set_journal j s) = fs_wf s"
  by (simp add: fs_wf_def unlocked_def heap_simps)

lemma strsep_comma_nonempty: "strsep_comma cs \<noteq> []"
  by (induction cs) (auto split: list.splits)

text \<open>Splitting at commas and joining with commas are inverse to each other.\<close>

fun join_comma :: "byte list list \<Rightarrow> byte list" where
  "join_comma [] = []"
| "join_comma [p] = p"
| "join_comma (p # q # ps) = p @ 44 # join_comma (q # ps)"

lemma join_strsep_comma: "join_comma (strsep_comma cs) = cs"
proof (induction cs)
  case Nil
  then show ?case by simp
next
  case (Cons c cs)
  obtain p ps where "strsep_comma cs = p # ps"
    using strsep_comma_nonempty by (meson list.exhaust)
  with Cons show ?case by (cases ps) auto
qed

lemma strsep_comma_no_comma: "p \<in> set (strsep_comma cs) \<Longrightarrow> 44 \<notin> set p"
proof (induction cs arbitrary: p)
  case Nil
  then show ?case by simp
next
  case (Cons c cs)
  obtain q qs where "strsep_comma cs = q # qs"
    using strsep_comma_nonempty by (meson list.exhaust)
  with Cons show ?case by (auto split: if_splits)
qed

text \<open>
  A mount without options and without failures: the root directory comes from the store,
  the journal from inode 2.
\<close>

lemma quiet_fill_super:
  assumes "quiet e" and "\<And>t. \<not> make_root_fails e t" and "\<And>t i. journal_init_inode e t i \<noteq> 0"
    and "sb_magic (DADFS_SB s) = DADFS_MAGIC" and "sb_block_size (DADFS_SB s) = 4096"
    and "unat (sb_inodes_count (DADFS_SB s)) \<le> 128"
    and "find (\<lambda>i. inode_no i = 1) (inode_list s) = r"
    and "find (\<lambda>i. inode_no i = 2) (inode_list s) = Some ji"
  obtains j t where "dadfs_fill_super e None s =
      Inr (0, Some \<lparr>i_ino = 1, i_fop = Some Dir_operations, i_private = r\<rparr>,
           set_journal j (s\<lparr>tick := t\<rparr>))" and "j \<noteq> 0"
proof -
  define s1 where "s1 = set_journal 0 (s\<lparr>tick := Suc (Suc (tick s))\<rparr>)"
  have s1: "tick1 (set_journal 0 (tick1 s)) = s1"
    by (simp add: s1_def set_journal_def set_buffer_def)
  have cnt: "unat (sb_inodes_count (DADFS_SB s1)) \<le> 128" and il: "inode_list s1 = inode_list s"
    using assms(6) by (simp_all add: s1_def heap_simps)
  obtain t where t: "dadfs_get_inode e 1 s1 = Inr (r, s1\<lparr>tick := t\<rparr>)"
    using get_inode_refines [OF assms(1) cnt, of 1] assms(7) il by auto
  define s2 where "s2 = s1\<lparr>tick := Suc t\<rparr>"
  have "scast (ucast (2 :: 64 word) :: 32 word) = (2 :: 64 word)" by (intro int_ino_id) simp
  moreover obtain t' where "dadfs_iget e (ucast (2 :: 64 word)) s2 =
      Inr (iget_inode (scast (ucast (2 :: 64 word) :: 32 word)) ji, s2\<lparr>tick := t'\<rparr>)"
    using quiet_iget [of e s2 "ucast (2 :: 64 word)" ji] assms(1,8) cnt il calculation
    by (auto simp: s2_def)
  ultimately have iget: "dadfs_iget e (ucast (2 :: 64 word)) s2 = Inr (iget_inode 2 ji, s2\<lparr>tick := t'\<rparr>)"
    by simp
  define j where "j = journal_init_inode e t' (iget_inode 2 ji)"
  have "set_journal j (s1\<lparr>tick := u\<rparr>) = set_journal j (s\<lparr>tick := u\<rparr>)" for u
    by (simp add: s1_def set_journal_def set_buffer_def DADFS_SB_def set_sb_journal_def)
  moreover have "sb_journal (DADFS_SB s2) = 0" by (simp add: s2_def s1_def heap_simps)
  moreover have "j \<noteq> 0" by (simp add: j_def assms(3))
  ultimately show ?thesis
    using assms(1-5) t iget s1 that
    by (auto simp: dadfs_fill_super_def step_simps quiet_def Let_def dadfs_parse_options_def
        DADFS_ROOTDIR_INODE_NUMBER_def DADFS_JOURNAL_INODE_NUMBER_def
        DADFS_DEFAULT_BLOCK_SIZE_def s2_def dadfs_sb_load_journal_def j_def)
qed

section \<open>Properties\<close>

definition mount_env :: menv where
  "mount_env = kenv.extend quiet_env
     (menv.fields (\<lambda>p. Some (Opt_journal_path p)) (\<lambda>_. None) (\<lambda>_. False)
       (\<lambda>_ _. Inl (- 2)) (\<lambda>_ _. False) (\<lambda>_. 0xFF00) (\<lambda>_ _. 0xFF00) (\<lambda>_ _. 0) (\<lambda>_. False))"

lemmas mount_env_defs = mount_env_def quiet_env_def kenv.defs menv.defs

lemma quiet_mount_env: "quiet mount_env"
  by (simp add: quiet_def mount_env_defs)

text \<open>
  Only a dadfs device is mounted. When the super block can be read but its magic number
  or its block size is not the one of dadfs, the mount fails with \<open>-EPERM\<close>, has no root and
  changes no buffer and no block of the device.
\<close>

theorem dadfs_mount_rejects_foreign:
  assumes "\<not> bread_fails e (tick s) 0"
    and "sb_magic (DADFS_SB s) \<noteq> DADFS_MAGIC \<or> sb_block_size (DADFS_SB s) \<noteq> 4096"
  shows "dadfs_fill_super e opts s = Inr (- EPERM, None, tick1 s)"
  using assms
  by (auto simp: dadfs_fill_super_def sb_bread_or_bug_def sb_bread_def DADFS_DEFAULT_BLOCK_SIZE_def
      DADFS_SUPERBLOCK_BLOCK_NUMBER_def)

theorem dadfs_mount_rejects_foreign_witness:
  "dadfs_fill_super mount_env None (example_fs\<lparr>bcache := (\<lambda>_ _. 0)\<rparr>) =
     Inr (- EPERM, None, tick1 (example_fs\<lparr>bcache := (\<lambda>_ _. 0)\<rparr>))"
proof -
  have "le_get 8 (\<lambda>_. 0) k = 0" for k by (simp add: numeral_eq_Suc)
  then have "sb_block_size (DADFS_SB (example_fs\<lparr>bcache := (\<lambda>_ _. 0)\<rparr>)) \<noteq> 4096"
    by (simp add: DADFS_SB_def sb_block_size_def)
  then show ?thesis
    by (intro dadfs_mount_rejects_foreign) (simp_all add: mount_env_defs)
qed

text \<open>
  A missing journal path is used uninitialised. When \<open>kern_path\<close> does not find the
  path of a \<open>journal_path=\<close> option, the function prints an error and then dereferences the
  \<open>struct path\<close> that was never filled in.
\<close>

theorem dadfs_missing_journal_path_uninitialised:
  assumes "match_token e p = Some (Opt_journal_path a)" and "p \<noteq> []" and "44 \<notin> set p"
    and "\<not> strdup_fails e (tick s)" and "kern_path e (Suc (tick s)) a = Inl err"
  shows "dadfs_parse_options e (Some p) s = Inl Uninitialised"
proof -
  have "strsep_comma p = [p]"
    using assms(3) by (induction p) auto
  with assms show ?thesis
    by (simp add: dadfs_parse_options_def dadfs_parse_option_def)
qed

theorem dadfs_missing_journal_path_uninitialised_witness:
  "dadfs_parse_options mount_env (Some (bytes_of ''journal_path=/x'')) example_fs = Inl Uninitialised"
proof -
  have "44 \<notin> set (bytes_of ''journal_path=/x'')" "bytes_of ''journal_path=/x'' \<noteq> []"
    by (simp_all add: bytes_of_def)
  then show ?thesis
    by (intro dadfs_missing_journal_path_uninitialised) (simp_all add: mount_env_defs)
qed

end
