(* ===== verification/Mkfs.thy ===== *)
theory Mkfs
  imports Dadfs_Mount
begin

unbundle bit_operations_syntax

text \<open>
  \<open>mkfs-dadfs\<close> (\<open>Lab/Lab 7/dadfs/mkfs-dadfs.c\<close>): the program that formats a device for
  the kernel module.

  The device is a byte image with a file offset. A local structure of the program is a
  piece of memory with the stack contents \<open>junk\<close> it starts from; \<open>write\<close> copies its
  bytes. The results of \<open>open\<close>, \<open>write\<close> and \<open>lseek\<close> come from the environment. What
  the program does not write (block padding, the journal blocks) keeps what was on the
  device.
\<close>

section \<open>Environment and state\<close>

text \<open>
  \<open>write_ret t n\<close>: the result of the write made at tick \<open>t\<close> of \<open>n\<close> bytes, a count
  or -1.
\<close>

record mkenv =
  open_failed :: bool
  write_ret :: "nat \<Rightarrow> nat \<Rightarrow> int"
  lseek_fails :: "nat \<Rightarrow> bool"
  junk :: "nat \<Rightarrow> block"

record dev =
  img :: "nat \<Rightarrow> byte"
  off :: nat
  dtick :: nat

definition sys_write :: "mkenv \<Rightarrow> byte list \<Rightarrow> dev \<Rightarrow> int \<times> dev" where
  "sys_write e bs d =
     (let r = write_ret e (dtick d) (length bs); k = min (nat r) (length bs) in
      (r, d\<lparr>img := put_bytes (img d) (off d) (take k bs), off := off d + k,
            dtick := Suc (dtick d)\<rparr>))"

definition sys_lseek_cur :: "mkenv \<Rightarrow> nat \<Rightarrow> dev \<Rightarrow> bool \<times> dev" where
  "sys_lseek_cur e n d =
     (if lseek_fails e (dtick d) then (False, d\<lparr>dtick := Suc (dtick d)\<rparr>)
      else (True, d\<lparr>off := off d + n, dtick := Suc (dtick d)\<rparr>))"

text \<open>A write that must transfer all its bytes, then 0 or -1.\<close>

definition write_all :: "mkenv \<Rightarrow> byte list \<Rightarrow> dev \<Rightarrow> int \<times> dev" where
  "write_all e bs d =
     (let (r, d) = sys_write e bs d in (if r \<noteq> int (length bs) then -1 else 0, d))"

section \<open>The structures\<close>

definition WELCOMEFILE_DATABLOCK_NUMBER :: nat where
  "WELCOMEFILE_DATABLOCK_NUMBER = DADFS_LAST_RESERVED_BLOCK + 1"

definition WELCOMEFILE_INODE_NUMBER :: "64 word" where
  "WELCOMEFILE_INODE_NUMBER = DADFS_LAST_RESERVED_INODE + 1"

text \<open>\<open>(~0) & ~(1 << DADFS_LAST_RESERVED_BLOCK)\<close> on \<open>int\<close>, converted to \<open>uint64_t\<close>.\<close>

definition initial_free_blocks :: "64 word" where
  "initial_free_blocks =
     scast ((NOT 0 :: 32 word) AND NOT (push_bit DADFS_LAST_RESERVED_BLOCK 1))"

definition write_superblock :: "mkenv \<Rightarrow> dev \<Rightarrow> int \<times> dev" where
  "write_superblock e d =
     (let sb = put_super_block (\<lambda>_. 0)
            \<lparr>version = 1, magic = DADFS_MAGIC, block_size = of_nat DADFS_DEFAULT_BLOCK_SIZE,
             inodes_count = WELCOMEFILE_INODE_NUMBER, free_blocks = initial_free_blocks,
             journal = 0\<rparr>;
          (r, d) = sys_write e (get_bytes sb 0 sizeof_super_block) d
      in (if r \<noteq> int DADFS_DEFAULT_BLOCK_SIZE then -1 else 0, d))"

definition write_root_inode :: "mkenv \<Rightarrow> dev \<Rightarrow> int \<times> dev" where
  "write_root_inode e d =
     write_all e (get_bytes (put_inode (junk e (dtick d)) 0
       \<lparr>mode = S_IFDIR, inode_no = DADFS_ROOTDIR_INODE_NUMBER,
        data_block_number = of_nat DADFS_ROOTDIR_DATABLOCK_NUMBER, size_or_children = 1\<rparr>)
       0 sizeof_inode) d"

text \<open>The journal inode's mode and size are never assigned.\<close>

definition write_journal_inode :: "mkenv \<Rightarrow> dev \<Rightarrow> int \<times> dev" where
  "write_journal_inode e d =
     write_all e (get_bytes
       (le_put 8 (le_put 8 (junk e (dtick d)) 8 DADFS_JOURNAL_INODE_NUMBER)
          16 (of_nat DADFS_JOURNAL_BLOCK_NUMBER))
       0 sizeof_inode) d"

definition write_welcome_inode :: "mkenv \<Rightarrow> dadfs_inode \<Rightarrow> dev \<Rightarrow> int \<times> dev" where
  "write_welcome_inode e i d =
     (let (r, d) = write_all e (get_bytes (put_inode (junk e (dtick d)) 0 i) 0 sizeof_inode) d
      in if r \<noteq> 0 then (-1, d) else
      let (ok, d) = sys_lseek_cur e (DADFS_DEFAULT_BLOCK_SIZE - sizeof_inode * 3) d
      in (if ok then 0 else -1, d))"

definition write_journal :: "mkenv \<Rightarrow> dev \<Rightarrow> int \<times> dev" where
  "write_journal e d =
     (let (ok, d) = sys_lseek_cur e (DADFS_DEFAULT_BLOCK_SIZE * DADFS_JOURNAL_BLOCKS) d
      in (if ok then 0 else -1, d))"

definition write_dirent :: "mkenv \<Rightarrow> dadfs_dir_record \<Rightarrow> dev \<Rightarrow> int \<times> dev" where
  "write_dirent e dirent d =
     (let (r, d) = write_all e (get_bytes (put_dir_record (\<lambda>_. 0) 0 dirent) 0 sizeof_dir_record) d
      in if r \<noteq> 0 then (-1, d) else
      let (ok, d) = sys_lseek_cur e (DADFS_DEFAULT_BLOCK_SIZE - sizeof_dir_record) d
      in (if ok then 0 else -1, d))"

definition write_block :: "mkenv \<Rightarrow> byte list \<Rightarrow> dev \<Rightarrow> int \<times> dev" where
  "write_block e block d = write_all e block d"

text \<open>The string literal with its newline and its terminating zero, 40 bytes.\<close>

definition welcomefile_body :: "byte list" where
  "welcomefile_body = bytes_of ''Congratulations, I'' @ [39] @ bytes_of ''m proud of you. Dad'' @ [10, 0]"

definition welcome_inode :: dadfs_inode where
  "welcome_inode = \<lparr>mode = S_IFREG, inode_no = WELCOMEFILE_INODE_NUMBER,
              data_block_number = of_nat WELCOMEFILE_DATABLOCK_NUMBER,
              size_or_children = of_nat (length welcomefile_body)\<rparr>"

definition welcome_record :: dadfs_dir_record where
  "welcome_record = \<lparr>filename = bytes_of ''awordfromdad'', rec_inode_no = WELCOMEFILE_INODE_NUMBER\<rparr>"

text \<open>\<open>main\<close>: the exit status and the device.\<close>

fun run_steps :: "(dev \<Rightarrow> int \<times> dev) list \<Rightarrow> dev \<Rightarrow> int \<times> dev" where
  "run_steps [] d = (0, d)"
| "run_steps (f # fs) d = (let (r, d) = f d in if r \<noteq> 0 then (1, d) else run_steps fs d)"

definition mkfs_main :: "mkenv \<Rightarrow> nat \<Rightarrow> dev \<Rightarrow> int \<times> dev" where
  "mkfs_main e argc d =
     (if argc \<noteq> 2 then (-1, d)
      else if open_failed e then (-1, d)
      else run_steps
        [write_superblock e, write_root_inode e, write_journal_inode e,
         write_welcome_inode e welcome_inode, write_journal e, write_dirent e welcome_record,
         write_block e (take (unat (file_size welcome_inode)) welcomefile_body)]
        (d\<lparr>off := 0\<rparr>))"

section \<open>The image of a successful run\<close>

definition mkfs_ok :: "mkenv \<Rightarrow> bool" where
  "mkfs_ok e \<longleftrightarrow> \<not> open_failed e \<and> (\<forall>t n. write_ret e t n = int n) \<and> (\<forall>t. \<not> lseek_fails e t)"

definition image_block :: "dev \<Rightarrow> nat \<Rightarrow> block" where
  "image_block d n = (\<lambda>x. img d (4096 * n + x))"

text \<open>The kernel's view of the device before the mount: nothing cached, no lock held.\<close>

definition opened :: "dev \<Rightarrow> kfs" where
  "opened d = \<lparr>bcache = image_block d, bdirty = (\<lambda>_. False), disk = image_block d,
               held = (\<lambda>_. False), tick = 0\<rparr>"

definition mkfs_sb :: block where
  "mkfs_sb = put_super_block (\<lambda>_. 0)
     \<lparr>version = 1, magic = DADFS_MAGIC, block_size = of_nat DADFS_DEFAULT_BLOCK_SIZE,
      inodes_count = WELCOMEFILE_INODE_NUMBER, free_blocks = initial_free_blocks, journal = 0\<rparr>"

definition formatted :: "mkenv \<Rightarrow> dev \<Rightarrow> dev" where
  "formatted e d =
     (let t = dtick d;
          root = put_inode (junk e (t + 1)) 0 root_dir;
          jrn = le_put 8 (le_put 8 (junk e (t + 2)) 8 DADFS_JOURNAL_INODE_NUMBER) 16
                  (of_nat DADFS_JOURNAL_BLOCK_NUMBER);
          wel = put_inode (junk e (t + 3)) 0 welcome_inode;
          m = put_bytes (img d) 0 (get_bytes mkfs_sb 0 4096);
          m = put_bytes m 4096 (get_bytes root 0 32);
          m = put_bytes m 4128 (get_bytes jrn 0 32);
          m = put_bytes m 4160 (get_bytes wel 0 32);
          m = put_bytes m 16384 (get_bytes (put_dir_record (\<lambda>_. 0) 0 welcome_record) 0 264);
          m = put_bytes m 20480 welcomefile_body
      in d\<lparr>img := m, off := 20520, dtick := t + 9\<rparr>)"

lemma write_all_ok:
  "mkfs_ok e \<Longrightarrow> write_all e bs d =
     (0, d\<lparr>img := put_bytes (img d) (off d) bs, off := off d + length bs, dtick := Suc (dtick d)\<rparr>)"
  by (simp add: write_all_def sys_write_def mkfs_ok_def Let_def)

lemma lseek_ok:
  "mkfs_ok e \<Longrightarrow> sys_lseek_cur e n d = (True, d\<lparr>off := off d + n, dtick := Suc (dtick d)\<rparr>)"
  by (simp add: sys_lseek_cur_def mkfs_ok_def)

lemma get_bytes_length [simp]: "length (get_bytes m o' n) = n"
  by (simp add: get_bytes_def)

lemma welcomefile_body_length [simp]: "length welcomefile_body = 40"
  by (simp add: welcomefile_body_def)

lemma root_dir_fields:
  "\<lparr>mode = S_IFDIR, inode_no = DADFS_ROOTDIR_INODE_NUMBER,
    data_block_number = of_nat DADFS_ROOTDIR_DATABLOCK_NUMBER, size_or_children = 1\<rparr> = root_dir"
  by (simp add: root_dir_def dadfs_consts)

lemma welcome_inode_eq: "welcome_inode = welcome_ino"
  by (simp add: welcome_inode_def welcome_ino_def WELCOMEFILE_INODE_NUMBER_def
      WELCOMEFILE_DATABLOCK_NUMBER_def dadfs_consts)

lemma mkfs_main_ok:
  assumes "mkfs_ok e"
  shows "mkfs_main e 2 d = (0, formatted e d)"
proof -
  have sb: "write_superblock e d' =
      (0, d'\<lparr>img := put_bytes (img d') (off d') (get_bytes mkfs_sb 0 4096), off := off d' + 4096,
            dtick := Suc (dtick d')\<rparr>)" for d'
    using assms by (simp add: write_superblock_def sys_write_def mkfs_ok_def Let_def mkfs_sb_def
        sizeof_super_block_def DADFS_DEFAULT_BLOCK_SIZE_def)
  have size: "unat (file_size welcome_inode) = 40"
    by (simp add: welcome_inode_eq welcome_ino_def file_size_def)
  have t3: "dtick d + 3 = Suc (Suc (Suc (dtick d)))" by simp
  show ?thesis
    using assms
    by (simp add: mkfs_main_def mkfs_ok_def [of e] sb size)
      (simp add: write_root_inode_def write_journal_inode_def write_welcome_inode_def
        write_journal_def write_dirent_def write_block_def write_all_ok lseek_ok assms Let_def
        sizeof_inode_def sizeof_dir_record_def root_dir_fields DADFS_DEFAULT_BLOCK_SIZE_def
        DADFS_JOURNAL_BLOCKS_def formatted_def t3)
qed

lemma formatted_block:
  "x < 4096 \<Longrightarrow> image_block (formatted e d) 0 x = mkfs_sb x"
  "x < 32 \<Longrightarrow> image_block (formatted e d) 1 x = put_inode (junk e (dtick d + 1)) 0 root_dir x"
  "x < 32 \<Longrightarrow> image_block (formatted e d) 1 (32 + x) =
     le_put 8 (le_put 8 (junk e (dtick d + 2)) 8 2) 16 2 x"
  "x < 32 \<Longrightarrow> image_block (formatted e d) 1 (64 + x) = put_inode (junk e (dtick d + 3)) 0 welcome_ino x"
  "x < 264 \<Longrightarrow> image_block (formatted e d) 4 x = put_dir_record (\<lambda>_. 0) 0 welcome_record x"
  "x < 40 \<Longrightarrow> image_block (formatted e d) 5 x = welcomefile_body ! x"
  by (simp_all add: image_block_def formatted_def Let_def put_bytes_def get_bytes_def
      welcome_inode_eq dadfs_consts)

text \<open>What the kernel module finds on the device.\<close>

lemma initial_free_blocks_eq: "initial_free_blocks = NOT 16"
  by (simp add: initial_free_blocks_def dadfs_consts)

lemma opened_sb:
  "sb_magic (DADFS_SB (opened (formatted e d))) = DADFS_MAGIC"
  "sb_block_size (DADFS_SB (opened (formatted e d))) = 4096"
  "sb_inodes_count (DADFS_SB (opened (formatted e d))) = 3"
  "sb_free_blocks (DADFS_SB (opened (formatted e d))) = NOT 16"
proof -
  have "le_get 8 (image_block (formatted e d) 0) k = le_get 8 mkfs_sb k" if "k \<le> 64" for k
    using that by (intro le_get_shift) (simp add: formatted_block)
  then have "sb_magic (image_block (formatted e d) 0) = sb_magic mkfs_sb"
    "sb_block_size (image_block (formatted e d) 0) = sb_block_size mkfs_sb"
    "sb_inodes_count (image_block (formatted e d) 0) = sb_inodes_count mkfs_sb"
    "sb_free_blocks (image_block (formatted e d) 0) = sb_free_blocks mkfs_sb"
    by (simp_all add: sb_field_defs)
  then show "sb_magic (DADFS_SB (opened (formatted e d))) = DADFS_MAGIC"
    "sb_block_size (DADFS_SB (opened (formatted e d))) = 4096"
    "sb_inodes_count (DADFS_SB (opened (formatted e d))) = 3"
    "sb_free_blocks (DADFS_SB (opened (formatted e d))) = NOT 16"
    by (simp_all add: opened_def DADFS_SB_def mkfs_sb_def heap_simps initial_free_blocks_eq
        WELCOMEFILE_INODE_NUMBER_def dadfs_consts)
qed

lemma opened_inodes:
  obtains ji where "inode_list (opened (formatted e d)) = [root_dir, ji, welcome_ino]"
    and "inode_no ji = 2" and "data_block_number ji = 2"
proof -
  let ?b = "image_block (formatted e d) 1"
  let ?j = "le_put 8 (le_put 8 (junk e (dtick d + 2)) 8 2) 16 2"
  have "inode_at ?b 0 = inode_at (put_inode (junk e (dtick d + 1)) 0 root_dir) 0"
    using formatted_block(2) by (intro inode_at_shift) simp
  moreover have "inode_at ?b 2 = inode_at (put_inode (junk e (dtick d + 3)) 0 welcome_ino) 0"
    using formatted_block(4) by (intro inode_at_shift) simp
  moreover have "inode_at ?b 1 = inode_at ?j 0"
    using formatted_block(3) by (intro inode_at_shift) simp
  ultimately have "inode_list (opened (formatted e d)) = [root_dir, inode_at ?j 0, welcome_ino]"
    by (simp add: inode_list_def opened_sb upt_3)
      (simp add: opened_def dadfs_consts inode_at_put_same)
  moreover have "inode_no (inode_at ?j 0) = 2" "data_block_number (inode_at ?j 0) = 2"
    by (simp_all add: inode_at_def heap_simps)
  ultimately show ?thesis by (rule that)
qed

lemma fs_wf_opened: "fs_wf (opened (formatted e d))"
proof -
  obtain ji where "inode_list (opened (formatted e d)) = [root_dir, ji, welcome_ino]" "inode_no ji = 2"
    by (rule opened_inodes)
  then show ?thesis
    by (simp add: fs_wf_def unlocked_def opened_sb dadfs_consts root_dir_def welcome_ino_def)
      (simp add: opened_def)
qed

lemma opened_root:
  "dirent_list (opened (formatted e d)) root_dir =
     [\<lparr>filename = bytes_of ''awordfromdad'', rec_inode_no = 3\<rparr>]"
proof -
  let ?r = "\<lparr>filename = bytes_of ''awordfromdad'', rec_inode_no = 3\<rparr>"
  have "welcome_record = ?r"
    by (simp add: welcome_record_def WELCOMEFILE_INODE_NUMBER_def dadfs_consts)
  then have "dir_record_at (image_block (formatted e d) 4) 0 =
      dir_record_at (put_dir_record (\<lambda>_. 0) 0 ?r) 0"
    by (intro dir_record_at_shift) (simp add: formatted_block)
  then show ?thesis
    using dir_record_at_put_same [of ?r "\<lambda>_. 0" 0] valid_name_awordfromdad
    by (simp add: dirent_list_def root_dir_def dir_children_count_def opened_def)
qed

lemma opened_welcome: "file_contents (opened (formatted e d)) welcome_ino = welcomefile_body"
  by (rule nth_equalityI)
    (simp_all add: file_contents_def opened_def welcome_ino_def file_size_def formatted_block,
      simp add: get_bytes_def formatted_block)

end
