(* ===== verification/Dadfs_Module.thy ===== *)
theory Dadfs_Module
  imports Dadfs_Mount
begin

text \<open>
  What connects dadfs (\<open>base.c\<close>) to the kernel: the tables of file operations, which depend on
  the version of the kernel, mounting and unmounting, and loading and unloading the module.

  The state of the module is its inode cache and whether the file system is registered.
  \<open>mount_bdev\<close>, \<open>kill_block_super\<close> and \<open>kmem_cache_free\<close> are kernel functions and parameters;
  the results of creating the cache and of registering are given by \<open>modenv\<close>.
\<close>

section \<open>The tables of operations\<close>

definition KERNEL_VERSION :: "nat \<Rightarrow> nat \<Rightarrow> nat \<Rightarrow> nat" where
  "KERNEL_VERSION a b c = a * 65536 + b * 256 + c"

datatype file_op = Dadfs_read | Dadfs_write | Dadfs_iterate | Dadfs_readdir

record file_operations =
  op_read :: "file_op option"
  op_write :: "file_op option"
  op_write_iter :: "file_op option"
  op_iterate :: "file_op option"
  op_readdir :: "file_op option"

definition dadfs_file_operations :: "nat \<Rightarrow> file_operations" where
  "dadfs_file_operations LINUX_VERSION_CODE =
     \<lparr>op_read = Some Dadfs_read,
      op_write = (if LINUX_VERSION_CODE < KERNEL_VERSION 4 0 0 then Some Dadfs_write else None),
      op_write_iter = (if LINUX_VERSION_CODE < KERNEL_VERSION 4 0 0 then None else Some Dadfs_write),
      op_iterate = None, op_readdir = None\<rparr>"

definition dadfs_dir_operations :: "nat \<Rightarrow> file_operations" where
  "dadfs_dir_operations LINUX_VERSION_CODE =
     \<lparr>op_read = None, op_write = None, op_write_iter = None,
      op_iterate = (if KERNEL_VERSION 3 11 0 \<le> LINUX_VERSION_CODE then Some Dadfs_iterate else None),
      op_readdir = (if KERNEL_VERSION 3 11 0 \<le> LINUX_VERSION_CODE then None else Some Dadfs_readdir)\<rparr>"

section \<open>Mounting and unmounting\<close>

text \<open>
  \<open>mount_bdev\<close> gets the function that fills the super block and gives an error or the root of
  the mounted file system. The messages are left out.
\<close>

type_synonym fill_super =
  "byte list option \<Rightarrow> kfs \<Rightarrow> fault + (int \<times> vfs_inode option \<times> kfs)"

definition dadfs_mount ::
  "('e menv_scheme) \<Rightarrow>
   (fill_super \<Rightarrow> 32 word \<Rightarrow> byte list \<Rightarrow> byte list option \<Rightarrow> kfs \<Rightarrow> fault + ((int + vfs_inode) \<times> kfs)) \<Rightarrow>
   32 word \<Rightarrow> byte list \<Rightarrow> byte list option \<Rightarrow> kfs \<Rightarrow> fault + ((int + vfs_inode) \<times> kfs)" where
  "dadfs_mount e mount_bdev flags dev_name data s =
     mount_bdev (dadfs_fill_super e) flags dev_name data s"

definition dadfs_kill_superblock :: "(kfs \<Rightarrow> kfs) \<Rightarrow> kfs \<Rightarrow> kfs" where
  "dadfs_kill_superblock kill_block_super s = kill_block_super s"

definition dadfs_destory_inode :: "(dadfs_inode option \<Rightarrow> 's \<Rightarrow> 's) \<Rightarrow> vfs_inode \<Rightarrow> 's \<Rightarrow> 's" where
  "dadfs_destory_inode kmem_cache_free inode st = kmem_cache_free (i_private inode) st"

section \<open>Loading and unloading the module\<close>

record modenv =
  cache_create_fails :: bool
  register_filesystem :: int
  unregister_filesystem :: int

text \<open>
  \<open>sfs_inode_cachep\<close> is the module's pointer, true when it is not null; \<open>live_caches\<close> counts the
  inode caches the kernel keeps for the module.
\<close>

record kmod =
  sfs_inode_cachep :: bool
  live_caches :: nat
  registered :: bool

definition dadfs_init :: "modenv \<Rightarrow> kmod \<Rightarrow> int \<times> kmod" where
  "dadfs_init e m =
     (if cache_create_fails e then (- ENOMEM, m\<lparr>sfs_inode_cachep := False\<rparr>)
      else
        let m = m\<lparr>sfs_inode_cachep := True, live_caches := Suc (live_caches m)\<rparr>;
            ret = register_filesystem e
        in (ret, if ret = 0 then m\<lparr>registered := True\<rparr> else m))"

definition dadfs_exit :: "modenv \<Rightarrow> kmod \<Rightarrow> kmod" where
  "dadfs_exit e m =
     (let m = (if unregister_filesystem e = 0 then m\<lparr>registered := False\<rparr> else m)
      in m\<lparr>live_caches := live_caches m - 1\<rparr>)"

section \<open>Lemmas\<close>

text \<open>
  A module that loaded and is unloaded leaves nothing behind. One that fails to register
  returns the error with its cache still there, and the kernel does not call \<open>dadfs_exit\<close> for a
  module that failed to load.
\<close>

lemma dadfs_init_then_exit:
  assumes "\<not> cache_create_fails e" and "register_filesystem e = 0" and "unregister_filesystem e = 0"
    and "\<not> registered m"
  shows "fst (dadfs_init e m) = 0 \<and>
    dadfs_exit e (snd (dadfs_init e m)) = m\<lparr>sfs_inode_cachep := True\<rparr>"
  using assms by (cases m) (simp add: dadfs_init_def dadfs_exit_def)

lemma dadfs_init_keeps_cache:
  assumes "\<not> cache_create_fails e" and "register_filesystem e = r" and "r \<noteq> 0"
  shows "dadfs_init e m = (r, m\<lparr>sfs_inode_cachep := True, live_caches := Suc (live_caches m)\<rparr>)"
  using assms by (simp add: dadfs_init_def Let_def)

text \<open>
  The writing function is reachable through one entry of the table only, and so is the one
  that lists a directory.
\<close>

lemma one_write_entry:
  "(op_write (dadfs_file_operations v) = None) \<noteq> (op_write_iter (dadfs_file_operations v) = None)"
  "(op_iterate (dadfs_dir_operations v) = None) \<noteq> (op_readdir (dadfs_dir_operations v) = None)"
  by (simp_all add: dadfs_file_operations_def dadfs_dir_operations_def)

text \<open>
  What the kernel documents of \<open>mount_bdev\<close> for a device that is not mounted: it calls the
  function that fills the super block, gives back the root when that returns 0, and the error
  after shutting the super block down otherwise.
\<close>

definition mount_bdev_law where
  "mount_bdev_law kill mount_bdev \<longleftrightarrow>
     (\<forall>fill flags dev data s. mount_bdev fill flags dev data s =
        bindE (fill data s) (\<lambda>(ret, root, s).
          if ret \<noteq> 0 then Inr (Inl ret, kill s)
          else case root of None \<Rightarrow> Inl Null_deref | Some r \<Rightarrow> Inr (Inr r, s)))"

lemma mount_bdev_fills:
  assumes "mount_bdev_law kill mb"
  shows "dadfs_mount e mb flags dev data s =
    bindE (dadfs_fill_super e data s) (\<lambda>(ret, root, s).
      if ret \<noteq> 0 then Inr (Inl ret, kill s)
      else case root of None \<Rightarrow> Inl Null_deref | Some r \<Rightarrow> Inr (Inr r, s))"
  using assms by (simp add: dadfs_mount_def mount_bdev_law_def)

end
