(* ===== verification/Dadfs_Locks.thy ===== *)
theory Dadfs_Locks
  imports Dadfs_Dir
begin

text \<open>
  The mutexes of dadfs. \<open>ends\<close> of the prelude is read as a weakest precondition: one rule per
  operation says which locks it needs free and which locks it holds when it returns, whatever the
  allocations and the reads of blocks do. A signal is the one thing excluded: with signals two
  paths of \<open>base.c\<close> are unbalanced (\<open>dadfs_inode_add\<close> returns with a mutex held,
  \<open>dadfs_sb_get_a_freeblock\<close> unlocks a mutex it did not get).
\<close>

section \<open>Rules\<close>

text \<open>The ways to stop that have nothing to do with locks.\<close>

abbreviation lock_free :: "fault set" where
  "lock_free \<equiv> {Bug_on, Null_deref, Out_of_bounds, Undefined_shift, Uninitialised}"

lemma ends_lock:
  assumes "\<forall>t. \<not> interrupted e t" and "\<not> held s l"
    and "Q (False, (tick1 s)\<lparr>held := (held s)(l := True)\<rparr>)"
  shows "ends lock_free Q (mutex_lock_interruptible e l s)"
  using assms by (simp add: mutex_lock_interruptible_def)

lemma ends_unlock:
  "held s l \<Longrightarrow> Q (s\<lparr>held := (held s)(l := False)\<rparr>) \<Longrightarrow> ends lock_free Q (mutex_unlock l s)"
  by (simp add: mutex_unlock_def)

lemma ends_bread: "Q (tick1 s) \<Longrightarrow> ends lock_free Q (sb_bread_or_bug e n s)"
  by (simp add: sb_bread_or_bug_def sb_bread_def)

lemma ends_kmem: "Q (tick1 s) \<Longrightarrow> ends lock_free Q (kmem_alloc_used e s)"
  by (simp add: kmem_alloc_used_def)

lemma held_buffers [simp]:
  "held (mark_buffer_dirty n s) = held s" "held (sync_dirty_buffer n s) = held s"
  by (simp_all add: mark_buffer_dirty_def sync_dirty_buffer_def)

lemma ends_sb_sync:
  assumes "\<And>s'. held s' = held s \<Longrightarrow> Q s'"
  shows "ends lock_free Q (dadfs_sb_sync e s)"
  unfolding dadfs_sb_sync_def ends_bindE by (rule ends_bread) (simp add: assms)

lemma ends_int_shl1: "(\<And>m. Q m) \<Longrightarrow> ends lock_free Q (int_shl1 i)"
  by (simp add: int_shl1_def)

lemma ends_scan:
  assumes "\<And>i. Q i"
  shows "ends lock_free Q (freeblock_scan free i)"
proof -
  have "ends lock_free (\<lambda>_. True) (freeblock_scan free i)"
  proof (induction free i rule: freeblock_scan.induct)
    case (1 free i)
    then show ?case by (subst freeblock_scan.simps) (auto simp: ends_bindE int_shl1_def)
  qed
  then show ?thesis by (rule ends_mono) (simp_all add: assms)
qed

lemma ends_search_from:
  assumes "\<And>i. Q i"
  shows "ends lock_free Q (inode_search_from b n ino c)"
proof -
  have "ends lock_free (\<lambda>_. True) (inode_search_from b n ino c)"
  proof (induction b n ino c rule: inode_search_from.induct)
    case (1 b n ino c)
    then show ?case by (subst inode_search_from.simps) auto
  qed
  then show ?thesis by (rule ends_mono) (simp_all add: assms)
qed

lemma ends_search: "(\<And>r. Q r) \<Longrightarrow> ends lock_free Q (dadfs_inode_search s b ino)"
  unfolding dadfs_inode_search_def ends_bindE by (rule ends_search_from) simp

section \<open>The operations of the core\<close>

lemma ends_get_a_freeblock:
  assumes sig: "\<forall>t. \<not> interrupted e t" and unheld: "\<not> held s Sb_lock"
    and Q: "\<And>r out s'. held s' = held s \<Longrightarrow> Q (r, out, s')"
  shows "ends lock_free Q (dadfs_sb_get_a_freeblock e s)"
proof -
  have same: "(held s)(Sb_lock := False) = held s" using unheld by (simp add: fun_upd_idem)
  show ?thesis
    unfolding dadfs_sb_get_a_freeblock_def ends_bindE
    by (rule ends_lock [OF sig unheld])
      (auto simp: ends_bindE Let_def same intro!: ends_scan ends_unlock ends_int_shl1 ends_sb_sync Q)
qed

lemma ends_get_objects_count:
  assumes sig: "\<forall>t. \<not> interrupted e t" and unheld: "\<not> held s Inodes_mgmt_lock"
    and Q: "\<And>r out s'. held s' = held s \<Longrightarrow> Q (r, out, s')"
  shows "ends lock_free Q (dadfs_sb_get_objects_count e s)"
proof -
  have same: "(held s)(Inodes_mgmt_lock := False) = held s" using unheld by (simp add: fun_upd_idem)
  show ?thesis
    unfolding dadfs_sb_get_objects_count_def ends_bindE
    by (rule ends_lock [OF sig unheld]) (auto simp: ends_bindE Let_def same intro!: ends_unlock Q)
qed

lemma ends_inode_add:
  assumes sig: "\<forall>t. \<not> interrupted e t" and unheld: "\<not> held s Sb_lock" "\<not> held s Inodes_mgmt_lock"
    and Q: "\<And>s'. held s' = held s \<Longrightarrow> Q s'"
  shows "ends lock_free Q (dadfs_inode_add e ino s)"
proof -
  have same: "(held s)(Inodes_mgmt_lock := False, Sb_lock := False) = held s"
    "(held s)(Sb_lock := False, Inodes_mgmt_lock := False) = held s"
    using unheld by (auto simp: fun_eq_iff)
  show ?thesis
    unfolding dadfs_inode_add_def ends_bindE
    by (rule ends_lock [OF sig unheld(2)])
      (auto simp: ends_bindE Let_def same sig unheld intro!: ends_bread ends_lock ends_unlock ends_sb_sync Q)
qed

lemma ends_inode_save:
  assumes sig: "\<forall>t. \<not> interrupted e t" and unheld: "\<not> held s Sb_lock"
    and Q: "\<And>r s'. held s' = held s \<Longrightarrow> Q (r, s')"
  shows "ends lock_free Q (dadfs_inode_save e ino s)"
proof -
  have same: "(held s)(Sb_lock := False) = held s" using unheld by (simp add: fun_upd_idem)
  show ?thesis
    unfolding dadfs_inode_save_def ends_bindE
    by (rule ends_bread)
      (auto simp: ends_bindE Let_def same sig unheld intro!: ends_lock ends_search ends_unlock Q split: option.split)
qed

section \<open>Creating\<close>

lemma ends_link:
  assumes sig: "\<forall>t. \<not> interrupted e t" and unheld: "\<not> held s Sb_lock" "\<not> held s Inodes_mgmt_lock"
    and own: "held s Directory_children_update_lock"
    and Q: "\<And>r d v s'. held s' = (held s)(Directory_children_update_lock := False) \<Longrightarrow> Q (r, d, v, s')"
  shows "ends lock_free Q (link_into_parent e dir nm inode ino s)"
proof -
  have same: "(held s)(Inodes_mgmt_lock := False) = held s" using unheld by (simp add: fun_upd_idem)
  show ?thesis
    unfolding link_into_parent_def ends_bindE Let_def
    by (rule ends_bread)
      (auto simp: ends_bindE Let_def same sig unheld own intro!: ends_lock ends_inode_save ends_unlock Q)
qed

lemma ends_create:
  assumes sig: "\<forall>t. \<not> interrupted e t" and unheld: "unlocked s"
  shows "ends lock_free (\<lambda>(r, d, v, s'). unlocked s') (dadfs_create_fs_object e dir nm md s)"
proof -
  let ?H = "(held s)(Directory_children_update_lock := True)"
  have unl: "\<not> held s l" for l using unheld by (simp add: unlocked_def)
  have fail: "ends lock_free (\<lambda>(r, d, v, s'). unlocked s')
      (bindE (mutex_unlock Directory_children_update_lock s1) (\<lambda>s. Inr (ret, dir, None, s)))"
    if "held s1 = ?H" for s1 and ret :: int
    unfolding ends_bindE using that unl by (auto simp: unlocked_def intro!: ends_unlock split: if_splits)
  have link: "ends lock_free (\<lambda>(r, d, v, s'). unlocked s') (link_into_parent e dir nm inode ino s1)"
    if "held s1 = ?H" for s1 inode ino
    using that unl by (intro ends_link [OF sig]) (auto simp: unlocked_def split: if_splits)
  have store: "ends lock_free (\<lambda>(r, d, v, s'). unlocked s')
      (bindE (dadfs_inode_add e ino s1) (link_into_parent e dir nm inode ino))" if "held s1 = ?H" for s1 inode ino
    unfolding ends_bindE using that unl by (intro ends_inode_add [OF sig]) (auto intro: link)
  have alloc: "ends lock_free (\<lambda>(r, d, v, s'). unlocked s')
      (bindE (kmem_alloc_used e s1) (\<lambda>s1. bindE (dadfs_sb_get_a_freeblock e s1) (\<lambda>(ret, out, s1). f ret out s1)))"
    if "held s1 = ?H" and "\<And>r out s1. held s1 = ?H \<Longrightarrow> ends lock_free (\<lambda>(r, d, v, s'). unlocked s') (f r out s1)" for s1 f
    unfolding ends_bindE using that unl
    by (intro ends_kmem) (auto simp: ends_bindE intro!: ends_get_a_freeblock [OF sig])
  show ?thesis
    unfolding dadfs_create_fs_object_def
    by (subst ends_bindE, rule ends_lock [OF sig unl], simp only: prod.case if_False Let_def,
        subst ends_bindE, rule ends_get_objects_count [OF sig])
      (auto simp: unl intro!: fail alloc store split: option.split)
qed

section \<open>Properties\<close>

text \<open>
  C9. Locks are balanced. When no signal arrives, a create call, whatever allocations and reads
  of blocks fail and whatever it returns, leaves every mutex of the module free as it found them;
  and it neither takes a mutex twice nor unlocks one it does not hold.
\<close>

theorem dadfs_create_releases_locks:
  assumes "\<forall>t. \<not> interrupted e t" and "unlocked s"
  shows "case dadfs_create_fs_object e dir nm md s of
      Inl f \<Rightarrow> f \<noteq> Self_deadlock \<and> f \<noteq> Bad_unlock
    | Inr (ret, dir', v, s') \<Rightarrow> unlocked s'"
  using ends_create [OF assms, of dir nm md] by (auto simp: ends_def split: sum.splits)

text \<open>The witness takes the path on which the new VFS inode cannot be allocated.\<close>

theorem dadfs_create_releases_locks_witness:
  "\<exists>s'. dadfs_create_fs_object (quiet_env\<lparr>new_inode_fails := \<lambda>_. True\<rparr>) root_dir (bytes_of ''x'') S_IFREG example_fs =
     Inr (- ENOMEM, root_dir, None, s') \<and> unlocked s'"
proof -
  let ?e = "quiet_env\<lparr>new_inode_fails := \<lambda>_. True\<rparr>"
  have unl: "unlocked example_fs" using example_fs_wf by (simp add: fs_wf_def)
  then have "\<not> held example_fs l" for l by (simp add: unlocked_def)
  then obtain s' where "dadfs_create_fs_object ?e root_dir (bytes_of ''x'') S_IFREG example_fs =
      Inr (- ENOMEM, root_dir, None, s')"
    by (simp add: dadfs_create_fs_object_def dadfs_sb_get_objects_count_def mutex_lock_interruptible_def
        mutex_unlock_def quiet_env_def Let_def example_sb dadfs_consts S_ISREG_def S_IFREG_def S_IFMT_def S_ISDIR_def S_IFDIR_def)
  moreover have "\<forall>t. \<not> interrupted ?e t" by (simp add: quiet_env_def)
  ultimately show ?thesis
    using dadfs_create_releases_locks [OF _ unl, of ?e root_dir "bytes_of ''x''" S_IFREG] by auto
qed

end
