(* ===== verification/Cache_Sort.thy ===== *)
theory Cache_Sort
  imports Prelude "HOL-Library.Multiset"
begin

text \<open>
  The sort of \<open>lmfs_rw_scattered\<close> (\<open>Lab/Lab 8/src/cache.c\<close>): a Shell sort of the array
  of buffers by block number, with the gaps 1, 4, 13, 40 and so on.

  The array is a list; \<open>key\<close> reads the block number of an element. The C variables
  \<open>gap\<close>, \<open>i\<close>, \<open>j\<close> are \<open>int\<close>; they stay between 0 and three times the array
  size, so naturals stand for them, and the exit \<open>i < 0\<close> of the innermost loop is the test
  \<open>i < gap\<close> before the subtraction.
\<close>

section \<open>The code\<close>

function shell_gap :: "nat \<Rightarrow> nat \<Rightarrow> nat" where
  "shell_gap n gap = (let gap = 3 * gap + 1 in if gap \<le> n then shell_gap n gap else gap)"
  by pat_completeness auto
termination
  by (relation "measure (\<lambda>(n, gap). n - gap)") auto

function shell_sift :: "('a \<Rightarrow> 'k::linorder) \<Rightarrow> nat \<Rightarrow> 'a list \<Rightarrow> nat \<Rightarrow> 'a list" where
  "shell_sift key gap q i =
     (if key (q ! (i + gap)) < key (q ! i) then
        let q = q[i := q ! (i + gap), i + gap := q ! i]
        in if 0 < gap \<and> gap \<le> i then shell_sift key gap q (i - gap) else q
      else q)"
  by pat_completeness auto
termination
  by (relation "measure (\<lambda>(key, gap, q, i). i)") auto

definition shell_pass :: "('a \<Rightarrow> 'k::linorder) \<Rightarrow> nat \<Rightarrow> 'a list \<Rightarrow> 'a list" where
  "shell_pass key gap q = foldl (\<lambda>q j. shell_sift key gap q (j - gap)) q [gap..<length q]"

function shell_loop :: "('a \<Rightarrow> 'k::linorder) \<Rightarrow> nat \<Rightarrow> 'a list \<Rightarrow> 'a list" where
  "shell_loop key gap q =
     (if gap \<le> 1 then q else shell_loop key (gap div 3) (shell_pass key (gap div 3) q))"
  by pat_completeness auto
termination
  by (relation "measure (\<lambda>(key, gap, q). gap)") auto

definition shell_sort :: "('a \<Rightarrow> 'k::linorder) \<Rightarrow> 'a list \<Rightarrow> 'a list" where
  "shell_sort key q = shell_loop key (shell_gap (length q) 1) q"

declare shell_gap.simps [simp del] shell_sift.simps [simp del] shell_loop.simps [simp del]

section \<open>Permutation\<close>

lemma length_shell_sift [simp]: "length (shell_sift key gap q i) = length q"
proof (induction key gap q i rule: shell_sift.induct)
  case (1 key gap q i)
  then show ?case by (subst shell_sift.simps) (simp add: Let_def)
qed

lemma mset_shell_sift: "i + gap < length q \<Longrightarrow> mset (shell_sift key gap q i) = mset q"
proof (induction key gap q i rule: shell_sift.induct)
  case (1 key gap q i)
  let ?q = "q[i := q ! (i + gap), i + gap := q ! i]"
  have "mset ?q = mset q" using 1(2) mset_swap [of "i + gap" q i] by simp
  with 1 show ?case by (subst shell_sift.simps) (auto simp: Let_def)
qed

lemma fold_sift:
  assumes "\<forall>j \<in> set js. gap \<le> j \<and> j < length q"
  shows "mset (foldl (\<lambda>q j. shell_sift key gap q (j - gap)) q js) = mset q"
  using assms
proof (induction js arbitrary: q)
  case Nil
  then show ?case by simp
next
  case (Cons j js)
  then show ?case by (simp add: mset_shell_sift)
qed

lemma mset_shell_pass: "mset (shell_pass key gap q) = mset q"
  unfolding shell_pass_def by (rule fold_sift) simp

lemma mset_shell_loop: "mset (shell_loop key gap q) = mset q"
proof (induction key gap q rule: shell_loop.induct)
  case (1 key gap q)
  then show ?case by (subst shell_loop.simps) (simp add: mset_shell_pass)
qed

lemma mset_shell_sort: "mset (shell_sort key q) = mset q"
  by (simp add: shell_sort_def mset_shell_loop)

section \<open>The last pass is an insertion sort\<close>

text \<open>\<open>insert_back key xs x\<close>: \<open>x\<close> moves left past the larger elements at the end of \<open>xs\<close>.\<close>

function insert_back :: "('a \<Rightarrow> 'k::linorder) \<Rightarrow> 'a list \<Rightarrow> 'a \<Rightarrow> 'a list" where
  "insert_back key xs x =
     (if xs \<noteq> [] \<and> key x < key (last xs) then insert_back key (butlast xs) x @ [last xs]
      else xs @ [x])"
  by pat_completeness auto
termination
  by (relation "measure (\<lambda>(key, xs, x). length xs)") auto

declare insert_back.simps [simp del]

lemma sift_one_insert:
  "shell_sift key 1 (as @ [y] @ x # bs) (length as) = insert_back key (as @ [y]) x @ bs"
proof (induction as arbitrary: y x bs rule: rev_induct)
  case Nil
  show ?case by (simp add: shell_sift.simps [of _ "Suc 0"] insert_back.simps)
next
  case (snoc a as)
  let ?q = "(as @ [a]) @ [y] @ x # bs"
  have swap: "?q[length as + 1 := x, length as + 1 + 1 := y] = as @ [a] @ x # y # bs"
    by (simp add: list_update_append)
  have nths: "?q ! (length as + 1) = y" "?q ! (length as + 1 + 1) = x"
    by (simp_all add: nth_append)
  show ?case
    using snoc.IH [of a x "y # bs"]
    by (subst shell_sift.simps, subst insert_back.simps)
      (simp add: Let_def nths [simplified] swap [simplified] butlast_append)
qed

lemma insert_back_props:
  "sorted (map key xs) \<Longrightarrow>
   sorted (map key (insert_back key xs x)) \<and> set (insert_back key xs x) = insert x (set xs)"
proof (induction key xs x rule: insert_back.induct)
  case (1 key xs x)
  show ?case
  proof (cases "xs \<noteq> [] \<and> key x < key (last xs)")
    case True
    then obtain ys y where xs: "xs = ys @ [y]" by (metis append_butlast_last_id)
    with 1 True have "sorted (map key (insert_back key ys x))"
      and "set (insert_back key ys x) = insert x (set ys)"
      by (simp_all add: sorted_append)
    with True 1(2) xs show ?thesis
      by (subst (1 2) insert_back.simps) (auto simp: sorted_append)
  next
    case False
    have "key z \<le> key x" if "z \<in> set xs" for z
    proof -
      from that obtain ys y where xs: "xs = ys @ [y]" by (metis append_butlast_last_id empty_iff empty_set)
      with False that 1(2) show ?thesis by (fastforce simp: sorted_append)
    qed
    with False 1(2) show ?thesis by (subst (1 2) insert_back.simps) (auto simp: sorted_append)
  qed
qed

lemma sift_extends_sorted:
  assumes "0 < j" and "j < length q" and "sorted (map key (take j q))"
  shows "sorted (map key (take (Suc j) (shell_sift key 1 q (j - 1))))"
    and "drop (Suc j) (shell_sift key 1 q (j - 1)) = drop (Suc j) q"
proof -
  let ?as = "take (j - 1) q"
  have as: "?as @ [q ! (j - 1)] = take j q"
    using assms(1,2) by (metis Suc_diff_1 less_imp_diff_less take_Suc_conv_app_nth)
  then have q: "q = ?as @ [q ! (j - 1)] @ q ! j # drop (Suc j) q"
    using assms(2) id_take_nth_drop [of j q] by (metis append.assoc)
  have len: "length ?as = j - 1" using assms(2) by simp
  have eq: "shell_sift key 1 q (j - 1) = insert_back key (take j q) (q ! j) @ drop (Suc j) q"
    using sift_one_insert [of key ?as "q ! (j - 1)" "q ! j" "drop (Suc j) q"] len q as by metis
  have "length (insert_back key (take j q) (q ! j)) = Suc j"
    using arg_cong [OF eq, of length] assms(2) by simp
  with eq show "sorted (map key (take (Suc j) (shell_sift key 1 q (j - 1))))"
    and "drop (Suc j) (shell_sift key 1 q (j - 1)) = drop (Suc j) q"
    using insert_back_props [OF assms(3)] by simp_all
qed

lemma fold_sift_sorted:
  assumes "0 < k" and "k \<le> length q" and "sorted (map key (take k q))"
  shows "sorted (map key (foldl (\<lambda>q j. shell_sift key 1 q (j - 1)) q [k..<length q]))"
  using assms
proof (induction "length q - k" arbitrary: k q)
  case 0
  then show ?case by simp
next
  case (Suc d)
  then have k: "k < length q" by simp
  let ?q = "shell_sift key 1 q (k - 1)"
  have "sorted (map key (foldl (\<lambda>q j. shell_sift key 1 q (j - 1)) ?q [Suc k..<length ?q]))"
    using Suc.hyps(2) k sift_extends_sorted(1) [OF Suc.prems(1) k Suc.prems(3)]
    by (intro Suc.hyps(1)) simp_all
  with k show ?case by (simp add: upt_conv_Cons)
qed

lemma shell_pass_1_sorted: "sorted (map key (shell_pass key 1 q))"
proof (cases "q = []")
  case True
  then show ?thesis by (simp add: shell_pass_def)
next
  case False
  then have "sorted (map key (foldl (\<lambda>q j. shell_sift key 1 q (j - 1)) q [1..<length q]))"
    by (intro fold_sift_sorted) (simp_all add: Suc_le_eq take_Suc_conv_app_nth)
  then show ?thesis by (simp add: shell_pass_def)
qed

text \<open>The gaps are 1, 4, 13 and so on, so dividing by 3 always comes to 1.\<close>

inductive shell_seq :: "nat \<Rightarrow> bool" where
  base: "shell_seq 1"
| step: "shell_seq g \<Longrightarrow> shell_seq (3 * g + 1)"

lemma shell_seq_gap: "shell_seq g \<Longrightarrow> shell_seq (shell_gap n g) \<and> shell_gap n g \<noteq> 1"
proof (induction n g rule: shell_gap.induct)
  case (1 n g)
  from 1(2) have "shell_seq (3 * g + 1)" by (rule shell_seq.step)
  moreover from 1(2) have "g \<noteq> 0" by cases auto
  ultimately have "shell_seq (3 * g + 1)" "g \<noteq> 0" by blast+
  with 1 show ?case by (subst (1 2) shell_gap.simps) (auto simp: Let_def)
qed

lemma shell_loop_sorted:
  "shell_seq gap \<Longrightarrow> gap \<noteq> 1 \<Longrightarrow> sorted (map key (shell_loop key gap q))"
proof (induction gap arbitrary: q rule: shell_seq.induct)
  case base
  then show ?case by simp
next
  case (step g)
  then have "0 < g" by (auto elim: shell_seq.cases)
  have third: "Suc (3 * g) div 3 = g" by presburger
  show ?case
  proof (cases "g = 1")
    case True
    then show ?thesis
      by (simp add: shell_loop.simps [of _ "Suc (Suc (Suc (Suc 0)))"] shell_loop.simps [of _ "Suc 0"]
          shell_loop.simps [of _ 4] shell_pass_1_sorted [simplified])
  next
    case False
    with step \<open>0 < g\<close> show ?thesis
      by (subst shell_loop.simps) (simp add: third)
  qed
qed

lemma sorted_shell_sort: "sorted (map key (shell_sort key q))"
  unfolding shell_sort_def using shell_seq_gap [OF shell_seq.base] by (intro shell_loop_sorted) simp_all

end
