(* ===== verification/Cache.thy ===== *)
theory Cache
  imports Cache_Sort
begin

unbundle bit_operations_syntax

text \<open>
  The block cache of the Minix file servers (\<open>Lab/Lab 8/src/cache.c\<close>): the program.

  The array \<open>buf\<close> is a function from indices below \<open>nr_bufs\<close>; a \<open>struct buf *\<close> is an
  optional index. The buffers not in use are linked through \<open>lmfs_next\<close> and
  \<open>lmfs_prev\<close> between \<open>front\<close> and \<open>rear\<close>; all buffers are linked through
  \<open>lmfs_hash\<close> from \<open>buf_hash\<close>. The memory a buffer points to is its field \<open>data\<close>,
  of an arbitrary type \<open>'c\<close> of block contents, null when it is \<open>None\<close>.

  What the cache calls and the repository does not contain (block drivers, VM, allocation,
  the file server's own callbacks, the constants of the Minix headers) is the parameter
  \<open>cenv\<close>; the outside world is a value of type \<open>'w\<close> that these functions read and
  change. \<open>Inl\<close> is a panic, a failed assertion, a null dereference, a division by zero or a
  loop over a chain that does not end; the last one is what running out of fuel means, and
  the fuel is the number of buffers.
\<close>

section \<open>State\<close>

datatype stop = Panic | Assertion | Null_pointer | Div_zero | Diverges

datatype dirt = BP_CLEAN | BP_DIRTY
datatype search = NORMAL | NO_READ | PREFETCH | Unexpected int
datatype rw_flag = READING | WRITING

type_synonym dev_id = nat
type_synonym blockno = "32 word"

definition MINBUFS :: int where "MINBUFS = 6"

record 'c buf =
  data :: "'c option"
  lmfs_next :: ptr
  lmfs_prev :: ptr
  lmfs_hash :: ptr
  lmfs_blocknr :: blockno
  lmfs_count :: int
  lmfs_dev :: dev_id
  lmfs_dirt :: dirt
  lmfs_bytes :: nat

record ('c, 'w) cache =
  bufs :: "nat \<Rightarrow> 'c buf"
  buf_hash :: "nat \<Rightarrow> ptr"
  front :: ptr
  rear :: ptr
  bufs_in_use :: "32 word"
  nr_bufs :: nat
  vmcache :: bool
  may_use_vmcache :: bool
  fs_block_size :: nat
  rdwt_err :: int
  dirtylistsize :: nat
  world :: 'w

record ('c, 'w) cenv =
  NO_DEV :: dev_id
  NO_BLOCK :: blockno
  DEV_RAM :: dev_id
  MEMORY_MAJOR :: dev_id
  ONE_SHOT :: "32 word"
  PARTIAL_DATA_BLOCK :: "32 word"
  NR_IOREQS :: nat
  END_OF_FILE :: int
  alloc_contig :: "'w \<Rightarrow> nat \<Rightarrow> 'c option \<times> 'w"
  alloc_fails :: "'w \<Rightarrow> bool"
  bdev_read :: "'w \<Rightarrow> dev_id \<Rightarrow> 64 word \<Rightarrow> 'c \<Rightarrow> nat \<Rightarrow> int \<times> 'c \<times> 'w"
  bdev_gather :: "'w \<Rightarrow> dev_id \<Rightarrow> 64 word \<Rightarrow> 'c option list \<Rightarrow> nat \<Rightarrow> int \<times> 'c list \<times> 'w"
  bdev_scatter :: "'w \<Rightarrow> dev_id \<Rightarrow> 64 word \<Rightarrow> 'c option list \<Rightarrow> nat \<Rightarrow> int \<times> 'w"
  vm_yield_block_get_block ::
    "'w \<Rightarrow> (dev_id \<times> blockno) option \<Rightarrow> dev_id \<times> blockno \<Rightarrow> 'c \<Rightarrow> bool \<times> 'c \<times> 'w"
  vm_forgetblock :: "'w \<Rightarrow> (dev_id \<times> blockno) option \<Rightarrow> bool \<times> 'w"
  vm_forgetblocks :: "'w \<Rightarrow> 'w"
  vm_info_stats :: "'w \<Rightarrow> (32 word \<times> 32 word) option"
  sqrt_approx :: "32 word \<Rightarrow> 32 word"
  fs_blockstats :: "'w \<Rightarrow> 32 word \<times> 32 word"
  fs_sync :: "('c, 'w) cache \<Rightarrow> stop + ('c, 'w) cache"

definition upd :: "nat \<Rightarrow> ('c buf \<Rightarrow> 'c buf) \<Rightarrow> ('c, 'w) cache \<Rightarrow> ('c, 'w) cache" where
  "upd i f s = s\<lparr>bufs := (bufs s)(i := f (bufs s i))\<rparr>"

definition set_next :: "nat \<Rightarrow> ptr \<Rightarrow> ('c, 'w) cache \<Rightarrow> ('c, 'w) cache" where
  "set_next i p = upd i (\<lambda>b. b\<lparr>lmfs_next := p\<rparr>)"
definition set_prev :: "nat \<Rightarrow> ptr \<Rightarrow> ('c, 'w) cache \<Rightarrow> ('c, 'w) cache" where
  "set_prev i p = upd i (\<lambda>b. b\<lparr>lmfs_prev := p\<rparr>)"
definition set_hash :: "nat \<Rightarrow> ptr \<Rightarrow> ('c, 'w) cache \<Rightarrow> ('c, 'w) cache" where
  "set_hash i p = upd i (\<lambda>b. b\<lparr>lmfs_hash := p\<rparr>)"
definition set_dev :: "nat \<Rightarrow> dev_id \<Rightarrow> ('c, 'w) cache \<Rightarrow> ('c, 'w) cache" where
  "set_dev i d = upd i (\<lambda>b. b\<lparr>lmfs_dev := d\<rparr>)"
definition set_count :: "nat \<Rightarrow> int \<Rightarrow> ('c, 'w) cache \<Rightarrow> ('c, 'w) cache" where
  "set_count i n = upd i (\<lambda>b. b\<lparr>lmfs_count := n\<rparr>)"
definition set_data :: "nat \<Rightarrow> 'c option \<Rightarrow> ('c, 'w) cache \<Rightarrow> ('c, 'w) cache" where
  "set_data i c = upd i (\<lambda>b. b\<lparr>data := c\<rparr>)"

section \<open>The size of the cache\<close>

text \<open>
  \<open>fs_bufs_heuristic\<close> computes on 32-bit values: \<open>mul64u\<close> is a 64-bit product,
  \<open>div64u\<close> a 64-bit division truncated to 32 bits; the final comparison with
  \<open>minbufs\<close> is signed.
\<close>

definition kbytes_of :: "32 word \<Rightarrow> 32 word \<Rightarrow> 32 word" where
  "kbytes_of n sz = ucast (((ucast n :: 64 word) * ucast sz) div 1024)"

definition fs_bufs_heuristic ::
  "('c, 'w) cenv \<Rightarrow> 'w \<Rightarrow> 32 word \<Rightarrow> 32 word \<Rightarrow> 32 word \<Rightarrow> 32 word \<Rightarrow> dev_id \<Rightarrow> stop + 32 word" where
  "fs_bufs_heuristic P w minbufs btotal bfree blocksize majordev =
     (let bused = btotal - bfree in
      if majordev = MEMORY_MAJOR P then Inr minbufs else
      case vm_info_stats P w of
        None \<Rightarrow> Inr 1024
      | Some (vsi_free, vsi_pagesize) \<Rightarrow>
          let kbytes_remain_mem = kbytes_of vsi_free vsi_pagesize;
              kbytes_used_fs = kbytes_of bused blocksize;
              kbytes_total_fs = kbytes_of btotal blocksize;
              kb_fsmax = min (sqrt_approx P kbytes_used_fs * 40) (kbytes_total_fs div 2);
              kbcache = min (kbytes_remain_mem div 10) kb_fsmax
          in if blocksize = 0 then Inl Div_zero else
          let bufs = kbcache * 1024 div blocksize
          in Inr (if bufs <s minbufs then minbufs else bufs))"

section \<open>Buffers\<close>

definition lmfs_markdirty :: "nat \<Rightarrow> ('c, 'w) cache \<Rightarrow> ('c, 'w) cache" where
  "lmfs_markdirty i = upd i (\<lambda>b. b\<lparr>lmfs_dirt := BP_DIRTY\<rparr>)"

definition lmfs_markclean :: "nat \<Rightarrow> ('c, 'w) cache \<Rightarrow> ('c, 'w) cache" where
  "lmfs_markclean i = upd i (\<lambda>b. b\<lparr>lmfs_dirt := BP_CLEAN\<rparr>)"

definition lmfs_isclean :: "nat \<Rightarrow> ('c, 'w) cache \<Rightarrow> bool" where
  "lmfs_isclean i s \<longleftrightarrow> lmfs_dirt (bufs s i) = BP_CLEAN"

text \<open>Unlinking a buffer from the chain of free buffers.\<close>

definition rm_lru :: "nat \<Rightarrow> ('c, 'w) cache \<Rightarrow> ('c, 'w) cache" where
  "rm_lru bp s =
     (let s = s\<lparr>bufs_in_use := bufs_in_use s + 1\<rparr>;
          next_ptr = lmfs_next (bufs s bp); prev_ptr = lmfs_prev (bufs s bp);
          s = (case prev_ptr of Some p \<Rightarrow> set_next p next_ptr s | None \<Rightarrow> s\<lparr>front := next_ptr\<rparr>)
      in case next_ptr of Some n \<Rightarrow> set_prev n prev_ptr s | None \<Rightarrow> s\<lparr>rear := prev_ptr\<rparr>)"

text \<open>The two branches of \<open>lmfs_put_block\<close>.\<close>

definition link_front :: "nat \<Rightarrow> ('c, 'w) cache \<Rightarrow> ('c, 'w) cache" where
  "link_front bp s =
     (let s = set_prev bp None s; s = set_next bp (front s) s;
          s = (case front s of None \<Rightarrow> s\<lparr>rear := Some bp\<rparr> | Some f \<Rightarrow> set_prev f (Some bp) s)
      in s\<lparr>front := Some bp\<rparr>)"

definition link_rear :: "nat \<Rightarrow> ('c, 'w) cache \<Rightarrow> ('c, 'w) cache" where
  "link_rear bp s =
     (let s = set_prev bp (rear s) s; s = set_next bp None s;
          s = (case rear s of None \<Rightarrow> s\<lparr>front := Some bp\<rparr> | Some r \<Rightarrow> set_next r (Some bp) s)
      in s\<lparr>rear := Some bp\<rparr>)"

definition lmfs_put_block ::
  "('c, 'w) cenv \<Rightarrow> ptr \<Rightarrow> 32 word \<Rightarrow> ('c, 'w) cache \<Rightarrow> ('c, 'w) cache" where
  "lmfs_put_block P p block_type s =
     (case p of None \<Rightarrow> s | Some bp \<Rightarrow>
      let s = set_count bp (lmfs_count (bufs s bp) - 1) s
      in if lmfs_count (bufs s bp) \<noteq> 0 then s else
      let s = s\<lparr>bufs_in_use := bufs_in_use s - 1\<rparr>
      in if lmfs_dev (bufs s bp) = DEV_RAM P \<or> block_type AND ONE_SHOT P \<noteq> 0
         then link_front bp s else link_rear bp s)"

section \<open>Input and output\<close>

definition block_pos :: "('c, 'w) cache \<Rightarrow> blockno \<Rightarrow> 64 word" where
  "block_pos s b = ucast b * of_nat (fs_block_size s)"

definition read_block :: "('c, 'w) cenv \<Rightarrow> nat \<Rightarrow> ('c, 'w) cache \<Rightarrow> stop + ('c, 'w) cache" where
  "read_block P bp s =
     (let dev = lmfs_dev (bufs s bp) in
      if dev = NO_DEV P then Inl Assertion else
      case data (bufs s bp) of None \<Rightarrow> Inl Null_pointer | Some c \<Rightarrow>
      let (r, c, w) = bdev_read P (world s) dev (block_pos s (lmfs_blocknr (bufs s bp))) c
            (fs_block_size s);
          s = set_data bp (Some c) (s\<lparr>world := w\<rparr>)
      in if r < 0 then Inr ((set_dev bp (NO_DEV P) s)\<lparr>rdwt_err := r\<rparr>)
         else if r \<noteq> int (fs_block_size s)
         then Inr ((set_dev bp (NO_DEV P) s)\<lparr>rdwt_err := END_OF_FILE P\<rparr>)
         else Inr s)"

definition lmfs_invalidate :: "('c, 'w) cenv \<Rightarrow> dev_id \<Rightarrow> ('c, 'w) cache \<Rightarrow> ('c, 'w) cache" where
  "lmfs_invalidate P device s =
     s\<lparr>bufs := (\<lambda>i. if i < nr_bufs s \<and> lmfs_dev (bufs s i) = device
                    then (bufs s i)\<lparr>lmfs_dev := NO_DEV P\<rparr> else bufs s i),
       world := vm_forgetblocks P (world s)\<rparr>"

text \<open>
  One round of \<open>lmfs_rw_scattered\<close> after the sort: the longest run of consecutive block
  numbers goes to the driver, then the result is harvested. \<open>harvest\<close> returns how many
  buffers were done.
\<close>

fun run_from :: "('c, 'w) cache \<Rightarrow> blockno \<Rightarrow> nat \<Rightarrow> nat list \<Rightarrow> nat list" where
  "run_from s first_nr 0 q = []"
| "run_from s first_nr (Suc n) [] = []"
| "run_from s first_nr (Suc n) (b # q) =
     (if lmfs_blocknr (bufs s b) \<noteq> first_nr then [] else b # run_from s (first_nr + 1) n q)"

fun harvest ::
  "('c, 'w) cenv \<Rightarrow> rw_flag \<Rightarrow> dev_id \<Rightarrow> nat \<Rightarrow> int \<Rightarrow> nat list \<Rightarrow> ('c, 'w) cache \<Rightarrow> nat \<times> ('c, 'w) cache"
where
  "harvest P rw dev i r [] s = (i, s)"
| "harvest P rw dev i r (bp # q) s =
     (if r < int (fs_block_size s) then
        (i, if i = 0 then (set_dev bp (NO_DEV P) s)\<lparr>world := vm_forgetblocks P (world s)\<rparr> else s)
      else
        let s = (case rw of
                   READING \<Rightarrow> lmfs_put_block P (Some bp) (PARTIAL_DATA_BLOCK P) (set_dev bp dev s)
                 | WRITING \<Rightarrow> lmfs_markclean bp s)
        in harvest P rw dev (Suc i) (r - int (fs_block_size s)) q s)"

fun put_all :: "('c, 'w) cenv \<Rightarrow> nat list \<Rightarrow> ('c, 'w) cache \<Rightarrow> ('c, 'w) cache" where
  "put_all P [] s = s"
| "put_all P (b # q) s = put_all P q (lmfs_put_block P (Some b) (PARTIAL_DATA_BLOCK P) s)"

text \<open>What the driver transferred lands in the memory the buffers point to.\<close>

fun set_datas :: "nat list \<Rightarrow> 'c list \<Rightarrow> ('c, 'w) cache \<Rightarrow> ('c, 'w) cache" where
  "set_datas (b # q) (c # cs) s =
     set_datas q cs (set_data b (map_option (\<lambda>_. c) (data (bufs s b))) s)"
| "set_datas q cs s = s"

definition rw_round ::
  "('c, 'w) cenv \<Rightarrow> rw_flag \<Rightarrow> dev_id \<Rightarrow> nat list \<Rightarrow> ('c, 'w) cache \<Rightarrow> nat \<times> ('c, 'w) cache" where
  "rw_round P rw dev q s =
     (let first_nr = lmfs_blocknr (bufs s (hd q)); run = run_from s first_nr (NR_IOREQS P) q;
          iovec = map (\<lambda>b. data (bufs s b)) run; pos = block_pos s first_nr
      in case rw of
           READING \<Rightarrow>
             (case bdev_gather P (world s) dev pos iovec (fs_block_size s) of
                (r, cs, w) \<Rightarrow> harvest P rw dev 0 r run (set_datas run cs (s\<lparr>world := w\<rparr>)))
         | WRITING \<Rightarrow>
             (case bdev_scatter P (world s) dev pos iovec (fs_block_size s) of
                (r, w) \<Rightarrow> harvest P rw dev 0 r run (s\<lparr>world := w\<rparr>)))"

text \<open>
  The loop. Reading releases what the first round did not do and ends; writing goes on with
  the rest unless a round made no progress.
\<close>

function rw_loop ::
  "('c, 'w) cenv \<Rightarrow> rw_flag \<Rightarrow> dev_id \<Rightarrow> nat list \<Rightarrow> ('c, 'w) cache \<Rightarrow> ('c, 'w) cache" where
  "rw_loop P rw dev q s =
     (if q = [] then s else
      case rw_round P rw dev q s of (i, s') \<Rightarrow>
        (case rw of
           READING \<Rightarrow> put_all P (drop i q) s'
         | WRITING \<Rightarrow> if i = 0 then s' else rw_loop P rw dev (drop i q) s'))"
  by pat_completeness auto
termination
  by (relation "measure (\<lambda>(P, rw, dev, q, s). length q)") auto

declare rw_loop.simps [simp del]

definition lmfs_rw_scattered ::
  "('c, 'w) cenv \<Rightarrow> dev_id \<Rightarrow> nat list \<Rightarrow> rw_flag \<Rightarrow> ('c, 'w) cache \<Rightarrow> ('c, 'w) cache" where
  "lmfs_rw_scattered P dev bufq rw s =
     rw_loop P rw dev (shell_sort (\<lambda>b. lmfs_blocknr (bufs s b)) bufq) s"

definition dirty_list :: "dev_id \<Rightarrow> ('c, 'w) cache \<Rightarrow> nat list" where
  "dirty_list dev s =
     filter (\<lambda>i. lmfs_dirt (bufs s i) = BP_DIRTY \<and> lmfs_dev (bufs s i) = dev) [0..<nr_bufs s]"

definition flushall :: "('c, 'w) cenv \<Rightarrow> dev_id \<Rightarrow> ('c, 'w) cache \<Rightarrow> stop + ('c, 'w) cache" where
  "flushall P dev s =
     (if dirtylistsize s \<noteq> nr_bufs s \<and> alloc_fails P (world s) then Inl Panic
      else let s = s\<lparr>dirtylistsize := nr_bufs s\<rparr>
           in Inr (lmfs_rw_scattered P dev (dirty_list dev s) WRITING s))"

section \<open>Getting a block\<close>

fun hash_find :: "('c, 'w) cache \<Rightarrow> dev_id \<Rightarrow> blockno \<Rightarrow> nat \<Rightarrow> ptr \<Rightarrow> stop + ptr" where
  "hash_find s dev block fuel None = Inr None"
| "hash_find s dev block 0 (Some bp) = Inl Diverges"
| "hash_find s dev block (Suc fuel) (Some bp) =
     (if lmfs_blocknr (bufs s bp) = block \<and> lmfs_dev (bufs s bp) = dev then Inr (Some bp)
      else hash_find s dev block fuel (lmfs_hash (bufs s bp)))"

definition BUFHASH :: "('c, 'w) cache \<Rightarrow> blockno \<Rightarrow> nat" where
  "BUFHASH s b = unat b mod nr_bufs s"

text \<open>A block found in the cache.\<close>

definition get_hit :: "('c, 'w) cenv \<Rightarrow> nat \<Rightarrow> ('c, 'w) cache \<Rightarrow> stop + (nat \<times> ('c, 'w) cache)" where
  "get_hit P bp s =
     (let s = (if lmfs_count (bufs s bp) = 0 then rm_lru bp s else s);
          s = set_count bp (lmfs_count (bufs s bp) + 1) s
      in if lmfs_bytes (bufs s bp) = fs_block_size s \<and> lmfs_dev (bufs s bp) \<noteq> NO_DEV P \<and>
            data (bufs s bp) \<noteq> None
         then Inr (bp, s) else Inl Assertion)"

text \<open>The scan along the free chain when no memory is left for the front buffer.\<close>

fun sized_from :: "('c, 'w) cache \<Rightarrow> nat \<Rightarrow> ptr \<Rightarrow> stop + ptr" where
  "sized_from s fuel None = Inr None"
| "sized_from s 0 (Some bp) = Inl Diverges"
| "sized_from s (Suc fuel) (Some bp) =
     (if lmfs_bytes (bufs s bp) < fs_block_size s then sized_from s fuel (lmfs_next (bufs s bp))
      else Inr (Some bp))"

definition take_oldest :: "('c, 'w) cenv \<Rightarrow> ('c, 'w) cache \<Rightarrow> stop + (nat \<times> ('c, 'w) cache)" where
  "take_oldest P s =
     (case front s of None \<Rightarrow> Inl Panic | Some bp \<Rightarrow>
      if lmfs_bytes (bufs s bp) < fs_block_size s then
        if data (bufs s bp) \<noteq> None \<or> lmfs_bytes (bufs s bp) \<noteq> 0 then Inl Assertion else
        case alloc_contig P (world s) (fs_block_size s) of
          (None, w) \<Rightarrow>
            bindE (sized_from (s\<lparr>world := w\<rparr>) (nr_bufs s) (front s)) (\<lambda>p.
              case p of None \<Rightarrow> Inl Panic | Some bp \<Rightarrow> Inr (bp, s\<lparr>world := w\<rparr>))
        | (Some c, w) \<Rightarrow>
            Inr (bp, upd bp (\<lambda>b. b\<lparr>data := Some c, lmfs_bytes := fs_block_size s\<rparr>) (s\<lparr>world := w\<rparr>))
      else Inr (bp, s))"

fun unhash_from :: "nat \<Rightarrow> nat \<Rightarrow> nat \<Rightarrow> ('c, 'w) cache \<Rightarrow> stop + ('c, 'w) cache" where
  "unhash_from bp 0 prev s = Inl Diverges"
| "unhash_from bp (Suc fuel) prev s =
     (case lmfs_hash (bufs s prev) of
        None \<Rightarrow> Inr s
      | Some n \<Rightarrow> if n = bp then Inr (set_hash prev (lmfs_hash (bufs s bp)) s)
                  else unhash_from bp fuel n s)"

definition unhash :: "nat \<Rightarrow> ('c, 'w) cache \<Rightarrow> stop + ('c, 'w) cache" where
  "unhash bp s =
     (let b = BUFHASH s (lmfs_blocknr (bufs s bp)) in
      case buf_hash s b of
        None \<Rightarrow> Inl Null_pointer
      | Some prev \<Rightarrow>
          if prev = bp then Inr (s\<lparr>buf_hash := (buf_hash s)(b := lmfs_hash (bufs s bp))\<rparr>)
          else unhash_from bp (nr_bufs s) prev s)"

text \<open>Writing back what the buffer held; the result names the block handed to VM.\<close>

definition evict ::
  "('c, 'w) cenv \<Rightarrow> nat \<Rightarrow> ('c, 'w) cache \<Rightarrow> stop + ((dev_id \<times> blockno) option \<times> ('c, 'w) cache)" where
  "evict P bp s =
     (if lmfs_dev (bufs s bp) = NO_DEV P then Inr (None, s) else
      bindE (if lmfs_dirt (bufs s bp) = BP_DIRTY then flushall P (lmfs_dev (bufs s bp)) s else Inr s)
        (\<lambda>s. if lmfs_bytes (bufs s bp) \<noteq> fs_block_size s then Inl Assertion
             else Inr (Some (lmfs_dev (bufs s bp), lmfs_blocknr (bufs s bp)),
                       set_dev bp (NO_DEV P) s)))"

definition install :: "nat \<Rightarrow> dev_id \<Rightarrow> blockno \<Rightarrow> ('c, 'w) cache \<Rightarrow> ('c, 'w) cache" where
  "install bp dev block s =
     (let s = upd bp (\<lambda>b. b\<lparr>lmfs_dirt := BP_CLEAN, lmfs_dev := dev, lmfs_blocknr := block,
                           lmfs_count := lmfs_count b + 1\<rparr>) s;
          b = BUFHASH s block; s = set_hash bp (buf_hash s b) s
      in s\<lparr>buf_hash := (buf_hash s)(b := Some bp)\<rparr>)"

text \<open>Filling the buffer, unless VM's second-level cache has the block.\<close>

definition fetch_io ::
  "('c, 'w) cenv \<Rightarrow> nat \<Rightarrow> dev_id \<times> blockno \<Rightarrow> search \<Rightarrow> ('c, 'w) cache \<Rightarrow> stop + ('c, 'w) cache" where
  "fetch_io P bp getid only_search s =
     bindE
       (case only_search of
          PREFETCH \<Rightarrow> Inr (set_dev bp (NO_DEV P) s)
        | NORMAL \<Rightarrow> read_block P bp s
        | NO_READ \<Rightarrow>
            Inr (if vmcache s then s\<lparr>world := snd (vm_forgetblock P (world s) (Some getid))\<rparr> else s)
        | Unexpected _ \<Rightarrow> Inl Panic)
       (\<lambda>s. if data (bufs s bp) = None then Inl Assertion else Inr s)"

definition fetch ::
  "('c, 'w) cenv \<Rightarrow> nat \<Rightarrow> (dev_id \<times> blockno) option \<Rightarrow> dev_id \<times> blockno \<Rightarrow> search \<Rightarrow>
   ('c, 'w) cache \<Rightarrow> stop + ('c, 'w) cache" where
  "fetch P bp yieldid getid only_search s =
     (if (only_search = PREFETCH \<or> only_search = NORMAL) \<and> vmcache s then
        case data (bufs s bp) of None \<Rightarrow> Inl Null_pointer | Some c \<Rightarrow>
        case vm_yield_block_get_block P (world s) yieldid getid c of
          (ok, c, w) \<Rightarrow>
            let s = set_data bp (Some c) (s\<lparr>world := w\<rparr>)
            in if ok then Inr s else fetch_io P bp getid only_search s
      else fetch_io P bp getid only_search s)"

definition get_miss ::
  "('c, 'w) cenv \<Rightarrow> dev_id \<Rightarrow> blockno \<Rightarrow> search \<Rightarrow> ('c, 'w) cache \<Rightarrow> stop + (nat \<times> ('c, 'w) cache)" where
  "get_miss P dev block only_search s =
     bindE (take_oldest P s) (\<lambda>(bp, s).
     if data (bufs s bp) = None \<or> lmfs_bytes (bufs s bp) \<noteq> fs_block_size s \<or>
        lmfs_count (bufs s bp) \<noteq> 0 then Inl Assertion else
     bindE (unhash bp (rm_lru bp s)) (\<lambda>s.
     bindE (evict P bp s) (\<lambda>(yieldid, s).
     bindE (fetch P bp yieldid (dev, block) only_search (install bp dev block s)) (\<lambda>s.
     Inr (bp, s)))))"

definition lmfs_get_block ::
  "('c, 'w) cenv \<Rightarrow> dev_id \<Rightarrow> blockno \<Rightarrow> search \<Rightarrow> ('c, 'w) cache \<Rightarrow> stop + (nat \<times> ('c, 'w) cache)" where
  "lmfs_get_block P dev block only_search s =
     (if nr_bufs s = 0 \<or> fs_block_size s = 0 \<or> dev = NO_DEV P then Inl Assertion else
      bindE (hash_find s dev block (nr_bufs s) (buf_hash s (BUFHASH s block))) (\<lambda>p.
      case p of Some bp \<Rightarrow> get_hit P bp s | None \<Rightarrow> get_miss P dev block only_search s))"

section \<open>The pool\<close>

text \<open>A buffer of the fresh array: cleared memory, then the loop of \<open>lmfs_buf_pool\<close>.\<close>

definition pool_buf :: "('c, 'w) cenv \<Rightarrow> nat \<Rightarrow> nat \<Rightarrow> 'c buf" where
  "pool_buf P n i =
     (let nx = (if i = n - 1 then None else Some (i + 1)) in
      \<lparr>data = None, lmfs_next = nx, lmfs_prev = (if i = 0 then None else Some (i - 1)),
       lmfs_hash = nx, lmfs_blocknr = NO_BLOCK P, lmfs_count = 0, lmfs_dev = NO_DEV P,
       lmfs_dirt = BP_CLEAN, lmfs_bytes = 0\<rparr>)"

definition lmfs_buf_pool ::
  "('c, 'w) cenv \<Rightarrow> int \<Rightarrow> ('c, 'w) cache \<Rightarrow> stop + ('c, 'w) cache" where
  "lmfs_buf_pool P new_nr_bufs s =
     (if new_nr_bufs < MINBUFS then Inl Assertion else
      bindE (if 0 < nr_bufs s then
               bindE (fs_sync P s) (\<lambda>s.
                 if \<exists>i < nr_bufs s. data (bufs s i) \<noteq> None \<and> lmfs_bytes (bufs s i) = 0
                 then Inl Assertion else Inr s)
             else Inr s) (\<lambda>s.
      if alloc_fails P (world s) then Inl Panic else
      let n = nat new_nr_bufs in
      Inr (s\<lparr>bufs := pool_buf P n, buf_hash := (\<lambda>h. if h = 0 then Some 0 else None),
             nr_bufs := n, bufs_in_use := 0, front := Some 0, rear := Some (n - 1),
             world := vm_forgetblocks P (world s)\<rparr>)))"

definition cache_resize ::
  "('c, 'w) cenv \<Rightarrow> nat \<Rightarrow> 32 word \<Rightarrow> ('c, 'w) cache \<Rightarrow> stop + ('c, 'w) cache" where
  "cache_resize P blocksize bufs' s =
     (if blocksize = 0 \<or> bufs' < word_of_int MINBUFS then Inl Assertion
      else if \<exists>i < nr_bufs s. lmfs_count (bufs s i) \<noteq> 0 then Inl Panic
      else bindE (lmfs_buf_pool P (sint bufs') s) (\<lambda>s. Inr (s\<lparr>fs_block_size := blocksize\<rparr>)))"

definition lmfs_set_blocksize ::
  "('c, 'w) cenv \<Rightarrow> nat \<Rightarrow> dev_id \<Rightarrow> ('c, 'w) cache \<Rightarrow> stop + ('c, 'w) cache" where
  "lmfs_set_blocksize P new_block_size major s =
     bindE (cache_resize P new_block_size (word_of_int MINBUFS) s) (\<lambda>s.
     let (btotal, bfree) = fs_blockstats P (world s) in
     bindE (fs_bufs_heuristic P (world s) 10 btotal bfree (of_nat new_block_size) major) (\<lambda>n.
     bindE (cache_resize P new_block_size n s) (\<lambda>s.
     let (supported, w) = vm_forgetblock P (world s) None in
     Inr (s\<lparr>world := w, vmcache := supported \<and> may_use_vmcache s \<and> major \<noteq> MEMORY_MAJOR P\<rparr>))))"

fun flush_each :: "('c, 'w) cenv \<Rightarrow> nat list \<Rightarrow> ('c, 'w) cache \<Rightarrow> stop + ('c, 'w) cache" where
  "flush_each P [] s = Inr s"
| "flush_each P (i # is) s =
     (if lmfs_dev (bufs s i) \<noteq> NO_DEV P \<and> lmfs_dirt (bufs s i) = BP_DIRTY
      then bindE (flushall P (lmfs_dev (bufs s i)) s) (flush_each P is)
      else flush_each P is s)"

definition lmfs_flushall :: "('c, 'w) cenv \<Rightarrow> ('c, 'w) cache \<Rightarrow> stop + ('c, 'w) cache" where
  "lmfs_flushall P s = flush_each P [0..<nr_bufs s] s"

section \<open>The accessors of the interface\<close>

definition lmfs_bufs_in_use :: "('c, 'w) cache \<Rightarrow> int" where
  "lmfs_bufs_in_use s = sint (bufs_in_use s)"

definition lmfs_nr_bufs :: "('c, 'w) cache \<Rightarrow> int" where
  "lmfs_nr_bufs s = sint (of_nat (nr_bufs s) :: 32 word)"

definition lmfs_fs_block_size :: "('c, 'w) cache \<Rightarrow> nat" where
  "lmfs_fs_block_size s = fs_block_size s"

definition lmfs_may_use_vmcache :: "int \<Rightarrow> ('c, 'w) cache \<Rightarrow> ('c, 'w) cache" where
  "lmfs_may_use_vmcache ok s = s\<lparr>may_use_vmcache := ok \<noteq> 0\<rparr>"

definition lmfs_reset_rdwt_err :: "('c, 'w) cache \<Rightarrow> ('c, 'w) cache" where
  "lmfs_reset_rdwt_err s = s\<lparr>rdwt_err := 0\<rparr>"

definition lmfs_rdwt_err :: "('c, 'w) cache \<Rightarrow> int" where
  "lmfs_rdwt_err s = rdwt_err s"

end
