(* ===== verification/Cache_Lru.thy ===== *)
theory Cache_Lru
  imports Cache
begin

unbundle bit_operations_syntax

text \<open>
  The chain of free buffers of \<open>cache.c\<close> as a list, oldest first. The interface
  \<open>lru_order\<close> states what the three link operations do to the list; its client lemmas
  say where a released buffer ends up. The model's \<open>rm_lru\<close>, \<open>link_front\<close> and
  \<open>link_rear\<close> implement it over the doubly linked chain.
\<close>

section \<open>Reading fields after writing fields\<close>

lemma upd_frame [simp]:
  "buf_hash (upd i f s) = buf_hash s"
  "front (upd i f s) = front s"
  "rear (upd i f s) = rear s"
  "bufs_in_use (upd i f s) = bufs_in_use s"
  "nr_bufs (upd i f s) = nr_bufs s"
  "vmcache (upd i f s) = vmcache s"
  "may_use_vmcache (upd i f s) = may_use_vmcache s"
  "fs_block_size (upd i f s) = fs_block_size s"
  "rdwt_err (upd i f s) = rdwt_err s"
  "dirtylistsize (upd i f s) = dirtylistsize s"
  "world (upd i f s) = world s"
  by (simp_all add: upd_def)

lemma set_next_frame [simp]:
  "lmfs_next (bufs (set_next i p s) j) = (if j = i then p else lmfs_next (bufs s j))"
  "data (bufs (set_next i p s) j) = data (bufs s j)"
  "lmfs_prev (bufs (set_next i p s) j) = lmfs_prev (bufs s j)"
  "lmfs_hash (bufs (set_next i p s) j) = lmfs_hash (bufs s j)"
  "lmfs_blocknr (bufs (set_next i p s) j) = lmfs_blocknr (bufs s j)"
  "lmfs_count (bufs (set_next i p s) j) = lmfs_count (bufs s j)"
  "lmfs_dev (bufs (set_next i p s) j) = lmfs_dev (bufs s j)"
  "lmfs_dirt (bufs (set_next i p s) j) = lmfs_dirt (bufs s j)"
  "lmfs_bytes (bufs (set_next i p s) j) = lmfs_bytes (bufs s j)"
  "buf_hash (set_next i p s) = buf_hash s"
  "front (set_next i p s) = front s"
  "rear (set_next i p s) = rear s"
  "bufs_in_use (set_next i p s) = bufs_in_use s"
  "nr_bufs (set_next i p s) = nr_bufs s"
  "vmcache (set_next i p s) = vmcache s"
  "may_use_vmcache (set_next i p s) = may_use_vmcache s"
  "fs_block_size (set_next i p s) = fs_block_size s"
  "rdwt_err (set_next i p s) = rdwt_err s"
  "dirtylistsize (set_next i p s) = dirtylistsize s"
  "world (set_next i p s) = world s"
  by (simp_all add: set_next_def) (simp_all add: upd_def)

lemma set_prev_frame [simp]:
  "lmfs_prev (bufs (set_prev i p s) j) = (if j = i then p else lmfs_prev (bufs s j))"
  "data (bufs (set_prev i p s) j) = data (bufs s j)"
  "lmfs_next (bufs (set_prev i p s) j) = lmfs_next (bufs s j)"
  "lmfs_hash (bufs (set_prev i p s) j) = lmfs_hash (bufs s j)"
  "lmfs_blocknr (bufs (set_prev i p s) j) = lmfs_blocknr (bufs s j)"
  "lmfs_count (bufs (set_prev i p s) j) = lmfs_count (bufs s j)"
  "lmfs_dev (bufs (set_prev i p s) j) = lmfs_dev (bufs s j)"
  "lmfs_dirt (bufs (set_prev i p s) j) = lmfs_dirt (bufs s j)"
  "lmfs_bytes (bufs (set_prev i p s) j) = lmfs_bytes (bufs s j)"
  "buf_hash (set_prev i p s) = buf_hash s"
  "front (set_prev i p s) = front s"
  "rear (set_prev i p s) = rear s"
  "bufs_in_use (set_prev i p s) = bufs_in_use s"
  "nr_bufs (set_prev i p s) = nr_bufs s"
  "vmcache (set_prev i p s) = vmcache s"
  "may_use_vmcache (set_prev i p s) = may_use_vmcache s"
  "fs_block_size (set_prev i p s) = fs_block_size s"
  "rdwt_err (set_prev i p s) = rdwt_err s"
  "dirtylistsize (set_prev i p s) = dirtylistsize s"
  "world (set_prev i p s) = world s"
  by (simp_all add: set_prev_def) (simp_all add: upd_def)

lemma set_hash_frame [simp]:
  "lmfs_hash (bufs (set_hash i p s) j) = (if j = i then p else lmfs_hash (bufs s j))"
  "data (bufs (set_hash i p s) j) = data (bufs s j)"
  "lmfs_next (bufs (set_hash i p s) j) = lmfs_next (bufs s j)"
  "lmfs_prev (bufs (set_hash i p s) j) = lmfs_prev (bufs s j)"
  "lmfs_blocknr (bufs (set_hash i p s) j) = lmfs_blocknr (bufs s j)"
  "lmfs_count (bufs (set_hash i p s) j) = lmfs_count (bufs s j)"
  "lmfs_dev (bufs (set_hash i p s) j) = lmfs_dev (bufs s j)"
  "lmfs_dirt (bufs (set_hash i p s) j) = lmfs_dirt (bufs s j)"
  "lmfs_bytes (bufs (set_hash i p s) j) = lmfs_bytes (bufs s j)"
  "buf_hash (set_hash i p s) = buf_hash s"
  "front (set_hash i p s) = front s"
  "rear (set_hash i p s) = rear s"
  "bufs_in_use (set_hash i p s) = bufs_in_use s"
  "nr_bufs (set_hash i p s) = nr_bufs s"
  "vmcache (set_hash i p s) = vmcache s"
  "may_use_vmcache (set_hash i p s) = may_use_vmcache s"
  "fs_block_size (set_hash i p s) = fs_block_size s"
  "rdwt_err (set_hash i p s) = rdwt_err s"
  "dirtylistsize (set_hash i p s) = dirtylistsize s"
  "world (set_hash i p s) = world s"
  by (simp_all add: set_hash_def) (simp_all add: upd_def)

lemma set_dev_frame [simp]:
  "lmfs_dev (bufs (set_dev i d s) j) = (if j = i then d else lmfs_dev (bufs s j))"
  "data (bufs (set_dev i d s) j) = data (bufs s j)"
  "lmfs_next (bufs (set_dev i d s) j) = lmfs_next (bufs s j)"
  "lmfs_prev (bufs (set_dev i d s) j) = lmfs_prev (bufs s j)"
  "lmfs_hash (bufs (set_dev i d s) j) = lmfs_hash (bufs s j)"
  "lmfs_blocknr (bufs (set_dev i d s) j) = lmfs_blocknr (bufs s j)"
  "lmfs_count (bufs (set_dev i d s) j) = lmfs_count (bufs s j)"
  "lmfs_dirt (bufs (set_dev i d s) j) = lmfs_dirt (bufs s j)"
  "lmfs_bytes (bufs (set_dev i d s) j) = lmfs_bytes (bufs s j)"
  "buf_hash (set_dev i d s) = buf_hash s"
  "front (set_dev i d s) = front s"
  "rear (set_dev i d s) = rear s"
  "bufs_in_use (set_dev i d s) = bufs_in_use s"
  "nr_bufs (set_dev i d s) = nr_bufs s"
  "vmcache (set_dev i d s) = vmcache s"
  "may_use_vmcache (set_dev i d s) = may_use_vmcache s"
  "fs_block_size (set_dev i d s) = fs_block_size s"
  "rdwt_err (set_dev i d s) = rdwt_err s"
  "dirtylistsize (set_dev i d s) = dirtylistsize s"
  "world (set_dev i d s) = world s"
  by (simp_all add: set_dev_def) (simp_all add: upd_def)

lemma set_count_frame [simp]:
  "lmfs_count (bufs (set_count i n s) j) = (if j = i then n else lmfs_count (bufs s j))"
  "data (bufs (set_count i n s) j) = data (bufs s j)"
  "lmfs_next (bufs (set_count i n s) j) = lmfs_next (bufs s j)"
  "lmfs_prev (bufs (set_count i n s) j) = lmfs_prev (bufs s j)"
  "lmfs_hash (bufs (set_count i n s) j) = lmfs_hash (bufs s j)"
  "lmfs_blocknr (bufs (set_count i n s) j) = lmfs_blocknr (bufs s j)"
  "lmfs_dev (bufs (set_count i n s) j) = lmfs_dev (bufs s j)"
  "lmfs_dirt (bufs (set_count i n s) j) = lmfs_dirt (bufs s j)"
  "lmfs_bytes (bufs (set_count i n s) j) = lmfs_bytes (bufs s j)"
  "buf_hash (set_count i n s) = buf_hash s"
  "front (set_count i n s) = front s"
  "rear (set_count i n s) = rear s"
  "bufs_in_use (set_count i n s) = bufs_in_use s"
  "nr_bufs (set_count i n s) = nr_bufs s"
  "vmcache (set_count i n s) = vmcache s"
  "may_use_vmcache (set_count i n s) = may_use_vmcache s"
  "fs_block_size (set_count i n s) = fs_block_size s"
  "rdwt_err (set_count i n s) = rdwt_err s"
  "dirtylistsize (set_count i n s) = dirtylistsize s"
  "world (set_count i n s) = world s"
  by (simp_all add: set_count_def) (simp_all add: upd_def)

lemma set_data_frame [simp]:
  "data (bufs (set_data i c s) j) = (if j = i then c else data (bufs s j))"
  "lmfs_next (bufs (set_data i c s) j) = lmfs_next (bufs s j)"
  "lmfs_prev (bufs (set_data i c s) j) = lmfs_prev (bufs s j)"
  "lmfs_hash (bufs (set_data i c s) j) = lmfs_hash (bufs s j)"
  "lmfs_blocknr (bufs (set_data i c s) j) = lmfs_blocknr (bufs s j)"
  "lmfs_count (bufs (set_data i c s) j) = lmfs_count (bufs s j)"
  "lmfs_dev (bufs (set_data i c s) j) = lmfs_dev (bufs s j)"
  "lmfs_dirt (bufs (set_data i c s) j) = lmfs_dirt (bufs s j)"
  "lmfs_bytes (bufs (set_data i c s) j) = lmfs_bytes (bufs s j)"
  "buf_hash (set_data i c s) = buf_hash s"
  "front (set_data i c s) = front s"
  "rear (set_data i c s) = rear s"
  "bufs_in_use (set_data i c s) = bufs_in_use s"
  "nr_bufs (set_data i c s) = nr_bufs s"
  "vmcache (set_data i c s) = vmcache s"
  "may_use_vmcache (set_data i c s) = may_use_vmcache s"
  "fs_block_size (set_data i c s) = fs_block_size s"
  "rdwt_err (set_data i c s) = rdwt_err s"
  "dirtylistsize (set_data i c s) = dirtylistsize s"
  "world (set_data i c s) = world s"
  by (simp_all add: set_data_def) (simp_all add: upd_def)

lemma lmfs_markclean_frame [simp]:
  "lmfs_dirt (bufs (lmfs_markclean i s) j) = (if j = i then BP_CLEAN else lmfs_dirt (bufs s j))"
  "data (bufs (lmfs_markclean i s) j) = data (bufs s j)"
  "lmfs_next (bufs (lmfs_markclean i s) j) = lmfs_next (bufs s j)"
  "lmfs_prev (bufs (lmfs_markclean i s) j) = lmfs_prev (bufs s j)"
  "lmfs_hash (bufs (lmfs_markclean i s) j) = lmfs_hash (bufs s j)"
  "lmfs_blocknr (bufs (lmfs_markclean i s) j) = lmfs_blocknr (bufs s j)"
  "lmfs_count (bufs (lmfs_markclean i s) j) = lmfs_count (bufs s j)"
  "lmfs_dev (bufs (lmfs_markclean i s) j) = lmfs_dev (bufs s j)"
  "lmfs_bytes (bufs (lmfs_markclean i s) j) = lmfs_bytes (bufs s j)"
  "buf_hash (lmfs_markclean i s) = buf_hash s"
  "front (lmfs_markclean i s) = front s"
  "rear (lmfs_markclean i s) = rear s"
  "bufs_in_use (lmfs_markclean i s) = bufs_in_use s"
  "nr_bufs (lmfs_markclean i s) = nr_bufs s"
  "vmcache (lmfs_markclean i s) = vmcache s"
  "may_use_vmcache (lmfs_markclean i s) = may_use_vmcache s"
  "fs_block_size (lmfs_markclean i s) = fs_block_size s"
  "rdwt_err (lmfs_markclean i s) = rdwt_err s"
  "dirtylistsize (lmfs_markclean i s) = dirtylistsize s"
  "world (lmfs_markclean i s) = world s"
  by (simp_all add: lmfs_markclean_def) (simp_all add: upd_def)

lemma lmfs_markdirty_frame [simp]:
  "lmfs_dirt (bufs (lmfs_markdirty i s) j) = (if j = i then BP_DIRTY else lmfs_dirt (bufs s j))"
  "data (bufs (lmfs_markdirty i s) j) = data (bufs s j)"
  "lmfs_next (bufs (lmfs_markdirty i s) j) = lmfs_next (bufs s j)"
  "lmfs_prev (bufs (lmfs_markdirty i s) j) = lmfs_prev (bufs s j)"
  "lmfs_hash (bufs (lmfs_markdirty i s) j) = lmfs_hash (bufs s j)"
  "lmfs_blocknr (bufs (lmfs_markdirty i s) j) = lmfs_blocknr (bufs s j)"
  "lmfs_count (bufs (lmfs_markdirty i s) j) = lmfs_count (bufs s j)"
  "lmfs_dev (bufs (lmfs_markdirty i s) j) = lmfs_dev (bufs s j)"
  "lmfs_bytes (bufs (lmfs_markdirty i s) j) = lmfs_bytes (bufs s j)"
  "buf_hash (lmfs_markdirty i s) = buf_hash s"
  "front (lmfs_markdirty i s) = front s"
  "rear (lmfs_markdirty i s) = rear s"
  "bufs_in_use (lmfs_markdirty i s) = bufs_in_use s"
  "nr_bufs (lmfs_markdirty i s) = nr_bufs s"
  "vmcache (lmfs_markdirty i s) = vmcache s"
  "may_use_vmcache (lmfs_markdirty i s) = may_use_vmcache s"
  "fs_block_size (lmfs_markdirty i s) = fs_block_size s"
  "rdwt_err (lmfs_markdirty i s) = rdwt_err s"
  "dirtylistsize (lmfs_markdirty i s) = dirtylistsize s"
  "world (lmfs_markdirty i s) = world s"
  by (simp_all add: lmfs_markdirty_def) (simp_all add: upd_def)

definition nexts :: "('c, 'w) cache \<Rightarrow> nat \<Rightarrow> ptr" where
  "nexts s = (\<lambda>i. lmfs_next (bufs s i))"
definition prevs :: "('c, 'w) cache \<Rightarrow> nat \<Rightarrow> ptr" where
  "prevs s = (\<lambda>i. lmfs_prev (bufs s i))"
definition hashes :: "('c, 'w) cache \<Rightarrow> nat \<Rightarrow> ptr" where
  "hashes s = (\<lambda>i. lmfs_hash (bufs s i))"

lemma links_frame [simp]:
  "nexts (set_next i p s) = (nexts s)(i := p)" "nexts (set_prev i p s) = nexts s"
  "prevs (set_next i p s) = prevs s" "prevs (set_prev i p s) = (prevs s)(i := p)"
  "hashes (set_next i p s) = hashes s" "hashes (set_prev i p s) = hashes s"
  "nexts (set_hash i p s) = nexts s" "prevs (set_hash i p s) = prevs s"
  "hashes (set_hash i p s) = (hashes s)(i := p)"
  by (auto simp: nexts_def prevs_def hashes_def)

lemma links_globals [simp]:
  "nexts (s\<lparr>buf_hash := v_buf_hash\<rparr>) = nexts s"
  "prevs (s\<lparr>buf_hash := v_buf_hash\<rparr>) = prevs s"
  "hashes (s\<lparr>buf_hash := v_buf_hash\<rparr>) = hashes s"
  "nexts (s\<lparr>front := v_front\<rparr>) = nexts s"
  "prevs (s\<lparr>front := v_front\<rparr>) = prevs s"
  "hashes (s\<lparr>front := v_front\<rparr>) = hashes s"
  "nexts (s\<lparr>rear := v_rear\<rparr>) = nexts s"
  "prevs (s\<lparr>rear := v_rear\<rparr>) = prevs s"
  "hashes (s\<lparr>rear := v_rear\<rparr>) = hashes s"
  "nexts (s\<lparr>bufs_in_use := v_bufs_in_use\<rparr>) = nexts s"
  "prevs (s\<lparr>bufs_in_use := v_bufs_in_use\<rparr>) = prevs s"
  "hashes (s\<lparr>bufs_in_use := v_bufs_in_use\<rparr>) = hashes s"
  "nexts (s\<lparr>vmcache := v_vmcache\<rparr>) = nexts s"
  "prevs (s\<lparr>vmcache := v_vmcache\<rparr>) = prevs s"
  "hashes (s\<lparr>vmcache := v_vmcache\<rparr>) = hashes s"
  "nexts (s\<lparr>fs_block_size := v_fs_block_size\<rparr>) = nexts s"
  "prevs (s\<lparr>fs_block_size := v_fs_block_size\<rparr>) = prevs s"
  "hashes (s\<lparr>fs_block_size := v_fs_block_size\<rparr>) = hashes s"
  "nexts (s\<lparr>rdwt_err := v_rdwt_err\<rparr>) = nexts s"
  "prevs (s\<lparr>rdwt_err := v_rdwt_err\<rparr>) = prevs s"
  "hashes (s\<lparr>rdwt_err := v_rdwt_err\<rparr>) = hashes s"
  "nexts (s\<lparr>dirtylistsize := v_dirtylistsize\<rparr>) = nexts s"
  "prevs (s\<lparr>dirtylistsize := v_dirtylistsize\<rparr>) = prevs s"
  "hashes (s\<lparr>dirtylistsize := v_dirtylistsize\<rparr>) = hashes s"
  "nexts (s\<lparr>world := v_world\<rparr>) = nexts s"
  "prevs (s\<lparr>world := v_world\<rparr>) = prevs s"
  "hashes (s\<lparr>world := v_world\<rparr>) = hashes s"
  "nexts (s\<lparr>nr_bufs := v_nr_bufs\<rparr>) = nexts s"
  "prevs (s\<lparr>nr_bufs := v_nr_bufs\<rparr>) = prevs s"
  "hashes (s\<lparr>nr_bufs := v_nr_bufs\<rparr>) = hashes s"
  by (simp_all add: nexts_def prevs_def hashes_def)

section \<open>The interface\<close>

locale lru_order =
  fixes order :: "'s \<Rightarrow> nat list \<Rightarrow> bool"
    and unlink :: "nat \<Rightarrow> 's \<Rightarrow> 's"
    and to_front :: "nat \<Rightarrow> 's \<Rightarrow> 's"
    and to_rear :: "nat \<Rightarrow> 's \<Rightarrow> 's"
  assumes order_distinct: "order s xs \<Longrightarrow> distinct xs"
    and order_unlink: "order s (xs @ b # ys) \<Longrightarrow> order (unlink b s) (xs @ ys)"
    and order_front: "order s xs \<Longrightarrow> b \<notin> set xs \<Longrightarrow> order (to_front b s) (b # xs)"
    and order_rear: "order s xs \<Longrightarrow> b \<notin> set xs \<Longrightarrow> order (to_rear b s) (xs @ [b])"
begin

lemma order_remove1: "order s xs \<Longrightarrow> b \<in> set xs \<Longrightarrow> order (unlink b s) (remove1 b xs)"
proof -
  assume "order s xs" and "b \<in> set xs"
  then obtain ys zs where "xs = ys @ b # zs" "b \<notin> set ys" by (meson split_list_first)
  with \<open>order s xs\<close> show ?thesis by (simp add: order_unlink remove1_append)
qed

lemma order_touch:
  "order s xs \<Longrightarrow> b \<in> set xs \<Longrightarrow> order (to_rear b (unlink b s)) (remove1 b xs @ [b])"
  using order_remove1 order_distinct by (intro order_rear) auto

text \<open>
  Using buffers one after the other leaves the unused ones in front in their old order,
  then the used ones in the order of their use.
\<close>

lemma order_touch_all:
  "order s xs \<Longrightarrow> set bs \<subseteq> set xs \<Longrightarrow> distinct bs \<Longrightarrow>
   order (foldl (\<lambda>s b. to_rear b (unlink b s)) s bs) (filter (\<lambda>x. x \<notin> set bs) xs @ bs)"
proof (induction bs rule: rev_induct)
  case Nil
  then show ?case by simp
next
  case (snoc b bs)
  let ?ys = "filter (\<lambda>x. x \<notin> set bs) xs"
  have "order (foldl (\<lambda>s b. to_rear b (unlink b s)) s bs) (?ys @ bs)"
    using snoc by simp
  moreover have "b \<in> set ?ys" using snoc.prems by auto
  ultimately have "order (foldl (\<lambda>s b. to_rear b (unlink b s)) s (bs @ [b]))
      (remove1 b (?ys @ bs) @ [b])"
    by (simp add: order_touch)
  moreover have "remove1 b ?ys = filter (\<lambda>x. x \<notin> set (bs @ [b])) xs"
    using order_distinct [OF snoc.prems(1)]
    by (auto simp: distinct_remove1_removeAll removeAll_filter_not_eq intro: filter_cong)
  ultimately show ?case
    using \<open>b \<in> set ?ys\<close> by (simp add: remove1_append)
qed

end

section \<open>The implementation\<close>

definition lru_list :: "('c, 'w) cache \<Rightarrow> nat list \<Rightarrow> bool" where
  "lru_list s xs \<longleftrightarrow> dll (nexts s) (prevs s) (front s) (rear s) xs"

lemma lru_list_distinct: "lru_list s xs \<Longrightarrow> distinct xs"
  by (auto simp: lru_list_def dest: dll_distinct)

lemma lru_list_rm_lru:
  assumes "lru_list s (xs @ b # ys)"
  shows "lru_list (rm_lru b s) (xs @ ys)"
proof -
  have nx: "lmfs_next (bufs s b) = nexts s b" and pv: "lmfs_prev (bufs s b) = prevs s b"
    by (simp_all add: nexts_def prevs_def)
  show ?thesis
    using dll_remove [OF assms [unfolded lru_list_def]]
    by (auto simp: lru_list_def rm_lru_def Let_def nx pv split: option.splits)
qed

lemma lru_list_front:
  assumes "lru_list s xs" and "b \<notin> set xs"
  shows "lru_list (link_front b s) (b # xs)"
  using dll_push_front [OF assms(1) [unfolded lru_list_def] assms(2)]
  by (cases "front s") (simp_all add: lru_list_def link_front_def Let_def)

lemma lru_list_rear:
  assumes "lru_list s xs" and "b \<notin> set xs"
  shows "lru_list (link_rear b s) (xs @ [b])"
  using dll_push_rear [OF assms(1) [unfolded lru_list_def] assms(2)]
  by (cases "rear s") (simp_all add: lru_list_def link_rear_def Let_def)

interpretation lru: lru_order lru_list rm_lru link_front link_rear
  by unfold_locales
    (simp_all add: lru_list_distinct lru_list_rm_lru lru_list_front lru_list_rear)

lemma lru_list_cong:
  assumes "nexts s' = nexts s" and "prevs s' = prevs s" and "front s' = front s" and "rear s' = rear s"
  shows "lru_list s' = lru_list s"
  using assms by (auto simp: lru_list_def)

lemma lru_list_head: "lru_list s xs \<Longrightarrow> front s = (if xs = [] then None else Some (hd xs))"
  by (auto simp: lru_list_def dest: dll_hd)

end
