(* ===== verification/Cache_Inv.thy ===== *)
theory Cache_Inv
  imports Cache_Lru
begin

unbundle bit_operations_syntax

text \<open>
  The invariant of the block cache and the operations that keep it.

  \<open>cache_ok\<close> says: the buffers with use count 0 are exactly the ones on the LRU chain; every
  buffer is on the hash chain of its block number and on no other; \<open>bufs_in_use\<close> counts the
  rest; a buffer has memory of the block size or none, and only one with memory is in use or
  holds a block; no block of a device is in two buffers. The parts take a set of exempt
  buffers, for the states inside \<open>lmfs_get_block\<close> in which the buffer at hand is on
  neither chain.
\<close>

section \<open>The invariant\<close>

definition free_set :: "('c, 'w) cache \<Rightarrow> nat set" where
  "free_set s = {i. i < nr_bufs s \<and> lmfs_count (bufs s i) = 0}"

definition lru_ok :: "nat set \<Rightarrow> ('c, 'w) cache \<Rightarrow> bool" where
  "lru_ok Y s \<longleftrightarrow> (\<exists>xs. lru_list s xs \<and> set xs = free_set s - Y)"

definition hash_ok :: "nat set \<Rightarrow> ('c, 'w) cache \<Rightarrow> bool" where
  "hash_ok X s \<longleftrightarrow> (\<forall>h < nr_bufs s. \<exists>c. chain (hashes s) (buf_hash s h) c \<and>
     set c = {i. i < nr_bufs s \<and> BUFHASH s (lmfs_blocknr (bufs s i)) = h} - X)"

definition use_ok :: "nat set \<Rightarrow> ('c, 'w) cache \<Rightarrow> bool" where
  "use_ok Y s \<longleftrightarrow> bufs_in_use s = of_nat (card ({..<nr_bufs s} - (free_set s - Y)))"

definition buf_ok :: "('c, 'w) cenv \<Rightarrow> nat \<Rightarrow> 'c buf \<Rightarrow> bool" where
  "buf_ok P size' b \<longleftrightarrow> 0 \<le> lmfs_count b \<and>
     (data b = None \<longrightarrow> lmfs_bytes b = 0 \<and> lmfs_dev b = NO_DEV P \<and> lmfs_count b = 0) \<and>
     (data b \<noteq> None \<longrightarrow> lmfs_bytes b = size')"

definition bufs_ok :: "('c, 'w) cenv \<Rightarrow> ('c, 'w) cache \<Rightarrow> bool" where
  "bufs_ok P s \<longleftrightarrow> (\<forall>i < nr_bufs s. buf_ok P (fs_block_size s) (bufs s i))"

definition uniq :: "('c, 'w) cenv \<Rightarrow> ('c, 'w) cache \<Rightarrow> bool" where
  "uniq P s \<longleftrightarrow> (\<forall>i < nr_bufs s. \<forall>j < nr_bufs s.
     lmfs_dev (bufs s i) \<noteq> NO_DEV P \<and> lmfs_dev (bufs s i) = lmfs_dev (bufs s j) \<and>
     lmfs_blocknr (bufs s i) = lmfs_blocknr (bufs s j) \<longrightarrow> i = j)"

definition cache_ok :: "('c, 'w) cenv \<Rightarrow> ('c, 'w) cache \<Rightarrow> bool" where
  "cache_ok P s \<longleftrightarrow> 0 < nr_bufs s \<and> lru_ok {} s \<and> hash_ok {} s \<and> use_ok {} s \<and> bufs_ok P s \<and> uniq P s"

lemmas cache_ok_defs = cache_ok_def lru_ok_def hash_ok_def use_ok_def bufs_ok_def uniq_def

section \<open>Frames\<close>

lemma rm_lru_frame [simp]:
  "data (bufs (rm_lru b s) j) = data (bufs s j)"
  "lmfs_hash (bufs (rm_lru b s) j) = lmfs_hash (bufs s j)"
  "lmfs_blocknr (bufs (rm_lru b s) j) = lmfs_blocknr (bufs s j)"
  "lmfs_count (bufs (rm_lru b s) j) = lmfs_count (bufs s j)"
  "lmfs_dev (bufs (rm_lru b s) j) = lmfs_dev (bufs s j)"
  "lmfs_dirt (bufs (rm_lru b s) j) = lmfs_dirt (bufs s j)"
  "lmfs_bytes (bufs (rm_lru b s) j) = lmfs_bytes (bufs s j)"
  "buf_hash (rm_lru b s) = buf_hash s"
  "nr_bufs (rm_lru b s) = nr_bufs s"
  "vmcache (rm_lru b s) = vmcache s"
  "may_use_vmcache (rm_lru b s) = may_use_vmcache s"
  "fs_block_size (rm_lru b s) = fs_block_size s"
  "rdwt_err (rm_lru b s) = rdwt_err s"
  "dirtylistsize (rm_lru b s) = dirtylistsize s"
  "world (rm_lru b s) = world s"
  "hashes (rm_lru b s) = hashes s"
  "bufs_in_use (rm_lru b s) = bufs_in_use s + 1"
  by (simp_all add: rm_lru_def Let_def split: option.splits)

lemma link_front_frame [simp]:
  "data (bufs (link_front b s) j) = data (bufs s j)"
  "lmfs_hash (bufs (link_front b s) j) = lmfs_hash (bufs s j)"
  "lmfs_blocknr (bufs (link_front b s) j) = lmfs_blocknr (bufs s j)"
  "lmfs_count (bufs (link_front b s) j) = lmfs_count (bufs s j)"
  "lmfs_dev (bufs (link_front b s) j) = lmfs_dev (bufs s j)"
  "lmfs_dirt (bufs (link_front b s) j) = lmfs_dirt (bufs s j)"
  "lmfs_bytes (bufs (link_front b s) j) = lmfs_bytes (bufs s j)"
  "buf_hash (link_front b s) = buf_hash s"
  "nr_bufs (link_front b s) = nr_bufs s"
  "vmcache (link_front b s) = vmcache s"
  "may_use_vmcache (link_front b s) = may_use_vmcache s"
  "fs_block_size (link_front b s) = fs_block_size s"
  "rdwt_err (link_front b s) = rdwt_err s"
  "dirtylistsize (link_front b s) = dirtylistsize s"
  "world (link_front b s) = world s"
  "bufs_in_use (link_front b s) = bufs_in_use s"
  "hashes (link_front b s) = hashes s"
  by (simp_all add: link_front_def Let_def split: option.splits)

lemma link_rear_frame [simp]:
  "data (bufs (link_rear b s) j) = data (bufs s j)"
  "lmfs_hash (bufs (link_rear b s) j) = lmfs_hash (bufs s j)"
  "lmfs_blocknr (bufs (link_rear b s) j) = lmfs_blocknr (bufs s j)"
  "lmfs_count (bufs (link_rear b s) j) = lmfs_count (bufs s j)"
  "lmfs_dev (bufs (link_rear b s) j) = lmfs_dev (bufs s j)"
  "lmfs_dirt (bufs (link_rear b s) j) = lmfs_dirt (bufs s j)"
  "lmfs_bytes (bufs (link_rear b s) j) = lmfs_bytes (bufs s j)"
  "buf_hash (link_rear b s) = buf_hash s"
  "nr_bufs (link_rear b s) = nr_bufs s"
  "vmcache (link_rear b s) = vmcache s"
  "may_use_vmcache (link_rear b s) = may_use_vmcache s"
  "fs_block_size (link_rear b s) = fs_block_size s"
  "rdwt_err (link_rear b s) = rdwt_err s"
  "dirtylistsize (link_rear b s) = dirtylistsize s"
  "world (link_rear b s) = world s"
  "bufs_in_use (link_rear b s) = bufs_in_use s"
  "hashes (link_rear b s) = hashes s"
  by (simp_all add: link_rear_def Let_def split: option.splits)

lemma hashes_frame [simp]:
  "hashes (set_count i n s) = hashes s" "hashes (set_dev i d s) = hashes s"
  "hashes (set_data i c s) = hashes s" "hashes (lmfs_markclean i s) = hashes s"
  "nexts (set_count i n s) = nexts s" "nexts (set_dev i d s) = nexts s"
  "nexts (set_data i c s) = nexts s" "nexts (lmfs_markclean i s) = nexts s"
  "prevs (set_count i n s) = prevs s" "prevs (set_dev i d s) = prevs s"
  "prevs (set_data i c s) = prevs s" "prevs (lmfs_markclean i s) = prevs s"
  by (auto simp: hashes_def nexts_def prevs_def)

lemma BUFHASH_cong: "nr_bufs s' = nr_bufs s \<Longrightarrow> BUFHASH s' = BUFHASH s"
  by (auto simp: BUFHASH_def)

lemma hash_ok_cong:
  assumes "hashes s' = hashes s" and "buf_hash s' = buf_hash s" and "nr_bufs s' = nr_bufs s"
    and "\<And>i. lmfs_blocknr (bufs s' i) = lmfs_blocknr (bufs s i)"
  shows "hash_ok X s' = hash_ok X s"
  using assms BUFHASH_cong [OF assms(3)] by (simp add: hash_ok_def)

section \<open>Releasing and taking a free buffer\<close>

lemma finite_free_set [simp]: "finite (free_set s)"
  by (simp add: free_set_def)

lemma free_set_frame [simp]:
  "free_set (rm_lru b s) = free_set s" "free_set (link_front b s) = free_set s"
  "free_set (link_rear b s) = free_set s" "free_set (set_dev b d s) = free_set s"
  "free_set (set_data b c s) = free_set s" "free_set (lmfs_markclean b s) = free_set s"
  "free_set (set_hash b p s) = free_set s" "free_set (s\<lparr>world := w\<rparr>) = free_set s"
  "free_set (s\<lparr>bufs_in_use := n\<rparr>) = free_set s" "free_set (s\<lparr>buf_hash := h\<rparr>) = free_set s"
  by (simp_all add: free_set_def)

lemma free_set_set_count:
  "b < nr_bufs s \<Longrightarrow>
   free_set (set_count b n s) = (if n = 0 then insert b (free_set s) else free_set s - {b})"
  by (auto simp: free_set_def)

lemma lru_ok_rm_lru:
  assumes "lru_ok {} s" and "b \<in> free_set s"
  shows "lru_ok {b} (rm_lru b s)"
proof -
  obtain xs where xs: "lru_list s xs" "set xs = free_set s" using assms(1) by (auto simp: lru_ok_def)
  then have "lru_list (rm_lru b s) (remove1 b xs)" using assms(2) by (intro lru.order_remove1) auto
  moreover have "set (remove1 b xs) = free_set s - {b}"
    using xs lru_list_distinct [OF xs(1)] by simp
  ultimately show ?thesis by (auto simp: lru_ok_def)
qed

lemma card_take_free:
  "b \<in> F \<Longrightarrow> F \<subseteq> {..<n::nat} \<Longrightarrow> card ({..<n} - (F - {b})) = Suc (card ({..<n} - F))"
proof -
  assume "b \<in> F" and "F \<subseteq> {..<n}"
  then have "{..<n} - (F - {b}) = insert b ({..<n} - F)" by auto
  with \<open>b \<in> F\<close> show ?thesis by simp
qed

lemma free_set_less: "free_set s \<subseteq> {..<nr_bufs s}"
  by (auto simp: free_set_def)

lemma use_ok_rm_lru:
  assumes "use_ok {} s" and "b \<in> free_set s"
  shows "use_ok {b} (rm_lru b s)"
  using assms card_take_free [OF assms(2) free_set_less] by (simp add: use_ok_def)

lemma take_ok:
  assumes "lru_ok {b} s" and "use_ok {b} s" and "b < nr_bufs s" and "n \<noteq> 0"
  shows "lru_ok {} (set_count b n s)" and "use_ok {} (set_count b n s)"
proof -
  show "lru_ok {} (set_count b n s)"
    using assms(1,3,4) by (simp add: lru_ok_def lru_list_def free_set_set_count)
  show "use_ok {} (set_count b n s)"
    using assms(2-4) by (simp add: use_ok_def free_set_set_count)
qed

lemma release_ok:
  assumes "lru_ok {} s" and "use_ok {} s" and "b < nr_bufs s" and "lmfs_count (bufs s b) \<noteq> 0"
    and "s1 = (set_count b 0 s)\<lparr>bufs_in_use := bufs_in_use s - 1\<rparr>"
  shows "lru_ok {} (link_front b s1) \<and> use_ok {} (link_front b s1)"
    and "lru_ok {} (link_rear b s1) \<and> use_ok {} (link_rear b s1)"
proof -
  have free: "free_set s1 = insert b (free_set s)" "b \<notin> free_set s"
    using assms(3,4) by (auto simp: assms(5) free_set_set_count) (simp add: free_set_def)
  obtain xs where xs: "lru_list s xs" "set xs = free_set s" using assms(1) by (auto simp: lru_ok_def)
  have xs1: "lru_list s1 xs" using xs(1) by (simp add: assms(5) lru_list_def)
  have b: "b \<notin> set xs" using xs free by simp
  have "nr_bufs s1 = nr_bufs s" by (simp add: assms(5))
  have "card ({..<nr_bufs s} - free_set s) = Suc (card ({..<nr_bufs s} - insert b (free_set s)))"
    using card_take_free [of b "insert b (free_set s)" "nr_bufs s"] free(2) assms(3) free_set_less [of s]
    by simp
  with assms(2) have use: "bufs_in_use s1 = of_nat (card ({..<nr_bufs s1} - free_set s1))"
    unfolding free(1) by (simp add: use_ok_def assms(5))
  have "set (b # xs) = free_set s1" "set (xs @ [b]) = free_set s1" using xs(2) free(1) by simp_all
  with use lru_list_front [OF xs1 b] lru_list_rear [OF xs1 b]
  show "lru_ok {} (link_front b s1) \<and> use_ok {} (link_front b s1)"
    and "lru_ok {} (link_rear b s1) \<and> use_ok {} (link_rear b s1)"
    by (auto simp: lru_ok_def use_ok_def)
qed

text \<open>\<open>lmfs_put_block\<close> keeps the invariant of every buffer in use it is given.\<close>

lemma put_block_ok:
  assumes "cache_ok P s" and "b < nr_bufs s" and "0 < lmfs_count (bufs s b)"
  shows "cache_ok P (lmfs_put_block P (Some b) bt s)"
proof (cases "lmfs_count (bufs s b) = 1")
  case True
  let ?s1 = "(set_count b 0 s)\<lparr>bufs_in_use := bufs_in_use s - 1\<rparr>"
  have inv: "lru_ok {} s" "use_ok {} s" using assms(1) by (simp_all add: cache_ok_def)
  have "lmfs_count (bufs s b) \<noteq> 0" using True by simp
  note rel = release_ok [OF inv assms(2) this refl]
  have "hash_ok {} (link_front b ?s1) = hash_ok {} s" "hash_ok {} (link_rear b ?s1) = hash_ok {} s"
    by (rule hash_ok_cong; simp)+
  then show ?thesis
    using assms(1) True rel
    by (auto simp: lmfs_put_block_def Let_def cache_ok_def bufs_ok_def buf_ok_def uniq_def
        split: option.splits)
next
  case False
  let ?s = "set_count b (lmfs_count (bufs s b) - 1) s"
  have "free_set ?s = free_set s" using False assms(2,3) by (auto simp: free_set_def)
  moreover have "hash_ok {} ?s = hash_ok {} s" by (rule hash_ok_cong) simp_all
  ultimately have "cache_ok P ?s"
    using assms False
    by (auto simp: cache_ok_def lru_ok_def use_ok_def lru_list_def bufs_ok_def buf_ok_def uniq_def
        split: option.splits)
  then show ?thesis using False by (simp add: lmfs_put_block_def Let_def)
qed

end
