(* ===== verification/Cache_Get.thy ===== *)
theory Cache_Get
  imports Cache_Inv
begin

unbundle bit_operations_syntax

text \<open>
  \<open>lmfs_get_block\<close> keeps the invariant of the cache: the hash chains, the write-back of
  dirty buffers, and the path of a miss from the oldest free buffer to the block it holds
  afterwards.
\<close>

section \<open>Hash chains\<close>

lemma hash_find_chain:
  "chain (hashes s) p c \<Longrightarrow> length c \<le> fuel \<Longrightarrow>
   hash_find s dev block fuel p =
     Inr (find (\<lambda>i. lmfs_blocknr (bufs s i) = block \<and> lmfs_dev (bufs s i) = dev) c)"
proof (induction c arbitrary: p fuel)
  case Nil
  then show ?case by simp
next
  case (Cons x c)
  then obtain f where "fuel = Suc f" by (cases fuel) auto
  with Cons show ?case by (auto simp: hashes_def)
qed

lemma chain_length_le:
  "chain nx p c \<Longrightarrow> set c \<subseteq> {..<n} \<Longrightarrow> length c \<le> n"
  using card_mono [of "{..<n}" "set c"] distinct_card [OF chain_distinct, of nx p c] by simp

text \<open>Where a block of a device is, if it is in the cache.\<close>

definition holds :: "('c, 'w) cache \<Rightarrow> dev_id \<Rightarrow> blockno \<Rightarrow> nat \<Rightarrow> bool" where
  "holds s dev block i \<longleftrightarrow>
     i < nr_bufs s \<and> lmfs_dev (bufs s i) = dev \<and> lmfs_blocknr (bufs s i) = block"

lemma holds_unique: "uniq P s \<Longrightarrow> dev \<noteq> NO_DEV P \<Longrightarrow> holds s dev b i \<Longrightarrow> holds s dev b j \<Longrightarrow> i = j"
  by (auto simp: uniq_def holds_def)

lemma hash_lookup:
  assumes "cache_ok P s" and "dev \<noteq> NO_DEV P"
  shows "(\<exists>i. holds s dev block i \<and>
            hash_find s dev block (nr_bufs s) (buf_hash s (BUFHASH s block)) = Inr (Some i)) \<or>
         (\<nexists>i. holds s dev block i) \<and>
            hash_find s dev block (nr_bufs s) (buf_hash s (BUFHASH s block)) = Inr None"
proof -
  have n: "BUFHASH s block < nr_bufs s" using assms(1) by (simp add: BUFHASH_def cache_ok_def)
  then obtain c where c: "chain (hashes s) (buf_hash s (BUFHASH s block)) c"
    "set c = {i. i < nr_bufs s \<and> BUFHASH s (lmfs_blocknr (bufs s i)) = BUFHASH s block}"
    using assms(1) by (auto simp: cache_ok_def hash_ok_def)
  let ?P = "\<lambda>i. lmfs_blocknr (bufs s i) = block \<and> lmfs_dev (bufs s i) = dev"
  have "set c \<subseteq> {..<nr_bufs s}" using c(2) by auto
  then have f: "hash_find s dev block (nr_bufs s) (buf_hash s (BUFHASH s block)) = Inr (find ?P c)"
    using c(1) by (intro hash_find_chain chain_length_le)
  show ?thesis
  proof (cases "find ?P c")
    case None
    then have "\<nexists>i. holds s dev block i" using c(2) by (auto simp: find_None_iff holds_def)
    with None f show ?thesis by simp
  next
    case (Some i)
    then have "i \<in> set c" "?P i" by (auto simp: find_Some_iff)
    with Some f c(2) show ?thesis by (auto simp: holds_def)
  qed
qed

lemma unhash_from_chain:
  "chain (hashes s) (Some p) (p # as @ bp # bs) \<Longrightarrow> bp \<notin> set (p # as) \<Longrightarrow> length as < fuel \<Longrightarrow>
   unhash_from bp fuel p s = Inr (set_hash (last (p # as)) (hashes s bp) s)"
proof (induction as arbitrary: p fuel)
  case Nil
  then obtain f where "fuel = Suc f" by (cases fuel) auto
  with Nil show ?case by (simp add: hashes_def)
next
  case (Cons a as)
  then obtain f where "fuel = Suc f" by (cases fuel) auto
  with Cons show ?case by (simp add: hashes_def)
qed

lemma hash_ok_others:
  assumes "hash_ok {} s" and "h < nr_bufs s" and "h = BUFHASH s (lmfs_blocknr (bufs s b))"
    and "b < nr_bufs s" and "p \<in> {i. i < nr_bufs s \<and> BUFHASH s (lmfs_blocknr (bufs s i)) = h}"
    and "h' < nr_bufs s" and "h' \<noteq> h"
  shows "\<exists>c. chain ((hashes s)(p := q)) (buf_hash s h') c \<and>
    set c = {i. i < nr_bufs s \<and> BUFHASH s (lmfs_blocknr (bufs s i)) = h'} - {b}"
proof -
  obtain c where c: "chain (hashes s) (buf_hash s h') c"
    "set c = {i. i < nr_bufs s \<and> BUFHASH s (lmfs_blocknr (bufs s i)) = h'}"
    using assms(1,6) by (auto simp: hash_ok_def)
  have "p \<notin> set c" "b \<notin> set c" using assms(3,5,7) c(2) by auto
  with c show ?thesis by (intro exI [of _ c]) auto
qed

text \<open>Taking a buffer off its hash chain changes one link and nothing else.\<close>

definition unhashed :: "nat \<Rightarrow> ('c, 'w) cache \<Rightarrow> ('c, 'w) cache \<Rightarrow> bool" where
  "unhashed bp s s' \<longleftrightarrow> hash_ok {bp} s' \<and>
     ((\<exists>p q. s' = set_hash p q s) \<or> (\<exists>h p. s' = s\<lparr>buf_hash := (buf_hash s)(h := p)\<rparr>))"

lemma unhash_ok:
  assumes "hash_ok {} s" and "bp < nr_bufs s"
  obtains s' where "unhash bp s = Inr s'" and "unhashed bp s s'"
proof -
  let ?h = "BUFHASH s (lmfs_blocknr (bufs s bp))"
  have h: "?h < nr_bufs s" using assms(2) by (simp add: BUFHASH_def)
  then obtain c where c: "chain (hashes s) (buf_hash s ?h) c"
    "set c = {i. i < nr_bufs s \<and> BUFHASH s (lmfs_blocknr (bufs s i)) = ?h}"
    using assms(1) by (auto simp: hash_ok_def)
  then have "bp \<in> set c" using assms(2) by simp
  then obtain as bs where cs: "c = as @ bp # bs" "bp \<notin> set as" by (meson split_list_first)
  have dist: "distinct c" using c(1) by (rule chain_distinct)
  then have rest: "set (as @ bs) = set c - {bp}" using cs by auto
  have len: "length c \<le> nr_bufs s" using c by (intro chain_length_le [OF c(1)]) auto
  note others = hash_ok_others [OF assms(1) h refl assms(2)]
  show ?thesis
  proof (cases as)
    case Nil
    let ?s = "s\<lparr>buf_hash := (buf_hash s)(?h := hashes s bp)\<rparr>"
    have "chain (hashes s) (hashes s bp) bs" using c(1) cs Nil by simp
    then have "hash_ok {bp} ?s"
      unfolding hash_ok_def using rest Nil c(2) others [of bp _ "hashes s bp"] assms(2)
      by (auto simp: BUFHASH_def)
    moreover have "unhash bp s = Inr ?s"
      using c(1) cs Nil by (simp add: unhash_def Let_def hashes_def)
    ultimately show ?thesis by (intro that) (auto simp: unhashed_def)
  next
    case (Cons p as')
    let ?s = "set_hash (last as) (hashes s bp) s"
    have p: "buf_hash s ?h = Some p" "p \<noteq> bp" using c(1) cs Cons by auto
    have "unhash_from bp (nr_bufs s) p s = Inr (set_hash (last (p # as')) (hashes s bp) s)"
      using c(1) cs Cons p len by (intro unhash_from_chain [where bs = bs]) auto
    then have "unhash bp s = Inr ?s" using p Cons by (simp add: unhash_def Let_def)
    have mine: "chain ((hashes s)(last as := hashes s bp)) (buf_hash s ?h) (as @ bs)"
      using chain_remove [of "hashes s" "buf_hash s ?h" as bp bs] c(1) cs(1) Cons by simp
    have last: "last as \<in> {i. i < nr_bufs s \<and> BUFHASH s (lmfs_blocknr (bufs s i)) = ?h}"
      using c(2) cs Cons by (metis last_in_set list.distinct(1) Un_iff set_append)
    have "\<exists>c. chain ((hashes s)(last as := hashes s bp)) (buf_hash s h) c \<and>
        set c = {i. i < nr_bufs s \<and> BUFHASH s (lmfs_blocknr (bufs s i)) = h} - {bp}"
      if "h < nr_bufs s" for h
      using mine rest c(2) others [OF last that] by (cases "h = ?h") auto
    then have "hash_ok {bp} ?s"
      using BUFHASH_cong [of ?s s] by (simp add: hash_ok_def)
    with \<open>unhash bp s = Inr ?s\<close> show ?thesis by (intro that [of ?s]) (auto simp: unhashed_def)
  qed
qed

lemma install_hash_ok:
  assumes "hash_ok {bp} s" and "bp < nr_bufs s"
  shows "hash_ok {} (install bp dev block s)"
proof -
  let ?s = "install bp dev block s"
  have nr: "nr_bufs ?s = nr_bufs s" by (simp add: install_def Let_def)
  have bn: "lmfs_blocknr (bufs ?s i) = (if i = bp then block else lmfs_blocknr (bufs s i))" for i
    by (simp add: install_def Let_def upd_def)
  have hs: "hashes ?s = (hashes s)(bp := buf_hash s (BUFHASH s block))"
    and bh: "buf_hash ?s = (buf_hash s)(BUFHASH s block := Some bp)"
    by (auto simp: install_def Let_def hashes_def upd_def BUFHASH_def)
  show ?thesis
    unfolding hash_ok_def
  proof (intro allI impI)
    fix h assume "h < nr_bufs ?s"
    then obtain c where c: "chain (hashes s) (buf_hash s h) c"
      "set c = {i. i < nr_bufs s \<and> BUFHASH s (lmfs_blocknr (bufs s i)) = h} - {bp}"
      using assms(1) nr by (auto simp: hash_ok_def)
    then have c': "chain (hashes ?s) (buf_hash s h) c" by (simp add: hs)
    have H: "BUFHASH ?s = BUFHASH s" using nr by (rule BUFHASH_cong)
    show "\<exists>c. chain (hashes ?s) (buf_hash ?s h) c \<and>
      set c = {i. i < nr_bufs ?s \<and> BUFHASH ?s (lmfs_blocknr (bufs ?s i)) = h} - {}"
    proof (cases "h = BUFHASH s block")
      case True
      have "chain (hashes ?s) (buf_hash ?s h) (bp # c)" using True c' bh hs by simp
      moreover have "set (bp # c) = {i. i < nr_bufs ?s \<and> BUFHASH ?s (lmfs_blocknr (bufs ?s i)) = h} - {}"
        using True c(2) assms(2) by (auto simp: bn nr H)
      ultimately show ?thesis by blast
    next
      case False
      with c' c(2) show ?thesis by (intro exI [of _ c]) (auto simp: bn nr H bh)
    qed
  qed
qed

section \<open>Writing back\<close>

text \<open>
  What input and output may change: contents and device of buffers, dirty flags, the error
  code and the world. A device only ever becomes \<open>NO_DEV\<close>.
\<close>

definition buf_tame :: "('c, 'w) cenv \<Rightarrow> 'c buf \<Rightarrow> 'c buf \<Rightarrow> bool" where
  "buf_tame P b b' \<longleftrightarrow>
     (data b' = None) = (data b = None) \<and> lmfs_blocknr b' = lmfs_blocknr b \<and>
     lmfs_count b' = lmfs_count b \<and> lmfs_bytes b' = lmfs_bytes b \<and>
     (lmfs_dev b' = lmfs_dev b \<or> lmfs_dev b' = NO_DEV P)"

lemma buf_tame_trans: "buf_tame P b b' \<Longrightarrow> buf_tame P b' b'' \<Longrightarrow> buf_tame P b b''"
  by (auto simp: buf_tame_def)

definition tame :: "('c, 'w) cenv \<Rightarrow> ('c, 'w) cache \<Rightarrow> ('c, 'w) cache \<Rightarrow> bool" where
  "tame P s s' \<longleftrightarrow>
     nexts s' = nexts s \<and> prevs s' = prevs s \<and> hashes s' = hashes s \<and> front s' = front s \<and>
     rear s' = rear s \<and> buf_hash s' = buf_hash s \<and> bufs_in_use s' = bufs_in_use s \<and>
     nr_bufs s' = nr_bufs s \<and> fs_block_size s' = fs_block_size s \<and> vmcache s' = vmcache s \<and>
     (\<forall>i. buf_tame P (bufs s i) (bufs s' i))"

lemma tame_buf:
  assumes "tame P s s'"
  shows "(data (bufs s' i) = None) = (data (bufs s i) = None)"
    and "lmfs_blocknr (bufs s' i) = lmfs_blocknr (bufs s i)"
    and "lmfs_count (bufs s' i) = lmfs_count (bufs s i)"
    and "lmfs_bytes (bufs s' i) = lmfs_bytes (bufs s i)"
    and "lmfs_dev (bufs s' i) = lmfs_dev (bufs s i) \<or> lmfs_dev (bufs s' i) = NO_DEV P"
  using assms by (simp_all add: tame_def buf_tame_def)

lemma tame_refl [simp]: "tame P s s"
  by (simp add: tame_def buf_tame_def)

lemma tame_trans: "tame P s s' \<Longrightarrow> tame P s' s'' \<Longrightarrow> tame P s s''"
  by (auto simp: tame_def intro: buf_tame_trans)

lemma tame_steps [simp]:
  "tame P s (lmfs_markclean b s)" "tame P s (set_dev b (NO_DEV P) s)"
  "tame P s (s\<lparr>world := w\<rparr>)" "tame P s (s\<lparr>dirtylistsize := n\<rparr>)" "tame P s (s\<lparr>rdwt_err := r\<rparr>)"
  "data (bufs s b) \<noteq> None \<Longrightarrow> tame P s (set_data b (Some c) s)"
  by (auto simp: tame_def buf_tame_def)

lemma tame_harvest: "tame P s (snd (harvest P WRITING dev i r q s))"
proof (induction q arbitrary: i r s)
  case Nil
  then show ?case by simp
next
  case (Cons b q)
  have "tame P s ((set_dev b (NO_DEV P) s)\<lparr>world := vm_forgetblocks P (world s)\<rparr>)"
    by (rule tame_trans [OF tame_steps(2) tame_steps(3)])
  with Cons [of "lmfs_markclean b s" "Suc i" "r - int (fs_block_size s)"] show ?case
    by (auto simp: Let_def intro: tame_trans [OF tame_steps(1)])
qed

lemma tame_rw_round: "tame P s (snd (rw_round P WRITING dev q s))"
proof -
  have "tame P s (snd (harvest P WRITING dev 0 r run (s\<lparr>world := w\<rparr>)))" for r run w
    by (rule tame_trans [OF tame_steps(3) tame_harvest])
  then show ?thesis by (simp add: rw_round_def Let_def split: prod.splits)
qed

lemma tame_rw_loop: "rw = WRITING \<Longrightarrow> tame P s (rw_loop P rw dev q s)"
proof (induction P rw dev q s rule: rw_loop.induct)
  case (1 P rw dev q s)
  obtain i s' where r: "rw_round P rw dev q s = (i, s')" by fastforce
  have "tame P s s'" using tame_rw_round [of P s dev q] r 1(2) by simp
  with 1 r show ?case
    by (subst rw_loop.simps) (auto intro: tame_trans)
qed

lemma tame_flushall: "flushall P dev s = Inr s' \<Longrightarrow> tame P s s'"
  by (auto simp: flushall_def Let_def lmfs_rw_scattered_def split: if_splits
      intro: tame_trans [OF tame_steps(4)] tame_rw_loop)

lemma tame_keeps:
  assumes "tame P s s'"
  shows "lru_ok Y s \<Longrightarrow> lru_ok Y s'" and "hash_ok X s \<Longrightarrow> hash_ok X s'" and "use_ok Y s \<Longrightarrow> use_ok Y s'"
    and "bufs_ok P s \<Longrightarrow> bufs_ok P s'" and "uniq P s \<Longrightarrow> uniq P s'" and "free_set s' = free_set s"
proof -
  note fields = tame_buf [OF assms]
  have glob: "nexts s' = nexts s" "prevs s' = prevs s" "hashes s' = hashes s" "front s' = front s"
    "rear s' = rear s" "buf_hash s' = buf_hash s" "bufs_in_use s' = bufs_in_use s"
    "nr_bufs s' = nr_bufs s" "fs_block_size s' = fs_block_size s"
    using assms by (simp_all add: tame_def)
  show free: "free_set s' = free_set s" by (simp add: fields glob free_set_def)
  show "lru_ok Y s \<Longrightarrow> lru_ok Y s'" by (simp add: lru_ok_def free lru_list_def glob)
  show "hash_ok X s \<Longrightarrow> hash_ok X s'" using hash_ok_cong [of s' s X] by (simp add: fields glob)
  show "use_ok Y s \<Longrightarrow> use_ok Y s'" by (simp add: use_ok_def free glob)
  show "bufs_ok P s'" if "bufs_ok P s"
    unfolding bufs_ok_def glob
  proof (intro allI impI)
    fix i assume "i < nr_bufs s"
    with that have "buf_ok P (fs_block_size s) (bufs s i)" by (simp add: bufs_ok_def)
    then show "buf_ok P (fs_block_size s) (bufs s' i)"
      using fields [of i] by (auto simp: buf_ok_def split: option.splits)
  qed
  show "uniq P s'" if "uniq P s"
    unfolding uniq_def glob
  proof (intro allI impI)
    fix i j assume "i < nr_bufs s" "j < nr_bufs s" and "lmfs_dev (bufs s' i) \<noteq> NO_DEV P \<and>
      lmfs_dev (bufs s' i) = lmfs_dev (bufs s' j) \<and> lmfs_blocknr (bufs s' i) = lmfs_blocknr (bufs s' j)"
    with that fields(2,5) [of i] fields(2,5) [of j] show "i = j" by (auto simp: uniq_def)
  qed
qed

lemma tame_cache_ok:
  assumes "tame P s s'" and "cache_ok P s"
  shows "cache_ok P s'"
  using tame_keeps [OF assms(1)] assms by (simp add: cache_ok_def tame_def)

section \<open>The oldest free buffer\<close>

lemma sized_from_chain:
  "chain (nexts s) p c \<Longrightarrow> length c \<le> fuel \<Longrightarrow>
   sized_from s fuel p = Inr (find (\<lambda>i. \<not> lmfs_bytes (bufs s i) < fs_block_size s) c)"
proof (induction c arbitrary: p fuel)
  case Nil
  then show ?case by simp
next
  case (Cons x c)
  then obtain f where "fuel = Suc f" by (cases fuel) auto
  with Cons show ?case by (auto simp: nexts_def)
qed

text \<open>\<open>got s bp s'\<close>: \<open>bp\<close> is a free buffer with memory, and only its memory is new.\<close>

definition got :: "('c, 'w) cache \<Rightarrow> nat \<Rightarrow> ('c, 'w) cache \<Rightarrow> bool" where
  "got s bp s' \<longleftrightarrow>
     bp \<in> free_set s' \<and> data (bufs s' bp) \<noteq> None \<and> lmfs_bytes (bufs s' bp) = fs_block_size s' \<and>
     (\<exists>w. s' = s\<lparr>world := w\<rparr> \<or>
       (\<exists>c. data (bufs s bp) = None \<and>
          s' = upd bp (\<lambda>b. b\<lparr>data := Some c, lmfs_bytes := fs_block_size s\<rparr>) (s\<lparr>world := w\<rparr>)))"

lemma upd_links:
  "nexts (upd bp (\<lambda>b. b\<lparr>data := c, lmfs_bytes := n\<rparr>) s) = nexts s"
  "prevs (upd bp (\<lambda>b. b\<lparr>data := c, lmfs_bytes := n\<rparr>) s) = prevs s"
  "hashes (upd bp (\<lambda>b. b\<lparr>data := c, lmfs_bytes := n\<rparr>) s) = hashes s"
  by (auto simp: upd_def nexts_def prevs_def hashes_def)

lemma got_ok:
  assumes "got s bp s'" and "cache_ok P s"
  shows "cache_ok P s'" and "free_set s' = free_set s" and "nr_bufs s' = nr_bufs s"
    and "fs_block_size s' = fs_block_size s" and "vmcache s' = vmcache s"
    and "lmfs_dev (bufs s' i) = lmfs_dev (bufs s i)"
    and "lmfs_blocknr (bufs s' i) = lmfs_blocknr (bufs s i)"
    and "lmfs_dirt (bufs s' i) = lmfs_dirt (bufs s i)"
    and "lmfs_count (bufs s' i) = lmfs_count (bufs s i)" and "lru_list s' = lru_list s"
proof -
  show "nr_bufs s' = nr_bufs s" "fs_block_size s' = fs_block_size s" "vmcache s' = vmcache s"
    and dev: "lmfs_dev (bufs s' i) = lmfs_dev (bufs s i)"
    and "lmfs_dirt (bufs s' i) = lmfs_dirt (bufs s i)"
    and blk: "lmfs_blocknr (bufs s' i) = lmfs_blocknr (bufs s i)"
    and cnt: "lmfs_count (bufs s' i) = lmfs_count (bufs s i)" for i
    using assms(1) by (auto simp: got_def upd_def)
  then show free: "free_set s' = free_set s" by (simp add: free_set_def)
  have links: "nexts s' = nexts s" "prevs s' = prevs s" "hashes s' = hashes s"
    using assms(1) by (auto simp: got_def upd_links)
  have ends: "front s' = front s" "rear s' = rear s" "buf_hash s' = buf_hash s"
    "bufs_in_use s' = bufs_in_use s"
    using assms(1) by (auto simp: got_def)
  show l: "lru_list s' = lru_list s" using links ends by (intro lru_list_cong)
  have "buf_ok P (fs_block_size s') (bufs s' i)" if "i < nr_bufs s" for i
  proof -
    have ok: "buf_ok P (fs_block_size s) (bufs s i)"
      using assms(2) that by (simp add: cache_ok_def bufs_ok_def)
    show ?thesis
    proof (cases "i = bp")
      case True
      have "0 \<le> lmfs_count (bufs s bp)" using ok True by (simp add: buf_ok_def)
      then show ?thesis using assms(1) True cnt [of bp] by (auto simp: buf_ok_def got_def)
    next
      case False
      then have "bufs s' i = bufs s i" "fs_block_size s' = fs_block_size s"
        using assms(1) by (auto simp: got_def upd_def)
      with ok show ?thesis by simp
    qed
  qed
  then have "bufs_ok P s'" by (simp add: bufs_ok_def \<open>nr_bufs s' = nr_bufs s\<close>)
  moreover have "hash_ok {} s'" using assms(2) hash_ok_cong [of s' s "{}"] links ends blk
      \<open>nr_bufs s' = nr_bufs s\<close> by (simp add: cache_ok_def)
  ultimately show "cache_ok P s'"
    using assms(2) l free dev blk ends \<open>nr_bufs s' = nr_bufs s\<close>
    by (simp add: cache_ok_def lru_ok_def use_ok_def uniq_def)
qed

definition allocates :: "('c, 'w) cenv \<Rightarrow> bool" where
  "allocates P \<longleftrightarrow> (\<forall>w n. fst (alloc_contig P w n) \<noteq> None) \<and> (\<forall>w. \<not> alloc_fails P w)"

lemma take_oldest_ok:
  assumes "cache_ok P s" and "0 < fs_block_size s"
  shows "take_oldest P s = Inl Panic \<and> (free_set s = {} \<or> \<not> allocates P) \<or>
    (\<exists>bp s'. take_oldest P s = Inr (bp, s') \<and> got s bp s' \<and> (allocates P \<longrightarrow> front s = Some bp))"
proof -
  obtain xs where xs: "lru_list s xs" "set xs = free_set s"
    using assms(1) by (auto simp: cache_ok_def lru_ok_def)
  show ?thesis
  proof (cases xs)
    case Nil
    with xs show ?thesis by (auto simp: take_oldest_def lru_list_head)
  next
    case (Cons bp ys)
    have f: "front s = Some bp" using lru_list_head [OF xs(1)] Cons by simp
    have free: "bp \<in> free_set s" using xs(2) Cons by auto
    then have bpn: "bp < nr_bufs s" by (simp add: free_set_def)
    then have ok: "buf_ok P (fs_block_size s) (bufs s bp)"
      using assms(1) by (auto simp: cache_ok_def bufs_ok_def)
    show ?thesis
    proof (cases "lmfs_bytes (bufs s bp) < fs_block_size s")
      case False
      then have "got s bp s"
        using ok free assms(2) by (auto simp: got_def buf_ok_def split: option.splits intro!: exI [of _ "world s"])
      with False f show ?thesis by (simp add: take_oldest_def)
    next
      case True
      then have none: "data (bufs s bp) = None" "lmfs_bytes (bufs s bp) = 0"
        using ok by (auto simp: buf_ok_def split: option.splits)
      obtain r w where r: "alloc_contig P (world s) (fs_block_size s) = (r, w)" by fastforce
      show ?thesis
      proof (cases r)
        case (Some c)
        have "got s bp (upd bp (\<lambda>b. b\<lparr>data := Some c, lmfs_bytes := fs_block_size s\<rparr>) (s\<lparr>world := w\<rparr>))"
          using free none by (auto simp: got_def free_set_def upd_def)
        with f True none r Some show ?thesis by (simp add: take_oldest_def)
      next
        case None
        have na: "\<not> allocates P" using r None unfolding allocates_def by (metis fst_conv)
        have c: "chain (nexts s) (front s) xs" using xs(1) by (simp add: lru_list_def dll_def)
        have "set xs \<subseteq> {..<nr_bufs s}" using xs(2) by (auto simp: free_set_def)
        then have "sized_from (s\<lparr>world := w\<rparr>) (nr_bufs s) (front s) =
            Inr (find (\<lambda>i. \<not> lmfs_bytes (bufs s i) < fs_block_size s) xs)"
          using c sized_from_chain [of "s\<lparr>world := w\<rparr>" "front s" xs "nr_bufs s"]
            chain_length_le [OF c] by simp
        moreover have "got s i (s\<lparr>world := w\<rparr>)" if "i \<in> set xs" "\<not> lmfs_bytes (bufs s i) < fs_block_size s" for i
        proof -
          have "i \<in> free_set s" using that(1) xs(2) by simp
          moreover then have "buf_ok P (fs_block_size s) (bufs s i)"
            using assms(1) by (auto simp: cache_ok_def bufs_ok_def free_set_def)
          ultimately show ?thesis
            using that(2) assms(2) by (auto simp: got_def buf_ok_def split: option.splits)
        qed
        ultimately show ?thesis
          using f True none r None na
          by (cases "find (\<lambda>i. \<not> lmfs_bytes (bufs s i) < fs_block_size s) xs")
            (auto simp: take_oldest_def find_Some_iff)
      qed
    qed
  qed
qed

end
