(* ===== verification/Cache_Block.thy ===== *)
theory Cache_Block
  imports Cache_Get
begin

unbundle bit_operations_syntax

text \<open>
  \<open>lmfs_get_block\<close> and \<open>lmfs_buf_pool\<close> of \<open>cache.c\<close>: a fresh pool satisfies the invariant, and
  getting a block keeps it on the hit path and on every step of the miss path.
\<close>

section \<open>A hit\<close>

lemma set_count_ok:
  assumes "lru_ok {} (set_count b n s)" and "use_ok {} (set_count b n s)" and "hash_ok {} s"
    and "bufs_ok P s" and "uniq P s" and "0 < nr_bufs s" and "data (bufs s b) \<noteq> None" and "0 \<le> n"
  shows "cache_ok P (set_count b n s)"
proof -
  have "hash_ok {} (set_count b n s)" using assms(3) hash_ok_cong [of "set_count b n s" s] by simp
  moreover have "buf_ok P (fs_block_size s) (bufs (set_count b n s) i)" if "i < nr_bufs s" for i
  proof -
    have "buf_ok P (fs_block_size s) (bufs s i)" using assms(4) that by (simp add: bufs_ok_def)
    with assms(7,8) show ?thesis by (auto simp: buf_ok_def split: option.splits)
  qed
  ultimately show ?thesis
    using assms by (simp add: cache_ok_def bufs_ok_def uniq_def)
qed

lemma get_hit_ok:
  assumes "cache_ok P s" and "holds s dev block bp" and "dev \<noteq> NO_DEV P"
  obtains s' where "get_hit P bp s = Inr (bp, s')" and "cache_ok P s'" and "world s' = world s"
    and "nr_bufs s' = nr_bufs s" and "fs_block_size s' = fs_block_size s"
    and "\<And>i. lmfs_count (bufs s' i) = lmfs_count (bufs s i) + (if i = bp then 1 else 0)"
    and "\<And>i. data (bufs s' i) = data (bufs s i)" and "\<And>i. lmfs_dev (bufs s' i) = lmfs_dev (bufs s i)"
    and "\<And>i. lmfs_blocknr (bufs s' i) = lmfs_blocknr (bufs s i)"
    and "\<And>i. lmfs_dirt (bufs s' i) = lmfs_dirt (bufs s i)"
proof -
  let ?s = "if lmfs_count (bufs s bp) = 0 then rm_lru bp s else s"
  let ?n = "lmfs_count (bufs s bp) + 1"
  have bp: "bp < nr_bufs s" using assms(2) by (simp add: holds_def)
  have ok: "buf_ok P (fs_block_size s) (bufs s bp)"
    using assms(1) bp by (simp add: cache_ok_def bufs_ok_def)
  then have mem: "data (bufs s bp) \<noteq> None" "lmfs_bytes (bufs s bp) = fs_block_size s"
    and cnt: "0 \<le> lmfs_count (bufs s bp)"
    using assms(2,3) by (auto simp: buf_ok_def holds_def split: option.splits)
  have get: "get_hit P bp s = Inr (bp, set_count bp ?n ?s)"
    using mem assms(2,3) by (simp add: get_hit_def Let_def holds_def)
  have "lru_ok {} (set_count bp ?n ?s) \<and> use_ok {} (set_count bp ?n ?s)"
  proof (cases "lmfs_count (bufs s bp) = 0")
    case True
    then have "bp \<in> free_set s" using bp by (simp add: free_set_def)
    then have "lru_ok {bp} (rm_lru bp s)" "use_ok {bp} (rm_lru bp s)"
      using assms(1) by (simp_all add: cache_ok_def lru_ok_rm_lru use_ok_rm_lru)
    then show ?thesis using take_ok [of bp "rm_lru bp s" ?n] True bp by simp
  next
    case False
    have "free_set (set_count bp ?n s) = free_set s"
      using False cnt by (auto simp: free_set_def)
    then show ?thesis
      using assms(1) False by (simp add: cache_ok_def lru_ok_def use_ok_def lru_list_def)
  qed
  moreover have "hash_ok {} ?s" using assms(1) hash_ok_cong [of "rm_lru bp s" s]
    by (simp add: cache_ok_def)
  moreover have "bufs_ok P ?s" "uniq P ?s" "0 < nr_bufs ?s"
    using assms(1) by (simp_all add: cache_ok_def bufs_ok_def uniq_def buf_ok_def)
  ultimately have "cache_ok P (set_count bp ?n ?s)"
    using mem cnt by (intro set_count_ok) auto
  then show ?thesis by (rule that [OF get]) auto
qed

section \<open>A miss\<close>

text \<open>The invariant while the buffer \<open>bp\<close> is on neither chain.\<close>

definition detached :: "('c, 'w) cenv \<Rightarrow> nat \<Rightarrow> ('c, 'w) cache \<Rightarrow> bool" where
  "detached P bp s \<longleftrightarrow>
     lru_ok {bp} s \<and> use_ok {bp} s \<and> hash_ok {bp} s \<and> bufs_ok P s \<and> uniq P s \<and> bp < nr_bufs s \<and>
     lmfs_count (bufs s bp) = 0 \<and> data (bufs s bp) \<noteq> None \<and>
     lmfs_bytes (bufs s bp) = fs_block_size s"

lemma detached_tame: "tame P s s' \<Longrightarrow> detached P bp s \<Longrightarrow> detached P bp s'"
  using tame_keeps [of P s s'] tame_buf [of P s s' bp] by (simp add: detached_def tame_def)

lemma detach:
  assumes "cache_ok P s" and "bp \<in> free_set s" and "data (bufs s bp) \<noteq> None"
    and "lmfs_bytes (bufs s bp) = fs_block_size s"
  obtains s' where "unhash bp (rm_lru bp s) = Inr s'" and "detached P bp s'"
    and "nr_bufs s' = nr_bufs s" and "fs_block_size s' = fs_block_size s" and "world s' = world s"
    and "vmcache s' = vmcache s"
    and "\<And>i. data (bufs s' i) = data (bufs s i)" and "\<And>i. lmfs_dev (bufs s' i) = lmfs_dev (bufs s i)"
    and "\<And>i. lmfs_blocknr (bufs s' i) = lmfs_blocknr (bufs s i)"
    and "\<And>i. lmfs_dirt (bufs s' i) = lmfs_dirt (bufs s i)"
    and "\<And>i. lmfs_count (bufs s' i) = lmfs_count (bufs s i)"
proof -
  let ?s = "rm_lru bp s"
  have bp: "bp < nr_bufs s" "lmfs_count (bufs s bp) = 0" using assms(2) by (simp_all add: free_set_def)
  have "hash_ok {} ?s" using assms(1) hash_ok_cong [of ?s s] by (simp add: cache_ok_def)
  then obtain s' where s': "unhash bp ?s = Inr s'" "unhashed bp ?s s'"
    using unhash_ok [of ?s bp] bp by auto
  have lru: "lru_ok {bp} ?s" "use_ok {bp} ?s"
    using assms(1,2) by (simp_all add: cache_ok_def lru_ok_rm_lru use_ok_rm_lru)
  have inv: "bufs_ok P ?s" "uniq P ?s"
    using assms(1) by (simp_all add: cache_ok_def bufs_ok_def uniq_def buf_ok_def)
  have fields: "nr_bufs s' = nr_bufs s" "fs_block_size s' = fs_block_size s" "world s' = world s"
    "vmcache s' = vmcache s"
    "\<And>i. data (bufs s' i) = data (bufs s i)" "\<And>i. lmfs_dev (bufs s' i) = lmfs_dev (bufs s i)"
    "\<And>i. lmfs_blocknr (bufs s' i) = lmfs_blocknr (bufs s i)"
    "\<And>i. lmfs_dirt (bufs s' i) = lmfs_dirt (bufs s i)"
    "\<And>i. lmfs_count (bufs s' i) = lmfs_count (bufs s i)"
    "\<And>i. lmfs_bytes (bufs s' i) = lmfs_bytes (bufs s i)"
    using s'(2) by (auto simp: unhashed_def)
  have same: "nexts s' = nexts ?s" "prevs s' = prevs ?s" "front s' = front ?s" "rear s' = rear ?s"
    "bufs_in_use s' = bufs_in_use ?s"
    using s'(2) by (auto simp: unhashed_def)
  have "free_set s' = free_set ?s" by (simp add: free_set_def fields)
  then have "lru_ok {bp} s'" "use_ok {bp} s'"
    using lru by (simp_all add: lru_ok_def use_ok_def lru_list_def same fields)
  moreover have "bufs_ok P s'" "uniq P s'"
    using inv by (simp_all add: bufs_ok_def uniq_def buf_ok_def fields)
  ultimately have "detached P bp s'"
    using s'(2) assms(3,4) bp by (simp add: detached_def unhashed_def fields)
  then show ?thesis by (rule that [OF s'(1)]) (simp_all add: fields)
qed

lemma flushall_returns: "allocates P \<Longrightarrow> \<exists>s'. flushall P dev s = Inr s'"
  by (simp add: allocates_def flushall_def Let_def)

lemma flushall_stops: "flushall P dev s = Inl e \<Longrightarrow> e = Panic \<and> \<not> allocates P"
  by (auto simp: flushall_def allocates_def Let_def split: if_splits)

lemma evict_ok:
  assumes "detached P bp s"
  shows "evict P bp s = Inl Panic \<and> \<not> allocates P \<or>
    (\<exists>y s'. evict P bp s = Inr (y, s') \<and> tame P s s' \<and> lmfs_dev (bufs s' bp) = NO_DEV P)"
proof (cases "lmfs_dev (bufs s bp) = NO_DEV P")
  case True
  then show ?thesis by (simp add: evict_def)
next
  case False
  have bytes: "lmfs_bytes (bufs s bp) = fs_block_size s" using assms by (simp add: detached_def)
  show ?thesis
  proof (cases "lmfs_dirt (bufs s bp) = BP_DIRTY")
    case True
    show ?thesis
    proof (cases "flushall P (lmfs_dev (bufs s bp)) s")
      case (Inl e)
      with False True flushall_stops [OF Inl] show ?thesis by (simp add: evict_def)
    next
      case (Inr s1)
      then have t: "tame P s s1" by (rule tame_flushall)
      moreover have "lmfs_bytes (bufs s1 bp) = fs_block_size s1"
        using bytes tame_buf(4) [OF t, of bp] t by (simp add: tame_def)
      ultimately show ?thesis
        using False True Inr by (auto simp: evict_def intro: tame_trans)
    qed
  next
    case clean: False
    with False bytes show ?thesis by (simp add: evict_def)
  qed
qed

lemma install_fields:
  "lmfs_dev (bufs (install bp dev block s) i) = (if i = bp then dev else lmfs_dev (bufs s i))"
  "lmfs_blocknr (bufs (install bp dev block s) i) = (if i = bp then block else lmfs_blocknr (bufs s i))"
  "lmfs_dirt (bufs (install bp dev block s) i) = (if i = bp then BP_CLEAN else lmfs_dirt (bufs s i))"
  "lmfs_count (bufs (install bp dev block s) i) =
     lmfs_count (bufs s i) + (if i = bp then 1 else 0)"
  "data (bufs (install bp dev block s) i) = data (bufs s i)"
  "lmfs_bytes (bufs (install bp dev block s) i) = lmfs_bytes (bufs s i)"
  "nr_bufs (install bp dev block s) = nr_bufs s"
  "fs_block_size (install bp dev block s) = fs_block_size s"
  "world (install bp dev block s) = world s" "vmcache (install bp dev block s) = vmcache s"
  "front (install bp dev block s) = front s" "rear (install bp dev block s) = rear s"
  "bufs_in_use (install bp dev block s) = bufs_in_use s"
  "nexts (install bp dev block s) = nexts s" "prevs (install bp dev block s) = prevs s"
  by (auto simp: install_def Let_def upd_def nexts_def prevs_def)

lemma install_ok:
  assumes "detached P bp s" and "\<And>i. i \<noteq> bp \<Longrightarrow> \<not> holds s dev block i"
  shows "cache_ok P (install bp dev block s)"
proof -
  let ?s = "install bp dev block s"
  have bp: "bp < nr_bufs s" "lmfs_count (bufs s bp) = 0" "data (bufs s bp) \<noteq> None"
    "lmfs_bytes (bufs s bp) = fs_block_size s"
    using assms(1) by (simp_all add: detached_def)
  have free: "free_set ?s - {} = free_set s - {bp}"
    using bp by (auto simp: free_set_def install_fields)
  have "lru_ok {} ?s" "use_ok {} ?s"
    using assms(1) unfolding detached_def lru_ok_def use_ok_def free
    by (simp_all add: lru_list_def install_fields)
  moreover have "buf_ok P (fs_block_size s) (bufs ?s i)" if "i < nr_bufs s" for i
  proof -
    have "buf_ok P (fs_block_size s) (bufs s i)"
      using assms(1) that by (simp add: detached_def bufs_ok_def)
    with bp show ?thesis by (auto simp: buf_ok_def install_fields split: option.splits)
  qed
  moreover have "uniq P ?s"
    using assms unfolding uniq_def detached_def
    by (auto simp: install_fields holds_def)
  moreover have "hash_ok {} ?s" using assms(1) bp(1) by (simp add: detached_def install_hash_ok)
  ultimately show ?thesis using bp(1) by (simp add: cache_ok_def bufs_ok_def install_fields)
qed

lemma fetch_io_ok:
  assumes "data (bufs s bp) \<noteq> None" and "lmfs_dev (bufs s bp) \<noteq> NO_DEV P" and "\<nexists>n. m = Unexpected n"
  shows "\<exists>s'. fetch_io P bp getid m s = Inr s' \<and> tame P s s'"
proof -
  obtain c where c: "data (bufs s bp) = Some c" using assms(1) by blast
  obtain r c' w where r: "bdev_read P (world s) (lmfs_dev (bufs s bp))
      (block_pos s (lmfs_blocknr (bufs s bp))) c (fs_block_size s) = (r, c', w)" by (metis prod_cases3)
  let ?s = "set_data bp (Some c') (s\<lparr>world := w\<rparr>)"
  have t: "tame P s ?s" using c by (intro tame_trans [OF tame_steps(3) tame_steps(6)]) simp
  have "tame P s ((set_dev bp (NO_DEV P) ?s)\<lparr>rdwt_err := e\<rparr>)" for e
    by (intro tame_trans [OF t] tame_trans [OF tame_steps(2) tame_steps(5)])
  then have "\<exists>s'. read_block P bp s = Inr s' \<and> data (bufs s' bp) \<noteq> None \<and> tame P s s'"
    using c r assms(2) t by (auto simp: read_block_def Let_def)
  with assms show ?thesis by (cases m) (auto simp: fetch_io_def)
qed

lemma fetch_ok:
  assumes "data (bufs s bp) \<noteq> None" and "lmfs_dev (bufs s bp) \<noteq> NO_DEV P" and "\<nexists>n. m = Unexpected n"
  shows "\<exists>s'. fetch P bp y getid m s = Inr s' \<and> tame P s s'"
proof -
  obtain c where c: "data (bufs s bp) = Some c" using assms(1) by blast
  obtain ok c' w where r: "vm_yield_block_get_block P (world s) y getid c = (ok, c', w)"
    by (metis prod_cases3)
  let ?s = "set_data bp (Some c') (s\<lparr>world := w\<rparr>)"
  have t: "tame P s ?s" using c by (intro tame_trans [OF tame_steps(3) tame_steps(6)]) simp
  obtain s1 where "fetch_io P bp getid m ?s = Inr s1" "tame P ?s s1"
    using fetch_io_ok [of ?s bp P m getid] assms by auto
  moreover obtain s2 where "fetch_io P bp getid m s = Inr s2" "tame P s s2"
    using fetch_io_ok [OF assms] by blast
  ultimately show ?thesis
    using c r t by (auto simp: fetch_def Let_def intro: tame_trans)
qed

text \<open>
  The result of getting a block: the buffer is in use, has the block number and memory, and
  is marked with the device unless the read failed or was not wanted.
\<close>

definition got_block ::
  "('c, 'w) cenv \<Rightarrow> dev_id \<Rightarrow> blockno \<Rightarrow> ('c, 'w) cache \<Rightarrow> nat \<Rightarrow> ('c, 'w) cache \<Rightarrow> bool" where
  "got_block P dev block s bp s' \<longleftrightarrow>
     cache_ok P s' \<and> nr_bufs s' = nr_bufs s \<and> fs_block_size s' = fs_block_size s \<and>
     bp < nr_bufs s' \<and> data (bufs s' bp) \<noteq> None \<and> lmfs_blocknr (bufs s' bp) = block \<and>
     (lmfs_dev (bufs s' bp) = dev \<or> lmfs_dev (bufs s' bp) = NO_DEV P) \<and>
     (\<forall>i. lmfs_count (bufs s' i) = lmfs_count (bufs s i) + (if i = bp then 1 else 0))"

lemma get_miss_ok:
  assumes "cache_ok P s" and "0 < fs_block_size s" and "dev \<noteq> NO_DEV P"
    and "\<And>i. \<not> holds s dev block i" and "\<nexists>n. m = Unexpected n"
  shows "get_miss P dev block m s = Inl Panic \<and> (free_set s = {} \<or> \<not> allocates P) \<or>
    (\<exists>bp s'. get_miss P dev block m s = Inr (bp, s') \<and> got_block P dev block s bp s' \<and>
       bp \<in> free_set s \<and> (allocates P \<longrightarrow> front s = Some bp))"
proof -
  consider "take_oldest P s = Inl Panic" "free_set s = {} \<or> \<not> allocates P"
    | bp s1 where "take_oldest P s = Inr (bp, s1)" "got s bp s1" "allocates P \<longrightarrow> front s = Some bp"
    using take_oldest_ok [OF assms(1,2)] by blast
  then show ?thesis
  proof cases
    case 1
    then show ?thesis by (simp add: get_miss_def)
  next
    case (2 bp s1)
    note g = got_ok [OF 2(2) assms(1)]
    have bp: "bp \<in> free_set s1" "data (bufs s1 bp) \<noteq> None"
      "lmfs_bytes (bufs s1 bp) = fs_block_size s1" using 2(2) by (auto simp: got_def)
    obtain s2 where s2: "unhash bp (rm_lru bp s1) = Inr s2" "detached P bp s2"
      "nr_bufs s2 = nr_bufs s1" "fs_block_size s2 = fs_block_size s1"
      "\<And>i. lmfs_dev (bufs s2 i) = lmfs_dev (bufs s1 i)"
      "\<And>i. lmfs_blocknr (bufs s2 i) = lmfs_blocknr (bufs s1 i)"
      "\<And>i. lmfs_count (bufs s2 i) = lmfs_count (bufs s1 i)"
      using detach [OF g(1) bp] by metis
    have cnt: "lmfs_count (bufs s1 bp) = 0" using bp(1) by (simp add: free_set_def)
    consider "evict P bp s2 = Inl Panic" "\<not> allocates P"
      | y s3 where "evict P bp s2 = Inr (y, s3)" "tame P s2 s3" "lmfs_dev (bufs s3 bp) = NO_DEV P"
      using evict_ok [OF s2(2)] by blast
    then show ?thesis
    proof cases
      case 1
      with 2(1) bp cnt s2(1) show ?thesis by (simp add: get_miss_def)
    next
      case (2 y s3)
      let ?s = "install bp dev block s3"
      have "\<not> holds s3 dev block i" for i
        using assms(3) assms(4) [of i] tame_buf [OF 2(2), of i] 2(2) s2(3,5,6) g(3,6,7)
        by (auto simp: holds_def tame_def)
      then have ok: "cache_ok P ?s" using detached_tame [OF 2(2) s2(2)] by (intro install_ok)
      have dat: "data (bufs ?s bp) \<noteq> None"
        using detached_tame [OF 2(2) s2(2)] by (simp add: install_fields detached_def)
      obtain s4 where s4: "fetch P bp y (dev, block) m ?s = Inr s4" "tame P ?s s4"
        using fetch_ok [of ?s bp P m y "(dev, block)"] dat assms(3,5) by (auto simp: install_fields)
      have "lmfs_dev (bufs s4 bp) = dev \<or> lmfs_dev (bufs s4 bp) = NO_DEV P"
        using tame_buf(5) [OF s4(2), of bp] by (simp add: install_fields)
      then have "got_block P dev block s bp s4"
        using tame_cache_ok [OF s4(2) ok] tame_buf(1-4) [OF s4(2)] s4(2) 2(2) tame_buf(3) [OF 2(2)]
          dat g s2 bp(1)
        by (simp add: got_block_def tame_def install_fields free_set_def)
      moreover have "get_miss P dev block m s = Inr (bp, s4)"
        using \<open>take_oldest P s = Inr (bp, s1)\<close> bp cnt s2(1) 2(1) s4(1) by (simp add: get_miss_def)
      ultimately show ?thesis
        using bp(1) g(2) \<open>allocates P \<longrightarrow> front s = Some bp\<close> by auto
    qed
  qed
qed

lemma get_block_ok:
  assumes "cache_ok P s" and "0 < fs_block_size s" and "dev \<noteq> NO_DEV P" and "\<nexists>n. m = Unexpected n"
  shows "lmfs_get_block P dev block m s = Inl Panic \<and> (free_set s = {} \<or> \<not> allocates P) \<or>
    (\<exists>bp s'. lmfs_get_block P dev block m s = Inr (bp, s') \<and> got_block P dev block s bp s')"
proof -
  have n: "0 < nr_bufs s" using assms(1) by (simp add: cache_ok_def)
  consider bp where "holds s dev block bp"
      "hash_find s dev block (nr_bufs s) (buf_hash s (BUFHASH s block)) = Inr (Some bp)"
    | "\<And>i. \<not> holds s dev block i"
      "hash_find s dev block (nr_bufs s) (buf_hash s (BUFHASH s block)) = Inr None"
    using hash_lookup [OF assms(1,3), of block] by blast
  then show ?thesis
  proof cases
    case (1 bp)
    obtain s' where s': "get_hit P bp s = Inr (bp, s')" "cache_ok P s'"
      "nr_bufs s' = nr_bufs s" "fs_block_size s' = fs_block_size s"
      "\<And>i. lmfs_count (bufs s' i) = lmfs_count (bufs s i) + (if i = bp then 1 else 0)"
      "\<And>i. data (bufs s' i) = data (bufs s i)" "\<And>i. lmfs_dev (bufs s' i) = lmfs_dev (bufs s i)"
      "\<And>i. lmfs_blocknr (bufs s' i) = lmfs_blocknr (bufs s i)"
      using get_hit_ok [OF assms(1) 1(1) assms(3)] by metis
    have "buf_ok P (fs_block_size s) (bufs s bp)"
      using assms(1) 1(1) by (auto simp: cache_ok_def bufs_ok_def holds_def)
    then have "data (bufs s bp) \<noteq> None" using 1(1) assms(3) by (auto simp: buf_ok_def holds_def)
    then have "got_block P dev block s bp s'"
      using s' 1(1) by (simp add: got_block_def holds_def)
    with 1 s'(1) n assms(2,3) show ?thesis by (simp add: lmfs_get_block_def)
  next
    case 2
    then have "lmfs_get_block P dev block m s = get_miss P dev block m s"
      using n assms(2,3) by (simp add: lmfs_get_block_def)
    with get_miss_ok [OF assms(1-3) 2(1) assms(4)] show ?thesis by auto
  qed
qed

section \<open>A fresh pool\<close>

lemma chain_up: "k < n \<Longrightarrow> chain (\<lambda>i. if i = n - 1 then None else Some (i + 1)) (Some k) [k..<n]"
proof (induction "n - k" arbitrary: k)
  case 0
  then show ?case by simp
next
  case (Suc d)
  then show ?case by (cases "k = n - 1") (auto simp: upt_conv_Cons)
qed

lemma chain_down: "chain (\<lambda>i. if i = 0 then None else Some (i - 1)) (Some k) (rev [0..<Suc k])"
  by (induction k) auto

lemma pool_ok:
  assumes "NO_BLOCK P = 0" and "lmfs_buf_pool P n s = Inr s'"
  shows "cache_ok P s'" and "nr_bufs s' = nat n" and "\<And>i. lmfs_dev (bufs s' i) = NO_DEV P"
    and "lru_list s' [0..<nat n]"
proof -
  obtain s0 where n: "MINBUFS \<le> n" and s': "s' = s0\<lparr>bufs := pool_buf P (nat n),
      buf_hash := (\<lambda>h. if h = 0 then Some 0 else None), nr_bufs := nat n, bufs_in_use := 0,
      front := Some 0, rear := Some (nat n - 1), world := vm_forgetblocks P (world s0)\<rparr>"
    using assms(2)
    by (auto simp: lmfs_buf_pool_def bindE_convs Let_def split: if_splits)
  have pos: "0 < nat n" using n by (simp add: MINBUFS_def)
  have next': "nexts s' = (\<lambda>i. if i = nat n - 1 then None else Some (i + 1))"
    and hash: "hashes s' = (\<lambda>i. if i = nat n - 1 then None else Some (i + 1))"
    and prev: "prevs s' = (\<lambda>i. if i = 0 then None else Some (i - 1))"
    by (auto simp: s' nexts_def prevs_def hashes_def pool_buf_def Let_def)
  have fields: "lmfs_count (bufs s' i) = 0" "data (bufs s' i) = None" "lmfs_bytes (bufs s' i) = 0"
    "lmfs_dev (bufs s' i) = NO_DEV P" "lmfs_blocknr (bufs s' i) = 0" "nr_bufs s' = nat n" for i
    using assms(1) by (auto simp: s' pool_buf_def Let_def)
  have up: "chain (hashes s') (Some 0) [0..<nat n]" using pos unfolding hash by (rule chain_up)
  then have "chain (nexts s') (front s') [0..<nat n]" by (simp add: next' hash) (simp add: s')
  moreover have "chain (prevs s') (rear s') (rev [0..<nat n])"
    using chain_down [of "nat n - 1"] pos by (simp add: prev del: upt_Suc) (simp add: s' del: upt_Suc)
  ultimately show lru: "lru_list s' [0..<nat n]" by (simp add: lru_list_def dll_def)
  have free: "free_set s' = {..<nat n}" by (auto simp: free_set_def fields)
  have "hash_ok {} s'"
    unfolding hash_ok_def
  proof (intro allI impI)
    fix h assume "h < nr_bufs s'"
    have bh: "buf_hash s' k = (if k = 0 then Some 0 else None)" for k by (simp add: s')
    show "\<exists>c. chain (hashes s') (buf_hash s' h) c \<and>
      set c = {i. i < nr_bufs s' \<and> BUFHASH s' (lmfs_blocknr (bufs s' i)) = h} - {}"
    proof (cases "h = 0")
      case True
      then show ?thesis using up by (intro exI [of _ "[0..<nat n]"])
          (auto simp: fields BUFHASH_def bh)
    next
      case False
      then show ?thesis by (intro exI [of _ "[]"]) (auto simp: fields BUFHASH_def bh)
    qed
  qed
  moreover have "lru_ok {} s'" using lru free by (auto simp: lru_ok_def)
  moreover have "use_ok {} s'" by (simp add: use_ok_def free fields) (simp add: s')
  ultimately show "cache_ok P s'"
    using pos by (simp add: cache_ok_def bufs_ok_def buf_ok_def uniq_def fields)
  show "nr_bufs s' = nat n" "\<And>i. lmfs_dev (bufs s' i) = NO_DEV P" by (simp_all add: fields)
qed

end
