(* ===== verification/Cache_Coherence.thy ===== *)
theory Cache_Coherence
  imports Cache_Block
begin

unbundle bit_operations_syntax

text \<open>
  The block cache is transparent: on devices that store what is written to them, the cache
  shows the same contents of every block whatever it keeps, evicts or writes back.

  \<open>device P disk n\<close> is the contract of the block drivers for block size \<open>n\<close>, with
  \<open>disk w d b\<close> the contents of block \<open>b\<close> of device \<open>d\<close> in the world \<open>w\<close>: a
  read of a block returns it, a scattered write stores a non-empty prefix of the consecutive
  blocks it is given and returns how many bytes, and neither VM nor the allocator touches
  a device.
\<close>

section \<open>Devices\<close>

fun write_run :: "(dev_id \<Rightarrow> blockno \<Rightarrow> 'c) \<Rightarrow> dev_id \<Rightarrow> blockno \<Rightarrow> 'c list \<Rightarrow> dev_id \<Rightarrow> blockno \<Rightarrow> 'c" where
  "write_run f d b [] = f"
| "write_run f d b (c # cs) = write_run (f(d := (f d)(b := c))) d (b + 1) cs"

definition device :: "('c, 'w) cenv \<Rightarrow> ('w \<Rightarrow> dev_id \<Rightarrow> blockno \<Rightarrow> 'c) \<Rightarrow> nat \<Rightarrow> bool" where
  "device P disk n \<longleftrightarrow>
     0 < NR_IOREQS P \<and>
     (\<forall>w d b c. case bdev_read P w d (ucast b * of_nat n) c n of
        (r, c', w') \<Rightarrow> r = int n \<and> c' = disk w d b \<and> disk w' = disk w) \<and>
     (\<forall>w d b cs. cs \<noteq> [] \<longrightarrow> (case bdev_scatter P w d (ucast b * of_nat n) (map Some cs) n of
        (r, w') \<Rightarrow> \<exists>k. 0 < k \<and> k \<le> length cs \<and> r = int (k * n) \<and>
                   disk w' = write_run (disk w) d b (take k cs))) \<and>
     (\<forall>w. disk (vm_forgetblocks P w) = disk w) \<and> (\<forall>w m. disk (snd (alloc_contig P w m)) = disk w)"

section \<open>Writing back\<close>

fun mark_all :: "nat list \<Rightarrow> ('c, 'w) cache \<Rightarrow> ('c, 'w) cache" where
  "mark_all [] s = s"
| "mark_all (b # bs) s = mark_all bs (lmfs_markclean b s)"

lemma mark_all_frame [simp]:
  "data (bufs (mark_all q s) i) = data (bufs s i)"
  "lmfs_blocknr (bufs (mark_all q s) i) = lmfs_blocknr (bufs s i)"
  "lmfs_dev (bufs (mark_all q s) i) = lmfs_dev (bufs s i)"
  "nr_bufs (mark_all q s) = nr_bufs s" "fs_block_size (mark_all q s) = fs_block_size s"
  "world (mark_all q s) = world s"
  by (induction q arbitrary: s) simp_all

lemma mark_all_dirt:
  "lmfs_dirt (bufs (mark_all q s) i) = (if i \<in> set q then BP_CLEAN else lmfs_dirt (bufs s i))"
  by (induction q arbitrary: s) auto

lemma mark_all_append: "mark_all (xs @ ys) s = mark_all ys (mark_all xs s)"
  by (induction xs arbitrary: s) simp_all

lemma markclean_world: "lmfs_markclean b (s\<lparr>world := w\<rparr>) = (lmfs_markclean b s)\<lparr>world := w\<rparr>"
  by (cases s) (simp add: lmfs_markclean_def upd_def)

lemma mark_all_world: "mark_all q (s\<lparr>world := w\<rparr>) = (mark_all q s)\<lparr>world := w\<rparr>"
  by (induction q arbitrary: s) (simp_all add: markclean_world)

lemma harvest_writes:
  assumes "0 < fs_block_size s" and "k \<le> length run" and "0 < i + k"
  shows "harvest P WRITING dev i (int (k * fs_block_size s)) run s = (i + k, mark_all (take k run) s)"
  using assms
proof (induction run arbitrary: i k s)
  case Nil
  then show ?case by simp
next
  case (Cons b run)
  show ?case
  proof (cases k)
    case 0
    with Cons.prems show ?thesis by simp
  next
    case (Suc k')
    then have "int (k * fs_block_size s) - int (fs_block_size s) = int (k' * fs_block_size s)"
      by (simp add: algebra_simps)
    with Suc Cons.prems Cons.IH [of "lmfs_markclean b s" k' "Suc i"] show ?thesis
      by (simp add: Let_def not_less)
  qed
qed

lemma run_from_prefix: "\<exists>k \<le> n. run_from s b n q = take k q"
proof (induction s b n q rule: run_from.induct)
  case (3 s b n x q)
  then show ?case
    by (cases "lmfs_blocknr (bufs s x) = b") (auto intro: exI [of _ "Suc k" for k] exI [of _ 0])
qed auto

lemma run_from_numbers:
  "j < length (run_from s b n q) \<Longrightarrow> lmfs_blocknr (bufs s (run_from s b n q ! j)) = b + of_nat j"
proof (induction s b n q arbitrary: j rule: run_from.induct)
  case (3 s b n x q)
  then show ?case by (cases j) (auto split: if_splits)
qed auto

text \<open>The device after the contents of the buffers \<open>q\<close> have been stored one by one.\<close>

fun put_bufs ::
  "('c, 'w) cache \<Rightarrow> dev_id \<Rightarrow> (dev_id \<Rightarrow> blockno \<Rightarrow> 'c) \<Rightarrow> nat list \<Rightarrow> dev_id \<Rightarrow> blockno \<Rightarrow> 'c" where
  "put_bufs s d f [] = f"
| "put_bufs s d f (b # q) =
     put_bufs s d (f(d := (f d)(lmfs_blocknr (bufs s b) := the (data (bufs s b))))) q"

lemma put_bufs_append: "put_bufs s d f (xs @ ys) = put_bufs s d (put_bufs s d f xs) ys"
  by (induction xs arbitrary: f) simp_all

lemma put_bufs_cong:
  "(\<And>i. data (bufs s' i) = data (bufs s i)) \<Longrightarrow>
   (\<And>i. lmfs_blocknr (bufs s' i) = lmfs_blocknr (bufs s i)) \<Longrightarrow> put_bufs s' d f q = put_bufs s d f q"
  by (induction q arbitrary: f) simp_all

lemma write_run_bufs:
  "(\<And>j. j < length q \<Longrightarrow> lmfs_blocknr (bufs s (q ! j)) = b + of_nat j) \<Longrightarrow>
   write_run f d b (map (\<lambda>i. the (data (bufs s i))) q) = put_bufs s d f q"
proof (induction q arbitrary: f b)
  case Nil
  then show ?case by simp
next
  case (Cons x q)
  have "lmfs_blocknr (bufs s (q ! j)) = (b + 1) + of_nat j" if "j < length q" for j
    using Cons.prems [of "Suc j"] that by (simp add: algebra_simps)
  note Cons.IH [OF this]
  moreover have "lmfs_blocknr (bufs s x) = b" using Cons.prems [of 0] by simp
  ultimately show ?case by simp
qed

lemma put_bufs_else:
  "d' \<noteq> d \<or> b \<notin> (\<lambda>i. lmfs_blocknr (bufs s i)) ` set q \<Longrightarrow> put_bufs s d f q d' b = f d' b"
  by (induction q arbitrary: f) auto

lemma put_bufs_at:
  "distinct (map (\<lambda>i. lmfs_blocknr (bufs s i)) q) \<Longrightarrow> i \<in> set q \<Longrightarrow>
   put_bufs s d f q d (lmfs_blocknr (bufs s i)) = the (data (bufs s i))"
proof (induction q arbitrary: f)
  case Nil
  then show ?case by simp
next
  case (Cons x q)
  show ?case
  proof (cases "i = x")
    case True
    with Cons.prems show ?thesis by (simp add: put_bufs_else)
  next
    case False
    with Cons show ?thesis by simp
  qed
qed

lemma device_scatter:
  assumes "device P disk n" and "cs \<noteq> []"
    and "bdev_scatter P w d (ucast b * of_nat n) (map Some cs) n = (r, w')"
  obtains k where "0 < k" "k \<le> length cs" "r = int (k * n)" "disk w' = write_run (disk w) d b (take k cs)"
proof -
  have "case bdev_scatter P w d (ucast b * of_nat n) (map Some cs) n of
      (r, w') \<Rightarrow> \<exists>k. 0 < k \<and> k \<le> length cs \<and> r = int (k * n) \<and>
                 disk w' = write_run (disk w) d b (take k cs)"
    using assms(1,2) by (simp add: device_def)
  with assms(3) that show ?thesis by auto
qed

lemma rw_round_writes:
  assumes "device P disk (fs_block_size s)" and "0 < fs_block_size s" and "q \<noteq> []"
    and "\<forall>i \<in> set q. data (bufs s i) \<noteq> None"
  obtains k w where "0 < k" and "k \<le> length q"
    and "rw_round P WRITING dev q s = (k, (mark_all (take k q) s)\<lparr>world := w\<rparr>)"
    and "disk w = put_bufs s dev (disk (world s)) (take k q)"
proof -
  let ?n = "fs_block_size s" and ?b = "lmfs_blocknr (bufs s (hd q))"
  let ?run = "run_from s ?b (NR_IOREQS P) q" and ?c = "\<lambda>i. the (data (bufs s i))"
  obtain m where m: "m \<le> NR_IOREQS P" "?run = take m q" using run_from_prefix by blast
  obtain x q' where q: "q = x # q'" using assms(3) by (cases q) auto
  obtain n' where "NR_IOREQS P = Suc n'" using assms(1) by (cases "NR_IOREQS P") (auto simp: device_def)
  then have "?run \<noteq> []" using q by simp
  have datas: "map (\<lambda>i. data (bufs s i)) ?run = map Some (map ?c ?run)"
    using assms(4) m(2) by (auto dest: in_set_takeD)
  obtain r w where r: "bdev_scatter P (world s) dev (block_pos s ?b) (map Some (map ?c ?run)) ?n = (r, w)"
    by fastforce
  have "map ?c ?run \<noteq> []" using \<open>?run \<noteq> []\<close> by simp
  from device_scatter [OF assms(1) this r [unfolded block_pos_def]]
  obtain k where k: "0 < k" "k \<le> length ?run" "r = int (k * ?n)"
    "disk w = write_run (disk (world s)) dev ?b (take k (map ?c ?run))"
    by (metis length_map)
  have take: "take k ?run = take k q" using k(2) m(2) by (simp add: min_def split: if_splits)
  have "lmfs_blocknr (bufs s (take k ?run ! j)) = ?b + of_nat j" if "j < length (take k ?run)" for j
    using that run_from_numbers [of j s ?b "NR_IOREQS P" q] by simp
  then have "disk w = put_bufs s dev (disk (world s)) (take k q)"
    using k(4) write_run_bufs [of "take k ?run" s ?b "disk (world s)" dev] take by (simp add: take_map)
  moreover have "rw_round P WRITING dev q s = (k, (mark_all (take k q) s)\<lparr>world := w\<rparr>)"
    using r k harvest_writes [of "s\<lparr>world := w\<rparr>" k ?run 0 P dev] assms(2) take
    by (simp add: rw_round_def Let_def datas mark_all_world)
  moreover have "k \<le> length q" using k(2) m(2) by simp
  ultimately show ?thesis using that k(1) by blast
qed

lemma rw_loop_writes:
  assumes "rw = WRITING" and "device P disk (fs_block_size s)" and "0 < fs_block_size s"
    and "\<forall>i \<in> set q. data (bufs s i) \<noteq> None"
  shows "\<exists>w. rw_loop P rw dev q s = (mark_all q s)\<lparr>world := w\<rparr> \<and>
             disk w = put_bufs s dev (disk (world s)) q"
  using assms
proof (induction P rw dev q s rule: rw_loop.induct)
  case (1 P rw dev q s)
  show ?case
  proof (cases "q = []")
    case True
    then show ?thesis by (subst rw_loop.simps) (auto intro: exI [of _ "world s"])
  next
    case False
    then obtain k w where k: "0 < k" "k \<le> length q"
      "rw_round P WRITING dev q s = (k, (mark_all (take k q) s)\<lparr>world := w\<rparr>)"
      "disk w = put_bufs s dev (disk (world s)) (take k q)"
      using rw_round_writes [OF 1(3,4) False 1(5)] by metis
    let ?s = "(mark_all (take k q) s)\<lparr>world := w\<rparr>"
    have "\<exists>w'. rw_loop P rw dev (drop k q) ?s = (mark_all (drop k q) ?s)\<lparr>world := w'\<rparr> \<and>
        disk w' = put_bufs ?s dev (disk (world ?s)) (drop k q)"
      using 1 k False by (intro 1(1)) (auto dest: in_set_dropD)
    then obtain w' where w': "rw_loop P rw dev (drop k q) ?s = (mark_all (drop k q) ?s)\<lparr>world := w'\<rparr>"
      "disk w' = put_bufs s dev (disk w) (drop k q)"
      using put_bufs_cong [of ?s s] by auto
    have "mark_all (drop k q) ?s = (mark_all q s)\<lparr>world := w\<rparr>"
      using mark_all_append [of "take k q" "drop k q" s] by (simp add: mark_all_world)
    moreover have "disk w' = put_bufs s dev (disk (world s)) q"
      using w'(2) k(4) put_bufs_append [of s dev "disk (world s)" "take k q" "drop k q"] by simp
    ultimately show ?thesis
      using w'(1) k(1,3) 1(2) False by (subst rw_loop.simps) auto
  qed
qed

section \<open>Flushing a device\<close>

text \<open>What \<open>flushall\<close> does on a working device.\<close>

definition flushed ::
  "('w \<Rightarrow> dev_id \<Rightarrow> blockno \<Rightarrow> 'c) \<Rightarrow> dev_id \<Rightarrow> ('c, 'w) cache \<Rightarrow> ('c, 'w) cache \<Rightarrow> bool" where
  "flushed disk dev s s' \<longleftrightarrow>
     nr_bufs s' = nr_bufs s \<and> fs_block_size s' = fs_block_size s \<and>
     (\<forall>i. data (bufs s' i) = data (bufs s i) \<and> lmfs_dev (bufs s' i) = lmfs_dev (bufs s i) \<and>
          lmfs_blocknr (bufs s' i) = lmfs_blocknr (bufs s i) \<and>
          lmfs_dirt (bufs s' i) = (if i \<in> set (dirty_list dev s) then BP_CLEAN else lmfs_dirt (bufs s i))) \<and>
     (\<forall>i \<in> set (dirty_list dev s).
          disk (world s') dev (lmfs_blocknr (bufs s i)) = the (data (bufs s i))) \<and>
     (\<forall>d b. d \<noteq> dev \<or> b \<notin> (\<lambda>i. lmfs_blocknr (bufs s i)) ` set (dirty_list dev s) \<longrightarrow>
          disk (world s') d b = disk (world s) d b)"

lemma dirty_list_iff:
  "i \<in> set (dirty_list dev s) \<longleftrightarrow> i < nr_bufs s \<and> lmfs_dirt (bufs s i) = BP_DIRTY \<and> lmfs_dev (bufs s i) = dev"
  by (auto simp: dirty_list_def)

lemma flushall_flushes:
  assumes "device P disk (fs_block_size s)" and "0 < fs_block_size s" and "bufs_ok P s"
    and "uniq P s" and "dev \<noteq> NO_DEV P" and "flushall P dev s = Inr s'"
  shows "flushed disk dev s s'"
proof -
  let ?s = "s\<lparr>dirtylistsize := nr_bufs s\<rparr>" and ?key = "\<lambda>i. lmfs_blocknr (bufs s i)"
  let ?q = "shell_sort ?key (dirty_list dev s)"
  have dl: "dirty_list dev ?s = dirty_list dev s" by (simp add: dirty_list_def)
  have mset: "mset ?q = mset (dirty_list dev s)" by (rule mset_shell_sort)
  have set: "set ?q = set (dirty_list dev s)" using mset by (metis set_mset_mset)
  have "distinct (dirty_list dev s)" by (simp add: dirty_list_def)
  then have "distinct ?q" using mset mset_eq_imp_distinct_iff by blast
  moreover have "inj_on ?key (set ?q)"
    using assms(4,5) unfolding set by (auto simp: inj_on_def uniq_def dirty_list_iff)
  ultimately have dist: "distinct (map ?key ?q)" by (simp add: distinct_map)
  have mem: "\<forall>i \<in> set ?q. data (bufs ?s i) \<noteq> None"
    using assms(3,5) unfolding set by (auto simp: dirty_list_iff bufs_ok_def buf_ok_def)
  obtain w where w: "rw_loop P WRITING dev ?q ?s = (mark_all ?q ?s)\<lparr>world := w\<rparr>"
    "disk w = put_bufs ?s dev (disk (world ?s)) ?q"
    using rw_loop_writes [OF refl _ _ mem, of P disk dev] assms(1,2) by auto
  have s': "s' = (mark_all ?q ?s)\<lparr>world := w\<rparr>"
    using assms(6) w(1) by (simp add: flushall_def lmfs_rw_scattered_def dl Let_def split: if_splits)
  have disk: "disk w = put_bufs s dev (disk (world s)) ?q"
    using w(2) put_bufs_cong [of ?s s] by simp
  show ?thesis
    unfolding flushed_def s'
    using put_bufs_at [OF dist, of _ dev "disk (world s)"] put_bufs_else [of _ dev _ s ?q "disk (world s)"]
    by (simp add: mark_all_dirt set disk)
qed

section \<open>Coherence and the view of a block\<close>

definition coherent :: "('c, 'w) cenv \<Rightarrow> ('w \<Rightarrow> dev_id \<Rightarrow> blockno \<Rightarrow> 'c) \<Rightarrow> ('c, 'w) cache \<Rightarrow> bool" where
  "coherent P disk s \<longleftrightarrow>
     (\<forall>i < nr_bufs s. lmfs_dev (bufs s i) \<noteq> NO_DEV P \<and> lmfs_dirt (bufs s i) = BP_CLEAN \<longrightarrow>
        data (bufs s i) = Some (disk (world s) (lmfs_dev (bufs s i)) (lmfs_blocknr (bufs s i))))"

definition view :: "('w \<Rightarrow> dev_id \<Rightarrow> blockno \<Rightarrow> 'c) \<Rightarrow> ('c, 'w) cache \<Rightarrow> dev_id \<Rightarrow> blockno \<Rightarrow> 'c option" where
  "view disk s d b =
     (case find (\<lambda>i. lmfs_dev (bufs s i) = d \<and> lmfs_blocknr (bufs s i) = b) [0..<nr_bufs s] of
        Some i \<Rightarrow> data (bufs s i) | None \<Rightarrow> Some (disk (world s) d b))"

lemma view_held:
  assumes "uniq P s" and "d \<noteq> NO_DEV P" and "holds s d b i"
  shows "view disk s d b = data (bufs s i)"
proof -
  let ?P = "\<lambda>i. lmfs_dev (bufs s i) = d \<and> lmfs_blocknr (bufs s i) = b"
  have "find ?P [0..<nr_bufs s] = Some i"
    using assms by (intro find_upt_SomeI) (auto simp: holds_def uniq_def dest: less_trans)
  then show ?thesis by (simp add: view_def)
qed

lemma view_absent: "(\<And>i. \<not> holds s d b i) \<Longrightarrow> view disk s d b = Some (disk (world s) d b)"
proof -
  assume "\<And>i. \<not> holds s d b i"
  then have "find (\<lambda>i. lmfs_dev (bufs s i) = d \<and> lmfs_blocknr (bufs s i) = b) [0..<nr_bufs s] = None"
    by (auto simp: find_None_iff holds_def)
  then show ?thesis by (simp add: view_def)
qed

text \<open>\<open>same_view\<close>: still coherent, and every block of every device looks the same.\<close>

definition same_view ::
  "('c, 'w) cenv \<Rightarrow> ('w \<Rightarrow> dev_id \<Rightarrow> blockno \<Rightarrow> 'c) \<Rightarrow> ('c, 'w) cache \<Rightarrow> ('c, 'w) cache \<Rightarrow> bool" where
  "same_view P disk s s' \<longleftrightarrow>
     coherent P disk s' \<and> (\<forall>d b. d \<noteq> NO_DEV P \<longrightarrow> view disk s' d b = view disk s d b)"

lemma same_view_trans: "same_view P disk s s' \<Longrightarrow> same_view P disk s' s'' \<Longrightarrow> same_view P disk s s''"
  by (simp add: same_view_def)

text \<open>Steps that keep names, flags and devices, and change contents of unnamed buffers only.\<close>

lemma same_view_frame:
  assumes "coherent P disk s" and "uniq P s" and "nr_bufs s' = nr_bufs s"
    and "disk (world s') = disk (world s)" and "\<And>i. lmfs_dev (bufs s' i) = lmfs_dev (bufs s i)"
    and "\<And>i. lmfs_blocknr (bufs s' i) = lmfs_blocknr (bufs s i)"
    and "\<And>i. lmfs_dirt (bufs s' i) = lmfs_dirt (bufs s i)"
    and "\<And>i. i < nr_bufs s \<Longrightarrow> lmfs_dev (bufs s i) \<noteq> NO_DEV P \<Longrightarrow> data (bufs s' i) = data (bufs s i)"
  shows "same_view P disk s s'"
proof -
  have "view disk s' d b = view disk s d b" if "d \<noteq> NO_DEV P" for d b
  proof (cases "\<exists>i. holds s d b i")
    case True
    then obtain i where i: "holds s d b i" "holds s' d b i" using assms(3,5,6) by (auto simp: holds_def)
    moreover have "uniq P s'" using assms(2,3,5,6) by (simp add: uniq_def)
    moreover have "data (bufs s' i) = data (bufs s i)" using assms(8) i that by (auto simp: holds_def)
    ultimately show ?thesis using view_held [of P _ d b i] assms(2) that by simp
  next
    case False
    then show ?thesis using assms(3-6) by (simp add: view_absent holds_def)
  qed
  moreover have "coherent P disk s'" using assms by (simp add: coherent_def)
  ultimately show ?thesis by (simp add: same_view_def)
qed

lemma same_view_flush:
  assumes "flushed disk dev s s'" and "coherent P disk s" and "uniq P s" and "bufs_ok P s"
    and "dev \<noteq> NO_DEV P"
  shows "same_view P disk s s'"
proof -
  have f: "nr_bufs s' = nr_bufs s" "\<And>i. data (bufs s' i) = data (bufs s i)"
    "\<And>i. lmfs_dev (bufs s' i) = lmfs_dev (bufs s i)"
    "\<And>i. lmfs_blocknr (bufs s' i) = lmfs_blocknr (bufs s i)"
    and dirt: "\<And>i. lmfs_dirt (bufs s' i) = (if i \<in> set (dirty_list dev s) then BP_CLEAN else lmfs_dirt (bufs s i))"
    and wr: "\<And>i. i \<in> set (dirty_list dev s) \<Longrightarrow>
      disk (world s') dev (lmfs_blocknr (bufs s i)) = the (data (bufs s i))"
    and keep: "\<And>d b. d \<noteq> dev \<or> b \<notin> (\<lambda>i. lmfs_blocknr (bufs s i)) ` set (dirty_list dev s) \<Longrightarrow>
      disk (world s') d b = disk (world s) d b"
    using assms(1) unfolding flushed_def by blast+
  have data: "data (bufs s i) \<noteq> None" if "i < nr_bufs s" "lmfs_dev (bufs s i) \<noteq> NO_DEV P" for i
    using assms(4) that by (auto simp: bufs_ok_def buf_ok_def)
  have "coherent P disk s'"
    unfolding coherent_def
  proof (intro allI impI)
    fix i assume i: "i < nr_bufs s'" "lmfs_dev (bufs s' i) \<noteq> NO_DEV P \<and> lmfs_dirt (bufs s' i) = BP_CLEAN"
    show "data (bufs s' i) = Some (disk (world s') (lmfs_dev (bufs s' i)) (lmfs_blocknr (bufs s' i)))"
    proof (cases "i \<in> set (dirty_list dev s)")
      case True
      then have "lmfs_dev (bufs s i) = dev" by (simp add: dirty_list_iff)
      with True wr [OF True] data [of i] i f show ?thesis by auto
    next
      case False
      then have clean: "lmfs_dirt (bufs s i) = BP_CLEAN" using i dirt by simp
      have "lmfs_dev (bufs s i) \<noteq> dev \<or>
          lmfs_blocknr (bufs s i) \<notin> (\<lambda>i. lmfs_blocknr (bufs s i)) ` set (dirty_list dev s)"
        using assms(3,5) i(1) clean f(1) by (auto simp: uniq_def dirty_list_iff) (metis dirt.distinct(1))
      from keep [OF this] clean i assms(2) f show ?thesis by (auto simp: coherent_def)
    qed
  qed
  moreover have "view disk s' d b = view disk s d b" for d b
  proof (cases "\<exists>i. holds s d b i")
    case True
    then show ?thesis by (auto simp: view_def f holds_def find_None_iff split: option.splits)
  next
    case False
    then have "d \<noteq> dev \<or> b \<notin> (\<lambda>i. lmfs_blocknr (bufs s i)) ` set (dirty_list dev s)"
      by (auto simp: holds_def dirty_list_iff)
    from keep [OF this] False show ?thesis
      by (simp add: view_absent holds_def f)
  qed
  ultimately show ?thesis by (simp add: same_view_def)
qed

lemma same_view_drop:
  assumes "coherent P disk s" and "uniq P s" and "bp < nr_bufs s"
    and "lmfs_dirt (bufs s bp) = BP_CLEAN \<or> lmfs_dev (bufs s bp) = NO_DEV P"
  shows "same_view P disk s (set_dev bp (NO_DEV P) s)"
proof -
  let ?s = "set_dev bp (NO_DEV P) s"
  have "uniq P ?s" using assms(2) by (simp add: uniq_def)
  have "view disk ?s d b = view disk s d b" if d: "d \<noteq> NO_DEV P" for d b
  proof (cases "\<exists>i. i \<noteq> bp \<and> holds s d b i")
    case True
    then obtain i where "i \<noteq> bp" "holds s d b i" by blast
    then show ?thesis
      using view_held [OF assms(2) d, of b i] view_held [OF \<open>uniq P ?s\<close> d, of b i]
      by (simp add: holds_def)
  next
    case False
    then have none: "\<And>i. \<not> holds ?s d b i" using d by (auto simp: holds_def)
    show ?thesis
    proof (cases "holds s d b bp")
      case True
      then have "data (bufs s bp) = Some (disk (world s) d b)"
        using assms(1,4) d by (auto simp: coherent_def holds_def)
      then show ?thesis using view_held [OF assms(2) d True] view_absent [OF none] by simp
    next
      case absent: False
      then have "\<not> holds s d b i" for i using False by (cases "i = bp") auto
      then show ?thesis using view_absent [OF none] by (simp add: view_absent)
    qed
  qed
  moreover have "coherent P disk ?s" using assms(1) by (simp add: coherent_def)
  ultimately show ?thesis by (simp add: same_view_def)
qed

end
