(* ===== verification/Cache_Props.thy ===== *)
theory Cache_Props
  imports Cache_Coherence
begin

unbundle bit_operations_syntax

text \<open>
  The properties of the block cache, over the lemmas of \<open>Cache_Sort\<close>, \<open>Cache_Lru\<close>,
  \<open>Cache_Inv\<close>, \<open>Cache_Get\<close>, \<open>Cache_Block\<close> and \<open>Cache_Coherence\<close>, with a memory-backed
  device on which the witnesses run.
\<close>

section \<open>Getting a block changes no contents\<close>

lemma evict_view:
  assumes "detached P bp s" and "device P disk (fs_block_size s)" and "0 < fs_block_size s"
    and "coherent P disk s" and "evict P bp s = Inr (y, s')"
  shows "same_view P disk s s'"
proof (cases "lmfs_dev (bufs s bp) = NO_DEV P")
  case True
  with assms(4,5) show ?thesis by (simp add: evict_def same_view_def)
next
  case False
  have inv: "uniq P s" "bufs_ok P s" "bp < nr_bufs s" using assms(1) by (simp_all add: detached_def)
  obtain s1 where s1: "(if lmfs_dirt (bufs s bp) = BP_DIRTY then flushall P (lmfs_dev (bufs s bp)) s
      else Inr s) = Inr s1" and s': "s' = set_dev bp (NO_DEV P) s1"
    using assms(5) False unfolding evict_def by (auto simp: bindE_convs split: if_splits)
  have "same_view P disk s s1 \<and> uniq P s1 \<and> nr_bufs s1 = nr_bufs s \<and> lmfs_dirt (bufs s1 bp) = BP_CLEAN"
  proof (cases "lmfs_dirt (bufs s bp) = BP_DIRTY")
    case True
    with s1 have fl: "flushall P (lmfs_dev (bufs s bp)) s = Inr s1" by simp
    have f: "flushed disk (lmfs_dev (bufs s bp)) s s1"
      by (rule flushall_flushes [OF assms(2,3) inv(2,1) False fl])
    have "bp \<in> set (dirty_list (lmfs_dev (bufs s bp)) s)" using True inv(3) by (simp add: dirty_list_iff)
    with f have "lmfs_dirt (bufs s1 bp) = BP_CLEAN" "nr_bufs s1 = nr_bufs s" by (auto simp: flushed_def)
    moreover have "uniq P s1" using tame_keeps(5) [OF tame_flushall [OF fl] inv(1)] .
    ultimately show ?thesis using same_view_flush [OF f assms(4) inv(1,2) False] by simp
  next
    case clean: False
    then have "lmfs_dirt (bufs s bp) = BP_CLEAN" by (cases "lmfs_dirt (bufs s bp)") auto
    with clean s1 assms(4) inv show ?thesis by (simp add: same_view_def)
  qed
  then have "same_view P disk s s1" "same_view P disk s1 s'"
    using same_view_drop [of P disk s1 bp] inv(3) by (auto simp: s' same_view_def)
  then show ?thesis by (rule same_view_trans)
qed

text \<open>The buffer, unnamed before, now names the block and holds what the device has.\<close>

lemma same_view_install:
  assumes "coherent P disk s" and "uniq P s" and "uniq P s'" and "lmfs_dev (bufs s bp) = NO_DEV P"
    and "bp < nr_bufs s" and "dev \<noteq> NO_DEV P" and "\<And>i. \<not> holds s dev block i"
    and "nr_bufs s' = nr_bufs s" and "disk (world s') = disk (world s)"
    and "\<And>i. i \<noteq> bp \<Longrightarrow> lmfs_dev (bufs s' i) = lmfs_dev (bufs s i) \<and>
           lmfs_blocknr (bufs s' i) = lmfs_blocknr (bufs s i) \<and>
           lmfs_dirt (bufs s' i) = lmfs_dirt (bufs s i) \<and> data (bufs s' i) = data (bufs s i)"
    and "lmfs_dev (bufs s' bp) = dev" and "lmfs_blocknr (bufs s' bp) = block"
    and "data (bufs s' bp) = Some (disk (world s) dev block)"
  shows "same_view P disk s s'" and "view disk s' dev block = data (bufs s' bp)"
proof -
  have bp: "holds s' dev block bp" using assms(5,8,11,12) by (simp add: holds_def)
  then show new: "view disk s' dev block = data (bufs s' bp)" by (rule view_held [OF assms(3,6)])
  have "view disk s' d b = view disk s d b" if d: "d \<noteq> NO_DEV P" for d b
  proof (cases "d = dev \<and> b = block")
    case True
    with new assms(7,13) show ?thesis by (simp add: view_absent)
  next
    case False
    have h: "holds s' d b i \<longleftrightarrow> holds s d b i" for i
    proof (cases "i = bp")
      case True
      with False d assms(4,11,12) show ?thesis by (auto simp: holds_def)
    next
      case other: False
      with assms(8,10) show ?thesis by (simp add: holds_def)
    qed
    show ?thesis
    proof (cases "\<exists>i. holds s d b i")
      case True
      then obtain i where i: "holds s d b i" by blast
      then have "i \<noteq> bp" using d assms(4) by (auto simp: holds_def)
      with i h view_held [OF assms(2) d, of b i] view_held [OF assms(3) d, of b i] assms(10) show ?thesis
        by simp
    next
      case none: False
      then show ?thesis using h assms(9) by (simp add: view_absent)
    qed
  qed
  moreover have "coherent P disk s'"
    unfolding coherent_def
  proof (intro allI impI)
    fix i assume "i < nr_bufs s'" "lmfs_dev (bufs s' i) \<noteq> NO_DEV P \<and> lmfs_dirt (bufs s' i) = BP_CLEAN"
    then show "data (bufs s' i) = Some (disk (world s') (lmfs_dev (bufs s' i)) (lmfs_blocknr (bufs s' i)))"
      using assms(1,8,9,10-13) by (cases "i = bp") (auto simp: coherent_def)
  qed
  ultimately show "same_view P disk s s'" by (simp add: same_view_def)
qed

lemma got_view:
  assumes "got s bp s'" and "cache_ok P s" and "coherent P disk s" and "disk (world s') = disk (world s)"
  shows "same_view P disk s s'"
proof (rule same_view_frame [OF assms(3) _ _ assms(4)])
  note g = got_ok [OF assms(1,2)]
  show "uniq P s" using assms(2) by (simp add: cache_ok_def)
  show "nr_bufs s' = nr_bufs s" "\<And>i. lmfs_dev (bufs s' i) = lmfs_dev (bufs s i)"
    "\<And>i. lmfs_blocknr (bufs s' i) = lmfs_blocknr (bufs s i)"
    "\<And>i. lmfs_dirt (bufs s' i) = lmfs_dirt (bufs s i)" by (simp_all add: g)
  fix i assume "i < nr_bufs s" "lmfs_dev (bufs s i) \<noteq> NO_DEV P"
  then have "data (bufs s i) \<noteq> None" using assms(2) by (auto simp: cache_ok_def bufs_ok_def buf_ok_def)
  then show "data (bufs s' i) = data (bufs s i)" using assms(1) by (auto simp: got_def upd_def)
qed

lemma take_oldest_disk:
  assumes "take_oldest P s = Inr (bp, s')" and "device P disk n"
  shows "disk (world s') = disk (world s)"
proof -
  have "disk (snd (alloc_contig P w m)) = disk w" for w m using assms(2) by (simp add: device_def)
  from this [of "world s" "fs_block_size s"] show ?thesis
    using assms(1) by (auto simp: take_oldest_def bindE_convs split: option.splits if_splits prod.splits)
qed

lemma fetch_reads:
  assumes "device P disk (fs_block_size s)" and "\<not> vmcache s" and "data (bufs s bp) \<noteq> None"
    and "lmfs_dev (bufs s bp) \<noteq> NO_DEV P" and "fetch P bp y g NORMAL s = Inr s'"
  obtains w where "disk w = disk (world s)"
    and "s' = set_data bp (Some (disk (world s) (lmfs_dev (bufs s bp)) (lmfs_blocknr (bufs s bp))))
                (s\<lparr>world := w\<rparr>)"
proof -
  obtain c where c: "data (bufs s bp) = Some c" using assms(3) by blast
  let ?d = "lmfs_dev (bufs s bp)" and ?b = "lmfs_blocknr (bufs s bp)" and ?n = "fs_block_size s"
  obtain r c' w where r: "bdev_read P (world s) ?d (ucast ?b * of_nat ?n) c ?n = (r, c', w)"
    by (metis prod_cases3)
  have "case bdev_read P (world s) ?d (ucast ?b * of_nat ?n) c ?n of
      (r, c', w') \<Rightarrow> r = int ?n \<and> c' = disk (world s) ?d ?b \<and> disk w' = disk (world s)"
    using assms(1) by (simp add: device_def)
  with r have "r = int ?n" "c' = disk (world s) ?d ?b" "disk w = disk (world s)" by simp_all
  with assms(2,4,5) c r that [of w] show ?thesis
    by (simp add: fetch_def fetch_io_def read_block_def block_pos_def Let_def)
qed

text \<open>The path of a miss, with all the states in between.\<close>

lemma get_missE:
  assumes "get_miss P dev block m s = Inr (bp, s')"
  obtains s1 s2 y s3 where "take_oldest P s = Inr (bp, s1)" and "unhash bp (rm_lru bp s1) = Inr s2"
    and "evict P bp s2 = Inr (y, s3)"
    and "fetch P bp y (dev, block) m (install bp dev block s3) = Inr s'"
  using assms by (auto simp: get_miss_def bindE_convs split: if_splits)

lemma get_miss_transparent:
  assumes "cache_ok P s" and "0 < fs_block_size s" and "dev \<noteq> NO_DEV P"
    and "\<And>i. \<not> holds s dev block i" and "device P disk (fs_block_size s)" and "coherent P disk s"
    and "\<not> vmcache s" and "get_miss P dev block NORMAL s = Inr (bp, s')"
  shows "same_view P disk s s' \<and> data (bufs s' bp) = view disk s dev block \<and>
    lmfs_dev (bufs s' bp) = dev"
proof -
  obtain s1 s2 y s3 where p: "take_oldest P s = Inr (bp, s1)" "unhash bp (rm_lru bp s1) = Inr s2"
    "evict P bp s2 = Inr (y, s3)" "fetch P bp y (dev, block) NORMAL (install bp dev block s3) = Inr s'"
    using assms(8) by (rule get_missE)
  have got: "got s bp s1" using take_oldest_ok [OF assms(1,2)] p(1) by auto
  note g = got_ok [OF got assms(1)]
  have bp: "bp \<in> free_set s1" "data (bufs s1 bp) \<noteq> None" "lmfs_bytes (bufs s1 bp) = fs_block_size s1"
    using got by (auto simp: got_def)
  obtain s2' where d: "unhash bp (rm_lru bp s1) = Inr s2'" "detached P bp s2'" "nr_bufs s2' = nr_bufs s1"
    "fs_block_size s2' = fs_block_size s1" "world s2' = world s1" "vmcache s2' = vmcache s1"
    "\<And>i. data (bufs s2' i) = data (bufs s1 i)" "\<And>i. lmfs_dev (bufs s2' i) = lmfs_dev (bufs s1 i)"
    "\<And>i. lmfs_blocknr (bufs s2' i) = lmfs_blocknr (bufs s1 i)"
    "\<And>i. lmfs_dirt (bufs s2' i) = lmfs_dirt (bufs s1 i)"
    using detach [OF g(1) bp] by metis
  have [simp]: "s2' = s2" using d(1) p(2) by simp
  have v1: "same_view P disk s s1"
    using got_view [OF got assms(1,6)] take_oldest_disk [OF p(1) assms(5)] by simp
  have "same_view P disk s1 s2"
    using v1 g(1) d by (intro same_view_frame) (auto simp: same_view_def cache_ok_def)
  then have v2: "same_view P disk s s2" using v1 same_view_trans by blast
  have n2: "fs_block_size s2 = fs_block_size s" using d(4) g(4) by simp
  have v3: "same_view P disk s s3"
    using evict_view [OF d(2) _ _ _ p(3) [folded \<open>s2' = s2\<close>], of disk] v2 n2 assms(2,5)
    by (auto simp: same_view_def)
  have t: "tame P s2 s3" "lmfs_dev (bufs s3 bp) = NO_DEV P" using evict_ok [OF d(2)] p(3) by auto
  have d3: "detached P bp s3" using detached_tame [OF t(1)] d(2) by simp
  have none: "\<not> holds s3 dev block i" for i
    using assms(3) assms(4) [of i] tame_buf [OF t(1), of i] t(1) d(3,8,9) g(3,6,7)
    by (auto simp: holds_def tame_def)
  let ?s = "install bp dev block s3"
  have vm: "\<not> vmcache ?s" "fs_block_size ?s = fs_block_size s"
    using assms(7) t(1) d(6) g(5) n2 by (simp_all add: install_fields tame_def)
  have dat: "data (bufs ?s bp) \<noteq> None" "lmfs_dev (bufs ?s bp) \<noteq> NO_DEV P"
    using d3 assms(3) by (simp_all add: install_fields detached_def)
  obtain w where w: "disk w = disk (world s3)"
    "s' = set_data bp (Some (disk (world s3) dev block)) (?s\<lparr>world := w\<rparr>)"
    using fetch_reads [OF _ vm(1) dat p(4), of disk] assms(5) vm(2) by (auto simp: install_fields)
  have "uniq P ?s" using install_ok [OF d3 none] by (simp add: cache_ok_def)
  then have u': "uniq P s'" by (simp add: w(2) uniq_def)
  have u3: "uniq P s3" "bp < nr_bufs s3" using d3 by (simp_all add: detached_def)
  have c3: "coherent P disk s3" using v3 by (simp add: same_view_def)
  note inst = same_view_install [OF c3 u3(1) u' t(2) u3(2) assms(3) none]
  have "same_view P disk s3 s'" "view disk s' dev block = data (bufs s' bp)"
    by (rule inst; simp add: w install_fields)+
  moreover from this have "view disk s' dev block = view disk s dev block"
    using v3 assms(3) by (simp add: same_view_def)
  moreover have "lmfs_dev (bufs s' bp) = dev" by (simp add: w(2) install_fields)
  ultimately show ?thesis using same_view_trans [OF v3] by simp
qed

lemma get_block_cases:
  assumes "cache_ok P s" and "0 < fs_block_size s" and "dev \<noteq> NO_DEV P"
  obtains bp where "holds s dev block bp" and "lmfs_get_block P dev block m s = get_hit P bp s"
  | "\<And>i. \<not> holds s dev block i" and "lmfs_get_block P dev block m s = get_miss P dev block m s"
proof -
  have "0 < nr_bufs s" using assms(1) by (simp add: cache_ok_def)
  then show ?thesis
    using hash_lookup [OF assms(1,3), of block] that assms(2,3) by (auto simp: lmfs_get_block_def)
qed

lemma get_block_transparent:
  assumes "cache_ok P s" and "0 < fs_block_size s" and "dev \<noteq> NO_DEV P"
    and "device P disk (fs_block_size s)" and "coherent P disk s" and "\<not> vmcache s"
    and "lmfs_get_block P dev block NORMAL s = Inr (bp, s')"
  shows "same_view P disk s s' \<and> data (bufs s' bp) = view disk s dev block \<and>
    lmfs_dev (bufs s' bp) = dev"
  using get_block_cases [OF assms(1-3), of block NORMAL]
proof cases
  case (1 bp')
  have u: "uniq P s" using assms(1) by (simp add: cache_ok_def)
  obtain s1 where s1: "get_hit P bp' s = Inr (bp', s1)" "world s1 = world s"
    "nr_bufs s1 = nr_bufs s" "\<And>i. data (bufs s1 i) = data (bufs s i)"
    "\<And>i. lmfs_dev (bufs s1 i) = lmfs_dev (bufs s i)"
    "\<And>i. lmfs_blocknr (bufs s1 i) = lmfs_blocknr (bufs s i)"
    "\<And>i. lmfs_dirt (bufs s1 i) = lmfs_dirt (bufs s i)"
    using get_hit_ok [OF assms(1) 1(1) assms(3)] by metis
  with assms(7) 1(2) have [simp]: "bp' = bp" "s1 = s'" by simp_all
  have "same_view P disk s s'"
    using s1 by (intro same_view_frame [OF assms(5) u]) auto
  moreover have "data (bufs s' bp) = view disk s dev block"
    using view_held [OF u assms(3) 1(1), of disk] s1(4) by simp
  ultimately show ?thesis using 1(1) s1(5) by (simp add: holds_def)
next
  case 2
  with get_miss_transparent [OF assms(1-3) 2(1) assms(4-6)] assms(7) show ?thesis by simp
qed

section \<open>A device in memory\<close>

definition mem_env :: "(int, dev_id \<Rightarrow> blockno \<Rightarrow> int) cenv" where
  "mem_env =
     \<lparr>NO_DEV = 0, NO_BLOCK = 0, DEV_RAM = 256, MEMORY_MAJOR = 1, ONE_SHOT = 0x80,
      PARTIAL_DATA_BLOCK = 5, NR_IOREQS = 64, END_OF_FILE = -104,
      alloc_contig = (\<lambda>w n. (Some 0, w)), alloc_fails = (\<lambda>_. False),
      bdev_read = (\<lambda>w d pos c n. (int n, w d (ucast (pos div of_nat n)), w)),
      bdev_gather = (\<lambda>w d pos cs n.
        (int (length cs * n), map (\<lambda>i. w d (ucast (pos div of_nat n) + of_nat i)) [0..<length cs], w)),
      bdev_scatter = (\<lambda>w d pos cs n.
        (int (length cs * n), write_run w d (ucast (pos div of_nat n)) (map the cs))),
      vm_yield_block_get_block = (\<lambda>w y g c. (False, c, w)), vm_forgetblock = (\<lambda>w b. (True, w)),
      vm_forgetblocks = (\<lambda>w. w), vm_info_stats = (\<lambda>_. Some (25600, 4096)), sqrt_approx = (\<lambda>n. n),
      fs_blockstats = (\<lambda>_. (1000, 500)), fs_sync = Inr\<rparr>"

definition no_pool :: "(int, dev_id \<Rightarrow> blockno \<Rightarrow> int) cache" where
  "no_pool =
     \<lparr>bufs = (\<lambda>_. \<lparr>data = None, lmfs_next = None, lmfs_prev = None, lmfs_hash = None, lmfs_blocknr = 0,
       lmfs_count = 0, lmfs_dev = 0, lmfs_dirt = BP_CLEAN, lmfs_bytes = 0\<rparr>),
      buf_hash = (\<lambda>_. None), front = None, rear = None, bufs_in_use = 0, nr_bufs = 0,
      vmcache = False, may_use_vmcache = False, fs_block_size = 1024, rdwt_err = 0,
      dirtylistsize = 0, world = (\<lambda>d b. int d + uint b)\<rparr>"

definition pool6 :: "(int, dev_id \<Rightarrow> blockno \<Rightarrow> int) cache" where
  "pool6 = no_pool\<lparr>bufs := pool_buf mem_env 6, buf_hash := (\<lambda>h. if h = 0 then Some 0 else None),
     nr_bufs := 6, front := Some 0, rear := Some 5\<rparr>"

lemma pool6: "lmfs_buf_pool mem_env 6 no_pool = Inr pool6"
  by (simp add: lmfs_buf_pool_def MINBUFS_def mem_env_def no_pool_def pool6_def)

lemma pool6_ok: "cache_ok mem_env pool6"
  by (rule pool_ok(1) [OF _ pool6]) (simp add: mem_env_def)

lemma pool6_coherent: "coherent mem_env disk pool6"
  using pool_ok(3) [OF _ pool6] by (simp add: coherent_def mem_env_def)

lemma block_of_pos: "(ucast ((ucast (b :: 32 word) * 1024 :: 64 word) div 1024) :: 32 word) = b"
proof -
  have "(ucast b * 1024 :: 64 word) = push_bit 10 (ucast b)" by (simp add: push_bit_eq_mult)
  moreover have "w div 1024 = drop_bit 10 w" for w :: "64 word" by (simp add: drop_bit_eq_div)
  moreover have "(ucast (drop_bit 10 (push_bit 10 (ucast b :: 64 word))) :: 32 word) = b"
    by (rule bit_eqI) (auto simp: bit_simps)
  ultimately show ?thesis by simp
qed

lemma mem_device: "device mem_env (\<lambda>w. w) 1024"
  unfolding device_def by (auto simp: mem_env_def block_of_pos comp_def)

lemma mem_allocates: "allocates mem_env"
  by (simp add: allocates_def mem_env_def)

lemma pool6_simps:
  "nr_bufs pool6 = 6" "fs_block_size pool6 = 1024" "\<not> vmcache pool6" "front pool6 = Some 0"
  "NO_DEV mem_env = 0"
  by (simp_all add: pool6_def no_pool_def mem_env_def)

lemma pool6_free: "free_set pool6 \<noteq> {}"
proof -
  have "0 \<in> free_set pool6" by (simp add: free_set_def pool6_def pool_buf_def Let_def)
  then show ?thesis by blast
qed

lemma pool6_lru: "lru_list pool6 [0, 1, 2, 3, 4, 5]"
proof -
  have "lru_list pool6 [0..<nat 6]" by (rule pool_ok(4) [OF _ pool6]) (simp add: mem_env_def)
  moreover have "[0..<nat 6] = [0, 1, 2, 3, 4, 5]" by (simp add: upt_conv_Cons)
  ultimately show ?thesis by simp
qed

text \<open>The pool with block 6 of device 3 in its first buffer.\<close>

definition cached6 :: "(int, dev_id \<Rightarrow> blockno \<Rightarrow> int) cache" where
  "cached6 = upd 0 (\<lambda>b. b\<lparr>data := Some 9, lmfs_dev := 3, lmfs_blocknr := 6, lmfs_bytes := 1024\<rparr>) pool6"

lemma cached6_fields:
  "lmfs_count (bufs cached6 i) = 0" "nr_bufs cached6 = 6" "fs_block_size cached6 = 1024"
  "lmfs_dev (bufs cached6 i) = (if i = 0 then 3 else 0)"
  "lmfs_blocknr (bufs cached6 i) = (if i = 0 then 6 else 0)"
  "data (bufs cached6 i) = (if i = 0 then Some 9 else None)"
  "lmfs_bytes (bufs cached6 i) = (if i = 0 then 1024 else 0)"
  "nexts cached6 = nexts pool6" "prevs cached6 = prevs pool6" "hashes cached6 = hashes pool6"
  "front cached6 = front pool6" "rear cached6 = rear pool6" "buf_hash cached6 = buf_hash pool6"
  "bufs_in_use cached6 = bufs_in_use pool6"
  by (auto simp: cached6_def upd_def pool6_simps pool6_def no_pool_def pool_buf_def Let_def mem_env_def
      nexts_def prevs_def hashes_def)

lemma cached6_ok: "cache_ok mem_env cached6"
proof -
  have cnt: "lmfs_count (bufs pool6 i) = 0" "lmfs_blocknr (bufs pool6 i) = 0" for i
    by (simp_all add: pool6_def pool_buf_def Let_def mem_env_def)
  have free: "free_set cached6 = free_set pool6"
    by (auto simp: free_set_def cached6_fields pool6_simps cnt)
  have "BUFHASH cached6 (lmfs_blocknr (bufs cached6 i)) = BUFHASH pool6 (lmfs_blocknr (bufs pool6 i))" for i
    by (simp add: BUFHASH_def cached6_fields pool6_simps cnt)
  then have "hash_ok {} cached6"
    using pool6_ok by (simp add: cache_ok_def hash_ok_def cached6_fields pool6_simps)
  moreover have "lru_ok {} cached6" "use_ok {} cached6"
    using pool6_ok
    by (simp_all add: cache_ok_def lru_ok_def use_ok_def lru_list_def free cached6_fields pool6_simps)
  ultimately show ?thesis
    by (simp add: cache_ok_def bufs_ok_def buf_ok_def uniq_def cached6_fields pool6_simps)
qed

lemma cached6_holds: "holds cached6 3 6 0"
  by (simp add: holds_def cached6_fields)

lemma cached6_lru: "lru_list cached6 [0, 1, 2, 3, 4, 5]"
  using pool6_lru by (simp add: lru_list_def cached6_fields)

section \<open>The order of eviction\<close>

lemma put_block_fields:
  "data (bufs (lmfs_put_block P (Some b) bt s) i) = data (bufs s i)"
  "lmfs_dev (bufs (lmfs_put_block P (Some b) bt s) i) = lmfs_dev (bufs s i)"
  "lmfs_blocknr (bufs (lmfs_put_block P (Some b) bt s) i) = lmfs_blocknr (bufs s i)"
  "nr_bufs (lmfs_put_block P (Some b) bt s) = nr_bufs s"
  "fs_block_size (lmfs_put_block P (Some b) bt s) = fs_block_size s"
  "world (lmfs_put_block P (Some b) bt s) = world s"
  by (simp_all add: lmfs_put_block_def Let_def)

lemma lru_of_tame: "tame P s s' \<Longrightarrow> lru_list s' = lru_list s"
  by (intro lru_list_cong) (simp_all add: tame_def)

lemma miss_takes_front:
  assumes "cache_ok P s" and "0 < fs_block_size s" and "dev \<noteq> NO_DEV P" and "allocates P"
    and "lru_list s (v # xs)" and "\<And>i. \<not> holds s dev block i" and "\<nexists>n. m = Unexpected n"
  obtains s' where "get_miss P dev block m s = Inr (v, s')" and "lru_list s' xs"
proof -
  have front: "front s = Some v" using lru_list_head [OF assms(5)] by simp
  have "v \<in> set (v # xs)" "\<exists>ys. lru_list s ys \<and> set ys = free_set s"
    using assms(1) by (auto simp: cache_ok_def lru_ok_def)
  then have "free_set s \<noteq> {}" using lru_list_head [OF assms(5)] lru_list_head by fastforce
  then obtain s' where g: "get_miss P dev block m s = Inr (v, s')"
    using get_miss_ok [OF assms(1-3,6,7)] assms(4) front by auto
  then obtain s1 s2 y s3 where p: "take_oldest P s = Inr (v, s1)" "unhash v (rm_lru v s1) = Inr s2"
    "evict P v s2 = Inr (y, s3)" "fetch P v y (dev, block) m (install v dev block s3) = Inr s'"
    by (rule get_missE)
  have got: "got s v s1" using take_oldest_ok [OF assms(1,2)] p(1) by auto
  note go = got_ok [OF got assms(1)]
  have "lru_list s1 ([] @ v # xs)" using assms(5) go(10) by simp
  then have l1: "lru_list (rm_lru v s1) xs" using lru.order_unlink [of s1 "[]" v xs] by simp
  have v: "v \<in> free_set s1" "data (bufs s1 v) \<noteq> None" "lmfs_bytes (bufs s1 v) = fs_block_size s1"
    using got by (auto simp: got_def)
  have "hash_ok {} (rm_lru v s1)" using go(1) hash_ok_cong [of "rm_lru v s1" s1] by (simp add: cache_ok_def)
  then have "unhashed v (rm_lru v s1) s2"
    using unhash_ok [of "rm_lru v s1" v] p(2) v(1) by (auto simp: free_set_def)
  then have l2: "lru_list s2 xs" using l1 by (auto simp: unhashed_def lru_list_def)
  have det: "detached P v s2" using detach [OF go(1) v] p(2) by (metis sum.inject(2))
  then have t3: "tame P s2 s3" using evict_ok [OF det] p(3) by auto
  then have l3: "lru_list (install v dev block s3) xs"
    using l2 by (simp add: lru_of_tame [symmetric]) (simp add: lru_list_def install_fields)
  have "data (bufs (install v dev block s3) v) \<noteq> None"
    using detached_tame [OF t3 det] by (simp add: install_fields detached_def)
  then have "tame P (install v dev block s3) s'"
    using fetch_ok [of "install v dev block s3" v P m y "(dev, block)"] p(4) assms(3,7)
    by (auto simp: install_fields)
  with l3 have "lru_list s' xs" by (simp add: lru_of_tame)
  with g show ?thesis by (rule that)
qed

lemma use_moves_to_rear:
  assumes "cache_ok P s" and "dev \<noteq> NO_DEV P" and "holds s dev block b" and "lru_list s xs"
    and "b \<in> set xs" and "dev \<noteq> DEV_RAM P" and "bt AND ONE_SHOT P = 0"
  obtains s' where "get_hit P b s = Inr (b, s')"
    and "lru_list (lmfs_put_block P (Some b) bt s') (remove1 b xs @ [b])"
proof -
  obtain s' where s': "get_hit P b s = Inr (b, s')"
    using get_hit_ok [OF assms(1,3,2)] by metis
  obtain ys where ys: "lru_list s ys" "set ys = free_set s"
    using assms(1) by (auto simp: cache_ok_def lru_ok_def)
  have "ys = xs" using ys(1) assms(4) by (auto simp: lru_list_def dll_def dest: chain_unique)
  then have cnt: "lmfs_count (bufs s b) = 0" using ys(2) assms(5) by (auto simp: free_set_def)
  have s1: "s' = set_count b 1 (rm_lru b s)"
    using s' cnt by (simp add: get_hit_def Let_def split: if_splits)
  let ?s = "(set_count b 0 s')\<lparr>bufs_in_use := bufs_in_use s' - 1\<rparr>"
  have "lru_list (rm_lru b s) (remove1 b xs)" using assms(4,5) by (rule lru.order_remove1)
  then have "lru_list ?s (remove1 b xs)" by (simp add: s1 lru_list_def)
  moreover have "b \<notin> set (remove1 b xs)" using lru_list_distinct [OF assms(4)] by simp
  ultimately have "lru_list (link_rear b ?s) (remove1 b xs @ [b])" by (rule lru.order_rear)
  moreover have "lmfs_put_block P (Some b) bt s' = link_rear b ?s"
    using assms(3,6,7) by (simp add: lmfs_put_block_def Let_def s1 holds_def)
  ultimately show ?thesis using s' that by simp
qed

section \<open>Properties\<close>

text \<open>
  C11. The cache is transparent. On a well-formed, coherent cache over a working device,
  with the second-level cache off, a normal \<open>lmfs_get_block\<close> that returns gives a buffer
  with exactly the contents the block had before the call (in the cache or on the device),
  names the block in it, and leaves the contents of every block of every device as they
  were, whatever had to be evicted and written back; the cache stays coherent.
\<close>

theorem lmfs_get_block_transparent:
  assumes "cache_ok P s" and "0 < fs_block_size s" and "dev \<noteq> NO_DEV P"
    and "device P disk (fs_block_size s)" and "coherent P disk s" and "\<not> vmcache s"
    and "lmfs_get_block P dev block NORMAL s = Inr (bp, s')"
  shows "data (bufs s' bp) = view disk s dev block \<and> holds s' dev block bp \<and>
    coherent P disk s' \<and> (\<forall>d b. d \<noteq> NO_DEV P \<longrightarrow> view disk s' d b = view disk s d b)"
proof -
  have "got_block P dev block s bp s'"
    using get_block_ok [OF assms(1-3), of NORMAL block] assms(7) by auto
  with get_block_transparent [OF assms] show ?thesis
    by (simp add: same_view_def got_block_def holds_def)
qed

theorem lmfs_get_block_transparent_witness:
  "\<exists>bp s'. lmfs_get_block mem_env 3 7 NORMAL pool6 = Inr (bp, s') \<and> data (bufs s' bp) = Some 10"
proof -
  have nz: "(3 :: dev_id) \<noteq> NO_DEV mem_env" by (simp add: mem_env_def)
  note pool6_free
  then obtain bp s' where g: "lmfs_get_block mem_env 3 7 NORMAL pool6 = Inr (bp, s')"
    using get_block_ok [OF pool6_ok _ nz, of NORMAL 7] mem_allocates by (auto simp: pool6_simps)
  have "\<not> holds pool6 3 7 i" for i
    by (simp add: holds_def pool6_def pool_buf_def Let_def mem_env_def)
  then have "view (\<lambda>w. w) pool6 3 7 = Some 10"
    by (simp add: view_absent) (simp add: pool6_def no_pool_def)
  with lmfs_get_block_transparent [OF pool6_ok _ nz _ pool6_coherent _ g, of "\<lambda>w. w"] g
  show ?thesis by (auto simp: pool6_simps mem_device)
qed

text \<open>
  C13. Getting a block keeps the cache well formed and cannot get lost. From a well-formed
  cache, \<open>lmfs_get_block\<close> with a valid mode either panics, and only when every buffer is in
  use or memory runs out, or returns a buffer in use, with memory and the block number, one
  use more than before and no other use count changed, in a well-formed cache: no assertion
  fails, no null pointer is followed, no chain is walked forever.
\<close>

theorem lmfs_get_block_keeps_invariant:
  assumes "cache_ok P s" and "0 < fs_block_size s" and "dev \<noteq> NO_DEV P"
    and "mode \<in> {NORMAL, NO_READ, PREFETCH}"
  shows "lmfs_get_block P dev block mode s = Inl Panic \<and> (free_set s = {} \<or> \<not> allocates P) \<or>
    (\<exists>bp s'. lmfs_get_block P dev block mode s = Inr (bp, s') \<and> cache_ok P s' \<and>
       bp < nr_bufs s' \<and> data (bufs s' bp) \<noteq> None \<and> lmfs_blocknr (bufs s' bp) = block \<and>
       (\<forall>i. lmfs_count (bufs s' i) = lmfs_count (bufs s i) + (if i = bp then 1 else 0)))"
proof -
  have "\<nexists>n. mode = Unexpected n" using assms(4) by auto
  from get_block_ok [OF assms(1-3) this, of block] show ?thesis by (auto simp: got_block_def)
qed

theorem lmfs_get_block_keeps_invariant_witness:
  "\<exists>bp s'. lmfs_get_block mem_env 3 7 NO_READ pool6 = Inr (bp, s') \<and> cache_ok mem_env s'"
proof -
  note pool6_free
  then show ?thesis
    using lmfs_get_block_keeps_invariant [OF pool6_ok, of 3 NO_READ 7] mem_allocates
    by (auto simp: pool6_simps)
qed

text \<open>
  C14. Releasing a block keeps the cache well formed: every buffer in use can be put back,
  whatever its type.
\<close>

theorem lmfs_put_block_keeps_invariant:
  assumes "cache_ok P s" and "b < nr_bufs s" and "0 < lmfs_count (bufs s b)"
  shows "cache_ok P (lmfs_put_block P (Some b) block_type s)"
  using assms by (rule put_block_ok)

theorem lmfs_put_block_keeps_invariant_witness:
  "\<exists>bp s'. lmfs_get_block mem_env 3 7 NO_READ pool6 = Inr (bp, s') \<and>
     cache_ok mem_env (lmfs_put_block mem_env (Some bp) 5 s')"
proof -
  note pool6_free
  then obtain bp s' where g: "lmfs_get_block mem_env 3 7 NO_READ pool6 = Inr (bp, s')"
    "got_block mem_env 3 7 pool6 bp s'"
    using get_block_ok [OF pool6_ok, of 3 NO_READ 7] mem_allocates by (auto simp: pool6_simps)
  have "lmfs_count (bufs pool6 bp) = 0" by (simp add: pool6_def pool_buf_def Let_def)
  with g(2) have "cache_ok mem_env s'" "bp < nr_bufs s'" "0 < lmfs_count (bufs s' bp)"
    by (auto simp: got_block_def)
  from lmfs_put_block_keeps_invariant [OF this, of 5] g(1) show ?thesis by blast
qed

text \<open>
  A fresh pool is well formed. When \<open>lmfs_buf_pool\<close> returns, every buffer is free,
  unnamed and on the LRU chain in index order, and the cache satisfies its invariant. It
  relies on \<open>NO_BLOCK\<close> being 0, since the one hash chain it builds is the chain 0.
\<close>

theorem lmfs_buf_pool_establishes_invariant:
  assumes "NO_BLOCK P = 0" and "lmfs_buf_pool P n s = Inr s'"
  shows "cache_ok P s' \<and> nr_bufs s' = nat n \<and> lru_list s' [0..<nat n] \<and>
    (\<forall>i. lmfs_dev (bufs s' i) = NO_DEV P)"
  using pool_ok [OF assms] by simp

theorem lmfs_buf_pool_establishes_invariant_witness:
  "lmfs_buf_pool mem_env 6 no_pool = Inr pool6 \<and> cache_ok mem_env pool6"
  using lmfs_buf_pool_establishes_invariant [OF _ pool6] pool6 by (simp add: mem_env_def)

text \<open>
  A released block is found again. A block in use that is put back and asked for again,
  with any type and any mode, comes back in the same buffer with the same contents, without
  any input or output.
\<close>

theorem lmfs_put_then_get_hits:
  assumes "cache_ok P s" and "0 < fs_block_size s" and "dev \<noteq> NO_DEV P"
    and "holds s dev block bp" and "0 < lmfs_count (bufs s bp)"
  shows "\<exists>s'. lmfs_get_block P dev block mode (lmfs_put_block P (Some bp) block_type s) = Inr (bp, s') \<and>
    data (bufs s' bp) = data (bufs s bp) \<and> world s' = world s \<and> cache_ok P s'"
proof -
  let ?s = "lmfs_put_block P (Some bp) block_type s"
  have ok: "cache_ok P ?s" using assms(1,4,5) by (intro put_block_ok) (simp_all add: holds_def)
  have h: "holds ?s dev block bp" using assms(4) by (simp add: holds_def put_block_fields)
  have u: "uniq P ?s" using ok by (simp add: cache_ok_def)
  have "0 < fs_block_size ?s" using assms(2) by (simp add: put_block_fields)
  then have "lmfs_get_block P dev block mode ?s = get_hit P bp ?s"
    using get_block_cases [OF ok _ assms(3), of block mode] holds_unique [OF u assms(3) h] h by metis
  then show ?thesis
    using get_hit_ok [OF ok h assms(3)] by (metis put_block_fields(1,6))
qed

theorem lmfs_put_then_get_hits_witness:
  "\<exists>s1 s2. lmfs_get_block mem_env 3 6 NORMAL cached6 = Inr (0, s1) \<and>
     lmfs_get_block mem_env 3 6 NORMAL (lmfs_put_block mem_env (Some 0) 5 s1) = Inr (0, s2)"
proof -
  have nz: "(3 :: dev_id) \<noteq> NO_DEV mem_env" by (simp add: mem_env_def)
  obtain s1 where s1: "get_hit mem_env 0 cached6 = Inr (0, s1)" "cache_ok mem_env s1"
    "nr_bufs s1 = nr_bufs cached6" "fs_block_size s1 = fs_block_size cached6"
    "\<And>i. lmfs_count (bufs s1 i) = lmfs_count (bufs cached6 i) + (if i = 0 then 1 else 0)"
    "\<And>i. lmfs_dev (bufs s1 i) = lmfs_dev (bufs cached6 i)"
    "\<And>i. lmfs_blocknr (bufs s1 i) = lmfs_blocknr (bufs cached6 i)"
    using get_hit_ok [OF cached6_ok cached6_holds nz] by metis
  have "uniq mem_env cached6" using cached6_ok by (simp add: cache_ok_def)
  then have "lmfs_get_block mem_env 3 6 NORMAL cached6 = Inr (0, s1)"
    using get_block_cases [OF cached6_ok _ nz, of 6 NORMAL] holds_unique [OF _ nz cached6_holds]
      cached6_holds s1(1) by (metis cached6_fields(3) zero_less_numeral)
  moreover have "holds s1 3 6 0" "0 < fs_block_size s1" "0 < lmfs_count (bufs s1 0)"
    by (simp_all add: holds_def s1 cached6_fields)
  ultimately show ?thesis
    using lmfs_put_then_get_hits [OF s1(2) _ nz, of 6 0 NORMAL 5] by blast
qed

text \<open>
  Eviction takes the front of the chain. With memory available, a miss takes exactly
  the buffer at the front of the LRU chain and leaves the rest of the chain in order.
\<close>

theorem lmfs_miss_evicts_front:
  assumes "cache_ok P s" and "0 < fs_block_size s" and "dev \<noteq> NO_DEV P" and "allocates P"
    and "lru_list s (v # xs)" and "\<forall>i. \<not> holds s dev block i"
    and "mode \<in> {NORMAL, NO_READ, PREFETCH}"
  shows "\<exists>s'. lmfs_get_block P dev block mode s = Inr (v, s') \<and> lru_list s' xs"
proof -
  have miss: "\<And>i. \<not> holds s dev block i" using assms(6) by blast
  have "\<nexists>n. mode = Unexpected n" using assms(7) by auto
  from miss_takes_front [OF assms(1-5) miss this] obtain s' where
    "get_miss P dev block mode s = Inr (v, s')" "lru_list s' xs" by metis
  moreover have "lmfs_get_block P dev block mode s = get_miss P dev block mode s"
    using get_block_cases [OF assms(1-3), of block mode] miss by metis
  ultimately show ?thesis by simp
qed

theorem lmfs_miss_evicts_front_witness:
  "\<exists>s'. lmfs_get_block mem_env 3 7 NORMAL pool6 = Inr (0, s') \<and> lru_list s' [1, 2, 3, 4, 5]"
proof -
  note pool6_lru
  moreover have "\<forall>i. \<not> holds pool6 3 7 i"
    by (simp add: holds_def pool6_def pool_buf_def Let_def mem_env_def)
  ultimately show ?thesis
    using lmfs_miss_evicts_front [OF pool6_ok _ _ mem_allocates, of 3 0 "[1, 2, 3, 4, 5]" 7 NORMAL]
    by (simp add: pool6_simps)
qed

text \<open>
  Using a block makes it the most recently used. Getting a cached free block and putting
  it back (not on the RAM device, not one-shot) moves its buffer to the rear of the LRU
  chain and keeps the order of the others, so together with the eviction from the front the
  buffer evicted is always the one not used for the longest time.
\<close>

theorem lmfs_use_moves_to_rear:
  assumes "cache_ok P s" and "0 < fs_block_size s" and "dev \<noteq> NO_DEV P" and "holds s dev block b"
    and "lru_list s xs" and "b \<in> set xs" and "dev \<noteq> DEV_RAM P" and "block_type AND ONE_SHOT P = 0"
  shows "\<exists>s'. lmfs_get_block P dev block mode s = Inr (b, s') \<and>
    lru_list (lmfs_put_block P (Some b) block_type s') (remove1 b xs @ [b])"
proof -
  have "uniq P s" using assms(1) by (simp add: cache_ok_def)
  then have "lmfs_get_block P dev block mode s = get_hit P b s"
    using get_block_cases [OF assms(1-3), of block mode] holds_unique [OF _ assms(3,4)] assms(4) by metis
  with use_moves_to_rear [OF assms(1,3-8)] show ?thesis by metis
qed

theorem lmfs_use_moves_to_rear_witness:
  "\<exists>s'. lmfs_get_block mem_env 3 6 NORMAL cached6 = Inr (0, s') \<and>
     lru_list (lmfs_put_block mem_env (Some 0) 5 s') [1, 2, 3, 4, 5, 0]"
  using lmfs_use_moves_to_rear [OF cached6_ok _ _ cached6_holds cached6_lru, of 5 NORMAL]
  by (simp add: cached6_fields mem_env_def)

end
