(* ===== verification/Cache_Flush.thy ===== *)
theory Cache_Flush
  imports Cache_Props
begin

unbundle bit_operations_syntax

text \<open>
  Properties of the block cache beyond single blocks: flushing, the sort of scattered
  requests, invalidation, and the size heuristic.
\<close>

section \<open>Flushing all devices\<close>

lemma flushall_ok:
  assumes "cache_ok P s" and "coherent P disk s" and "device P disk (fs_block_size s)"
    and "0 < fs_block_size s" and "allocates P" and "dev \<noteq> NO_DEV P"
  obtains s' where "flushall P dev s = Inr s'" and "cache_ok P s'" and "same_view P disk s s'"
    and "flushed disk dev s s'"
proof -
  obtain s' where s': "flushall P dev s = Inr s'" using flushall_returns [OF assms(5)] by blast
  have inv: "uniq P s" "bufs_ok P s" using assms(1) by (simp_all add: cache_ok_def)
  have f: "flushed disk dev s s'"
    by (rule flushall_flushes [OF assms(3,4) inv(2,1) assms(6) s'])
  show ?thesis
    using that [OF s' tame_cache_ok [OF tame_flushall [OF s'] assms(1)]
        same_view_flush [OF f assms(2) inv assms(6)] f] .
qed

definition all_clean :: "('c, 'w) cenv \<Rightarrow> nat list \<Rightarrow> ('c, 'w) cache \<Rightarrow> bool" where
  "all_clean P is s \<longleftrightarrow>
     (\<forall>i \<in> set is. i < nr_bufs s \<and> lmfs_dev (bufs s i) \<noteq> NO_DEV P \<longrightarrow> lmfs_dirt (bufs s i) = BP_CLEAN)"

lemma flush_each_ok:
  assumes "cache_ok P s" and "coherent P disk s" and "device P disk (fs_block_size s)"
    and "0 < fs_block_size s" and "allocates P" and "set is \<subseteq> {..<nr_bufs s}"
  shows "\<exists>s'. flush_each P is s = Inr s' \<and> cache_ok P s' \<and> same_view P disk s s' \<and>
    nr_bufs s' = nr_bufs s \<and> all_clean P is s' \<and>
    (\<forall>i. lmfs_dev (bufs s' i) = lmfs_dev (bufs s i) \<and>
         (lmfs_dirt (bufs s i) = BP_CLEAN \<longrightarrow> lmfs_dirt (bufs s' i) = BP_CLEAN))"
  using assms
proof (induction "is" arbitrary: s)
  case Nil
  then show ?case by (simp add: same_view_def all_clean_def)
next
  case (Cons i "is")
  show ?case
  proof (cases "lmfs_dev (bufs s i) \<noteq> NO_DEV P \<and> lmfs_dirt (bufs s i) = BP_DIRTY")
    case True
    let ?d = "lmfs_dev (bufs s i)"
    obtain s1 where s1: "flushall P ?d s = Inr s1" "cache_ok P s1" "same_view P disk s s1"
      "flushed disk ?d s s1"
      using flushall_ok [OF Cons.prems(1-5)] True by metis
    have f: "nr_bufs s1 = nr_bufs s" "fs_block_size s1 = fs_block_size s"
      "\<And>i. lmfs_dev (bufs s1 i) = lmfs_dev (bufs s i)"
      "\<And>i. lmfs_dirt (bufs s i) = BP_CLEAN \<Longrightarrow> lmfs_dirt (bufs s1 i) = BP_CLEAN"
      using s1(4) by (auto simp: flushed_def)
    have "i \<in> set (dirty_list ?d s)" using True Cons.prems(6) by (simp add: dirty_list_iff)
    then have clean: "lmfs_dirt (bufs s1 i) = BP_CLEAN" using s1(4) by (auto simp: flushed_def)
    have "\<exists>s'. flush_each P is s1 = Inr s' \<and> cache_ok P s' \<and> same_view P disk s1 s' \<and>
        nr_bufs s' = nr_bufs s1 \<and> all_clean P is s' \<and>
        (\<forall>i. lmfs_dev (bufs s' i) = lmfs_dev (bufs s1 i) \<and>
             (lmfs_dirt (bufs s1 i) = BP_CLEAN \<longrightarrow> lmfs_dirt (bufs s' i) = BP_CLEAN))"
      using s1(2,3) Cons.prems f(1,2) by (intro Cons.IH) (auto simp: same_view_def)
    then obtain s' where s': "flush_each P is s1 = Inr s'" "cache_ok P s'" "same_view P disk s1 s'"
      "nr_bufs s' = nr_bufs s1" "all_clean P is s'"
      "\<And>i. lmfs_dev (bufs s' i) = lmfs_dev (bufs s1 i)"
      "\<And>i. lmfs_dirt (bufs s1 i) = BP_CLEAN \<Longrightarrow> lmfs_dirt (bufs s' i) = BP_CLEAN"
      by blast
    have "flush_each P (i # is) s = Inr s'" using True s1(1) s'(1) by simp
    moreover have "all_clean P (i # is) s'" using s'(5) s'(7) [OF clean] by (simp add: all_clean_def)
    moreover have "same_view P disk s s'" using s1(3) s'(3) by (rule same_view_trans)
    ultimately show ?thesis using s'(2,4,6,7) f by auto
  next
    case False
    then have "flush_each P (i # is) s = flush_each P is s" by auto
    moreover obtain s' where s': "flush_each P is s = Inr s'" "cache_ok P s'" "same_view P disk s s'"
      "nr_bufs s' = nr_bufs s" "all_clean P is s'"
      "\<And>i. lmfs_dev (bufs s' i) = lmfs_dev (bufs s i)"
      "\<And>i. lmfs_dirt (bufs s i) = BP_CLEAN \<Longrightarrow> lmfs_dirt (bufs s' i) = BP_CLEAN"
      using Cons.IH [OF Cons.prems(1-5)] Cons.prems(6) by auto
    moreover have "all_clean P (i # is) s'"
      using False s'(5,6,7) by (cases "lmfs_dirt (bufs s i)") (auto simp: all_clean_def)
    ultimately show ?thesis by auto
  qed
qed

section \<open>Properties\<close>

text \<open>
  C12. Flushing puts everything on the devices. On a well-formed, coherent cache over working
  devices \<open>lmfs_flushall\<close> returns, keeps the cache well formed and coherent and the contents
  of every block unchanged, leaves no named buffer dirty, and afterwards every device holds
  exactly what the cache shows of its blocks.
\<close>

theorem lmfs_flushall_writes_everything:
  assumes "cache_ok P s" and "coherent P disk s" and "device P disk (fs_block_size s)"
    and "0 < fs_block_size s" and "allocates P"
  shows "\<exists>s'. lmfs_flushall P s = Inr s' \<and> cache_ok P s' \<and> coherent P disk s' \<and>
    (\<forall>i < nr_bufs s'. lmfs_dev (bufs s' i) \<noteq> NO_DEV P \<longrightarrow> lmfs_isclean i s') \<and>
    (\<forall>d b. d \<noteq> NO_DEV P \<longrightarrow> view disk s' d b = view disk s d b \<and>
       view disk s d b = Some (disk (world s') d b))"
proof -
  obtain s' where s': "flush_each P [0..<nr_bufs s] s = Inr s'" "cache_ok P s'" "same_view P disk s s'"
    "nr_bufs s' = nr_bufs s" "all_clean P [0..<nr_bufs s] s'"
    using flush_each_ok [OF assms, of "[0..<nr_bufs s]"] by (metis atLeast_upt order_refl)
  have clean: "lmfs_dirt (bufs s' i) = BP_CLEAN" if "i < nr_bufs s'" "lmfs_dev (bufs s' i) \<noteq> NO_DEV P" for i
    using s'(4,5) that by (simp add: all_clean_def)
  have co: "coherent P disk s'" using s'(3) by (simp add: same_view_def)
  have u: "uniq P s'" using s'(2) by (simp add: cache_ok_def)
  have "view disk s' d b = Some (disk (world s') d b)" if d: "d \<noteq> NO_DEV P" for d b
  proof (cases "\<exists>i. holds s' d b i")
    case True
    then obtain i where i: "holds s' d b i" by blast
    then have "data (bufs s' i) = Some (disk (world s') d b)"
      using co clean [of i] d by (auto simp: coherent_def holds_def)
    then show ?thesis using view_held [OF u d i] by simp
  next
    case False
    then show ?thesis by (simp add: view_absent)
  qed
  then show ?thesis
    using s' co clean by (auto simp: lmfs_flushall_def lmfs_isclean_def same_view_def)
qed

theorem lmfs_flushall_writes_everything_witness:
  "\<exists>s'. lmfs_flushall mem_env (cached6\<lparr>world := (\<lambda>d b. 9)\<rparr>) = Inr s' \<and>
     Some (world s' 3 6) = view (\<lambda>w. w) (cached6\<lparr>world := (\<lambda>d b. 9)\<rparr>) 3 6"
proof -
  let ?s = "cached6\<lparr>world := (\<lambda>d b. 9)\<rparr>"
  have "cache_ok mem_env ?s" using tame_cache_ok [OF tame_steps(3) cached6_ok] .
  moreover have "coherent mem_env (\<lambda>w. w) ?s"
    by (auto simp: coherent_def cached6_fields pool6_simps)
  moreover have "fs_block_size ?s = 1024" by (simp add: cached6_fields)
  ultimately show ?thesis
    using lmfs_flushall_writes_everything [of mem_env ?s "\<lambda>w. w"] mem_device mem_allocates
    by (auto simp: pool6_simps)
qed

text \<open>
  C15. The scatter sort sorts. The Shell sort of \<open>lmfs_rw_scattered\<close> returns a permutation
  of the queue in ascending order of the key, for every queue and every key.
\<close>

theorem shell_sort_sorts:
  "sorted (map key (shell_sort key q)) \<and> mset (shell_sort key q) = mset q"
  by (simp add: sorted_shell_sort mset_shell_sort)

text \<open>
  Invalidating forgets one device. After \<open>lmfs_invalidate\<close> no buffer is marked with
  the device, the other buffers keep their blocks and contents, and the cache is still well
  formed.
\<close>

theorem lmfs_invalidate_forgets_device:
  assumes "cache_ok P s" and "dev \<noteq> NO_DEV P"
  shows "cache_ok P (lmfs_invalidate P dev s) \<and> (\<forall>b i. \<not> holds (lmfs_invalidate P dev s) dev b i) \<and>
    (\<forall>d b i. d \<noteq> dev \<and> d \<noteq> NO_DEV P \<longrightarrow> holds (lmfs_invalidate P dev s) d b i = holds s d b i) \<and>
    (\<forall>i. data (bufs (lmfs_invalidate P dev s) i) = data (bufs s i))"
proof -
  have "tame P s (lmfs_invalidate P dev s)"
    by (auto simp: tame_def buf_tame_def lmfs_invalidate_def nexts_def prevs_def hashes_def)
  then have "cache_ok P (lmfs_invalidate P dev s)" using assms(1) by (rule tame_cache_ok)
  with assms(2) show ?thesis by (auto simp: lmfs_invalidate_def holds_def)
qed

theorem lmfs_invalidate_forgets_device_witness:
  "cache_ok mem_env (lmfs_invalidate mem_env 3 cached6) \<and> \<not> holds (lmfs_invalidate mem_env 3 cached6) 3 6 0"
  using lmfs_invalidate_forgets_device [OF cached6_ok, of 3] by (simp add: pool6_simps)

text \<open>
  The cache size is bounded. Off the memory device and with VM statistics, the
  heuristic returns at least \<open>minbufs\<close> (as a signed number), and any number beyond it
  fits in a tenth of the free memory and in half of the file system, in spite of the
  wrap-around of the 32-bit product.
\<close>

theorem fs_bufs_heuristic_bounds:
  assumes "majordev \<noteq> MEMORY_MAJOR P" and "vm_info_stats P w = Some (vsi_free, pagesize)"
    and "blocksize \<noteq> 0"
  shows "\<exists>n. fs_bufs_heuristic P w minbufs btotal bfree blocksize majordev = Inr n \<and>
    sint minbufs \<le> sint n \<and>
    (n \<noteq> minbufs \<longrightarrow>
       uint n * uint blocksize \<le> 1024 * (uint (kbytes_of vsi_free pagesize) div 10) \<and>
       uint n * uint blocksize \<le> 1024 * (uint (kbytes_of btotal blocksize) div 2))"
proof -
  define kb where "kb = min (kbytes_of vsi_free pagesize div 10)
    (min (sqrt_approx P (kbytes_of (btotal - bfree) blocksize) * 40) (kbytes_of btotal blocksize div 2))"
  let ?n = "kb * 1024 div blocksize"
  have "uint (kb * 1024) \<le> uint kb * 1024"
    by (simp add: uint_word_ariths zmod_le_nonneg_dividend)
  moreover have "0 < uint blocksize"
    using assms(3) uint_ge_0 [of blocksize] by (simp add: order_less_le uint_0_iff)
  then have "uint ?n * uint blocksize \<le> uint (kb * 1024)"
    using pos_mod_sign [of "uint blocksize" "uint (kb * 1024)"] by (simp add: uint_div minus_mod_eq_div_mult [symmetric])
  ultimately have "uint ?n * uint blocksize \<le> 1024 * uint kb" by linarith
  moreover have "uint kb \<le> uint (kbytes_of vsi_free pagesize) div 10"
    "uint kb \<le> uint (kbytes_of btotal blocksize) div 2"
    by (auto simp: kb_def min_def word_le_def uint_div)
  ultimately show ?thesis
    using assms
    by (auto simp: fs_bufs_heuristic_def Let_def kb_def [symmetric] word_sless_alt)
qed

theorem fs_bufs_heuristic_bounds_witness:
  "\<exists>n. fs_bufs_heuristic mem_env (\<lambda>_ _. 0) 10 1000 500 1024 2 = Inr n \<and> 10 \<le> sint n"
  using fs_bufs_heuristic_bounds [of 2 mem_env "\<lambda>_ _. 0" 25600 4096 1024 10 1000 500]
  by (auto simp: mem_env_def)

end
