(* ===== verification/Region.thy ===== *)
theory Region
  imports Prelude "HOL-Library.Word"
begin

unbundle bit_operations_syntax

text \<open>
  The memory regions of the Minix VM server (\<open>Lab/Lab 8/src/region.c\<close>): state, slots, lookups
  and the search for free address ranges. \<open>Region_Map\<close> and \<open>Region_Yield\<close> go on with the
  operations on regions and with the yielded blocks.

  Regions, physical blocks and yielded blocks are objects with a number. A \<open>phys_region\<close> is
  the entry of a slot of its region and is named by the region and the offset: the pointer
  \<open>ph\<close> of the code is the entry at that offset. The tree code is not in the repository and is a
  parameter (search, insertion, removal, traversal in order); an iterator is the region it
  points to, and moving it is a search from that region's address. The reference counting of
  physical blocks (\<open>pb.c\<close>), the hooks of the memory types, page tables and allocators are
  parameters that act on the state, and so are the constants of headers the repository lacks.

  Addresses and lengths (\<open>vir_bytes\<close>) are 32-bit unsigned values: natural numbers with the
  wrap-around written out, \<open>wadd\<close> and \<open>wsub\<close>. A failed assertion, a panic, and a loop
  that would not end stop the computation. The loop that walks down the regions carries fuel:
  every step moves to a smaller address, so the address it starts from bounds it. The checks
  compiled only with SANITYCHECKS are in \<open>Region_Sanity\<close>; printing is left out.
\<close>

section \<open>State\<close>

datatype vm_stop = VM_assert | VM_panic | VM_endless

definition VSPACE :: nat where "VSPACE = 4294967296"

definition wadd :: "nat \<Rightarrow> nat \<Rightarrow> nat" where
  "wadd a b = (a + b) mod VSPACE"

definition wsub :: "nat \<Rightarrow> nat \<Rightarrow> nat" where
  "wsub a b = (a + VSPACE - b) mod VSPACE"

datatype avl_cmp = AVL_EQUAL | AVL_LESS | AVL_GREATER | AVL_LESS_EQUAL | AVL_GREATER_EQUAL

record phys_region =
  ph :: nat
  pr_offset :: nat

record phys_block =
  phys :: nat
  refcount :: nat

record vir_region =
  vaddr :: nat
  vlength :: nat
  vflags :: "32 word"
  memtype :: nat
  remaps :: int
  vr_id :: "32 word"
  physblocks :: "phys_region option list"
  parent :: nat

record block_id =
  owner :: int
  bid :: "64 word"

record yielded =
  yid :: block_id
  physaddr :: nat
  pages :: int
  younger :: "nat option"
  older :: "nat option"

record 't vmproc =
  vm_endpoint :: int
  vm_regions_avl :: 't
  vm_region_top :: nat
  vm_yielded :: int

text \<open>
  \<open>freed_regions\<close> and \<open>freed_yielded\<close> are the objects given back with \<open>SLABFREE\<close>; numbers are
  not used again.
\<close>

record ('t, 'y, 'w) vm =
  vmprocs :: "nat \<Rightarrow> 't vmproc"
  regions :: "nat \<Rightarrow> vir_region"
  next_region :: nat
  freed_regions :: "nat set"
  region_ids :: "32 word"
  pblocks :: "nat \<Rightarrow> phys_block"
  yblocks :: "nat \<Rightarrow> yielded"
  next_yielded :: nat
  freed_yielded :: "nat set"
  vm_yielded_blocks :: "nat \<Rightarrow> 'y"
  avl_inited :: bool
  lru_youngest :: "nat option"
  lru_oldest :: "nat option"
  vm_world :: 'w

record ('t, 'y, 'w) vmenv =
  VM_PAGE_SIZE :: nat
  VM_DATATOP :: nat
  MAP_NONE :: nat
  VM_PROC_NR :: int
  VM_BLOCKID_NONE :: "64 word"
  VR_WRITABLE :: "32 word"
  VR_SHARED :: "32 word"
  VR_DIRECT :: "32 word"
  VR_ANON :: "32 word"
  VR_UNINITIALIZED :: "32 word"
  VR_PHYS64K :: "32 word"
  VR_LOWER16MB :: "32 word"
  VR_LOWER1MB :: "32 word"
  VR_CONTIG :: "32 word"
  PAF_ALIGN64K :: "32 word"
  PAF_LOWER16MB :: "32 word"
  PAF_LOWER1MB :: "32 word"
  PAF_CONTIG :: "32 word"
  PAF_CLEAR :: "32 word"
  PROT_WRITE :: "32 word"
  PTF_WRITE :: "32 word"
  PTF_READ :: "32 word"
  PTF_PRESENT :: "32 word"
  PTF_USER :: "32 word"
  MF_PREALLOC :: "32 word"
  kernel_bytes :: nat
  vm_bytes :: nat
  region_search :: "'t \<Rightarrow> nat \<Rightarrow> avl_cmp \<Rightarrow> nat option"
  region_search_root :: "'t \<Rightarrow> nat option"
  region_inorder :: "'t \<Rightarrow> nat list"
  region_insert :: "'t \<Rightarrow> nat \<Rightarrow> nat \<Rightarrow> 't"
  region_remove :: "'t \<Rightarrow> nat \<Rightarrow> 't"
  region_init :: 't
  yielded_search :: "'y \<Rightarrow> block_id \<Rightarrow> nat option"
  yielded_inorder :: "'y \<Rightarrow> nat list"
  yielded_insert :: "'y \<Rightarrow> block_id \<Rightarrow> nat \<Rightarrow> 'y"
  yielded_remove :: "'y \<Rightarrow> block_id \<Rightarrow> 'y \<times> nat option"
  yielded_init :: 'y
  hash_i_64 :: "int \<Rightarrow> 64 word \<Rightarrow> nat"
  cmp64 :: "64 word \<Rightarrow> 64 word \<Rightarrow> int"
  make64 :: "32 word \<Rightarrow> 32 word \<Rightarrow> 64 word"
  ABS2CLICK :: "nat \<Rightarrow> nat"
  CLICK2ABS :: "nat \<Rightarrow> nat"
  slab_fails :: "('t, 'y, 'w) vm \<Rightarrow> bool"
  calloc_fails :: "nat \<Rightarrow> ('t, 'y, 'w) vm \<Rightarrow> bool"
  realloc_fails :: "nat \<Rightarrow> ('t, 'y, 'w) vm \<Rightarrow> bool"
  vm_isokendpt :: "int \<Rightarrow> ('t, 'y, 'w) vm \<Rightarrow> nat option"
  alloc_mem :: "int \<Rightarrow> 32 word \<Rightarrow> ('t, 'y, 'w) vm \<Rightarrow> nat option \<times> ('t, 'y, 'w) vm"
  free_mem :: "nat \<Rightarrow> int \<Rightarrow> ('t, 'y, 'w) vm \<Rightarrow> ('t, 'y, 'w) vm"
  pb_new :: "nat \<Rightarrow> ('t, 'y, 'w) vm \<Rightarrow> nat option \<times> ('t, 'y, 'w) vm"
  pb_free :: "nat \<Rightarrow> ('t, 'y, 'w) vm \<Rightarrow> ('t, 'y, 'w) vm"
  pb_reference :: "nat \<Rightarrow> nat \<Rightarrow> nat \<Rightarrow> ('t, 'y, 'w) vm \<Rightarrow> bool \<times> ('t, 'y, 'w) vm"
  pb_unreferenced :: "nat \<Rightarrow> nat \<Rightarrow> ('t, 'y, 'w) vm \<Rightarrow> ('t, 'y, 'w) vm"
  pt_writemap :: "nat \<Rightarrow> nat \<Rightarrow> nat \<Rightarrow> nat \<Rightarrow> 32 word \<Rightarrow> ('t, 'y, 'w) vm \<Rightarrow> int \<times> ('t, 'y, 'w) vm"
  sys_abscopy :: "nat \<Rightarrow> nat \<Rightarrow> nat \<Rightarrow> ('t, 'y, 'w) vm \<Rightarrow> int \<times> ('t, 'y, 'w) vm"
  mt_writable :: "nat \<Rightarrow> (nat \<Rightarrow> nat \<Rightarrow> ('t, 'y, 'w) vm \<Rightarrow> bool) option"
  mt_regionid :: "nat \<Rightarrow> (vir_region \<Rightarrow> nat) option"
  mt_refcount :: "nat \<Rightarrow> (vir_region \<Rightarrow> nat) option"
  ev_new :: "nat \<Rightarrow> (nat \<Rightarrow> ('t, 'y, 'w) vm \<Rightarrow> int \<times> ('t, 'y, 'w) vm) option"
  ev_copy :: "nat \<Rightarrow> (nat \<Rightarrow> nat \<Rightarrow> ('t, 'y, 'w) vm \<Rightarrow> int \<times> ('t, 'y, 'w) vm) option"
  ev_delete :: "nat \<Rightarrow> (nat \<Rightarrow> ('t, 'y, 'w) vm \<Rightarrow> ('t, 'y, 'w) vm) option"
  ev_resize :: "nat \<Rightarrow> (nat \<Rightarrow> nat \<Rightarrow> nat \<Rightarrow> ('t, 'y, 'w) vm \<Rightarrow> int \<times> ('t, 'y, 'w) vm) option"
  ev_pagefault :: "nat \<Rightarrow> (nat \<Rightarrow> nat \<Rightarrow> nat \<Rightarrow> bool \<Rightarrow> ('t, 'y, 'w) vm \<Rightarrow> int \<times> ('t, 'y, 'w) vm) option"

definition OK :: int where "OK = 0"
definition ESRCH :: int where "ESRCH = 3"
definition ENOMEM :: int where "ENOMEM = 12"
definition EFAULT :: int where "EFAULT = 14"
definition EINVAL :: int where "EINVAL = 22"
definition SUSPEND :: int where "SUSPEND = -998"

abbreviation tree_of :: "('t, 'y, 'w) vm \<Rightarrow> nat \<Rightarrow> 't" where
  "tree_of s p \<equiv> vm_regions_avl (vmprocs s p)"

definition set_tree :: "nat \<Rightarrow> 't \<Rightarrow> ('t, 'y, 'w) vm \<Rightarrow> ('t, 'y, 'w) vm" where
  "set_tree p t s = s\<lparr>vmprocs := (vmprocs s)(p := (vmprocs s p)\<lparr>vm_regions_avl := t\<rparr>)\<rparr>"

definition set_region :: "nat \<Rightarrow> vir_region \<Rightarrow> ('t, 'y, 'w) vm \<Rightarrow> ('t, 'y, 'w) vm" where
  "set_region r x s = s\<lparr>regions := (regions s)(r := x)\<rparr>"

section \<open>The slots of a region\<close>

definition phys_slot :: "('t, 'y, 'w) vmenv \<Rightarrow> nat \<Rightarrow> vm_stop + nat" where
  "phys_slot P n = (if n mod VM_PAGE_SIZE P \<noteq> 0 then Inl VM_assert else Inr (n div VM_PAGE_SIZE P))"

definition physblock_get :: "('t, 'y, 'w) vmenv \<Rightarrow> vir_region \<Rightarrow> nat \<Rightarrow> vm_stop + phys_region option" where
  "physblock_get P r off =
     (if off mod VM_PAGE_SIZE P \<noteq> 0 \<or> \<not> off < vlength r then Inl VM_assert
      else case physblocks r ! (off div VM_PAGE_SIZE P) of
        None \<Rightarrow> Inr None
      | Some x \<Rightarrow> if pr_offset x = off then Inr (Some x) else Inl VM_assert)"

definition physblock_set ::
  "('t, 'y, 'w) vmenv \<Rightarrow> vir_region \<Rightarrow> nat \<Rightarrow> phys_region option \<Rightarrow> vm_stop + vir_region" where
  "physblock_set P r off newphysr =
     (if off mod VM_PAGE_SIZE P \<noteq> 0 \<or> \<not> off < vlength r then Inl VM_assert
      else let i = off div VM_PAGE_SIZE P in
      case newphysr of
        Some x \<Rightarrow> if physblocks r ! i \<noteq> None \<or> pr_offset x \<noteq> off then Inl VM_assert
                  else Inr (r\<lparr>physblocks := (physblocks r)[i := Some x]\<rparr>)
      | None \<Rightarrow> if physblocks r ! i = None then Inl VM_assert
                else Inr (r\<lparr>physblocks := (physblocks r)[i := None]\<rparr>))"

text \<open>The offsets a loop \<open>for(voffset = start; voffset < end; voffset += VM_PAGE_SIZE)\<close> visits.\<close>

definition page_offsets :: "('t, 'y, 'w) vmenv \<Rightarrow> nat \<Rightarrow> nat \<Rightarrow> nat list" where
  "page_offsets P start e =
     map (\<lambda>i. start + i * VM_PAGE_SIZE P) [0..<(e - start + VM_PAGE_SIZE P - 1) div VM_PAGE_SIZE P]"

fun present :: "('t, 'y, 'w) vmenv \<Rightarrow> vir_region \<Rightarrow> nat list \<Rightarrow> vm_stop + phys_region list" where
  "present P r [] = Inr []"
| "present P r (v # vs) =
     bindE (physblock_get P r v) (\<lambda>x. bindE (present P r vs) (\<lambda>xs.
       Inr (case x of None \<Rightarrow> xs | Some y \<Rightarrow> y # xs)))"

definition physregions :: "('t, 'y, 'w) vmenv \<Rightarrow> vir_region \<Rightarrow> vm_stop + nat" where
  "physregions P r = bindE (present P r (page_offsets P 0 (vlength r))) (\<lambda>xs. Inr (length xs))"

section \<open>Looking up addresses\<close>

definition getnextvr :: "('t, 'y, 'w) vmenv \<Rightarrow> nat \<Rightarrow> ('t, 'y, 'w) vm \<Rightarrow> vm_stop + nat option" where
  "getnextvr P r s =
     (let t = tree_of s (parent (regions s r)); vr = regions s r in
      if region_search P t (vaddr vr) AVL_EQUAL \<noteq> Some r then Inl VM_assert
      else case region_search P t (vaddr vr) AVL_GREATER of
        None \<Rightarrow> Inr None
      | Some n \<Rightarrow>
          let nv = regions s n in
          if parent vr \<noteq> parent nv \<or> \<not> vaddr vr < vaddr nv \<or> \<not> wadd (vaddr vr) (vlength vr) \<le> vaddr nv
          then Inl VM_assert else Inr (Some n))"

text \<open>\<open>map_lookup\<close>; \<open>want\<close> says whether the caller passed a place for the physical region.\<close>

definition map_lookup ::
  "('t, 'y, 'w) vmenv \<Rightarrow> nat \<Rightarrow> nat \<Rightarrow> bool \<Rightarrow> ('t, 'y, 'w) vm \<Rightarrow> vm_stop + (nat \<times> phys_region option) option" where
  "map_lookup P p off want s =
     (case region_search P (tree_of s p) off AVL_LESS_EQUAL of
        None \<Rightarrow> Inr None
      | Some r \<Rightarrow>
          let vr = regions s r in
          if vaddr vr \<le> off \<and> off < wadd (vaddr vr) (vlength vr)
          then (if want then bindE (physblock_get P vr (off - vaddr vr)) (\<lambda>x. Inr (Some (r, x)))
                else Inr (Some (r, None)))
          else Inr None)"

definition map_get_phys :: "('t, 'y, 'w) vmenv \<Rightarrow> nat \<Rightarrow> nat \<Rightarrow> ('t, 'y, 'w) vm \<Rightarrow> vm_stop + (int \<times> nat option)" where
  "map_get_phys P p addr s =
     bindE (map_lookup P p addr False s) (\<lambda>x.
       case x of None \<Rightarrow> Inr (EINVAL, None)
       | Some (r, _) \<Rightarrow>
           if vaddr (regions s r) \<noteq> addr then Inr (EINVAL, None)
           else case mt_regionid P (memtype (regions s r)) of
             None \<Rightarrow> Inr (EINVAL, None)
           | Some f \<Rightarrow> Inr (OK, Some (f (regions s r))))"

definition map_get_ref :: "('t, 'y, 'w) vmenv \<Rightarrow> nat \<Rightarrow> nat \<Rightarrow> ('t, 'y, 'w) vm \<Rightarrow> vm_stop + (int \<times> nat option)" where
  "map_get_ref P p addr s =
     bindE (map_lookup P p addr False s) (\<lambda>x.
       case x of None \<Rightarrow> Inr (EINVAL, None)
       | Some (r, _) \<Rightarrow>
           if vaddr (regions s r) \<noteq> addr then Inr (EINVAL, None)
           else case mt_refcount P (memtype (regions s r)) of
             None \<Rightarrow> Inr (EINVAL, None)
           | Some f \<Rightarrow> Inr (OK, Some (f (regions s r) mod 256)))"

section \<open>Finding a free range\<close>

definition SLOT_FAIL :: nat where "SLOT_FAIL = VSPACE - 1"

definition FREEVRANGE_TRY :: "nat \<Rightarrow> nat \<Rightarrow> nat \<Rightarrow> nat \<Rightarrow> nat \<Rightarrow> nat option" where
  "FREEVRANGE_TRY minv maxv n rangestart rangeend =
     (let frstart = max rangestart minv; frend = min rangeend maxv
      in if frend > frstart \<and> frend - frstart \<ge> n then Some (frend - n) else None)"

definition FREEVRANGE :: "('t, 'y, 'w) vmenv \<Rightarrow> nat \<Rightarrow> nat \<Rightarrow> nat \<Rightarrow> nat \<Rightarrow> nat \<Rightarrow> nat option" where
  "FREEVRANGE P minv maxv n start e =
     (case FREEVRANGE_TRY minv maxv n (wadd start (VM_PAGE_SIZE P)) (wsub e (VM_PAGE_SIZE P)) of
        Some v \<Rightarrow> Some v
      | None \<Rightarrow> FREEVRANGE_TRY minv maxv n start e)"

definition region_end :: "('t, 'y, 'w) vm \<Rightarrow> nat option \<Rightarrow> nat" where
  "region_end s r = (case r of None \<Rightarrow> 0 | Some r \<Rightarrow> wadd (vaddr (regions s r)) (vlength (regions s r)))"

text \<open>The loop that walks down the regions.\<close>

fun slot_down ::
  "('t, 'y, 'w) vmenv \<Rightarrow> nat \<Rightarrow> nat \<Rightarrow> nat \<Rightarrow> nat \<Rightarrow> ('t, 'y, 'w) vm \<Rightarrow> nat \<Rightarrow> nat option \<Rightarrow> vm_stop + nat option"
where
  "slot_down P minv maxv n p s fuel None = Inr None"
| "slot_down P minv maxv n p s 0 (Some r) = Inl VM_endless"
| "slot_down P minv maxv n p s (Suc fuel) (Some r) =
     (let nextvr = region_search P (tree_of s p) (vaddr (regions s r)) AVL_LESS
      in case FREEVRANGE P minv maxv n (region_end s nextvr) (vaddr (regions s r)) of
           Some v \<Rightarrow> Inr (Some v)
         | None \<Rightarrow> slot_down P minv maxv n p s fuel nextvr)"

definition slot_search ::
  "('t, 'y, 'w) vmenv \<Rightarrow> nat \<Rightarrow> nat \<Rightarrow> nat \<Rightarrow> nat \<Rightarrow> ('t, 'y, 'w) vm \<Rightarrow> vm_stop + nat option" where
  "slot_search P minv maxv n p s =
     (case region_search P (tree_of s p) maxv AVL_GREATER_EQUAL of
        Some r \<Rightarrow> slot_down P minv maxv n p s (Suc (vaddr (regions s r))) (Some r)
      | None \<Rightarrow>
          let last = region_search P (tree_of s p) maxv AVL_LESS
          in case FREEVRANGE P minv maxv n (region_end s last) (VM_DATATOP P) of
               Some v \<Rightarrow> Inr (Some v)
             | None \<Rightarrow> slot_down P minv maxv n p s (Suc maxv) last)"

definition region_find_slot_range ::
  "('t, 'y, 'w) vmenv \<Rightarrow> nat \<Rightarrow> nat \<Rightarrow> nat \<Rightarrow> nat \<Rightarrow> ('t, 'y, 'w) vm \<Rightarrow> vm_stop + (nat \<times> ('t, 'y, 'w) vm)" where
  "region_find_slot_range P p minv maxv n s =
     (if n = 0 then Inl VM_assert
      else if maxv = 0 \<and> wadd minv n \<le> minv then Inr (SLOT_FAIL, s)
      else let maxv = (if maxv = 0 then wadd minv n else maxv) in
      if n mod VM_PAGE_SIZE P \<noteq> 0 \<or> \<not> minv < maxv then Inl VM_assert
      else if wadd minv n > maxv then Inr (SLOT_FAIL, s)
      else bindE (slot_search P minv maxv n p s) (\<lambda>found.
        case found of
          None \<Rightarrow> Inr (SLOT_FAIL, s)
        | Some startv \<Rightarrow>
            if \<not> (minv \<le> startv \<and> startv < maxv \<and> wadd startv n \<le> maxv) then Inl VM_assert
            else Inr (startv,
              s\<lparr>vmprocs := (vmprocs s)(p := (vmprocs s p)\<lparr>vm_region_top := wadd startv n\<rparr>)\<rparr>)))"

definition region_find_slot ::
  "('t, 'y, 'w) vmenv \<Rightarrow> nat \<Rightarrow> nat \<Rightarrow> nat \<Rightarrow> nat \<Rightarrow> ('t, 'y, 'w) vm \<Rightarrow> vm_stop + (nat \<times> ('t, 'y, 'w) vm)" where
  "region_find_slot P p minv maxv n s =
     (let hint = vm_region_top (vmprocs s p) in
      if maxv \<noteq> 0 \<and> hint < maxv \<and> minv \<le> hint
      then bindE (region_find_slot_range P p minv hint n s) (\<lambda>(v, s).
             if v \<noteq> SLOT_FAIL then Inr (v, s) else region_find_slot_range P p minv maxv n s)
      else region_find_slot_range P p minv maxv n s)"

section \<open>Reports on a process\<close>

record vm_usage_info =
  vui_total :: nat
  vui_common :: nat
  vui_shared :: nat

definition get_usage_info_kernel :: "('t, 'y, 'w) vmenv \<Rightarrow> vm_usage_info" where
  "get_usage_info_kernel P = \<lparr>vui_total = kernel_bytes P, vui_common = 0, vui_shared = 0\<rparr>"

definition get_usage_info_vm :: "('t, 'y, 'w) vmenv \<Rightarrow> vm_usage_info" where
  "get_usage_info_vm P = \<lparr>vui_total = vm_bytes P, vui_common = 0, vui_shared = 0\<rparr>"

definition count_page ::
  "('t, 'y, 'w) vmenv \<Rightarrow> ('t, 'y, 'w) vm \<Rightarrow> vir_region \<Rightarrow> phys_region \<Rightarrow> vm_usage_info \<Rightarrow> vm_usage_info" where
  "count_page P s vr x u =
     (let PS = VM_PAGE_SIZE P; u = u\<lparr>vui_total := wadd (vui_total u) PS\<rparr> in
      if refcount (pblocks s (ph x)) > 1
      then let u = u\<lparr>vui_common := wadd (vui_common u) PS\<rparr>
           in if vflags vr AND VR_SHARED P \<noteq> 0 then u\<lparr>vui_shared := wadd (vui_shared u) PS\<rparr> else u
      else u)"

fun count_regions ::
  "('t, 'y, 'w) vmenv \<Rightarrow> ('t, 'y, 'w) vm \<Rightarrow> nat list \<Rightarrow> vm_usage_info \<Rightarrow> vm_stop + vm_usage_info" where
  "count_regions P s [] u = Inr u"
| "count_regions P s (r # rs) u =
     bindE (present P (regions s r) (page_offsets P 0 (vlength (regions s r)))) (\<lambda>xs.
       count_regions P s rs (fold (count_page P s (regions s r)) xs u))"

definition get_usage_info :: "('t, 'y, 'w) vmenv \<Rightarrow> nat \<Rightarrow> ('t, 'y, 'w) vm \<Rightarrow> vm_stop + vm_usage_info" where
  "get_usage_info P p s =
     (if vm_endpoint (vmprocs s p) = VM_PROC_NR P then Inr (get_usage_info_vm P)
      else if vm_endpoint (vmprocs s p) < 0 then Inr (get_usage_info_kernel P)
      else count_regions P s (region_inorder P (tree_of s p)) \<lparr>vui_total = 0, vui_common = 0, vui_shared = 0\<rparr>)"

text \<open>The weighted sum divides by the reference count, which stops the server when it is 0.\<close>

fun region_stats ::
  "('t, 'y, 'w) vmenv \<Rightarrow> ('t, 'y, 'w) vm \<Rightarrow> nat list \<Rightarrow> nat \<times> nat \<Rightarrow> vm_stop + (nat \<times> nat)" where
  "region_stats P s [] uw = Inr uw"
| "region_stats P s (r # rs) uw =
     (let vr = regions s r in
      if vflags vr AND VR_DIRECT P \<noteq> 0 then region_stats P s rs uw
      else bindE (present P vr (page_offsets P 0 (vlength vr))) (\<lambda>xs.
        if \<exists>x \<in> set xs. refcount (pblocks s (ph x)) = 0 then Inl VM_panic else
        region_stats P s rs (fold (\<lambda>x (used, weighted). (wadd used (VM_PAGE_SIZE P),
            wadd weighted (VM_PAGE_SIZE P div refcount (pblocks s (ph x))))) xs uw)))"

text \<open>The two numbers \<open>printregionstats\<close> prints, in kB.\<close>

definition printregionstats :: "('t, 'y, 'w) vmenv \<Rightarrow> nat \<Rightarrow> ('t, 'y, 'w) vm \<Rightarrow> vm_stop + (nat \<times> nat)" where
  "printregionstats P p s =
     bindE (region_stats P s (region_inorder P (tree_of s p)) (0, 0)) (\<lambda>(used, weighted).
       Inr (used div 1024, weighted div 1024))"

text \<open>
  An entry of the array of the caller that \<open>get_region_info\<close> fills; an entry it passes over is
  \<open>None\<close>: whatever the array held. The result is the count, the next address and the entries.
\<close>

record vm_region_info =
  vri_addr :: nat
  vri_prot :: "32 word"
  vri_length :: nat

fun region_info_loop ::
  "('t, 'y, 'w) vmenv \<Rightarrow> ('t, 'y, 'w) vm \<Rightarrow> 't \<Rightarrow> nat \<Rightarrow> nat option \<Rightarrow> nat \<Rightarrow>
   vm_stop + (nat \<times> vm_region_info option list)" where
  "region_info_loop P s t 0 it nxt = Inr (nxt, [])"
| "region_info_loop P s t (Suc m) None nxt = Inr (nxt, [])"
| "region_info_loop P s t (Suc m) (Some r) nxt =
     (let vr = regions s r; nxt = wadd (vaddr vr) (vlength vr) in
      bindE (present P vr (page_offsets P 0 (vlength vr))) (\<lambda>xs.
        if xs = []
        then bindE (region_info_loop P s t m (Some r) nxt) (\<lambda>(nxt, es). Inr (nxt, None # es))
        else let e = \<lparr>vri_addr = wadd (vaddr vr) (pr_offset (hd xs)),
                      vri_prot = (if vflags vr AND VR_WRITABLE P = 0 then 0 AND NOT (PROT_WRITE P) else 0),
                      vri_length = wsub (wadd (pr_offset (last xs)) (VM_PAGE_SIZE P)) (pr_offset (hd xs))\<rparr>
             in bindE (region_info_loop P s t m (region_search P t (vaddr vr) AVL_GREATER) nxt)
                  (\<lambda>(nxt, es). Inr (nxt, Some e # es))))"

definition get_region_info ::
  "('t, 'y, 'w) vmenv \<Rightarrow> nat \<Rightarrow> nat \<Rightarrow> nat \<Rightarrow> ('t, 'y, 'w) vm \<Rightarrow>
   vm_stop + (nat \<times> nat \<times> vm_region_info option list)" where
  "get_region_info P p m nextp s =
     (if m = 0 then Inr (0, nextp, [])
      else case region_search P (tree_of s p) nextp AVL_GREATER_EQUAL of
        None \<Rightarrow> Inr (0, nextp, [])
      | Some r \<Rightarrow> bindE (region_info_loop P s (tree_of s p) m (Some r) nextp) (\<lambda>(nxt, es).
          Inr (length es, nxt, es)))"

end
