(* ===== verification/Region_Slot.thy ===== *)
theory Region_Slot
  imports Region
begin

text \<open>
  Lookups and the search for a free range in \<open>region.c\<close>: a lookup finds the region that
  covers an address, and \<open>region_find_slot_range\<close> finds a range free of every region
  whenever the process has one.

  The tree's documented behaviour is the hypothesis \<open>avl_laws\<close>: a tree is a finite map from
  keys to regions and a search returns the entry nearest to the key in its direction. The
  layout of a process, \<open>regions_ok\<close>, is what VM's own \<open>map_sanitycheck\<close> asserts.
\<close>

section \<open>The tree and the layout of a process\<close>

definition nearest :: "avl_cmp \<Rightarrow> nat \<Rightarrow> nat set \<Rightarrow> nat option" where
  "nearest d k D =
     (let E = {j \<in> D. case d of AVL_EQUAL \<Rightarrow> j = k | AVL_LESS \<Rightarrow> j < k | AVL_GREATER \<Rightarrow> k < j
                     | AVL_LESS_EQUAL \<Rightarrow> j \<le> k | AVL_GREATER_EQUAL \<Rightarrow> k \<le> j}
      in if E = {} then None
         else Some (if d = AVL_GREATER \<or> d = AVL_GREATER_EQUAL then Min E else Max E))"

definition avl_laws :: "('t, 'y, 'w) vmenv \<Rightarrow> ('t \<Rightarrow> nat \<rightharpoonup> nat) \<Rightarrow> bool" where
  "avl_laws P c \<longleftrightarrow>
     (\<forall>t. finite (dom (c t))) \<and>
     (\<forall>t k d. region_search P t k d = Option.bind (nearest d k (dom (c t))) (c t)) \<and>
     (\<forall>t. region_inorder P t = map (the \<circ> c t) (sorted_list_of_set (dom (c t)))) \<and>
     (\<forall>t. case region_search_root P t of None \<Rightarrow> c t = Map.empty | Some r \<Rightarrow> r \<in> ran (c t)) \<and>
     c (region_init P) = Map.empty \<and>
     (\<forall>t k r. c t k = None \<longrightarrow> c (region_insert P t k r) = (c t)(k \<mapsto> r)) \<and>
     (\<forall>t k r j. j \<noteq> k \<longrightarrow> c (region_insert P t k r) j = c t j) \<and>
     (\<forall>t k. c (region_remove P t k) = (c t)(k := None))"

definition space_ok :: "('t, 'y, 'w) vmenv \<Rightarrow> bool" where
  "space_ok P \<longleftrightarrow> 0 < VM_PAGE_SIZE P \<and> VM_PAGE_SIZE P dvd VM_DATATOP P \<and> 0 < VM_DATATOP P
     \<and> VM_DATATOP P + VM_PAGE_SIZE P < VSPACE"

definition region_ok :: "('t, 'y, 'w) vmenv \<Rightarrow> vir_region \<Rightarrow> bool" where
  "region_ok P vr \<longleftrightarrow> 0 < vlength vr \<and> VM_PAGE_SIZE P dvd vaddr vr \<and> VM_PAGE_SIZE P dvd vlength vr
     \<and> vaddr vr + vlength vr \<le> VM_DATATOP P
     \<and> vlength vr div VM_PAGE_SIZE P \<le> length (physblocks vr)
     \<and> (\<forall>i < vlength vr div VM_PAGE_SIZE P. \<forall>x. physblocks vr ! i = Some x
          \<longrightarrow> pr_offset x = i * VM_PAGE_SIZE P)"

definition regions_ok :: "('t, 'y, 'w) vmenv \<Rightarrow> ('t \<Rightarrow> nat \<rightharpoonup> nat) \<Rightarrow> nat \<Rightarrow> ('t, 'y, 'w) vm \<Rightarrow> bool" where
  "regions_ok P c p s \<longleftrightarrow>
     (\<forall>k r. c (tree_of s p) k = Some r \<longrightarrow>
        vaddr (regions s r) = k \<and> parent (regions s r) = p \<and> region_ok P (regions s r)) \<and>
     (\<forall>k r k' r'. c (tree_of s p) k = Some r \<longrightarrow> c (tree_of s p) k' = Some r' \<longrightarrow> k < k' \<longrightarrow>
        k + vlength (regions s r) \<le> k')"

text \<open>The region of a process that covers an address, and a range no region touches.\<close>

definition covers :: "('t \<Rightarrow> nat \<rightharpoonup> nat) \<Rightarrow> nat \<Rightarrow> ('t, 'y, 'w) vm \<Rightarrow> nat \<Rightarrow> nat \<Rightarrow> bool" where
  "covers c p s r a \<longleftrightarrow> (\<exists>k. c (tree_of s p) k = Some r \<and> k \<le> a \<and> a < k + vlength (regions s r))"

definition free_range :: "('t \<Rightarrow> nat \<rightharpoonup> nat) \<Rightarrow> nat \<Rightarrow> ('t, 'y, 'w) vm \<Rightarrow> nat \<Rightarrow> nat \<Rightarrow> bool" where
  "free_range c p s a n \<longleftrightarrow>
     (\<forall>k r. c (tree_of s p) k = Some r \<longrightarrow> a + n \<le> k \<or> k + vlength (regions s r) \<le> a)"

lemma avl_lawsD:
  assumes "avl_laws P c"
  shows "finite (dom (c t))"
    and "region_search P t k d = Option.bind (nearest d k (dom (c t))) (c t)"
    and "c (region_init P) = Map.empty"
    and "c t k = None \<Longrightarrow> c (region_insert P t k r) = (c t)(k \<mapsto> r)"
    and "c (region_remove P t k) = (c t)(k := None)"
    and "region_inorder P t = map (the \<circ> c t) (sorted_list_of_set (dom (c t)))"
    and "region_search_root P t = None \<Longrightarrow> c t = Map.empty"
    and "region_search_root P t = Some r \<Longrightarrow> r \<in> ran (c t)"
    and "j \<noteq> k \<Longrightarrow> c (region_insert P t k r) j = c t j"
proof -
  have "case region_search_root P t of None \<Rightarrow> c t = Map.empty | Some r \<Rightarrow> r \<in> ran (c t)"
    using assms unfolding avl_laws_def by blast
  then show "region_search_root P t = None \<Longrightarrow> c t = Map.empty"
    and "region_search_root P t = Some r \<Longrightarrow> r \<in> ran (c t)"
    by auto
qed (use assms in \<open>simp_all add: avl_laws_def\<close>)

lemma search_equal:
  assumes "avl_laws P c"
  shows "region_search P t k AVL_EQUAL = c t k"
proof -
  have "{j \<in> dom (c t). j = k} = (if k \<in> dom (c t) then {k} else {})" by auto
  then show ?thesis
    by (auto simp: avl_lawsD(2)[OF assms] nearest_def dom_def)
qed

text \<open>A search below or above a key: nothing there, or the extremal entry.\<close>

lemma search_less_cases:
  assumes "avl_laws P c"
  shows "(region_search P t k AVL_LESS = None \<and> (\<forall>j\<in>dom (c t). k \<le> j))
       \<or> (\<exists>j r. region_search P t k AVL_LESS = Some r \<and> c t j = Some r \<and> j < k
            \<and> (\<forall>i\<in>dom (c t). i < k \<longrightarrow> i \<le> j))"
proof (cases "{j \<in> dom (c t). j < k} = {}")
  case True
  then show ?thesis
    by (auto simp: avl_lawsD(2)[OF assms] nearest_def Let_def not_less)
next
  case False
  let ?E = "{j \<in> dom (c t). j < k}"
  have fin: "finite ?E" using avl_lawsD(1)[OF assms] by simp
  have "Max ?E \<in> ?E" using fin False by (rule Max_in)
  then obtain r where r: "c t (Max ?E) = Some r" "Max ?E < k" by (auto simp: dom_def)
  have "i \<le> Max ?E" if "i \<in> dom (c t)" "i < k" for i
    using fin that by (intro Max_ge) auto
  moreover have "region_search P t k AVL_LESS = Some r"
    using False r by (simp add: avl_lawsD(2)[OF assms] nearest_def Let_def)
  ultimately show ?thesis using r by blast
qed

lemma search_less_equal_cases:
  assumes "avl_laws P c"
  shows "(region_search P t k AVL_LESS_EQUAL = None \<and> (\<forall>j\<in>dom (c t). k < j))
       \<or> (\<exists>j r. region_search P t k AVL_LESS_EQUAL = Some r \<and> c t j = Some r \<and> j \<le> k
            \<and> (\<forall>i\<in>dom (c t). i \<le> k \<longrightarrow> i \<le> j))"
proof -
  have *: "nearest AVL_LESS_EQUAL k D = nearest AVL_LESS (Suc k) D" for D
    by (simp add: nearest_def Let_def less_Suc_eq_le)
  have "region_search P t k AVL_LESS_EQUAL = region_search P t (Suc k) AVL_LESS"
    by (simp add: avl_lawsD(2)[OF assms] *)
  with search_less_cases[OF assms, of t "Suc k"] show ?thesis
    by (simp add: less_Suc_eq_le Suc_le_eq)
qed

lemma search_greater_equal_cases:
  assumes "avl_laws P c"
  shows "(region_search P t k AVL_GREATER_EQUAL = None \<and> (\<forall>j\<in>dom (c t). j < k))
       \<or> (\<exists>j r. region_search P t k AVL_GREATER_EQUAL = Some r \<and> c t j = Some r \<and> k \<le> j
            \<and> (\<forall>i\<in>dom (c t). k \<le> i \<longrightarrow> j \<le> i))"
proof (cases "{j \<in> dom (c t). k \<le> j} = {}")
  case True
  then show ?thesis
    by (auto simp: avl_lawsD(2)[OF assms] nearest_def Let_def not_le)
next
  case False
  let ?E = "{j \<in> dom (c t). k \<le> j}"
  have fin: "finite ?E" using avl_lawsD(1)[OF assms] by simp
  have "Min ?E \<in> ?E" using fin False by (rule Min_in)
  then obtain r where r: "c t (Min ?E) = Some r" "k \<le> Min ?E" by (auto simp: dom_def)
  have "Min ?E \<le> i" if "i \<in> dom (c t)" "k \<le> i" for i
    using fin that by (intro Min_le) auto
  moreover have "region_search P t k AVL_GREATER_EQUAL = Some r"
    using False r by (simp add: avl_lawsD(2)[OF assms] nearest_def Let_def)
  ultimately show ?thesis using r by blast
qed

lemma search_greater_cases:
  assumes "avl_laws P c"
  shows "(region_search P t k AVL_GREATER = None \<and> (\<forall>j\<in>dom (c t). j \<le> k))
       \<or> (\<exists>j r. region_search P t k AVL_GREATER = Some r \<and> c t j = Some r \<and> k < j
            \<and> (\<forall>i\<in>dom (c t). k < i \<longrightarrow> j \<le> i))"
proof -
  have *: "nearest AVL_GREATER k D = nearest AVL_GREATER_EQUAL (Suc k) D" for D
    by (simp add: nearest_def Let_def Suc_le_eq)
  have "region_search P t k AVL_GREATER = region_search P t (Suc k) AVL_GREATER_EQUAL"
    by (simp add: avl_lawsD(2)[OF assms] *)
  with search_greater_equal_cases[OF assms, of t "Suc k"] show ?thesis
    by (simp add: less_Suc_eq_le Suc_le_eq)
qed

lemma regions_okD:
  assumes "regions_ok P c p s" and "c (tree_of s p) k = Some r"
  shows "vaddr (regions s r) = k" "parent (regions s r) = p" "region_ok P (regions s r)"
  using assms by (auto simp: regions_ok_def)

lemma regions_ok_apart:
  "regions_ok P c p s \<Longrightarrow> c (tree_of s p) k = Some r \<Longrightarrow> c (tree_of s p) k' = Some r' \<Longrightarrow> k < k'
     \<Longrightarrow> k + vlength (regions s r) \<le> k'"
  unfolding regions_ok_def by blast

section \<open>Looking up addresses\<close>

lemma region_end_nat:
  assumes "space_ok P" and "region_ok P vr"
  shows "wadd (vaddr vr) (vlength vr) = vaddr vr + vlength vr"
  using assms by (simp add: space_ok_def region_ok_def wadd_def)

lemma slot_index:
  "region_ok P vr \<Longrightarrow> off < vlength vr \<Longrightarrow> VM_PAGE_SIZE P dvd off \<Longrightarrow>
     off div VM_PAGE_SIZE P < vlength vr div VM_PAGE_SIZE P"
  by (auto simp: region_ok_def dvd_def)

lemma physblock_get_ok:
  assumes "region_ok P vr" and "off < vlength vr" and "VM_PAGE_SIZE P dvd off"
  shows "physblock_get P vr off = Inr (physblocks vr ! (off div VM_PAGE_SIZE P))"
proof -
  show ?thesis using assms slot_index[OF assms]
    by (auto simp: physblock_get_def region_ok_def split: option.splits)
qed

lemma covers_unique:
  assumes ok: "regions_ok P c p s" and r: "covers c p s r a" and r': "covers c p s r' a"
  shows "r = r'"
proof -
  obtain k k' where k: "c (tree_of s p) k = Some r" "k \<le> a" "a < k + vlength (regions s r)"
    and k': "c (tree_of s p) k' = Some r'" "k' \<le> a" "a < k' + vlength (regions s r')"
    using r r' by (auto simp: covers_def)
  have "k = k'"
    using regions_ok_apart[OF ok k(1) k'(1)] regions_ok_apart[OF ok k'(1) k(1)] k k' by linarith
  then show ?thesis using k k' by simp
qed

lemma map_lookup_found:
  assumes ok: "regions_ok P c p s" "avl_laws P c" "space_ok P" and cov: "covers c p s r a"
  shows "map_lookup P p a want s =
      (if want then bindE (physblock_get P (regions s r) (a - vaddr (regions s r))) (\<lambda>x. Inr (Some (r, x)))
       else Inr (Some (r, None)))"
proof -
  obtain k where k: "c (tree_of s p) k = Some r" "k \<le> a" "a < k + vlength (regions s r)"
    using cov by (auto simp: covers_def)
  then have kd: "k \<in> dom (c (tree_of s p))" by auto
  obtain j r' where j: "region_search P (tree_of s p) a AVL_LESS_EQUAL = Some r'"
    "c (tree_of s p) j = Some r'" "j \<le> a" "k \<le> j"
    using search_less_equal_cases[OF ok(2), of "tree_of s p" a] kd k(2) by (meson not_less)
  have "k = j" using regions_ok_apart[OF ok(1) k(1) j(2)] j k(3) by linarith
  then have "r' = r" using j k by simp
  then show ?thesis
    using j k regions_okD[OF ok(1) k(1)] region_end_nat[OF ok(3), of "regions s r"]
    by (simp add: map_lookup_def Let_def)
qed

lemma map_lookup_missing:
  assumes ok: "regions_ok P c p s" "avl_laws P c" "space_ok P" and no: "\<nexists>r. covers c p s r a"
  shows "map_lookup P p a want s = Inr None"
proof (cases "region_search P (tree_of s p) a AVL_LESS_EQUAL")
  case None
  then show ?thesis by (simp add: map_lookup_def)
next
  case (Some r)
  then obtain j where j: "c (tree_of s p) j = Some r" "j \<le> a"
    using search_less_equal_cases[OF ok(2), of "tree_of s p" a] by auto
  then have "\<not> a < j + vlength (regions s r)" using no by (auto simp: covers_def)
  then show ?thesis
    using Some j regions_okD[OF ok(1) j(1)] region_end_nat[OF ok(3), of "regions s r"]
    by (simp add: map_lookup_def Let_def)
qed

section \<open>Finding a free range\<close>

definition is_slot :: "('t, 'y, 'w) vmenv \<Rightarrow> ('t \<Rightarrow> nat \<rightharpoonup> nat) \<Rightarrow> nat \<Rightarrow> ('t, 'y, 'w) vm \<Rightarrow>
    nat \<Rightarrow> nat \<Rightarrow> nat \<Rightarrow> nat \<Rightarrow> bool" where
  "is_slot P c p s minv maxv n v \<longleftrightarrow>
     minv \<le> v \<and> v + n \<le> maxv \<and> v + n \<le> VM_DATATOP P \<and> free_range c p s v n"

text \<open>One gap, from the end of a region to the start of the one above it.\<close>

lemma FREEVRANGE_TRY_some:
  "FREEVRANGE_TRY minv maxv n a b = Some v \<Longrightarrow>
     a \<le> v \<and> minv \<le> v \<and> v + n \<le> b \<and> v + n \<le> maxv \<and> (v + n = b \<or> v + n = maxv)"
  by (auto simp: FREEVRANGE_TRY_def Let_def split: if_splits)

lemma FREEVRANGE_TRY_none:
  "FREEVRANGE_TRY minv maxv n a b = None \<Longrightarrow> 0 < n \<Longrightarrow> a \<le> v \<Longrightarrow> minv \<le> v \<Longrightarrow> v + n \<le> b \<Longrightarrow>
     v + n \<le> maxv \<Longrightarrow> False"
  by (auto simp: FREEVRANGE_TRY_def Let_def split: if_splits)

lemma FREEVRANGE_some:
  assumes "FREEVRANGE P minv maxv n a b = Some v" and "a + VM_PAGE_SIZE P < VSPACE"
    and "VM_PAGE_SIZE P \<le> b" and "b < VSPACE"
  shows "a \<le> v \<and> minv \<le> v \<and> v + n \<le> b \<and> v + n \<le> maxv"
    and "VM_PAGE_SIZE P dvd n \<Longrightarrow> VM_PAGE_SIZE P dvd b \<Longrightarrow> VM_PAGE_SIZE P dvd maxv \<Longrightarrow>
           VM_PAGE_SIZE P dvd v"
proof -
  have w: "wadd a (VM_PAGE_SIZE P) = a + VM_PAGE_SIZE P" "wsub b (VM_PAGE_SIZE P) = b - VM_PAGE_SIZE P"
    using assms by (simp_all add: wadd_def wsub_def mod_if)
  have cases: "(a + VM_PAGE_SIZE P \<le> v \<and> minv \<le> v \<and> v + n \<le> b - VM_PAGE_SIZE P \<and> v + n \<le> maxv
          \<and> (v + n = b - VM_PAGE_SIZE P \<or> v + n = maxv))
      \<or> (a \<le> v \<and> minv \<le> v \<and> v + n \<le> b \<and> v + n \<le> maxv \<and> (v + n = b \<or> v + n = maxv))"
    using assms(1) by (auto simp: FREEVRANGE_def w split: option.splits dest: FREEVRANGE_TRY_some)
  then show "a \<le> v \<and> minv \<le> v \<and> v + n \<le> b \<and> v + n \<le> maxv" by auto
  assume dvd: "VM_PAGE_SIZE P dvd n" "VM_PAGE_SIZE P dvd b" "VM_PAGE_SIZE P dvd maxv"
  then have "VM_PAGE_SIZE P dvd b - VM_PAGE_SIZE P" by (simp add: dvd_minus_self)
  then have "VM_PAGE_SIZE P dvd v + n" using cases dvd by metis
  then show "VM_PAGE_SIZE P dvd v" using dvd(1) by (simp add: dvd_add_left_iff)
qed

lemma FREEVRANGE_none:
  "FREEVRANGE P minv maxv n a b = None \<Longrightarrow> 0 < n \<Longrightarrow> a \<le> v \<Longrightarrow> minv \<le> v \<Longrightarrow> v + n \<le> b \<Longrightarrow>
     v + n \<le> maxv \<Longrightarrow> False"
  by (auto simp: FREEVRANGE_def split: option.splits dest: FREEVRANGE_TRY_none)

text \<open>The gap below the region at \<open>k\<close>, and what is left of the search below it.\<close>

lemma gap_free:
  assumes ok: "regions_ok P c p s" and v: "\<And>j. j \<in> dom (c (tree_of s p)) \<Longrightarrow> k \<le> j \<Longrightarrow> v + n \<le> j"
    and below: "\<And>j. j \<in> dom (c (tree_of s p)) \<Longrightarrow> j < k \<Longrightarrow> \<exists>i r. j \<le> i \<and> i < k \<and>
          c (tree_of s p) i = Some r \<and> i + vlength (regions s r) \<le> v"
  shows "free_range c p s v n"
  unfolding free_range_def
proof (intro allI impI)
  fix j r assume j: "c (tree_of s p) j = Some r"
  show "v + n \<le> j \<or> j + vlength (regions s r) \<le> v"
  proof (cases "j < k")
    case True
    then obtain i r' where i: "j \<le> i" "c (tree_of s p) i = Some r'" "i + vlength (regions s r') \<le> v"
      using below[of j] j by auto
    then show ?thesis using regions_ok_apart[OF ok j i(2)] j by (cases "j = i") auto
  qed (use v[of j] j in auto)
qed

lemma region_end_pred:
  assumes "regions_ok P c p s" and "space_ok P" and "c (tree_of s p) j = Some r"
  shows "region_end s (Some r) = j + vlength (regions s r)"
  using regions_okD[OF assms(1,3)] region_end_nat[OF assms(2), of "regions s r"]
  by (simp add: region_end_def)

text \<open>A gap that ends at \<open>b\<close>, above every region below \<open>k\<close>: found or full.\<close>

lemma gap_step:
  assumes ok: "regions_ok P c p s" "avl_laws P c" "space_ok P" and n: "0 < n"
    and b: "VM_PAGE_SIZE P \<le> b" "b \<le> VM_DATATOP P" "b \<le> k \<or> (\<forall>j\<in>dom (c (tree_of s p)). j < k)"
  defines "nx \<equiv> region_search P (tree_of s p) k AVL_LESS"
  shows "FREEVRANGE P minv maxv n (region_end s nx) b = Some v \<Longrightarrow>
           is_slot P c p s minv maxv n v \<and> v + n \<le> b
           \<and> (VM_PAGE_SIZE P dvd n \<longrightarrow> VM_PAGE_SIZE P dvd b \<longrightarrow> VM_PAGE_SIZE P dvd maxv \<longrightarrow> VM_PAGE_SIZE P dvd v)"
    and "FREEVRANGE P minv maxv n (region_end s nx) b = None \<Longrightarrow> is_slot P c p s minv maxv n a \<Longrightarrow>
           a + n \<le> b \<Longrightarrow> \<exists>j r. nx = Some r \<and> c (tree_of s p) j = Some r \<and> j < k \<and> a < j"
proof -
  consider (none) "nx = None" "\<forall>j\<in>dom (c (tree_of s p)). k \<le> j"
    | (some) j r where "nx = Some r" "c (tree_of s p) j = Some r" "j < k"
        "\<forall>i\<in>dom (c (tree_of s p)). i < k \<longrightarrow> i \<le> j"
    using search_less_cases[OF ok(2), of "tree_of s p" k] by (auto simp: nx_def)
  note cases = this
  have start: "region_end s nx \<le> VM_DATATOP P"
    using cases region_end_pred[OF ok(1,3)] regions_okD(1,3)[OF ok(1)]
    by cases (auto simp: region_end_def[of s None] region_ok_def)
  show "is_slot P c p s minv maxv n v \<and> v + n \<le> b
      \<and> (VM_PAGE_SIZE P dvd n \<longrightarrow> VM_PAGE_SIZE P dvd b \<longrightarrow> VM_PAGE_SIZE P dvd maxv \<longrightarrow> VM_PAGE_SIZE P dvd v)"
    if f: "FREEVRANGE P minv maxv n (region_end s nx) b = Some v"
  proof -
    note v = FREEVRANGE_some[OF f]
    have rng: "region_end s nx \<le> v" "minv \<le> v" "v + n \<le> b" "v + n \<le> maxv"
      using v(1) start b ok(3) by (auto simp: space_ok_def)
    have above: "v + n \<le> j" if "j \<in> dom (c (tree_of s p))" "k \<le> j" for j
      using b(3) that rng(3) by (meson le_trans not_less)
    have "free_range c p s v n"
    proof (rule gap_free[OF ok(1) above])
      fix j assume j: "j \<in> dom (c (tree_of s p))" "j < k"
      show "\<exists>i r. j \<le> i \<and> i < k \<and> c (tree_of s p) i = Some r \<and> i + vlength (regions s r) \<le> v"
        using cases
      proof cases
        case none
        then show ?thesis using j by (meson not_less)
      next
        case (some i r)
        then show ?thesis using j rng(1) region_end_pred[OF ok(1,3) some(2)] by auto
      qed
    qed
    then show ?thesis using rng v(2) start b ok(3) by (auto simp: space_ok_def is_slot_def)
  qed
  show "\<exists>j r. nx = Some r \<and> c (tree_of s p) j = Some r \<and> j < k \<and> a < j"
    if f: "FREEVRANGE P minv maxv n (region_end s nx) b = None" and a: "is_slot P c p s minv maxv n a" "a + n \<le> b"
    using cases
  proof cases
    case none
    then show ?thesis using FREEVRANGE_none[OF f n, of a] a by (simp add: region_end_def is_slot_def)
  next
    case some
    have "\<not> j + vlength (regions s r) \<le> a"
      using FREEVRANGE_none[OF f n, of a] a some region_end_pred[OF ok(1,3) some(2)]
      by (auto simp: is_slot_def)
    then have "a + n \<le> j" using a some(2) by (auto simp: is_slot_def free_range_def)
    then show ?thesis using some n by auto
  qed
qed

lemma slot_down_spec:
  assumes ok: "regions_ok P c p s" "avl_laws P c" "space_ok P" and n: "0 < n"
    and zero: "c (tree_of s p) 0 = None"
    and r: "c (tree_of s p) k = Some r" and fuel: "k < fuel"
  shows "\<exists>x. slot_down P minv maxv n p s fuel (Some r) = Inr x
     \<and> (\<forall>v. x = Some v \<longrightarrow> is_slot P c p s minv maxv n v
          \<and> (VM_PAGE_SIZE P dvd n \<longrightarrow> VM_PAGE_SIZE P dvd maxv \<longrightarrow> VM_PAGE_SIZE P dvd v))
     \<and> (\<forall>a. x = None \<longrightarrow> is_slot P c p s minv maxv n a \<longrightarrow> k \<le> a)"
  using r fuel
proof (induction fuel arbitrary: r k)
  case (Suc fuel)
  note reg = regions_okD[OF ok(1) Suc.prems(1)]
  have "k \<noteq> 0" using Suc.prems(1) zero by (metis option.distinct(1))
  then have b: "VM_PAGE_SIZE P \<le> k" "k \<le> VM_DATATOP P" "VM_PAGE_SIZE P dvd k"
    using reg by (auto simp: region_ok_def intro: dvd_imp_le)
  let ?nx = "region_search P (tree_of s p) k AVL_LESS"
  note step = gap_step[OF ok n b(1,2) disjI1[OF order_refl], of minv maxv]
  show ?case
  proof (cases "FREEVRANGE P minv maxv n (region_end s ?nx) k")
    case (Some v)
    then show ?thesis using step(1)[of v] reg(1) b(3) by simp
  next
    case None
    have sd: "slot_down P minv maxv n p s (Suc fuel) (Some r) = slot_down P minv maxv n p s fuel ?nx"
      using None reg(1) by simp
    have below: "\<exists>j r. ?nx = Some r \<and> c (tree_of s p) j = Some r \<and> j < k \<and> a < j"
      if "is_slot P c p s minv maxv n a" "a < k" for a
    proof -
      have "a + n \<le> k \<or> k + vlength (regions s r) \<le> a"
        using that(1) Suc.prems(1) by (simp add: is_slot_def free_range_def)
      then show ?thesis using step(2)[OF None that(1)] that(2) by auto
    qed
    show ?thesis
    proof (cases ?nx)
      case None
      then show ?thesis using sd below by (fastforce simp: not_less[symmetric])
    next
      case (Some r')
      then obtain j where j: "c (tree_of s p) j = Some r'" "j < k"
        using search_less_cases[OF ok(2), of "tree_of s p" k] by auto
      obtain x where x: "slot_down P minv maxv n p s fuel (Some r') = Inr x"
        "\<forall>v. x = Some v \<longrightarrow> is_slot P c p s minv maxv n v
          \<and> (VM_PAGE_SIZE P dvd n \<longrightarrow> VM_PAGE_SIZE P dvd maxv \<longrightarrow> VM_PAGE_SIZE P dvd v)"
        "\<forall>a. x = None \<longrightarrow> is_slot P c p s minv maxv n a \<longrightarrow> j \<le> a"
        using Suc.IH[OF j(1)] j(2) Suc.prems(2) by auto
      have "k \<le> a" if xn: "x = None" and a: "is_slot P c p s minv maxv n a" for a
      proof (rule ccontr)
        assume "\<not> k \<le> a"
        then obtain i where "c (tree_of s p) i = Some r'" "a < i"
          using below[OF a] Some by auto
        moreover from this have "i = j" using regions_okD(1)[OF ok(1)] j(1) by auto
        ultimately show False using x(3) xn a by auto
      qed
      then show ?thesis using x sd Some by simp
    qed
  qed
qed simp

lemma slot_search_spec:
  assumes ok: "regions_ok P c p s" "avl_laws P c" "space_ok P" and n: "0 < n"
    and zero: "c (tree_of s p) 0 = None"
  shows "\<exists>x. slot_search P minv maxv n p s = Inr x
     \<and> (\<forall>v. x = Some v \<longrightarrow> is_slot P c p s minv maxv n v
          \<and> (VM_PAGE_SIZE P dvd n \<longrightarrow> VM_PAGE_SIZE P dvd maxv \<longrightarrow> VM_PAGE_SIZE P dvd v))
     \<and> (x = None \<longrightarrow> (\<nexists>a. is_slot P c p s minv maxv n a))"
proof (cases "region_search P (tree_of s p) maxv AVL_GREATER_EQUAL")
  case (Some r)
  then obtain k where k: "c (tree_of s p) k = Some r" "maxv \<le> k"
    using search_greater_equal_cases[OF ok(2), of "tree_of s p" maxv] by auto
  have "\<not> k \<le> a" if "is_slot P c p s minv maxv n a" for a
    using that k n by (auto simp: is_slot_def)
  then show ?thesis
    using slot_down_spec[OF ok n zero k(1), of "Suc k" minv maxv] Some regions_okD(1)[OF ok(1) k(1)]
    by (fastforce simp: slot_search_def)
next
  case None
  then have all: "\<forall>j\<in>dom (c (tree_of s p)). j < maxv"
    using search_greater_equal_cases[OF ok(2), of "tree_of s p" maxv] by auto
  let ?nx = "region_search P (tree_of s p) maxv AVL_LESS"
  have top: "VM_PAGE_SIZE P \<le> VM_DATATOP P" "VM_PAGE_SIZE P dvd VM_DATATOP P"
    using ok(3) by (auto simp: space_ok_def intro: dvd_imp_le)
  note step = gap_step[OF ok n top(1) order_refl disjI2[OF all], of minv maxv]
  show ?thesis
  proof (cases "FREEVRANGE P minv maxv n (region_end s ?nx) (VM_DATATOP P)")
    case (Some v)
    then show ?thesis using step(1)[of v] None top(2) by (simp add: slot_search_def)
  next
    case full: None
    have ss: "slot_search P minv maxv n p s = slot_down P minv maxv n p s (Suc maxv) ?nx"
      using None full by (simp add: slot_search_def)
    have below: "\<exists>j r. ?nx = Some r \<and> c (tree_of s p) j = Some r \<and> j < maxv \<and> a < j"
      if "is_slot P c p s minv maxv n a" for a
      using step(2)[OF full that] that by (auto simp: is_slot_def)
    show ?thesis
    proof (cases ?nx)
      case None
      then show ?thesis using ss below by fastforce
    next
      case (Some r)
      then obtain j where j: "c (tree_of s p) j = Some r" "j < maxv"
        using search_less_cases[OF ok(2), of "tree_of s p" maxv] by auto
      have "a < j" if "is_slot P c p s minv maxv n a" for a
        using below[OF that] Some regions_okD(1)[OF ok(1)] j(1) by (metis option.inject)
      then show ?thesis
        using slot_down_spec[OF ok n zero j(1), of "Suc maxv" minv maxv] j(2) ss Some
        by (fastforce simp: not_less[symmetric])
    qed
  qed
qed

text \<open>The whole search: what it asks of its caller, and what it then returns.\<close>

definition slot_request :: "('t, 'y, 'w) vmenv \<Rightarrow> nat \<Rightarrow> nat \<Rightarrow> nat \<Rightarrow> bool" where
  "slot_request P minv maxv n \<longleftrightarrow> 0 < n \<and> VM_PAGE_SIZE P dvd n \<and> minv < maxv \<and> maxv < VSPACE"

lemma find_slot_range_spec:
  assumes ok: "regions_ok P c p s" "avl_laws P c" "space_ok P"
    and zero: "c (tree_of s p) 0 = None" and req: "slot_request P minv maxv n"
  shows "(\<exists>v. region_find_slot_range P p minv maxv n s =
            Inr (v, s\<lparr>vmprocs := (vmprocs s)(p := (vmprocs s p)\<lparr>vm_region_top := v + n\<rparr>)\<rparr>)
          \<and> is_slot P c p s minv maxv n v
          \<and> (VM_PAGE_SIZE P dvd maxv \<longrightarrow> VM_PAGE_SIZE P dvd v))
       \<or> region_find_slot_range P p minv maxv n s = Inr (SLOT_FAIL, s)
          \<and> (\<nexists>a. is_slot P c p s minv maxv n a)"
proof -
  have n: "0 < n" "n mod VM_PAGE_SIZE P = 0" "VM_PAGE_SIZE P dvd n" "minv < maxv" "maxv < VSPACE"
    using req by (auto simp: slot_request_def)
  have early: "\<nexists>a. is_slot P c p s minv maxv n a" if "maxv < wadd minv n"
  proof -
    have "wadd minv n \<le> minv + n" by (simp add: wadd_def)
    then show ?thesis using that by (auto simp: is_slot_def)
  qed
  obtain x where x: "slot_search P minv maxv n p s = Inr x"
    "\<forall>v. x = Some v \<longrightarrow> is_slot P c p s minv maxv n v
        \<and> (VM_PAGE_SIZE P dvd n \<longrightarrow> VM_PAGE_SIZE P dvd maxv \<longrightarrow> VM_PAGE_SIZE P dvd v)"
    "x = None \<longrightarrow> (\<nexists>a. is_slot P c p s minv maxv n a)"
    using slot_search_spec[OF ok n(1) zero] by blast
  show ?thesis
  proof (cases "maxv < wadd minv n")
    case True
    then show ?thesis using early n by (simp add: region_find_slot_range_def)
  next
    case False
    show ?thesis
    proof (cases x)
      case None
      then show ?thesis using x False n by (simp add: region_find_slot_range_def Let_def)
    next
      case (Some v)
      then have v: "is_slot P c p s minv maxv n v" using x by simp
      then have "wadd v n = v + n" using n(5) by (simp add: wadd_def is_slot_def)
      moreover have "minv \<le> v" "v < maxv" "v + n \<le> maxv" using v n(1) by (auto simp: is_slot_def)
      ultimately show ?thesis using x False n v Some
        by (simp add: region_find_slot_range_def Let_def)
    qed
  qed
qed

lemma SLOT_FAIL_not_slot: "0 < n \<Longrightarrow> maxv < VSPACE \<Longrightarrow> is_slot P c p s minv maxv n v \<Longrightarrow> v \<noteq> SLOT_FAIL"
  by (auto simp: is_slot_def SLOT_FAIL_def VSPACE_def)

section \<open>A concrete environment, for the witnesses\<close>

type_synonym list_state = "((nat \<times> nat) list, (block_id \<times> nat) list, nat) vm"

definition list_search :: "(nat \<times> nat) list \<Rightarrow> nat \<Rightarrow> avl_cmp \<Rightarrow> nat option" where
  "list_search t k d = Option.bind (nearest d k (dom (map_of t))) (map_of t)"

definition slot_update ::
  "nat \<Rightarrow> nat \<Rightarrow> phys_region option \<Rightarrow> ('t, 'y, 'w) vm \<Rightarrow> ('t, 'y, 'w) vm" where
  "slot_update r i x s =
     set_region r ((regions s r)\<lparr>physblocks := (physblocks (regions s r))[i := x]\<rparr>) s"

definition count_update ::
  "nat \<Rightarrow> (nat \<Rightarrow> nat) \<Rightarrow> ('t, 'y, 'w) vm \<Rightarrow> ('t, 'y, 'w) vm" where
  "count_update b f s = s\<lparr>pblocks := (pblocks s)(b := (pblocks s b)\<lparr>refcount := f (refcount (pblocks s b))\<rparr>)\<rparr>"

definition list_vm :: "((nat \<times> nat) list, (block_id \<times> nat) list, nat) vmenv" where
  "list_vm = \<lparr>VM_PAGE_SIZE = 4096, VM_DATATOP = 4026531840, MAP_NONE = 4294967294, VM_PROC_NR = 8,
     VM_BLOCKID_NONE = 0, VR_WRITABLE = 1, VR_SHARED = 4, VR_DIRECT = 8, VR_ANON = 256,
     VR_UNINITIALIZED = 512, VR_PHYS64K = 16, VR_LOWER16MB = 32, VR_LOWER1MB = 64, VR_CONTIG = 128,
     PAF_ALIGN64K = 1, PAF_LOWER16MB = 2, PAF_LOWER1MB = 4, PAF_CONTIG = 8, PAF_CLEAR = 16,
     PROT_WRITE = 2, PTF_WRITE = 2, PTF_READ = 0, PTF_PRESENT = 1, PTF_USER = 4, MF_PREALLOC = 1,
     kernel_bytes = 0, vm_bytes = 0,
     region_search = list_search, region_search_root = (\<lambda>t. case t of [] \<Rightarrow> None | e # _ \<Rightarrow> Some (snd e)),
     region_inorder = (\<lambda>t. map (the \<circ> map_of t) (sort (remdups (map fst t)))),
     region_insert = (\<lambda>t k r. (k, r) # t),
     region_remove = (\<lambda>t k. filter (\<lambda>e. fst e \<noteq> k) t), region_init = [],
     yielded_search = map_of, yielded_inorder = map snd, yielded_insert = (\<lambda>t k y. (k, y) # t),
     yielded_remove = (\<lambda>t k. (filter (\<lambda>e. fst e \<noteq> k) t, map_of t k)), yielded_init = [],
     hash_i_64 = (\<lambda>e i. nat e + unat i), cmp64 = (\<lambda>a b. if a < b then -1 else if a = b then 0 else 1),
     make64 = (\<lambda>lo hi. push_bit 32 (ucast hi) OR ucast lo),
     ABS2CLICK = (\<lambda>a. a div 4096), CLICK2ABS = (\<lambda>a. a * 4096),
     slab_fails = (\<lambda>_. False), calloc_fails = (\<lambda>_ _. False), realloc_fails = (\<lambda>_ _. False),
     vm_isokendpt = (\<lambda>e s. if vm_endpoint (vmprocs s 0) = e then Some 0 else None),
     alloc_mem = (\<lambda>n _ s. (Some (vm_world s), s\<lparr>vm_world := vm_world s + nat n\<rparr>)),
     free_mem = (\<lambda>_ _ s. s\<lparr>vm_world := vm_world s\<rparr>),
     pb_new = (\<lambda>a s. (Some (vm_world s), s\<lparr>vm_world := Suc (vm_world s),
                pblocks := (pblocks s)(vm_world s := \<lparr>phys = a, refcount = 0\<rparr>)\<rparr>)),
     pb_free = (\<lambda>_ s. s),
     pb_reference = (\<lambda>b off r s. (True, slot_update r (off div 4096) (Some \<lparr>ph = b, pr_offset = off\<rparr>)
                (count_update b Suc s))),
     pb_unreferenced = (\<lambda>r off s. slot_update r (off div 4096) None
                (case physblocks (regions s r) ! (off div 4096) of None \<Rightarrow> s
                 | Some x \<Rightarrow> count_update (ph x) (\<lambda>n. n - 1) s)),
     pt_writemap = (\<lambda>_ _ _ _ _ s. (0, s)), sys_abscopy = (\<lambda>_ _ _ s. (0, s)),
     mt_writable = (\<lambda>_. Some (\<lambda>_ _ _. True)), mt_regionid = (\<lambda>_. None), mt_refcount = (\<lambda>_. None),
     ev_new = (\<lambda>_. None), ev_copy = (\<lambda>_. None), ev_delete = (\<lambda>_. None), ev_resize = (\<lambda>_. None),
     ev_pagefault = (\<lambda>_. Some (\<lambda>_ _ _ _ s. (0, s)))\<rparr>"

lemma map_of_filter_key: "map_of (filter (\<lambda>e. fst e \<noteq> k) t) = (map_of t)(k := None)"
  by (induction t) (auto simp: fun_eq_iff)

lemma list_inorder: "sorted_list_of_set (dom (map_of t)) = sort (remdups (map fst t))"
  using sorted_list_of_set_sort_remdups[of "map fst t"] by (simp add: dom_map_of_conv_image_fst)

lemma list_root:
  "case (case t of [] \<Rightarrow> None | e # _ \<Rightarrow> Some (snd e)) of None \<Rightarrow> map_of t = Map.empty | Some r \<Rightarrow> r \<in> ran (map_of t)"
  by (cases t) (auto simp: ran_def)

lemma list_vm_laws: "avl_laws list_vm map_of" "space_ok list_vm"
proof -
  show "avl_laws list_vm map_of"
    unfolding avl_laws_def
    by (simp add: list_vm_def list_search_def finite_dom_map_of map_of_filter_key list_inorder list_root)
  show "space_ok list_vm" by (simp add: space_ok_def list_vm_def VSPACE_def)
qed

text \<open>Process 0 with two regions of two pages each, the second page of each present.\<close>

definition two_regions :: list_state where
  "two_regions = \<lparr>vmprocs = (\<lambda>_. \<lparr>vm_endpoint = 7, vm_regions_avl = [(8192, 0), (40960, 1)],
        vm_region_top = 0, vm_yielded = 0\<rparr>),
     regions = (\<lambda>r. \<lparr>vaddr = (if r = 0 then 8192 else 40960), vlength = 8192, vflags = 257, memtype = 0,
        remaps = 0, vr_id = 0, physblocks = [None, Some \<lparr>ph = r, pr_offset = 4096\<rparr>], parent = 0\<rparr>),
     next_region = 2, freed_regions = {}, region_ids = 2,
     pblocks = (\<lambda>b. \<lparr>phys = b * 4096, refcount = 1\<rparr>),
     yblocks = (\<lambda>_. \<lparr>yid = \<lparr>owner = 0, bid = 0\<rparr>, physaddr = 0, pages = 0, younger = None, older = None\<rparr>),
     next_yielded = 0, freed_yielded = {}, vm_yielded_blocks = (\<lambda>_. []), avl_inited = True,
     lru_youngest = None, lru_oldest = None, vm_world = 2\<rparr>"

lemma two_regions_ok: "regions_ok list_vm map_of 0 two_regions"
  by (auto simp: regions_ok_def region_ok_def list_vm_def two_regions_def less_Suc_eq nth_Cons
      split: if_splits nat.splits)

section \<open>Properties\<close>

abbreviation with_top :: "nat \<Rightarrow> nat \<Rightarrow> ('t, 'y, 'w) vm \<Rightarrow> ('t, 'y, 'w) vm" where
  "with_top p v s \<equiv> s\<lparr>vmprocs := (vmprocs s)(p := (vmprocs s p)\<lparr>vm_region_top := v\<rparr>)\<rparr>"

lemma is_slot_mono: "is_slot P c p s minv h n v \<Longrightarrow> h \<le> maxv \<Longrightarrow> is_slot P c p s minv maxv n v"
  by (simp add: is_slot_def)

text \<open>
  C16. \<open>map_lookup\<close> finds exactly the region that covers an address: if a region of the process
  covers it, that region is returned, with the physical region of its page when the caller
  asks for it and the address is at a page start; and if none covers it, the lookup returns
  nothing.
\<close>

theorem map_lookup_finds_region:
  assumes "regions_ok P c p s" and "avl_laws P c" and "space_ok P"
  shows "(covers c p s r a \<longrightarrow>
            map_lookup P p a False s = Inr (Some (r, None))
            \<and> (VM_PAGE_SIZE P dvd a \<longrightarrow> map_lookup P p a True s =
                  Inr (Some (r, physblocks (regions s r) ! ((a - vaddr (regions s r)) div VM_PAGE_SIZE P)))))
       \<and> ((\<nexists>r. covers c p s r a) \<longrightarrow> map_lookup P p a want s = Inr None)"
proof (intro conjI impI)
  assume cov: "covers c p s r a"
  note found = map_lookup_found[OF assms cov]
  show "map_lookup P p a False s = Inr (Some (r, None))" by (simp add: found)
  obtain k where k: "c (tree_of s p) k = Some r" "k \<le> a" "a < k + vlength (regions s r)"
    using cov by (auto simp: covers_def)
  note reg = regions_okD[OF assms(1) k(1)]
  assume "VM_PAGE_SIZE P dvd a"
  then have "VM_PAGE_SIZE P dvd a - vaddr (regions s r)" using reg by (simp add: region_ok_def)
  then show "map_lookup P p a True s =
      Inr (Some (r, physblocks (regions s r) ! ((a - vaddr (regions s r)) div VM_PAGE_SIZE P)))"
    using physblock_get_ok[OF reg(3), of "a - vaddr (regions s r)"] k reg(1) by (simp add: found)
next
  assume "\<nexists>r. covers c p s r a"
  then show "map_lookup P p a want s = Inr None" by (rule map_lookup_missing[OF assms])
qed

theorem map_lookup_finds_region_witness:
  "map_lookup list_vm 0 12288 True two_regions = Inr (Some (0, Some \<lparr>ph = 0, pr_offset = 4096\<rparr>))
   \<and> map_lookup list_vm 0 16384 True two_regions = Inr None"
proof -
  note look = map_lookup_finds_region[OF two_regions_ok list_vm_laws]
  have cov: "covers map_of 0 two_regions 0 12288"
    unfolding covers_def by (intro exI[of _ 8192]) (simp add: two_regions_def)
  have "\<nexists>r. covers map_of 0 two_regions r 16384"
    by (auto simp: covers_def two_regions_def split: if_splits)
  then show ?thesis
    using look[of 0 12288 True] look[of 0 16384 True] cov
    by (simp add: two_regions_def list_vm_def)
qed

lemma find_slot_spec:
  assumes "regions_ok P c p s" and "avl_laws P c" and "space_ok P"
    and "c (tree_of s p) 0 = None" and "vm_region_top (vmprocs s p) \<noteq> minv"
    and "slot_request P minv maxv n"
  shows "(\<exists>v. region_find_slot P p minv maxv n s = Inr (v, with_top p (v + n) s) \<and> v \<noteq> SLOT_FAIL
            \<and> is_slot P c p s minv maxv n v
            \<and> (VM_PAGE_SIZE P dvd maxv \<longrightarrow> VM_PAGE_SIZE P dvd vm_region_top (vmprocs s p) \<longrightarrow> VM_PAGE_SIZE P dvd v))
       \<or> region_find_slot P p minv maxv n s = Inr (SLOT_FAIL, s)
            \<and> (\<nexists>a. is_slot P c p s minv maxv n a)"
proof -
  let ?h = "vm_region_top (vmprocs s p)"
  have n: "0 < n" "maxv \<noteq> 0" "maxv < VSPACE" using assms(6) by (auto simp: slot_request_def)
  note rng = find_slot_range_spec[OF assms(1-4)]
  note fail = SLOT_FAIL_not_slot[OF n(1), of _ P c p s minv]
  show ?thesis
  proof (cases "?h < maxv \<and> minv \<le> ?h")
    case False
    then have "region_find_slot P p minv maxv n s = region_find_slot_range P p minv maxv n s"
      by (auto simp: region_find_slot_def)
    then show ?thesis using rng[OF assms(6)] fail[OF n(3)] by metis
  next
    case True
    then have "slot_request P minv ?h n" using assms(5,6) by (auto simp: slot_request_def)
    note hint = rng[OF this]
    have unf: "region_find_slot P p minv maxv n s = bindE (region_find_slot_range P p minv ?h n s) (\<lambda>(v, s).
             if v \<noteq> SLOT_FAIL then Inr (v, s) else region_find_slot_range P p minv maxv n s)"
      using True n(2) by (simp add: region_find_slot_def)
    from hint show ?thesis
    proof (elim disjE exE conjE)
      fix v assume v: "region_find_slot_range P p minv ?h n s = Inr (v, with_top p (v + n) s)"
        "is_slot P c p s minv ?h n v" "VM_PAGE_SIZE P dvd ?h \<longrightarrow> VM_PAGE_SIZE P dvd v"
      have "v \<noteq> SLOT_FAIL" using fail[OF _ v(2)] True n(3) by simp
      then show ?thesis using v unf is_slot_mono[OF v(2), of maxv] True by auto
    next
      assume "region_find_slot_range P p minv ?h n s = Inr (SLOT_FAIL, s)"
      then have "region_find_slot P p minv maxv n s = region_find_slot_range P p minv maxv n s"
        by (simp add: unf)
      then show ?thesis using rng[OF assms(6)] fail[OF n(3)] by metis
    qed
  qed
qed

text \<open>
  C17. A request for a range is answered with a range that lies between \<open>minv\<close> and \<open>maxv\<close> and
  touches no region of the process, and its end becomes the hint for the next request; the
  request fails only when the process has no such range. It needs that no region starts at
  address 0 and that the hint is not \<open>minv\<close>.
\<close>

theorem region_find_slot_sound_complete:
  assumes "regions_ok P c p s" and "avl_laws P c" and "space_ok P"
    and "c (tree_of s p) 0 = None" and "vm_region_top (vmprocs s p) \<noteq> minv"
    and "slot_request P minv maxv n"
  shows "(\<exists>v. region_find_slot P p minv maxv n s = Inr (v, with_top p (v + n) s) \<and> v \<noteq> SLOT_FAIL
            \<and> minv \<le> v \<and> v + n \<le> maxv \<and> v + n \<le> VM_DATATOP P \<and> free_range c p s v n)
       \<or> region_find_slot P p minv maxv n s = Inr (SLOT_FAIL, s)
            \<and> (\<nexists>a. minv \<le> a \<and> a + n \<le> maxv \<and> a + n \<le> VM_DATATOP P \<and> free_range c p s a n)"
  using find_slot_spec[OF assms] unfolding is_slot_def by blast

theorem region_find_slot_sound_complete_witness:
  "(\<exists>v. region_find_slot list_vm 0 4096 65536 8192 two_regions = Inr (v, with_top 0 (v + 8192) two_regions)
      \<and> v \<noteq> SLOT_FAIL \<and> 4096 \<le> v \<and> v + 8192 \<le> 65536 \<and> v + 8192 \<le> VM_DATATOP list_vm
      \<and> free_range map_of 0 two_regions v 8192)"
proof -
  have "minv \<le> 20480 \<and> 20480 + 8192 \<le> maxv \<and> 20480 + 8192 \<le> VM_DATATOP list_vm
      \<and> free_range map_of 0 two_regions 20480 8192" if "minv \<le> 20480" "28672 \<le> maxv" for minv maxv :: nat
    using that by (auto simp: free_range_def two_regions_def list_vm_def)
  moreover have "map_of (tree_of two_regions 0) 0 = None" "vm_region_top (vmprocs two_regions 0) \<noteq> 4096"
    "slot_request list_vm 4096 65536 8192"
    by (simp_all add: two_regions_def slot_request_def list_vm_def VSPACE_def)
  ultimately show ?thesis
    using region_find_slot_sound_complete[OF two_regions_ok list_vm_laws, of 4096 65536 8192] by fastforce
qed

text \<open>
  The hint is used with \<open>>=\<close> where the search asserts \<open>minv < maxv\<close>: a request whose
  \<open>minv\<close> is the end of the last range handed out stops the server.
\<close>

theorem region_find_slot_hint_asserts:
  assumes "vm_region_top (vmprocs s p) = minv" and "0 < minv" and "slot_request P minv maxv n"
  shows "region_find_slot P p minv maxv n s = Inl VM_assert"
  using assms by (simp add: region_find_slot_def region_find_slot_range_def slot_request_def)

theorem region_find_slot_hint_asserts_witness:
  "region_find_slot list_vm 0 4096 65536 8192 (with_top 0 4096 two_regions) = Inl VM_assert"
  by (rule region_find_slot_hint_asserts) (simp_all add: slot_request_def list_vm_def VSPACE_def)

text \<open>
  A region at address 0 defeats the search: the gap below it is tried as the range up to
  \<open>0 - VM_PAGE_SIZE\<close>, which wraps around, so for a process whose only region starts at 0 a
  request for one page within that region returns the region's own last page.
\<close>

theorem region_at_zero_overlaps:
  assumes "regions_ok P c p s" and "avl_laws P c" and "space_ok P"
    and "c (tree_of s p) = [0 \<mapsto> r]" and "2 * VM_PAGE_SIZE P \<le> vlength (regions s r)"
  shows "\<exists>v. region_find_slot_range P p 0 (vlength (regions s r)) (VM_PAGE_SIZE P) s =
               Inr (v, with_top p (v + VM_PAGE_SIZE P) s) \<and> covers c p s r v"
proof -
  let ?L = "vlength (regions s r)" and ?PS = "VM_PAGE_SIZE P"
  note reg = regions_okD[OF assms(1), of 0 r]
  have L: "?L \<le> VM_DATATOP P" "0 < ?L" "vaddr (regions s r) = 0" "0 < ?PS" "VM_DATATOP P + ?PS < VSPACE"
    using reg assms(3,4) by (auto simp: region_ok_def space_ok_def)
  have search: "region_search P (tree_of s p) ?L AVL_GREATER_EQUAL = None"
    "region_search P (tree_of s p) ?L AVL_LESS = Some r"
    "region_search P (tree_of s p) 0 AVL_LESS = None"
    using search_greater_equal_cases[OF assms(2), of "tree_of s p" ?L] L
      search_less_cases[OF assms(2), of "tree_of s p" ?L]
      search_less_cases[OF assms(2), of "tree_of s p" 0]
    by (auto simp: assms(4) split: if_splits)
  have top: "FREEVRANGE P 0 ?L ?PS ?L (VM_DATATOP P) = None"
    using L by (simp add: FREEVRANGE_def FREEVRANGE_TRY_def Let_def wadd_def wsub_def)
  have "region_end s (Some r) = ?L" using L by (simp add: region_end_def wadd_def)
  moreover have "FREEVRANGE P 0 ?L ?PS 0 0 = Some (?L - ?PS)"
    using L assms(5) by (simp add: FREEVRANGE_def FREEVRANGE_TRY_def Let_def wadd_def wsub_def min_def) arith
  ultimately have "slot_search P 0 ?L ?PS p s = Inr (Some (?L - ?PS))"
    using search top L(3) by (simp add: slot_search_def region_end_def[of s None])
  then have "region_find_slot_range P p 0 ?L ?PS s = Inr (?L - ?PS, with_top p ?L s)"
    using L assms(5) by (simp add: region_find_slot_range_def Let_def wadd_def)
  moreover have "covers c p s r (?L - ?PS)" using L assms(5) by (auto simp: covers_def assms(4))
  ultimately show ?thesis using L assms(5) by (intro exI[of _ "?L - ?PS"]) simp
qed

definition low_region :: list_state where
  "low_region = two_regions\<lparr>vmprocs := (\<lambda>_. \<lparr>vm_endpoint = 7, vm_regions_avl = [(0, 0)],
        vm_region_top = 0, vm_yielded = 0\<rparr>),
     regions := (\<lambda>r. (regions two_regions r)\<lparr>vaddr := 0\<rparr>)\<rparr>"

lemma low_region_ok: "regions_ok list_vm map_of 0 low_region"
  by (auto simp: regions_ok_def region_ok_def list_vm_def two_regions_def low_region_def less_Suc_eq nth_Cons
      split: if_splits nat.splits)

theorem region_at_zero_overlaps_witness:
  "\<exists>v. region_find_slot_range list_vm 0 0 8192 4096 low_region = Inr (v, with_top 0 (v + 4096) low_region)
     \<and> covers map_of 0 low_region 0 v"
proof -
  have "map_of (tree_of low_region 0) = [0 \<mapsto> 0]" "vlength (regions low_region 0) = 8192"
    "VM_PAGE_SIZE list_vm = 4096"
    by (simp_all add: low_region_def two_regions_def list_vm_def)
  then show ?thesis
    using region_at_zero_overlaps[OF low_region_ok list_vm_laws, of 0] by simp
qed

lemma present_none:
  assumes "region_ok P vr" and "\<forall>x \<in> set (physblocks vr). x = None"
    and "\<forall>v \<in> set vs. v < vlength vr \<and> VM_PAGE_SIZE P dvd v"
  shows "present P vr vs = Inr []"
  using assms(3)
proof (induction vs)
  case (Cons v vs)
  have "v div VM_PAGE_SIZE P < length (physblocks vr)"
    using slot_index[OF assms(1), of v] Cons.prems assms(1) by (simp add: region_ok_def)
  then have "physblocks vr ! (v div VM_PAGE_SIZE P) = None" using assms(2) nth_mem by blast
  then show ?case using Cons physblock_get_ok[OF assms(1), of v] by simp
qed simp

lemma page_offsets_bound:
  assumes "0 < VM_PAGE_SIZE P" and "v \<in> set (page_offsets P 0 e)"
  shows "v < e \<and> VM_PAGE_SIZE P dvd v"
proof -
  have "v \<in> (\<lambda>i. i * VM_PAGE_SIZE P) ` {0..<(e + VM_PAGE_SIZE P - 1) div VM_PAGE_SIZE P}"
    using assms(2) by (simp add: page_offsets_def)
  then obtain i where i: "v = i * VM_PAGE_SIZE P" "i < (e + VM_PAGE_SIZE P - 1) div VM_PAGE_SIZE P"
    by (elim imageE) (rule that, simp_all)
  then have "Suc i * VM_PAGE_SIZE P \<le> e + VM_PAGE_SIZE P - 1"
    using assms(1) by (simp add: less_eq_div_iff_mult_less_eq Suc_le_eq[symmetric] del: mult_Suc)
  then show ?thesis using i(1) assms(1) by auto
qed

text \<open>
  \<open>get_region_info\<close> passes over a region without pages by \<open>continue\<close>, which skips moving the
  iterator: from the first such region on it fills the count up to \<open>max\<close> without writing an
  entry, so the caller is told of \<open>max\<close> regions it finds nothing about.
\<close>

theorem get_region_info_stuck:
  assumes "regions_ok P c p s" and "avl_laws P c" and "space_ok P"
    and "region_search P (tree_of s p) a AVL_GREATER_EQUAL = Some r"
    and "\<forall>x \<in> set (physblocks (regions s r)). x = None" and "0 < m"
  shows "get_region_info P p m a s =
    Inr (m, vaddr (regions s r) + vlength (regions s r), replicate m None)"
proof -
  obtain k where k: "c (tree_of s p) k = Some r"
    using search_greater_equal_cases[OF assms(2), of "tree_of s p" a] assms(4) by auto
  note reg = regions_okD[OF assms(1) k]
  let ?e = "vaddr (regions s r) + vlength (regions s r)"
  have none: "present P (regions s r) (page_offsets P 0 (vlength (regions s r))) = Inr []"
    using present_none[OF reg(3) assms(5)] page_offsets_bound[of P] assms(3) by (auto simp: space_ok_def)
  have "region_info_loop P s t j (Some r) nxt = Inr (if j = 0 then nxt else ?e, replicate j None)" for t j nxt
    by (induction j arbitrary: nxt) (simp_all add: none region_end_nat[OF assms(3) reg(3)] Let_def)
  then show ?thesis using assms(4,6) by (simp add: get_region_info_def)
qed

definition empty_region :: list_state where
  "empty_region = two_regions\<lparr>regions := (\<lambda>r. (regions two_regions r)\<lparr>physblocks := [None, None]\<rparr>)\<rparr>"

lemma empty_region_ok: "regions_ok list_vm map_of 0 empty_region"
  by (auto simp: regions_ok_def region_ok_def list_vm_def two_regions_def empty_region_def less_Suc_eq nth_Cons
      split: if_splits nat.splits)

theorem get_region_info_stuck_witness:
  "get_region_info list_vm 0 5 0 empty_region = Inr (5, 16384, replicate 5 None)"
proof -
  have tree: "dom (map_of (tree_of empty_region 0)) = {8192, 40960}"
    by (auto simp: empty_region_def two_regions_def)
  have "region_search list_vm (tree_of empty_region 0) 0 AVL_GREATER_EQUAL = Some 0"
    using search_greater_equal_cases[OF list_vm_laws(1), of "tree_of empty_region 0" 0]
    by (auto simp: tree) (auto simp: empty_region_def two_regions_def split: if_splits)
  moreover have "\<forall>x \<in> set (physblocks (regions empty_region 0)). x = None"
    "vaddr (regions empty_region 0) + vlength (regions empty_region 0) = 16384"
    by (simp_all add: empty_region_def two_regions_def)
  ultimately show ?thesis
    using get_region_info_stuck[OF empty_region_ok list_vm_laws, of 0 0 5] by simp
qed

end
