(* ===== verification/Region_Map.thy ===== *)
theory Region_Map
  imports Region
begin

text \<open>
  The operations on regions of \<open>region.c\<close>: making and freeing them, page faults, copying,
  growing and unmapping.
\<close>

section \<open>Writing page table entries\<close>

type_synonym ('t, 'y, 'w) vmres = "vm_stop + (int \<times> ('t, 'y, 'w) vm)"

definition pr_writable :: "('t, 'y, 'w) vmenv \<Rightarrow> nat \<Rightarrow> nat \<Rightarrow> ('t, 'y, 'w) vm \<Rightarrow> vm_stop + bool" where
  "pr_writable P r off s =
     (case mt_writable P (memtype (regions s r)) of
        None \<Rightarrow> Inl VM_assert
      | Some w \<Rightarrow> Inr (vflags (regions s r) AND VR_WRITABLE P \<noteq> 0 \<and> w r off s))"

text \<open>The entry of the region's slot at an offset: what the pointer \<open>pr\<close> points to.\<close>

abbreviation entry_at :: "('t, 'y, 'w) vmenv \<Rightarrow> ('t, 'y, 'w) vm \<Rightarrow> nat \<Rightarrow> nat \<Rightarrow> phys_region option" where
  "entry_at P s r off \<equiv> physblocks (regions s r) ! (off div VM_PAGE_SIZE P)"

definition map_ph_writept ::
  "('t, 'y, 'w) vmenv \<Rightarrow> nat \<Rightarrow> nat \<Rightarrow> nat \<Rightarrow> ('t, 'y, 'w) vm \<Rightarrow> ('t, 'y, 'w) vmres" where
  "map_ph_writept P p r off s =
     (case entry_at P s r off of
        None \<Rightarrow> Inl VM_assert
      | Some x \<Rightarrow>
          let vr = regions s r; pb = pblocks s (ph x) in
          if vaddr vr mod VM_PAGE_SIZE P \<noteq> 0 \<or> pr_offset x mod VM_PAGE_SIZE P \<noteq> 0 \<or> refcount pb = 0
          then Inl VM_assert
          else bindE (pr_writable P r off s) (\<lambda>w.
            let rw = (if w then PTF_WRITE P else PTF_READ P);
                (e, s) = pt_writemap P p (wadd (vaddr vr) (pr_offset x)) (phys pb) (VM_PAGE_SIZE P)
                           (PTF_PRESENT P OR PTF_USER P OR rw) s
            in Inr (if e \<noteq> OK then ENOMEM else OK, s)))"

section \<open>Page faults\<close>

text \<open>The second half of \<open>map_pf\<close>, from the test of \<open>memtype->writable\<close> on.\<close>

definition resolve_fault ::
  "('t, 'y, 'w) vmenv \<Rightarrow> nat \<Rightarrow> nat \<Rightarrow> nat \<Rightarrow> bool \<Rightarrow> ('t, 'y, 'w) vm \<Rightarrow> ('t, 'y, 'w) vmres" where
  "resolve_fault P p r off wr s =
     (case mt_writable P (memtype (regions s r)) of
        None \<Rightarrow> Inl VM_assert
      | Some w \<Rightarrow>
          if \<not> wr \<or> \<not> w r off s
          then (case ev_pagefault P (memtype (regions s r)) of
                  None \<Rightarrow> Inl VM_assert
                | Some f \<Rightarrow>
                    let (e, s) = f p r off wr s in
                    if e = SUSPEND then Inl VM_panic
                    else if e \<noteq> OK then Inr (e, pb_unreferenced P r off s)
                    else map_ph_writept P p r off s)
          else map_ph_writept P p r off s)"

definition map_pf ::
  "('t, 'y, 'w) vmenv \<Rightarrow> nat \<Rightarrow> nat \<Rightarrow> nat \<Rightarrow> bool \<Rightarrow> ('t, 'y, 'w) vm \<Rightarrow> ('t, 'y, 'w) vmres" where
  "map_pf P p r offset wr s =
     (let off = offset - offset mod VM_PAGE_SIZE P; vr = regions s r in
      if \<not> off < vlength vr \<or> vaddr vr mod VM_PAGE_SIZE P \<noteq> 0 \<or> (wr \<and> vflags vr AND VR_WRITABLE P = 0)
      then Inl VM_assert
      else bindE (physblock_get P vr off) (\<lambda>x.
        case x of
          Some _ \<Rightarrow> resolve_fault P p r off wr s
        | None \<Rightarrow>
            (case pb_new P (MAP_NONE P) s of
               (None, s) \<Rightarrow> Inr (ENOMEM, s)
             | (Some pb, s) \<Rightarrow>
                 (case pb_reference P pb off r s of
                    (False, s) \<Rightarrow> Inr (ENOMEM, pb_free P pb s)
                  | (True, s) \<Rightarrow> resolve_fault P p r off wr s))))"

fun handle_pages ::
  "('t, 'y, 'w) vmenv \<Rightarrow> nat \<Rightarrow> nat \<Rightarrow> bool \<Rightarrow> nat list \<Rightarrow> ('t, 'y, 'w) vm \<Rightarrow> ('t, 'y, 'w) vmres" where
  "handle_pages P p r wr [] s = Inr (OK, s)"
| "handle_pages P p r wr (off # offs) s =
     bindE (map_pf P p r off wr s) (\<lambda>(e, s). if e \<noteq> OK then Inr (e, s) else handle_pages P p r wr offs s)"

definition map_handle_memory ::
  "('t, 'y, 'w) vmenv \<Rightarrow> nat \<Rightarrow> nat \<Rightarrow> nat \<Rightarrow> nat \<Rightarrow> bool \<Rightarrow> ('t, 'y, 'w) vm \<Rightarrow> ('t, 'y, 'w) vmres" where
  "map_handle_memory P p r start n wr s =
     (let lim = wadd start n in
      if n = 0 \<or> \<not> start < lim then Inl VM_assert else handle_pages P p r wr (page_offsets P start lim) s)"

fun pin_regions ::
  "('t, 'y, 'w) vmenv \<Rightarrow> nat \<Rightarrow> nat list \<Rightarrow> ('t, 'y, 'w) vm \<Rightarrow> ('t, 'y, 'w) vmres" where
  "pin_regions P p [] s = Inr (OK, s)"
| "pin_regions P p (r # rs) s =
     bindE (map_handle_memory P p r 0 (vlength (regions s r)) True s) (\<lambda>(e, s).
       if e \<noteq> OK then Inl VM_panic else pin_regions P p rs s)"

definition map_pin_memory :: "('t, 'y, 'w) vmenv \<Rightarrow> nat \<Rightarrow> ('t, 'y, 'w) vm \<Rightarrow> ('t, 'y, 'w) vmres" where
  "map_pin_memory P p s = pin_regions P p (region_inorder P (tree_of s p)) s"

definition vrallocflags :: "('t, 'y, 'w) vmenv \<Rightarrow> 32 word \<Rightarrow> 32 word" where
  "vrallocflags P flags =
     (let a = 0;
          a = (if flags AND VR_PHYS64K P \<noteq> 0 then a OR PAF_ALIGN64K P else a);
          a = (if flags AND VR_LOWER16MB P \<noteq> 0 then a OR PAF_LOWER16MB P else a);
          a = (if flags AND VR_LOWER1MB P \<noteq> 0 then a OR PAF_LOWER1MB P else a);
          a = (if flags AND VR_CONTIG P \<noteq> 0 then a OR PAF_CONTIG P else a);
          a = (if flags AND VR_UNINITIALIZED P = 0 then a OR PAF_CLEAR P else a)
      in a)"

text \<open>
  \<open>copy_abs2region\<close>. The assertion \<open>suboffset < VM_PAGE_SIZE\<close> makes every turn copy at least
  one byte.
\<close>

function copy_abs2region ::
  "('t, 'y, 'w) vmenv \<Rightarrow> nat \<Rightarrow> nat \<Rightarrow> nat \<Rightarrow> nat \<Rightarrow> ('t, 'y, 'w) vm \<Rightarrow> ('t, 'y, 'w) vmres" where
  "copy_abs2region P ab r offset len s =
     (if len = 0 then Inr (OK, s)
      else bindE (physblock_get P (regions s r) offset) (\<lambda>x.
        case x of
          None \<Rightarrow> Inr (EFAULT, s)
        | Some x \<Rightarrow>
            if offset < pr_offset x then Inl VM_assert
            else if wadd (pr_offset x) (VM_PAGE_SIZE P) \<le> offset then Inr (EFAULT, s)
            else let suboffset = offset - pr_offset x in
            if \<not> suboffset < VM_PAGE_SIZE P then Inl VM_assert
            else let sublen = (if len > VM_PAGE_SIZE P - suboffset then VM_PAGE_SIZE P - suboffset else len) in
            if refcount (pblocks s (ph x)) \<noteq> 1 then Inr (EFAULT, s)
            else let (e, s') = sys_abscopy P ab (wadd (phys (pblocks s (ph x))) suboffset) sublen s in
            if e \<noteq> OK then Inr (EFAULT, s')
            else copy_abs2region P (wadd ab sublen) r (wadd offset sublen) (len - sublen) s'))"
  by auto
termination
  by (relation "measure (\<lambda>(P, ab, r, offset, len, s). len)") auto

text \<open>\<open>map_clone_ph_block\<close>, for the entry at \<open>off\<close>; whether it succeeds.\<close>

definition map_clone_ph_block ::
  "('t, 'y, 'w) vmenv \<Rightarrow> nat \<Rightarrow> nat \<Rightarrow> nat \<Rightarrow> ('t, 'y, 'w) vm \<Rightarrow> vm_stop + (bool \<times> ('t, 'y, 'w) vm)" where
  "map_clone_ph_block P p r off s =
     (case entry_at P s r off of
        None \<Rightarrow> Inl VM_assert
      | Some x \<Rightarrow>
          if \<not> refcount (pblocks s (ph x)) > 1 then Inl VM_assert
          else
          let offset = pr_offset x; physaddr = phys (pblocks s (ph x));
              s = pb_unreferenced P r off s;
              allocflags = vrallocflags P (vflags (regions s r) OR VR_UNINITIALIZED P);
              single = (offset = 0 \<and> vlength (regions s r) = VM_PAGE_SIZE P)
          in if \<not> (single \<or> allocflags AND PAF_CONTIG P = 0) \<or> allocflags AND PAF_CLEAR P \<noteq> 0
          then Inl VM_assert
          else bindE (map_pf P p r offset True s) (\<lambda>(e, s).
            if e \<noteq> OK then Inr (False, s)
            else bindE (copy_abs2region P physaddr r offset (VM_PAGE_SIZE P) s) (\<lambda>(e, s).
              if e \<noteq> OK then Inl VM_panic
              else bindE (physblock_get P (regions s r) offset) (\<lambda>newpr.
                if newpr = None then Inl VM_assert else Inr (True, s)))))"

section \<open>Making regions\<close>

definition free_region_object :: "nat \<Rightarrow> ('t, 'y, 'w) vm \<Rightarrow> ('t, 'y, 'w) vm" where
  "free_region_object r s = s\<lparr>freed_regions := insert r (freed_regions s)\<rparr>"

definition region_new ::
  "('t, 'y, 'w) vmenv \<Rightarrow> nat \<Rightarrow> nat \<Rightarrow> nat \<Rightarrow> 32 word \<Rightarrow> nat \<Rightarrow> ('t, 'y, 'w) vm \<Rightarrow>
   vm_stop + (nat option \<times> ('t, 'y, 'w) vm)" where
  "region_new P p startv n flags mt s =
     bindE (phys_slot P n) (\<lambda>slots.
       if slab_fails P s then Inr (None, s)
       else let r = next_region s;
                vr = \<lparr>vaddr = startv, vlength = n, vflags = flags, memtype = mt, remaps = 0,
                      vr_id = region_ids s, physblocks = [], parent = p\<rparr>;
                s = set_region r vr (s\<lparr>next_region := Suc r, region_ids := region_ids s + 1\<rparr>)
       in if calloc_fails P slots s then Inr (None, free_region_object r s)
          else Inr (Some r, set_region r (vr\<lparr>physblocks := replicate slots None\<rparr>) s))"

definition link_region :: "('t, 'y, 'w) vmenv \<Rightarrow> nat \<Rightarrow> nat \<Rightarrow> ('t, 'y, 'w) vm \<Rightarrow> ('t, 'y, 'w) vm" where
  "link_region P p r s = set_tree p (region_insert P (tree_of s p) (vaddr (regions s r)) r) s"

text \<open>What \<open>map_page_region\<close> does with the new object \<open>r\<close>.\<close>

definition finish_region ::
  "('t, 'y, 'w) vmenv \<Rightarrow> nat \<Rightarrow> nat \<Rightarrow> nat \<Rightarrow> 32 word \<Rightarrow> ('t, 'y, 'w) vm \<Rightarrow> vm_stop + (nat option \<times> ('t, 'y, 'w) vm)" where
  "finish_region P p r n mapflags s =
     (let (e, s) = (case ev_new P (memtype (regions s r)) of None \<Rightarrow> (OK, s) | Some f \<Rightarrow> f r s)
      in if e \<noteq> OK then Inr (None, s)
      else bindE (if mapflags AND MF_PREALLOC P \<noteq> 0 then map_handle_memory P p r 0 n True s
                  else Inr (OK, s)) (\<lambda>(e, s).
        if e \<noteq> OK
        then Inr (None, free_region_object r (set_region r ((regions s r)\<lparr>physblocks := []\<rparr>) s))
        else Inr (Some r, link_region P p r
               (set_region r ((regions s r)\<lparr>vflags := vflags (regions s r) AND NOT (VR_UNINITIALIZED P)\<rparr>) s))))"

definition map_page_region ::
  "('t, 'y, 'w) vmenv \<Rightarrow> nat \<Rightarrow> nat \<Rightarrow> nat \<Rightarrow> nat \<Rightarrow> 32 word \<Rightarrow> 32 word \<Rightarrow> nat \<Rightarrow> ('t, 'y, 'w) vm \<Rightarrow>
   vm_stop + (nat option \<times> ('t, 'y, 'w) vm)" where
  "map_page_region P p minv maxv n flags mapflags mt s =
     (if n mod VM_PAGE_SIZE P \<noteq> 0 then Inl VM_assert
      else bindE (region_find_slot P p minv maxv n s) (\<lambda>(startv, s).
        if startv = SLOT_FAIL then Inr (None, s)
        else bindE (region_new P p startv n flags mt s) (\<lambda>(new, s).
          case new of
            None \<Rightarrow> Inr (None, s)
          | Some r \<Rightarrow> finish_region P p r n mapflags s)))"

section \<open>Freeing regions\<close>

fun subfree_loop ::
  "('t, 'y, 'w) vmenv \<Rightarrow> nat \<Rightarrow> nat \<Rightarrow> nat \<Rightarrow> nat list \<Rightarrow> ('t, 'y, 'w) vm \<Rightarrow> vm_stop + ('t, 'y, 'w) vm" where
  "subfree_loop P r start e [] s = Inr s"
| "subfree_loop P r start e (v # vs) s =
     bindE (physblock_get P (regions s r) v) (\<lambda>x.
       case x of
         None \<Rightarrow> subfree_loop P r start e vs s
       | Some x \<Rightarrow>
           if pr_offset x < start \<or> \<not> pr_offset x < e then Inl VM_assert
           else subfree_loop P r start e vs (pb_unreferenced P r v s))"

definition map_subfree ::
  "('t, 'y, 'w) vmenv \<Rightarrow> nat \<Rightarrow> nat \<Rightarrow> nat \<Rightarrow> ('t, 'y, 'w) vm \<Rightarrow> vm_stop + ('t, 'y, 'w) vm" where
  "map_subfree P r start len s =
     (let e = wadd start len in subfree_loop P r start e (page_offsets P start e) s)"

definition map_free :: "('t, 'y, 'w) vmenv \<Rightarrow> nat \<Rightarrow> ('t, 'y, 'w) vm \<Rightarrow> vm_stop + ('t, 'y, 'w) vm" where
  "map_free P r s =
     bindE (map_subfree P r 0 (vlength (regions s r)) s) (\<lambda>s.
       let s = (case ev_delete P (memtype (regions s r)) of None \<Rightarrow> s | Some f \<Rightarrow> f r s)
       in Inr (free_region_object r (set_region r ((regions s r)\<lparr>physblocks := []\<rparr>) s)))"

text \<open>The loop of \<open>map_free_proc\<close>; each turn takes one region out of the tree.\<close>

fun free_regions :: "('t, 'y, 'w) vmenv \<Rightarrow> nat \<Rightarrow> nat \<Rightarrow> ('t, 'y, 'w) vm \<Rightarrow> vm_stop + ('t, 'y, 'w) vm" where
  "free_regions P p fuel s =
     (case region_search_root P (tree_of s p) of
        None \<Rightarrow> Inr s
      | Some r \<Rightarrow>
          (case fuel of
             0 \<Rightarrow> Inl VM_endless
           | Suc fuel \<Rightarrow>
               bindE (map_free P r (set_tree p (region_remove P (tree_of s p) (vaddr (regions s r))) s))
                 (free_regions P p fuel)))"

definition map_setparent :: "('t, 'y, 'w) vmenv \<Rightarrow> nat \<Rightarrow> ('t, 'y, 'w) vm \<Rightarrow> ('t, 'y, 'w) vm" where
  "map_setparent P p s =
     fold (\<lambda>r s. set_region r ((regions s r)\<lparr>parent := p\<rparr>) s) (region_inorder P (tree_of s p)) s"

section \<open>Growing and unmapping\<close>

definition roundup :: "nat \<Rightarrow> nat \<Rightarrow> nat" where
  "roundup x y = wadd x (y - 1) div y * y"

definition map_region_extend_upto_v ::
  "('t, 'y, 'w) vmenv \<Rightarrow> nat \<Rightarrow> nat \<Rightarrow> ('t, 'y, 'w) vm \<Rightarrow> ('t, 'y, 'w) vmres" where
  "map_region_extend_upto_v P p v s =
     (let offset = roundup v (VM_PAGE_SIZE P) in
      case region_search P (tree_of s p) offset AVL_LESS of
        None \<Rightarrow> Inr (ENOMEM, s)
      | Some r \<Rightarrow>
          let vr = regions s r in
          if v \<le> wadd (vaddr vr) (vlength vr) then Inr (OK, s)
          else if offset < vaddr vr then Inl VM_assert
          else bindE (phys_slot P (offset - vaddr vr)) (\<lambda>newslots.
            bindE (phys_slot P (vlength vr)) (\<lambda>prevslots.
            if newslots < prevslots then Inl VM_assert
            else if realloc_fails P newslots s then Inr (ENOMEM, s)
            else let s = set_region r (vr\<lparr>physblocks := take prevslots (physblocks vr)
                             @ replicate (newslots - prevslots) None\<rparr>) s
            in bindE (getnextvr P r s) (\<lambda>nextvr.
              if (case nextvr of None \<Rightarrow> False | Some n \<Rightarrow> vaddr (regions s n) < offset) then Inl VM_assert
              else case ev_resize P (memtype vr) of
                None \<Rightarrow> Inr (ENOMEM, s)
              | Some f \<Rightarrow> Inr (f p r (offset - vaddr vr) s)))))"

text \<open>The loop of \<open>map_unmap_region\<close> that moves the physical regions down by \<open>len\<close>.\<close>

fun shift_offsets :: "('t, 'y, 'w) vmenv \<Rightarrow> nat \<Rightarrow> nat list \<Rightarrow> vir_region \<Rightarrow> vm_stop + vir_region" where
  "shift_offsets P len [] vr = Inr vr"
| "shift_offsets P len (v # vs) vr =
     bindE (physblock_get P vr v) (\<lambda>x.
       shift_offsets P len vs
         (case x of
            None \<Rightarrow> vr
          | Some x \<Rightarrow> vr\<lparr>physblocks := (physblocks vr)[v div VM_PAGE_SIZE P :=
                           Some (x\<lparr>pr_offset := wsub (pr_offset x) len\<rparr>)]\<rparr>))"

text \<open>
  \<open>memmove\<close> of \<open>n\<close> pointers from position \<open>d\<close> to the start of the array; what lies behind
  them stays.
\<close>

definition memmove_down :: "nat \<Rightarrow> nat \<Rightarrow> 'a list \<Rightarrow> 'a list" where
  "memmove_down d n xs = take n (drop d xs) @ drop n xs"

definition unmap_start ::
  "('t, 'y, 'w) vmenv \<Rightarrow> nat \<Rightarrow> nat \<Rightarrow> nat \<Rightarrow> nat \<Rightarrow> ('t, 'y, 'w) vm \<Rightarrow> vm_stop + ('t, 'y, 'w) vm" where
  "unmap_start P p r freeslots len s =
     (let s = set_tree p (region_remove P (tree_of s p) (vaddr (regions s r))) s;
          vr = (regions s r)\<lparr>vaddr := wadd (vaddr (regions s r)) len, vlength := vlength (regions s r) - len\<rparr>
      in bindE (phys_slot P (vlength vr)) (\<lambda>remslots.
         let s = link_region P p r (set_region r vr s)
         in bindE (shift_offsets P len (page_offsets P 0 (vlength vr)) vr) (\<lambda>vr.
           Inr (set_region r (if remslots \<noteq> 0
                              then vr\<lparr>physblocks := memmove_down freeslots remslots (physblocks vr)\<rparr>
                              else vr) s))))"

definition map_unmap_region ::
  "('t, 'y, 'w) vmenv \<Rightarrow> nat \<Rightarrow> nat \<Rightarrow> nat \<Rightarrow> nat \<Rightarrow> ('t, 'y, 'w) vm \<Rightarrow> ('t, 'y, 'w) vmres" where
  "map_unmap_region P p r offset len s =
     bindE (phys_slot P len) (\<lambda>freeslots.
       if wadd offset len > vlength (regions s r) \<or> len mod VM_PAGE_SIZE P \<noteq> 0 then Inr (EINVAL, s)
       else let regionstart = wadd (vaddr (regions s r)) offset
       in bindE (map_subfree P r offset len s) (\<lambda>s.
          bindE (if offset = 0 then unmap_start P p r freeslots len s
                 else if wadd offset len = vlength (regions s r)
                 then if vlength (regions s r) < len then Inl VM_assert
                      else Inr (set_region r ((regions s r)\<lparr>vlength := vlength (regions s r) - len\<rparr>) s)
                 else Inr s) (\<lambda>s.
          bindE (if vlength (regions s r) = 0
                 then map_free P r (set_tree p (region_remove P (tree_of s p) (vaddr (regions s r))) s)
                 else Inr s) (\<lambda>s.
          let (e, s) = pt_writemap P p regionstart (MAP_NONE P) len 0 s
          in Inr (if e \<noteq> OK then ENOMEM else OK, s)))))"

section \<open>Copying regions\<close>

fun copy_slots ::
  "('t, 'y, 'w) vmenv \<Rightarrow> nat \<Rightarrow> nat \<Rightarrow> nat list \<Rightarrow> ('t, 'y, 'w) vm \<Rightarrow> vm_stop + (bool \<times> ('t, 'y, 'w) vm)" where
  "copy_slots P vr newvr [] s = Inr (True, s)"
| "copy_slots P vr newvr (i # is) s =
     bindE (physblock_get P (regions s vr) (i * VM_PAGE_SIZE P)) (\<lambda>x.
       case x of
         None \<Rightarrow> copy_slots P vr newvr is s
       | Some x \<Rightarrow>
           let (done, s) = pb_reference P (ph x) (pr_offset x) newvr s in
           if done then copy_slots P vr newvr is s
           else bindE (map_free P newvr s) (\<lambda>s. Inr (False, s)))"

definition map_copy_region ::
  "('t, 'y, 'w) vmenv \<Rightarrow> nat \<Rightarrow> ('t, 'y, 'w) vm \<Rightarrow> vm_stop + (nat option \<times> ('t, 'y, 'w) vm)" where
  "map_copy_region P vr s =
     (let x = regions s vr in
      bindE (region_new P (parent x) (vaddr x) (vlength x) (vflags x) (memtype x) s) (\<lambda>(new, s).
        case new of
          None \<Rightarrow> Inr (None, s)
        | Some newvr \<Rightarrow>
            let (e, s) = (case ev_copy P (memtype x) of None \<Rightarrow> (OK, s) | Some f \<Rightarrow> f vr newvr s) in
            if e \<noteq> OK then bindE (map_free P newvr s) (\<lambda>s. Inr (None, s))
            else bindE (phys_slot P (vlength (regions s vr))) (\<lambda>slots.
              bindE (copy_slots P vr newvr [0..<slots] s) (\<lambda>(done, s).
                Inr (if done then Some newvr else None, s)))))"

fun writept_pages ::
  "('t, 'y, 'w) vmenv \<Rightarrow> nat \<Rightarrow> nat \<Rightarrow> nat list \<Rightarrow> ('t, 'y, 'w) vm \<Rightarrow> ('t, 'y, 'w) vmres" where
  "writept_pages P p r [] s = Inr (OK, s)"
| "writept_pages P p r (v # vs) s =
     bindE (physblock_get P (regions s r) v) (\<lambda>x.
       case x of
         None \<Rightarrow> writept_pages P p r vs s
       | Some _ \<Rightarrow> bindE (map_ph_writept P p r v s) (\<lambda>(e, s).
           if e \<noteq> OK then Inr (e, s) else writept_pages P p r vs s))"

fun writept_regions ::
  "('t, 'y, 'w) vmenv \<Rightarrow> nat \<Rightarrow> nat list \<Rightarrow> ('t, 'y, 'w) vm \<Rightarrow> ('t, 'y, 'w) vmres" where
  "writept_regions P p [] s = Inr (OK, s)"
| "writept_regions P p (r # rs) s =
     bindE (writept_pages P p r (page_offsets P 0 (vlength (regions s r))) s) (\<lambda>(e, s).
       if e \<noteq> OK then Inr (e, s) else writept_regions P p rs s)"

definition map_writept :: "('t, 'y, 'w) vmenv \<Rightarrow> nat \<Rightarrow> ('t, 'y, 'w) vm \<Rightarrow> ('t, 'y, 'w) vmres" where
  "map_writept P p s = writept_regions P p (region_inorder P (tree_of s p)) s"

end
