(* ===== verification/Region_Page.thy ===== *)
theory Region_Page
  imports Region_Slot Region_Map
begin

text \<open>
  Page faults and new regions in \<open>region.c\<close>. A page fault leaves the layout of every region as
  it was and, when it succeeds, the page is present; \<open>map_page_region\<close> puts the new region in
  a free range and so keeps the process well laid out.
\<close>

section \<open>Changing only the pages of a region\<close>

definition keeps_slots :: "('t, 'y, 'w) vmenv \<Rightarrow> nat \<Rightarrow> ('t, 'y, 'w) vm \<Rightarrow> ('t, 'y, 'w) vm \<Rightarrow> bool" where
  "keeps_slots P r s s' \<longleftrightarrow> vmprocs s' = vmprocs s \<and> next_region s' = next_region s \<and>
     (\<exists>bs. regions s' = (regions s)(r := (regions s r)\<lparr>physblocks := bs\<rparr>)
        \<and> length bs = length (physblocks (regions s r))
        \<and> (\<forall>i < length bs. bs ! i = physblocks (regions s r) ! i \<or> bs ! i = None
              \<or> (\<exists>x. bs ! i = Some x \<and> pr_offset x = i * VM_PAGE_SIZE P)))"

lemma keeps_slots_refl: "keeps_slots P r s s"
  unfolding keeps_slots_def by (intro conjI exI[of _ "physblocks (regions s r)"]) simp_all

lemma keeps_slots_trans:
  assumes "keeps_slots P r s s'" and "keeps_slots P r s' s''"
  shows "keeps_slots P r s s''"
proof -
  obtain bs where bs: "regions s' = (regions s)(r := (regions s r)\<lparr>physblocks := bs\<rparr>)"
    "length bs = length (physblocks (regions s r))"
    "\<forall>i < length bs. bs ! i = physblocks (regions s r) ! i \<or> bs ! i = None
        \<or> (\<exists>x. bs ! i = Some x \<and> pr_offset x = i * VM_PAGE_SIZE P)"
    using assms(1) unfolding keeps_slots_def by blast
  obtain cs where cs: "regions s'' = (regions s')(r := (regions s' r)\<lparr>physblocks := cs\<rparr>)"
    "length cs = length (physblocks (regions s' r))"
    "\<forall>i < length cs. cs ! i = physblocks (regions s' r) ! i \<or> cs ! i = None
        \<or> (\<exists>x. cs ! i = Some x \<and> pr_offset x = i * VM_PAGE_SIZE P)"
    using assms(2) unfolding keeps_slots_def by blast
  have "regions s'' = (regions s)(r := (regions s r)\<lparr>physblocks := cs\<rparr>)" "length cs = length bs"
    using cs(1,2) by (simp_all add: bs(1))
  moreover have "\<forall>i < length cs. cs ! i = physblocks (regions s r) ! i \<or> cs ! i = None
        \<or> (\<exists>x. cs ! i = Some x \<and> pr_offset x = i * VM_PAGE_SIZE P)"
    using cs(2,3) bs(3) by (simp add: bs(1)) metis
  ultimately show ?thesis
    using assms bs(2) unfolding keeps_slots_def by (metis (no_types, lifting))
qed

lemma keeps_slotsD:
  assumes "keeps_slots P r s s'"
  shows "vmprocs s' = vmprocs s" "next_region s' = next_region s" "q \<noteq> r \<Longrightarrow> regions s' q = regions s q"
    and "vaddr (regions s' r) = vaddr (regions s r)" "vlength (regions s' r) = vlength (regions s r)"
    and "parent (regions s' r) = parent (regions s r)" "vflags (regions s' r) = vflags (regions s r)"
    and "memtype (regions s' r) = memtype (regions s r)"
    and "length (physblocks (regions s' r)) = length (physblocks (regions s r))"
    and "region_ok P (regions s r) \<Longrightarrow> region_ok P (regions s' r)"
proof -
  obtain bs where bs: "vmprocs s' = vmprocs s" "next_region s' = next_region s"
    "regions s' = (regions s)(r := (regions s r)\<lparr>physblocks := bs\<rparr>)"
    "length bs = length (physblocks (regions s r))"
    "\<forall>i < length bs. bs ! i = physblocks (regions s r) ! i \<or> bs ! i = None
        \<or> (\<exists>x. bs ! i = Some x \<and> pr_offset x = i * VM_PAGE_SIZE P)"
    using assms unfolding keeps_slots_def by blast
  then show "vmprocs s' = vmprocs s" "next_region s' = next_region s" "q \<noteq> r \<Longrightarrow> regions s' q = regions s q"
    "vaddr (regions s' r) = vaddr (regions s r)" "vlength (regions s' r) = vlength (regions s r)"
    "parent (regions s' r) = parent (regions s r)" "vflags (regions s' r) = vflags (regions s r)"
    "memtype (regions s' r) = memtype (regions s r)"
    "length (physblocks (regions s' r)) = length (physblocks (regions s r))"
    by simp_all
  assume ok: "region_ok P (regions s r)"
  have "pr_offset x = i * VM_PAGE_SIZE P"
    if "i < vlength (regions s r) div VM_PAGE_SIZE P" "bs ! i = Some x" for i x
    using bs(4) bs(5)[rule_format, of i] that ok by (auto simp: region_ok_def)
  then show "region_ok P (regions s' r)" using ok bs(3,4) by (simp add: region_ok_def)
qed

text \<open>
  What a page fault relies on: reference counting, page faults of a memory type and the page
  table change at most the slots of the region at hand; a successful \<open>pb_reference\<close> fills the
  slot, and a successful page fault of the memory type leaves it filled.
\<close>

definition fault_laws :: "('t, 'y, 'w) vmenv \<Rightarrow> bool" where
  "fault_laws P \<longleftrightarrow>
     (\<forall>r off s. keeps_slots P r s (pb_unreferenced P r off s)) \<and>
     (\<forall>b off r s. VM_PAGE_SIZE P dvd off \<longrightarrow> keeps_slots P r s (snd (pb_reference P b off r s))) \<and>
     (\<forall>b off r s. VM_PAGE_SIZE P dvd off \<longrightarrow> fst (pb_reference P b off r s) \<longrightarrow>
        off div VM_PAGE_SIZE P < length (physblocks (regions s r)) \<longrightarrow>
        entry_at P (snd (pb_reference P b off r s)) r off \<noteq> None) \<and>
     (\<forall>r a s. keeps_slots P r s (snd (pb_new P a s))) \<and>
     (\<forall>r b s. keeps_slots P r s (pb_free P b s)) \<and>
     (\<forall>r p v a n f s. keeps_slots P r s (snd (pt_writemap P p v a n f s))
        \<and> physblocks (regions (snd (pt_writemap P p v a n f s)) r) = physblocks (regions s r)) \<and>
     (\<forall>m f p r off w s. ev_pagefault P m = Some f \<longrightarrow> keeps_slots P r s (snd (f p r off w s))
        \<and> (entry_at P s r off \<noteq> None \<longrightarrow> fst (f p r off w s) = OK \<longrightarrow> entry_at P (snd (f p r off w s)) r off \<noteq> None)) \<and>
     (\<forall>m f r s. ev_new P m = Some f \<longrightarrow> keeps_slots P r s (snd (f r s)))"

lemma map_ph_writept_keeps:
  assumes "fault_laws P" and "map_ph_writept P p r off s = Inr (e, s')"
  shows "keeps_slots P r s s'" "physblocks (regions s' r) = physblocks (regions s r)"
proof -
  obtain v a n f where "s' = snd (pt_writemap P p v a n f s)"
    using assms(2)
    by (auto simp: map_ph_writept_def Let_def bindE_convs split: option.splits if_splits prod.splits) (metis snd_conv)+
  then show "keeps_slots P r s s'" "physblocks (regions s' r) = physblocks (regions s r)"
    using assms(1) by (simp_all add: fault_laws_def)
qed

lemma fault_lawsD:
  assumes "fault_laws P"
  shows "keeps_slots P r s (pb_unreferenced P r off s)"
    and "pb_reference P b off r s = (d, s') \<Longrightarrow> VM_PAGE_SIZE P dvd off \<Longrightarrow> keeps_slots P r s s'"
    and "pb_reference P b off r s = (True, s') \<Longrightarrow> VM_PAGE_SIZE P dvd off \<Longrightarrow> off div VM_PAGE_SIZE P < length (physblocks (regions s r)) \<Longrightarrow>
           entry_at P s' r off \<noteq> None"
    and "pb_new P a s = (nb, s') \<Longrightarrow> keeps_slots P r s s'"
    and "keeps_slots P r s (pb_free P b s)"
    and "ev_pagefault P m = Some f \<Longrightarrow> f p r off w s = (e, s') \<Longrightarrow> keeps_slots P r s s'"
    and "ev_pagefault P m = Some f \<Longrightarrow> f p r off w s = (OK, s') \<Longrightarrow> entry_at P s r off \<noteq> None \<Longrightarrow>
           entry_at P s' r off \<noteq> None"
    and "ev_new P m = Some g \<Longrightarrow> g r s = (e, s') \<Longrightarrow> keeps_slots P r s s'"
  using assms unfolding fault_laws_def by (metis fst_conv snd_conv)+

lemma resolve_fault_keeps:
  assumes laws: "fault_laws P" and res: "resolve_fault P p r off wr s = Inr (e, s')"
    and here: "entry_at P s r off \<noteq> None"
  shows "keeps_slots P r s s' \<and> (e = OK \<longrightarrow> entry_at P s' r off \<noteq> None)"
proof -
  obtain w where w: "mt_writable P (memtype (regions s r)) = Some w"
    using res by (auto simp: resolve_fault_def split: option.splits)
  show ?thesis
  proof (cases "\<not> wr \<or> \<not> w r off s")
    case False
    then have "map_ph_writept P p r off s = Inr (e, s')" using res w by (simp add: resolve_fault_def)
    from map_ph_writept_keeps[OF laws this] show ?thesis using here by simp
  next
    case True
    then obtain f where f: "ev_pagefault P (memtype (regions s r)) = Some f"
      using res w by (auto simp: resolve_fault_def split: option.splits)
    obtain e1 s1 where s1: "f p r off wr s = (e1, s1)" by fastforce
    note keep = fault_lawsD(6)[OF laws f s1]
    show ?thesis
    proof (cases "e1 = OK")
      case True
      then have wp: "map_ph_writept P p r off s1 = Inr (e, s')"
        using res w f s1 \<open>\<not> wr \<or> \<not> w r off s\<close> by (auto simp: resolve_fault_def OK_def SUSPEND_def split: if_splits)
      have "entry_at P s1 r off \<noteq> None" using fault_lawsD(7)[OF laws f _ here] s1 True by blast
      then show ?thesis
        using map_ph_writept_keeps[OF laws wp] keeps_slots_trans[OF keep] by simp
    next
      case False
      then have "s' = pb_unreferenced P r off s1" "e = e1"
        using res w f s1 True by (auto simp: resolve_fault_def split: if_splits)
      then show ?thesis using False keeps_slots_trans[OF keep fault_lawsD(1)[OF laws]] by simp
    qed
  qed
qed

lemma map_pf_keeps:
  assumes laws: "fault_laws P" and reg: "region_ok P (regions s r)" and res: "map_pf P p r offset wr s = Inr (e, s')"
  shows "keeps_slots P r s s' \<and> (e = OK \<longrightarrow> entry_at P s' r (offset - offset mod VM_PAGE_SIZE P) \<noteq> None)"
proof -
  define off where "off = offset - offset mod VM_PAGE_SIZE P"
  have dvd: "VM_PAGE_SIZE P dvd off" by (simp add: off_def)
  have lt: "off < vlength (regions s r)" using res by (auto simp: map_pf_def Let_def off_def split: if_splits)
  have get: "physblock_get P (regions s r) off = Inr (entry_at P s r off)"
    using physblock_get_ok[OF reg lt dvd] .
  have idx: "off div VM_PAGE_SIZE P < length (physblocks (regions s r))"
    using slot_index[OF reg lt dvd] reg by (simp add: region_ok_def)
  show ?thesis
  proof (cases "entry_at P s r off")
    case (Some x)
    then have "resolve_fault P p r off wr s = Inr (e, s')"
      using res get by (auto simp: map_pf_def Let_def off_def[symmetric] split: if_splits)
    then show ?thesis using resolve_fault_keeps[OF laws] Some unfolding off_def by blast
  next
    case None
    obtain nb s1 where s1: "pb_new P (MAP_NONE P) s = (nb, s1)" by fastforce
    note k1 = fault_lawsD(4)[OF laws s1, of r]
    show ?thesis
    proof (cases nb)
      case None
      then have "s' = s1" "e = ENOMEM"
        using res get s1 \<open>entry_at P s r off = None\<close> by (auto simp: map_pf_def Let_def off_def[symmetric] split: if_splits)
      then show ?thesis using k1 by (simp add: OK_def ENOMEM_def)
    next
      case (Some b)
      obtain d s2 where s2: "pb_reference P b off r s1 = (d, s2)" by fastforce
      note k2 = keeps_slots_trans[OF k1 fault_lawsD(2)[OF laws s2 dvd]]
      have alt: "if d then resolve_fault P p r off wr s2 = Inr (e, s') else e = ENOMEM \<and> s' = pb_free P b s2"
        using res get s1 s2 Some \<open>entry_at P s r off = None\<close>
        by (auto simp: map_pf_def Let_def off_def[symmetric] split: if_splits bool.splits)
      show ?thesis
      proof (cases d)
        case True
        have "entry_at P s2 r off \<noteq> None"
          using fault_lawsD(3)[OF laws, of b off r s1 s2] s2 True dvd idx keeps_slotsD(9)[OF k1] by simp
        then show ?thesis
          using resolve_fault_keeps[OF laws, of p r off wr s2 e s'] alt True keeps_slots_trans[OF k2]
          unfolding off_def by simp
      next
        case False
        then show ?thesis using alt keeps_slots_trans[OF k2 fault_lawsD(5)[OF laws]] by (simp add: OK_def ENOMEM_def)
      qed
    qed
  qed
qed

lemma handle_pages_keeps:
  assumes "fault_laws P" and "region_ok P (regions s r)" and "handle_pages P p r wr offs s = Inr (e, s')"
  shows "keeps_slots P r s s'"
  using assms(2,3)
proof (induction offs arbitrary: s)
  case (Cons off offs)
  obtain e1 s1 where s1: "map_pf P p r off wr s = Inr (e1, s1)"
    using Cons.prems(2) by (auto simp: bindE_convs)
  have k: "keeps_slots P r s s1" using map_pf_keeps[OF assms(1) Cons.prems(1) s1] by simp
  show ?case
    using Cons.IH[of s1] Cons.prems s1 k keeps_slotsD(10)[OF k] keeps_slots_trans[OF k]
    by (auto split: if_splits)
qed (simp add: keeps_slots_refl)

section \<open>New regions\<close>

lemma map_handle_memory_keeps:
  assumes "fault_laws P" and "region_ok P (regions s r)" and "map_handle_memory P p r start n wr s = Inr (e, s')"
  shows "keeps_slots P r s s'"
  using assms(3) handle_pages_keeps[OF assms(1,2)]
  by (auto simp: map_handle_memory_def Let_def split: if_splits)

text \<open>A fresh object for a region, and a change to it, do not touch the process's regions.\<close>

definition fresh_region :: "('t \<Rightarrow> nat \<rightharpoonup> nat) \<Rightarrow> nat \<Rightarrow> ('t, 'y, 'w) vm \<Rightarrow> bool" where
  "fresh_region c p s \<longleftrightarrow> (\<forall>k r. c (tree_of s p) k = Some r \<longrightarrow> r < next_region s)"

lemma regions_ok_frame:
  assumes "regions_ok P c p s" and "tree_of s' p = tree_of s p"
    and "\<And>k q. c (tree_of s p) k = Some q \<Longrightarrow> regions s' q = regions s q"
  shows "regions_ok P c p s'"
  using assms(1) unfolding regions_ok_def assms(2) by (metis assms(3))

lemma regions_ok_insert:
  assumes ok: "regions_ok P c p s" "avl_laws P c"
    and slot: "free_range c p s (vaddr (regions s r)) (vlength (regions s r))"
    and reg: "region_ok P (regions s r)" "parent (regions s r) = p"
  shows "regions_ok P c p (link_region P p r s)"
    and "c (tree_of (link_region P p r s) p) = (c (tree_of s p))(vaddr (regions s r) \<mapsto> r)"
proof -
  let ?v = "vaddr (regions s r)" and ?n = "vlength (regions s r)" and ?t = "tree_of s p"
  have n: "0 < ?n" using reg by (simp add: region_ok_def)
  have pos: "0 < vlength (regions s q)" if "c ?t k = Some q" for k q
    using regions_okD(3)[OF ok(1) that] by (simp add: region_ok_def)
  have apart: "?v + ?n \<le> k \<or> k + vlength (regions s q) \<le> ?v" if "c ?t k = Some q" for k q
    using slot that by (simp add: free_range_def)
  have none: "c ?t ?v = None"
    using apart[of ?v] pos[of ?v] n by (cases "c ?t ?v") fastforce+
  have tree: "tree_of (link_region P p r s) p = region_insert P ?t ?v r" "regions (link_region P p r s) = regions s"
    by (simp_all add: link_region_def set_tree_def)
  show cont: "c (tree_of (link_region P p r s) p) = (c ?t)(?v \<mapsto> r)"
    unfolding tree by (rule avl_lawsD(4)[OF ok(2) none])
  show "regions_ok P c p (link_region P p r s)"
    unfolding regions_ok_def cont tree(2)
  proof (intro conjI allI impI)
    fix k q assume k: "((c ?t)(?v \<mapsto> r)) k = Some q"
    show "vaddr (regions s q) = k" "parent (regions s q) = p" "region_ok P (regions s q)"
      using k regions_okD[OF ok(1), of k q] reg by (auto split: if_splits)
    fix k' q' assume k': "((c ?t)(?v \<mapsto> r)) k' = Some q'" "k < k'"
    show "k + vlength (regions s q) \<le> k'"
    proof (cases "k = ?v \<or> k' = ?v")
      case True
      then show ?thesis using k k' apart[of k' q'] apart[of k q] pos[of k' q'] n by (auto split: if_splits)
    next
      case False
      then show ?thesis using k k' regions_ok_apart[OF ok(1), of k q k' q'] by simp
    qed
  qed
qed

text \<open>The new object of \<open>region_new\<close>.\<close>

lemma region_new_result:
  assumes "region_new P p v n flags mt s = Inr (new, s')" and "space_ok P" and "VM_PAGE_SIZE P dvd n"
  shows "vmprocs s' = vmprocs s" and "q \<noteq> next_region s \<Longrightarrow> regions s' q = regions s q"
    and "new = Some r \<Longrightarrow> r = next_region s \<and> regions s' r = \<lparr>vaddr = v, vlength = n, vflags = flags, memtype = mt,
           remaps = 0, vr_id = region_ids s, physblocks = replicate (n div VM_PAGE_SIZE P) None, parent = p\<rparr>"
  using assms
  by (auto simp: region_new_def phys_slot_def Let_def set_region_def free_region_object_def split: if_splits)

lemma region_new_total: "VM_PAGE_SIZE P dvd n \<Longrightarrow> \<exists>new s'. region_new P p v n flags mt s = Inr (new, s')"
  by (auto simp: region_new_def phys_slot_def Let_def)

lemma frame_new:
  assumes "regions_ok P c p s" and "r \<notin> ran (c (tree_of s p))"
    and "tree_of s' p = tree_of s p" and "\<forall>q. q \<noteq> r \<longrightarrow> regions s' q = regions s q"
  shows "regions_ok P c p s'" and "free_range c p s' v n \<longleftrightarrow> free_range c p s v n"
proof -
  have same: "regions s' q = regions s q" if "c (tree_of s p) k = Some q" for k q
    using assms(2,4) ranI[of "c (tree_of s p)"] that by metis
  show "regions_ok P c p s'" using regions_ok_frame[OF assms(1,3) same] .
  show "free_range c p s' v n \<longleftrightarrow> free_range c p s v n"
    unfolding free_range_def assms(3) using same by metis
qed

lemma finish_region_total: "mapflags AND MF_PREALLOC P = 0 \<Longrightarrow> \<exists>new s'. finish_region P p r n mapflags s = Inr (new, s')"
  by (auto simp: finish_region_def Let_def split: prod.split)

lemma finish_region_keeps:
  assumes ok: "regions_ok P c p s" "avl_laws P c" "fault_laws P"
    and other: "r \<notin> ran (c (tree_of s p))"
    and reg: "region_ok P (regions s r)" "parent (regions s r) = p" "vaddr (regions s r) = v" "vlength (regions s r) = n"
    and slot: "free_range c p s v n"
    and res: "finish_region P p r n mapflags s = Inr (new, s')"
  shows "regions_ok P c p s' \<and> (case new of None \<Rightarrow> c (tree_of s' p) = c (tree_of s p)
     | Some q \<Rightarrow> q = r \<and> c (tree_of s' p) = (c (tree_of s p))(v \<mapsto> r) \<and> vlength (regions s' r) = n)"
proof -
  obtain e1 s1 where s1: "(case ev_new P (memtype (regions s r)) of None \<Rightarrow> (OK, s) | Some f \<Rightarrow> f r s) = (e1, s1)"
    by fastforce
  have k1: "keeps_slots P r s s1"
  proof (cases "ev_new P (memtype (regions s r))")
    case None
    then show ?thesis using s1 keeps_slots_refl by auto
  next
    case (Some f)
    then show ?thesis using s1 fault_lawsD(8)[OF ok(3) Some] by simp
  qed
  have ok1: "regions_ok P c p s1"
    using keeps_slotsD(1,3)[OF k1] by (intro frame_new(1)[OF ok(1) other]) simp_all
  show ?thesis
  proof (cases "e1 = OK")
    case False
    then have "new = None" "s' = s1" using res s1 by (simp_all add: finish_region_def)
    then show ?thesis using ok1 keeps_slotsD(1)[OF k1] by simp
  next
    case True
    let ?pre = "if mapflags AND MF_PREALLOC P \<noteq> 0 then map_handle_memory P p r 0 n True s1 else Inr (OK, s1)"
    obtain e2 s2 where s2: "?pre = Inr (e2, s2)"
    proof (cases ?pre)
      case (Inl x)
      then show ?thesis using res s1 True by (simp add: finish_region_def)
    next
      case (Inr x)
      then show ?thesis using that by (cases x) blast
    qed
    have k: "keeps_slots P r s s2"
      using s2 k1 keeps_slots_trans[OF k1 map_handle_memory_keeps[OF ok(3) keeps_slotsD(10)[OF k1 reg(1)]]]
      by (auto split: if_splits)
    note kD = keeps_slotsD[OF k]
    show ?thesis
    proof (cases "e2 = OK")
      case False
      then have "new = None" "s' = free_region_object r (set_region r ((regions s2 r)\<lparr>physblocks := []\<rparr>) s2)"
        using res s1 True s2 by (simp_all add: finish_region_def)
      moreover from this have "regions_ok P c p s'"
        using kD(1,3) by (intro frame_new(1)[OF ok(1) other]) (simp_all add: free_region_object_def set_region_def)
      ultimately show ?thesis using kD(1) by (simp add: free_region_object_def set_region_def)
    next
      case ok2: True
      define s3 where "s3 = set_region r ((regions s2 r)\<lparr>vflags := vflags (regions s2 r) AND NOT (VR_UNINITIALIZED P)\<rparr>) s2"
      have new: "new = Some r" "s' = link_region P p r s3"
        using res s1 True s2 ok2 by (simp_all add: finish_region_def s3_def)
      have s3: "tree_of s3 p = tree_of s p" "\<forall>q. q \<noteq> r \<longrightarrow> regions s3 q = regions s q"
        using kD(1,3) by (simp_all add: s3_def set_region_def)
      have reg3: "region_ok P (regions s3 r)" "parent (regions s3 r) = p" "vaddr (regions s3 r) = v"
        "vlength (regions s3 r) = n"
        using kD(10)[OF reg(1)] kD(4,5,6) reg(2-4)
        by (simp_all add: s3_def set_region_def region_ok_def[of _ "x\<lparr>vflags := f\<rparr>" for x f] region_ok_def[of P "regions s2 r"])
      have ok3: "regions_ok P c p s3" by (rule frame_new(1)[OF ok(1) other s3])
      have free3: "free_range c p s3 (vaddr (regions s3 r)) (vlength (regions s3 r))"
        unfolding reg3(3,4) by (rule frame_new(2)[OF ok(1) other s3, THEN iffD2, OF slot])
      note ins = regions_ok_insert[OF ok3 ok(2) free3 reg3(1,2), unfolded reg3(3) s3(1)]
      have "vlength (regions s' r) = n" using new(2) reg3(4) by (simp add: link_region_def set_tree_def)
      then show ?thesis using new ins by simp
    qed
  qed
qed

text \<open>
  Up to \<open>finish_region\<close>: either nothing is added, or a new region that is not yet in the tree and
  that covers a free range.
\<close>

lemma map_page_region_starts:
  assumes "regions_ok P c p s" and "avl_laws P c" and "space_ok P" and "fresh_region c p s"
    and "c (tree_of s p) 0 = None" and "vm_region_top (vmprocs s p) \<noteq> minv" and "slot_request P minv maxv n"
    and "VM_PAGE_SIZE P dvd maxv" and "VM_PAGE_SIZE P dvd vm_region_top (vmprocs s p)"
  obtains (nothing) s1 where "map_page_region P p minv maxv n flags mapflags mt s = Inr (None, s1)"
      "regions_ok P c p s1" "tree_of s1 p = tree_of s p"
    | (begun) r v s1 where "map_page_region P p minv maxv n flags mapflags mt s = finish_region P p r n mapflags s1"
      "regions_ok P c p s1" "tree_of s1 p = tree_of s p" "r \<notin> ran (c (tree_of s1 p))" "region_ok P (regions s1 r)"
      "parent (regions s1 r) = p" "vaddr (regions s1 r) = v" "vlength (regions s1 r) = n" "free_range c p s1 v n"
      "minv \<le> v" "v + n \<le> maxv" "free_range c p s v n"
proof -
  have n: "VM_PAGE_SIZE P dvd n" "n mod VM_PAGE_SIZE P = 0" "0 < n" using assms(7) by (auto simp: slot_request_def)
  from find_slot_spec [OF assms(1-3,5-7)] show thesis
  proof (elim disjE exE conjE)
    assume "region_find_slot P p minv maxv n s = Inr (SLOT_FAIL, s)"
    then have "map_page_region P p minv maxv n flags mapflags mt s = Inr (None, s)"
      using n by (simp add: map_page_region_def)
    then show thesis using assms(1) by (rule nothing) (rule refl)
  next
    fix v assume v: "region_find_slot P p minv maxv n s = Inr (v, with_top p (v + n) s)" "v \<noteq> SLOT_FAIL"
      "is_slot P c p s minv maxv n v" "VM_PAGE_SIZE P dvd maxv \<longrightarrow> VM_PAGE_SIZE P dvd vm_region_top (vmprocs s p)
        \<longrightarrow> VM_PAGE_SIZE P dvd v"
    obtain new1 s1 where s1: "region_new P p v n flags mt (with_top p (v + n) s) = Inr (new1, s1)"
      using region_new_total [OF n(1)] by metis
    note nw = region_new_result [OF s1 assms(3) n(1)]
    have other: "next_region s \<notin> ran (c (tree_of s p))" using assms(4) by (auto simp: fresh_region_def ran_def)
    have tree1: "tree_of s1 p = tree_of s p" and same1: "\<forall>q. q \<noteq> next_region s \<longrightarrow> regions s1 q = regions s q"
      using nw(1,2) by simp_all
    note ok1 = frame_new [OF assms(1) other tree1 same1]
    have unf: "map_page_region P p minv maxv n flags mapflags mt s =
        (case new1 of None \<Rightarrow> Inr (None, s1) | Some r \<Rightarrow> finish_region P p r n mapflags s1)"
      using v(1,2) n s1 by (simp add: map_page_region_def)
    show thesis
    proof (cases new1)
      case None
      with unf have "map_page_region P p minv maxv n flags mapflags mt s = Inr (None, s1)" by simp
      then show thesis using ok1(1) tree1 by (rule nothing)
    next
      case (Some r)
      then have r: "r = next_region s" and reg: "vaddr (regions s1 r) = v" "vlength (regions s1 r) = n"
        "parent (regions s1 r) = p" "physblocks (regions s1 r) = replicate (n div VM_PAGE_SIZE P) None"
        using nw(3) [OF Some] by auto
      have rok: "region_ok P (regions s1 r)"
        using reg n v(3,4) assms(8,9) by (simp add: region_ok_def is_slot_def)
      have "map_page_region P p minv maxv n flags mapflags mt s = finish_region P p r n mapflags s1" using unf Some by simp
      then show thesis
        using ok1(1) tree1 _ rok reg(3,1,2)
        by (rule begun) (use other tree1 r ok1(2) v(3) in \<open>simp_all add: is_slot_def\<close>)
    qed
  qed
qed

lemma map_page_region_hint_asserts:
  assumes "vm_region_top (vmprocs s p) = minv" and "0 < minv" and "slot_request P minv maxv n"
  shows "map_page_region P p minv maxv n flags mapflags mt s = Inl VM_assert"
proof -
  have "region_find_slot P p minv maxv n s = Inl VM_assert"
    using assms by (simp add: region_find_slot_def region_find_slot_range_def slot_request_def)
  then show ?thesis using assms(3) by (auto simp: map_page_region_def slot_request_def)
qed

lemma map_page_region_layout:
  assumes "regions_ok P c p s" and "avl_laws P c" and "space_ok P" and "fault_laws P" and "fresh_region c p s"
    and "c (tree_of s p) 0 = None" and "vm_region_top (vmprocs s p) \<noteq> minv" and "slot_request P minv maxv n"
    and "VM_PAGE_SIZE P dvd maxv" and "VM_PAGE_SIZE P dvd vm_region_top (vmprocs s p)"
  shows "(mapflags AND MF_PREALLOC P = 0 \<longrightarrow>
            (\<exists>new s'. map_page_region P p minv maxv n flags mapflags mt s = Inr (new, s')))
     \<and> (\<forall>new s'. map_page_region P p minv maxv n flags mapflags mt s = Inr (new, s') \<longrightarrow>
           regions_ok P c p s'
           \<and> (case new of
                None \<Rightarrow> c (tree_of s' p) = c (tree_of s p)
              | Some r \<Rightarrow> \<exists>v. c (tree_of s' p) = (c (tree_of s p))(v \<mapsto> r) \<and> vlength (regions s' r) = n
                           \<and> minv \<le> v \<and> v + n \<le> maxv \<and> free_range c p s v n))"
proof (rule map_page_region_starts [OF assms(1-3,5-10), of flags mapflags mt])
  fix s1 assume "map_page_region P p minv maxv n flags mapflags mt s = Inr (None, s1)" "regions_ok P c p s1"
    "tree_of s1 p = tree_of s p"
  then show ?thesis by simp
next
  fix r v s1
  assume unf: "map_page_region P p minv maxv n flags mapflags mt s = finish_region P p r n mapflags s1"
    and begun: "regions_ok P c p s1" "tree_of s1 p = tree_of s p" "r \<notin> ran (c (tree_of s1 p))" "region_ok P (regions s1 r)"
      "parent (regions s1 r) = p" "vaddr (regions s1 r) = v" "vlength (regions s1 r) = n" "free_range c p s1 v n"
    and rng: "minv \<le> v" "v + n \<le> maxv" "free_range c p s v n"
  note fin = finish_region_keeps [OF begun(1) assms(2,4) begun(3-8), unfolded begun(2)]
  show ?thesis
  proof (intro conjI impI allI)
    show "\<exists>new s'. map_page_region P p minv maxv n flags mapflags mt s = Inr (new, s')"
      if "mapflags AND MF_PREALLOC P = 0"
      using unf finish_region_total [OF that] by simp
    fix new s' assume "map_page_region P p minv maxv n flags mapflags mt s = Inr (new, s')"
    note fin = fin [OF this [unfolded unf]]
    then show "regions_ok P c p s'" by simp
    show "case new of None \<Rightarrow> c (tree_of s' p) = c (tree_of s p)
        | Some r \<Rightarrow> \<exists>v. c (tree_of s' p) = (c (tree_of s p))(v \<mapsto> r) \<and> vlength (regions s' r) = n
            \<and> minv \<le> v \<and> v + n \<le> maxv \<and> free_range c p s v n"
      using fin rng by (cases new) (simp, simp del: fun_upd_apply, blast)
  qed
qed

text \<open>
  C19. \<open>map_page_region\<close> keeps the layout. For a process whose regions are well laid out and do not
  start at address 0 (\<open>region_at_zero_overlaps\<close> shows what goes wrong there), whose region objects
  have numbers below the next one to be given out, and a request of a positive number of whole
  pages between \<open>minv\<close> and \<open>maxv\<close>, with \<open>maxv\<close> and the hint \<open>vm_region_top\<close> page aligned and not both
  \<open>minv\<close> and the hint 0, with any memory type and flags: when the hint is \<open>minv\<close> the server stops at
  an assertion; otherwise, when the call returns, the regions are well laid out again and
  either nothing was added, or exactly the new region, of the length asked for and in a range
  between \<open>minv\<close> and \<open>maxv\<close> that was free; and without MF_PREALLOC it does return.
\<close>

theorem map_page_region_keeps_layout:
  assumes "regions_ok P c p s" and "avl_laws P c" and "space_ok P" and "fault_laws P" and "fresh_region c p s"
    and "c (tree_of s p) 0 = None" and "0 < minv \<or> vm_region_top (vmprocs s p) \<noteq> minv" and "slot_request P minv maxv n"
    and "VM_PAGE_SIZE P dvd maxv" and "VM_PAGE_SIZE P dvd vm_region_top (vmprocs s p)"
  shows "if vm_region_top (vmprocs s p) = minv
     then map_page_region P p minv maxv n flags mapflags mt s = Inl VM_assert
     else (mapflags AND MF_PREALLOC P = 0 \<longrightarrow>
            (\<exists>new s'. map_page_region P p minv maxv n flags mapflags mt s = Inr (new, s')))
     \<and> (\<forall>new s'. map_page_region P p minv maxv n flags mapflags mt s = Inr (new, s') \<longrightarrow>
           regions_ok P c p s'
           \<and> (case new of
                None \<Rightarrow> c (tree_of s' p) = c (tree_of s p)
              | Some r \<Rightarrow> \<exists>v. c (tree_of s' p) = (c (tree_of s p))(v \<mapsto> r) \<and> vlength (regions s' r) = n
                           \<and> minv \<le> v \<and> v + n \<le> maxv \<and> free_range c p s v n))"
proof (cases "vm_region_top (vmprocs s p) = minv")
  case True
  then show ?thesis using map_page_region_hint_asserts [OF True _ assms(8)] assms(7) by simp
next
  case False
  then show ?thesis using map_page_region_layout [OF assms(1-6) False assms(8-10)] by simp
qed

lemma list_vm_pages:
  "VM_PAGE_SIZE list_vm = 4096"
  "pb_unreferenced list_vm r off s = slot_update r (off div 4096) None
     (case physblocks (regions s r) ! (off div 4096) of None \<Rightarrow> s | Some x \<Rightarrow> count_update (ph x) (\<lambda>n. n - 1) s)"
  "pb_reference list_vm b off r s =
     (True, slot_update r (off div 4096) (Some \<lparr>ph = b, pr_offset = off\<rparr>) (count_update b Suc s))"
  "pb_new list_vm a s = (Some (vm_world s), s\<lparr>vm_world := Suc (vm_world s),
     pblocks := (pblocks s)(vm_world s := \<lparr>phys = a, refcount = 0\<rparr>)\<rparr>)"
  "pb_free list_vm b s = s" "pt_writemap list_vm p v a n f s = (0, s)"
  "ev_pagefault list_vm m = Some (\<lambda>_ _ _ _ s. (0, s))" "ev_new list_vm m = None"
  by (simp_all add: list_vm_def)

lemma keeps_slots_same:
  "vmprocs s' = vmprocs s \<Longrightarrow> next_region s' = next_region s \<Longrightarrow> regions s' = regions s \<Longrightarrow> keeps_slots P r s s'"
  using keeps_slots_refl[of P r s] by (simp add: keeps_slots_def)

lemma keeps_slots_update:
  assumes "\<forall>y. x = Some y \<longrightarrow> pr_offset y = i * VM_PAGE_SIZE P"
  shows "keeps_slots P r s (slot_update r i x s)"
proof -
  have "(physblocks (regions s r))[i := x] ! j = physblocks (regions s r) ! j
      \<or> (physblocks (regions s r))[i := x] ! j = None
      \<or> (\<exists>y. (physblocks (regions s r))[i := x] ! j = Some y \<and> pr_offset y = j * VM_PAGE_SIZE P)"
    if "j < length (physblocks (regions s r))" for j
    using assms that by (cases "j = i"; cases x) auto
  then show ?thesis
    unfolding keeps_slots_def slot_update_def set_region_def
    by (intro conjI exI[of _ "(physblocks (regions s r))[i := x]"]) simp_all
qed

lemma list_vm_fault: "fault_laws list_vm"
proof -
  have counted: "keeps_slots list_vm r s (slot_update r i x (count_update b f s))"
    if "\<forall>y. x = Some y \<longrightarrow> pr_offset y = i * 4096" for r i x s b f
    by (rule keeps_slots_trans[OF keeps_slots_same keeps_slots_update])
      (use that in \<open>simp_all add: count_update_def list_vm_pages(1)\<close>)
  have cleared: "keeps_slots list_vm r s (slot_update r i None s)" for r i s
    by (rule keeps_slots_update) simp
  have unref: "keeps_slots list_vm r s (pb_unreferenced list_vm r off s)" for r off s
    by (cases "physblocks (regions s r) ! (off div 4096)") (simp_all add: list_vm_pages(2) counted cleared)
  have refer: "keeps_slots list_vm r s (snd (pb_reference list_vm b off r s))" if "4096 dvd off" for b off r s
    using that by (simp add: list_vm_pages(3) counted)
  have filled: "\<exists>y. physblocks (regions (snd (pb_reference list_vm b off r s)) r) ! (off div 4096) = Some y"
    if "off div 4096 < length (physblocks (regions s r))" for b off r s
    using that by (simp add: list_vm_pages(3) slot_update_def count_update_def set_region_def)
  show ?thesis
    unfolding fault_laws_def list_vm_pages(1,4-8)
    using unref refer filled by (auto simp: keeps_slots_same keeps_slots_refl list_vm_pages(1))
qed

theorem map_page_region_keeps_layout_witness:
  "\<exists>new s'. map_page_region list_vm 0 4096 65536 8192 1 0 0 two_regions = Inr (new, s') \<and>
     regions_ok list_vm map_of 0 s'"
proof -
  have top: "vm_region_top (vmprocs two_regions 0) = 0" by (simp add: two_regions_def)
  have f: "map_of (tree_of two_regions 0) 0 = None" "0 < (4096::nat) \<or> vm_region_top (vmprocs two_regions 0) \<noteq> 4096"
    "slot_request list_vm 4096 65536 8192" "VM_PAGE_SIZE list_vm dvd 65536"
    "VM_PAGE_SIZE list_vm dvd vm_region_top (vmprocs two_regions 0)" "fresh_region map_of 0 two_regions"
    by (auto simp: two_regions_def slot_request_def list_vm_def VSPACE_def fresh_region_def split: if_splits)
  note th = map_page_region_keeps_layout[OF two_regions_ok list_vm_laws list_vm_fault f(6) f(1-5),
      where flags = 1 and mapflags = 0 and mt = 0, unfolded top]
  then have "\<exists>new s'. map_page_region list_vm 0 4096 65536 8192 1 0 0 two_regions = Inr (new, s')" by simp
  with th show ?thesis by (simp, blast)
qed

end
