(* ===== verification/Region_Yield.thy ===== *)
theory Region_Yield
  imports Region_Map
begin

text \<open>
  The yielded blocks of \<open>region.c\<close>: pages a file server lends to VM and may get back, kept in a
  hash table of trees and in a list from the youngest to the oldest; and the operations of
  \<open>region.c\<close> on whole processes, which also drop their yielded blocks.
\<close>

section \<open>The table and the list\<close>

definition YIELD_HASHSIZE :: nat where "YIELD_HASHSIZE = 65536"

definition map_region_init :: "('t, 'y, 'w) vmenv \<Rightarrow> ('t, 'y, 'w) vm \<Rightarrow> vm_stop + ('t, 'y, 'w) vm" where
  "map_region_init P s =
     (if avl_inited s then Inl VM_assert
      else Inr (s\<lparr>vm_yielded_blocks := (\<lambda>h. if h < YIELD_HASHSIZE then yielded_init P else vm_yielded_blocks s h),
                  avl_inited := True\<rparr>))"

text \<open>The place of the tree of a block in the table.\<close>

definition get_yielded_avl :: "('t, 'y, 'w) vmenv \<Rightarrow> block_id \<Rightarrow> ('t, 'y, 'w) vm \<Rightarrow> vm_stop + nat" where
  "get_yielded_avl P b s =
     (if \<not> avl_inited s then Inl VM_assert else Inr (hash_i_64 P (owner b) (bid b) mod YIELD_HASHSIZE))"

definition yielded_block_cmp :: "('t, 'y, 'w) vmenv \<Rightarrow> block_id \<Rightarrow> block_id \<Rightarrow> int" where
  "yielded_block_cmp P a b =
     (if owner a < owner b then -1 else if owner a > owner b then 1 else cmp64 P (bid a) (bid b))"

definition set_yb :: "nat \<Rightarrow> (yielded \<Rightarrow> yielded) \<Rightarrow> ('t, 'y, 'w) vm \<Rightarrow> ('t, 'y, 'w) vm" where
  "set_yb y f s = s\<lparr>yblocks := (yblocks s)(y := f (yblocks s y))\<rparr>"

definition set_yavl :: "nat \<Rightarrow> 'y \<Rightarrow> ('t, 'y, 'w) vm \<Rightarrow> ('t, 'y, 'w) vm" where
  "set_yavl h t s = s\<lparr>vm_yielded_blocks := (vm_yielded_blocks s)(h := t)\<rparr>"

definition add_yielded :: "nat \<Rightarrow> int \<Rightarrow> ('t, 'y, 'w) vm \<Rightarrow> ('t, 'y, 'w) vm" where
  "add_yielded p d s =
     s\<lparr>vmprocs := (vmprocs s)(p := (vmprocs s p)\<lparr>vm_yielded := vm_yielded (vmprocs s p) + d\<rparr>)\<rparr>"

text \<open>The first part of \<open>freeyieldednode\<close>: out of the list.\<close>

definition lru_unlink :: "nat \<Rightarrow> ('t, 'y, 'w) vm \<Rightarrow> vm_stop + ('t, 'y, 'w) vm" where
  "lru_unlink node s =
     (let yg = younger (yblocks s node); od = older (yblocks s node) in
      bindE (case yg of
               Some y \<Rightarrow> if older (yblocks s y) \<noteq> Some node then Inl VM_assert
                         else Inr (set_yb y (older_update (\<lambda>_. od)) s)
             | None \<Rightarrow> if lru_youngest s \<noteq> Some node then Inl VM_assert
                       else Inr (s\<lparr>lru_youngest := od\<rparr>)) (\<lambda>s.
      case od of
        Some y \<Rightarrow> if younger (yblocks s y) \<noteq> Some node then Inl VM_assert
                  else Inr (set_yb y (younger_update (\<lambda>_. yg)) s)
      | None \<Rightarrow> if lru_oldest s \<noteq> Some node then Inl VM_assert
                else Inr (s\<lparr>lru_oldest := yg\<rparr>)))"

definition freeyieldednode ::
  "('t, 'y, 'w) vmenv \<Rightarrow> nat \<Rightarrow> bool \<Rightarrow> ('t, 'y, 'w) vm \<Rightarrow> vm_stop + (nat \<times> ('t, 'y, 'w) vm)" where
  "freeyieldednode P node freemem s =
     bindE (lru_unlink node s) (\<lambda>s.
       let y = yblocks s node in
       case vm_isokendpt P (owner (yid y)) s of
         None \<Rightarrow> Inl VM_panic
       | Some p \<Rightarrow>
           bindE (get_yielded_avl P (yid y) s) (\<lambda>h.
             let (t, removed) = yielded_remove P (vm_yielded_blocks s h) (yid y) in
             if removed \<noteq> Some node \<or> \<not> vm_yielded (vmprocs s p) > 0 then Inl VM_assert
             else let s = add_yielded p (-1) (set_yavl h t s);
                      s = (if freemem then free_mem P (ABS2CLICK P (physaddr y)) (pages y) s else s)
                  in Inr (VM_PAGE_SIZE P, s\<lparr>freed_yielded := insert node (freed_yielded s)\<rparr>)))"

text \<open>
  \<open>free_yielded\<close>. Every turn frees another block, and there are at most \<open>next_yielded\<close> of
  them, which is the fuel.
\<close>

fun free_oldest ::
  "('t, 'y, 'w) vmenv \<Rightarrow> nat \<Rightarrow> nat \<Rightarrow> nat \<Rightarrow> ('t, 'y, 'w) vm \<Rightarrow> vm_stop + (nat \<times> ('t, 'y, 'w) vm)" where
  "free_oldest P max_bytes fuel freed s =
     (if freed < max_bytes
      then case lru_oldest s of
             None \<Rightarrow> Inr (freed, s)
           | Some y \<Rightarrow>
               (case fuel of
                  0 \<Rightarrow> Inl VM_endless
                | Suc fuel \<Rightarrow> bindE (freeyieldednode P y True s) (\<lambda>(n, s).
                    free_oldest P max_bytes fuel (wadd freed n) s))
      else Inr (freed, s))"

definition free_yielded :: "('t, 'y, 'w) vmenv \<Rightarrow> nat \<Rightarrow> ('t, 'y, 'w) vm \<Rightarrow> vm_stop + (nat \<times> ('t, 'y, 'w) vm)" where
  "free_yielded P max_bytes s = free_oldest P max_bytes (next_yielded s) 0 s"

text \<open>
  The inner loop of \<open>free_yielded_proc\<close>, along one tree: the list is what the iterator meets. After a
  block was freed the iterator is set up again at the block that was next.
\<close>

fun free_along ::
  "('t, 'y, 'w) vmenv \<Rightarrow> int \<Rightarrow> nat \<Rightarrow> nat list \<Rightarrow> nat \<Rightarrow> ('t, 'y, 'w) vm \<Rightarrow> vm_stop + (nat \<times> ('t, 'y, 'w) vm)" where
  "free_along P ep h [] tot s = Inr (tot, s)"
| "free_along P ep h (yb # ybs) tot s =
     (if owner (yid (yblocks s yb)) \<noteq> ep then free_along P ep h ybs tot s
      else bindE (freeyieldednode P yb True s) (\<lambda>(n, s).
        case ybs of
          [] \<Rightarrow> Inr (wadd tot n, s)
        | nxt # _ \<Rightarrow>
            if yielded_search P (vm_yielded_blocks s h) (yid (yblocks s nxt)) \<noteq> Some nxt then Inl VM_assert
            else free_along P ep h ybs (wadd tot n) s))"

function free_hashes ::
  "('t, 'y, 'w) vmenv \<Rightarrow> nat \<Rightarrow> nat \<Rightarrow> nat \<Rightarrow> ('t, 'y, 'w) vm \<Rightarrow> vm_stop + (nat \<times> ('t, 'y, 'w) vm)" where
  "free_hashes P p h tot s =
     (if h < YIELD_HASHSIZE \<and> vm_yielded (vmprocs s p) > 0
      then bindE (free_along P (vm_endpoint (vmprocs s p)) h (yielded_inorder P (vm_yielded_blocks s h)) tot s)
             (\<lambda>(tot, s). free_hashes P p (Suc h) tot s)
      else Inr (tot, s))"
  by auto
termination
  by (relation "measure (\<lambda>(P, p, h, tot, s). YIELD_HASHSIZE - h)") auto

definition free_yielded_proc :: "('t, 'y, 'w) vmenv \<Rightarrow> nat \<Rightarrow> ('t, 'y, 'w) vm \<Rightarrow> vm_stop + (nat \<times> ('t, 'y, 'w) vm)" where
  "free_yielded_proc P p s = free_hashes P p 0 0 s"

fun count_older :: "('t, 'y, 'w) vm \<Rightarrow> nat \<Rightarrow> nat option \<Rightarrow> vm_stop + nat" where
  "count_older s fuel None = Inr 0"
| "count_older s 0 (Some y) = Inl VM_endless"
| "count_older s (Suc fuel) (Some y) = bindE (count_older s fuel (older (yblocks s y))) (\<lambda>n. Inr (Suc n))"

definition get_stats_info :: "('t, 'y, 'w) vm \<Rightarrow> vm_stop + nat" where
  "get_stats_info s = count_older s (next_yielded s) (lru_youngest s)"

section \<open>Getting a block back\<close>

text \<open>\<open>get_clean_phys_region\<close>: the region and the offset of its entry, or nothing.\<close>

definition get_clean_phys_region ::
  "('t, 'y, 'w) vmenv \<Rightarrow> nat \<Rightarrow> nat \<Rightarrow> ('t, 'y, 'w) vm \<Rightarrow> vm_stop + ((nat \<times> nat) option \<times> ('t, 'y, 'w) vm)" where
  "get_clean_phys_region P p va s =
     bindE (map_lookup P p va True s) (\<lambda>x.
       case x of
         None \<Rightarrow> Inr (None, s)
       | Some (r, None) \<Rightarrow> Inr (None, s)
       | Some (r, Some x) \<Rightarrow>
           let vr = regions s r; off = pr_offset x in
           if va < vaddr vr \<or> \<not> va < wadd (vaddr vr) (vlength vr) \<or> refcount (pblocks s (ph x)) = 0
           then Inl VM_assert
           else bindE (if refcount (pblocks s (ph x)) > 1 then map_clone_ph_block P p r off s else Inr (True, s))
             (\<lambda>(copied, s).
               if \<not> copied then Inr (None, s)
               else case entry_at P s r off of
                 None \<Rightarrow> Inl VM_assert
               | Some x \<Rightarrow> if refcount (pblocks s (ph x)) \<noteq> 1 then Inl VM_assert else Inr (Some (r, off), s)))"

definition set_phys :: "nat \<Rightarrow> nat \<Rightarrow> ('t, 'y, 'w) vm \<Rightarrow> ('t, 'y, 'w) vm" where
  "set_phys b a s = s\<lparr>pblocks := (pblocks s)(b := (pblocks s b)\<lparr>phys := a\<rparr>)\<rparr>"

fun get_pages ::
  "('t, 'y, 'w) vmenv \<Rightarrow> nat \<Rightarrow> nat \<Rightarrow> nat \<Rightarrow> nat \<Rightarrow> ('t, 'y, 'w) vm \<Rightarrow> ('t, 'y, 'w) vmres" where
  "get_pages P p 0 va pa s = Inr (OK, s)"
| "get_pages P p (Suc n) va pa s =
     bindE (get_clean_phys_region P p va s) (\<lambda>(found, s).
       case found of
         None \<Rightarrow> Inr (EINVAL, s)
       | Some (r, off) \<Rightarrow>
           (case entry_at P s r off of
              None \<Rightarrow> Inl VM_assert
            | Some x \<Rightarrow>
                if refcount (pblocks s (ph x)) \<noteq> 1 then Inl VM_assert
                else let s = set_phys (ph x) pa (free_mem P (ABS2CLICK P (phys (pblocks s (ph x)))) 1 s)
                in bindE (map_ph_writept P p r off s) (\<lambda>(e, s).
                     if e \<noteq> OK then Inl VM_panic
                     else get_pages P p n (wadd va (VM_PAGE_SIZE P)) (wadd pa (VM_PAGE_SIZE P)) s)))"

definition getblock ::
  "('t, 'y, 'w) vmenv \<Rightarrow> nat \<Rightarrow> 64 word \<Rightarrow> nat \<Rightarrow> int \<Rightarrow> ('t, 'y, 'w) vm \<Rightarrow> ('t, 'y, 'w) vmres" where
  "getblock P p i va n s =
     (let b = \<lparr>owner = vm_endpoint (vmprocs s p), bid = i\<rparr> in
      bindE (get_yielded_avl P b s) (\<lambda>h.
        case yielded_search P (vm_yielded_blocks s h) b of
          None \<Rightarrow> Inr (ESRCH, s)
        | Some yb \<Rightarrow>
            if pages (yblocks s yb) \<noteq> n then Inr (EFAULT, s)
            else bindE (get_pages P p (nat n) va (physaddr (yblocks s yb)) s) (\<lambda>(e, s).
              if e \<noteq> OK then Inr (e, s)
              else bindE (freeyieldednode P yb False s) (\<lambda>(_, s). Inr (OK, s)))))"

section \<open>Yielding a block\<close>

text \<open>
  The loop of checks of \<open>yieldblock\<close>; the first and the last physical block, or the error.
  \<open>prev\<close> is the physical block of the page before.
\<close>

fun yield_check ::
  "('t, 'y, 'w) vmenv \<Rightarrow> nat \<Rightarrow> nat \<Rightarrow> nat \<Rightarrow> nat option \<Rightarrow> ('t, 'y, 'w) vm \<Rightarrow> vm_stop + (int + nat list)" where
  "yield_check P p 0 v prev s = Inr (Inr [])"
| "yield_check P p (Suc n) v prev s =
     bindE (map_lookup P p v True s) (\<lambda>x.
       case x of
         None \<Rightarrow> Inr (Inl EINVAL)
       | Some (r, None) \<Rightarrow> Inr (Inl EINVAL)
       | Some (r, Some x) \<Rightarrow>
           if vflags (regions s r) AND VR_ANON P = 0 \<or> refcount (pblocks s (ph x)) \<noteq> 1 then Inr (Inl EFAULT)
           else if (case prev of None \<Rightarrow> False
                    | Some b \<Rightarrow> phys (pblocks s (ph x)) \<noteq> wadd (phys (pblocks s b)) (VM_PAGE_SIZE P))
           then Inr (Inl EINVAL)
           else bindE (yield_check P p n (wadd v (VM_PAGE_SIZE P)) (Some (ph x)) s) (\<lambda>res.
             Inr (case res of Inl e \<Rightarrow> Inl e | Inr bs \<Rightarrow> Inr (ph x # bs))))"

fun yield_pages ::
  "('t, 'y, 'w) vmenv \<Rightarrow> nat \<Rightarrow> nat \<Rightarrow> nat \<Rightarrow> nat \<Rightarrow> ('t, 'y, 'w) vm \<Rightarrow> vm_stop + ('t, 'y, 'w) vm" where
  "yield_pages P p 0 v pa s = Inr s"
| "yield_pages P p (Suc n) v pa s =
     bindE (map_lookup P p v True s) (\<lambda>x.
       case x of
         Some (r, Some x) \<Rightarrow>
           if refcount (pblocks s (ph x)) \<noteq> 1 then Inl VM_assert
           else bindE (map_ph_writept P p r (pr_offset x) (set_phys (ph x) pa s)) (\<lambda>(e, s).
             if e \<noteq> OK then Inl VM_panic
             else yield_pages P p n (wadd v (VM_PAGE_SIZE P)) (wadd pa (VM_PAGE_SIZE P)) s)
       | _ \<Rightarrow> Inl VM_assert)"

text \<open>The end of \<open>yieldblock\<close>: into the table and to the young end of the list.\<close>

definition lru_add :: "nat \<Rightarrow> ('t, 'y, 'w) vm \<Rightarrow> ('t, 'y, 'w) vm" where
  "lru_add y s =
     (let yg = lru_youngest s;
          s = (case yg of Some z \<Rightarrow> set_yb z (younger_update (\<lambda>_. Some y)) s
               | None \<Rightarrow> s\<lparr>lru_oldest := Some y\<rparr>);
          s = set_yb y (older_update (\<lambda>_. yg)) s
      in s\<lparr>lru_youngest := Some y\<rparr>)"

definition remember_yielded ::
  "('t, 'y, 'w) vmenv \<Rightarrow> nat \<Rightarrow> nat \<Rightarrow> nat \<Rightarrow> ('t, 'y, 'w) vm \<Rightarrow> ('t, 'y, 'w) vm" where
  "remember_yielded P p h y s =
     lru_add y (add_yielded p 1 (set_yavl h (yielded_insert P (vm_yielded_blocks s h) (yid (yblocks s y)) y) s))"

definition yieldblock ::
  "('t, 'y, 'w) vmenv \<Rightarrow> nat \<Rightarrow> 64 word \<Rightarrow> nat \<Rightarrow> int \<Rightarrow> ('t, 'y, 'w) vm \<Rightarrow> ('t, 'y, 'w) vmres" where
  "yieldblock P p i va n s =
     (let b = \<lparr>owner = vm_endpoint (vmprocs s p), bid = i\<rparr> in
      bindE (get_yielded_avl P b s) (\<lambda>h.
        if yielded_search P (vm_yielded_blocks s h) b \<noteq> None then Inr (EINVAL, s)
        else if va mod VM_PAGE_SIZE P \<noteq> 0 \<or> n < 1 then Inr (EFAULT, s)
        else bindE (yield_check P p (nat n) va None s) (\<lambda>res.
          case res of
            Inl e \<Rightarrow> Inr (e, s)
          | Inr bs \<Rightarrow>
              if slab_fails P s then Inr (ENOMEM, s)
              else let y = next_yielded s; s = s\<lparr>next_yielded := Suc y\<rparr> in
              if phys (pblocks s (last bs)) mod VM_PAGE_SIZE P \<noteq> 0 then Inl VM_assert
              else (case alloc_mem P n (PAF_CLEAR P) s of
                  (None, s) \<Rightarrow> Inr (ENOMEM, s\<lparr>freed_yielded := insert y (freed_yielded s)\<rparr>)
                | (Some clicks, s) \<Rightarrow>
                    let s = set_yb y (\<lambda>yb. yb\<lparr>yid := b, physaddr := phys (pblocks s (hd bs)),
                                              pages := n, younger := None\<rparr>) s
                    in bindE (yield_pages P p (nat n) va (CLICK2ABS P clicks) s) (\<lambda>s.
                         Inr (OK, remember_yielded P p h y s))))))"

section \<open>Requests\<close>

record vm_msg =
  m_source :: int
  VMFB_IDLO :: "32 word"
  VMFB_IDHI :: "32 word"
  VMYBGB_LEN :: nat
  VMYBGB_VADDR :: nat
  VMYBGB_YIELDIDLO :: "32 word"
  VMYBGB_YIELDIDHI :: "32 word"
  VMYBGB_GETIDLO :: "32 word"
  VMYBGB_GETIDHI :: "32 word"

definition do_forgetblocks :: "('t, 'y, 'w) vmenv \<Rightarrow> vm_msg \<Rightarrow> ('t, 'y, 'w) vm \<Rightarrow> ('t, 'y, 'w) vmres" where
  "do_forgetblocks P m s =
     (case vm_isokendpt P (m_source m) s of
        None \<Rightarrow> Inl VM_panic
      | Some p \<Rightarrow> bindE (free_yielded_proc P p s) (\<lambda>(_, s). Inr (OK, s)))"

definition do_forgetblock :: "('t, 'y, 'w) vmenv \<Rightarrow> vm_msg \<Rightarrow> ('t, 'y, 'w) vm \<Rightarrow> ('t, 'y, 'w) vmres" where
  "do_forgetblock P m s =
     (case vm_isokendpt P (m_source m) s of
        None \<Rightarrow> Inl VM_panic
      | Some p \<Rightarrow>
          let b = \<lparr>owner = vm_endpoint (vmprocs s p), bid = make64 P (VMFB_IDLO m) (VMFB_IDHI m)\<rparr> in
          bindE (get_yielded_avl P b s) (\<lambda>h.
            case yielded_search P (vm_yielded_blocks s h) b of
              None \<Rightarrow> Inr (OK, s)
            | Some yb \<Rightarrow> bindE (freeyieldednode P yb True s) (\<lambda>(_, s). Inr (OK, s))))"

definition do_yieldblockgetblock :: "('t, 'y, 'w) vmenv \<Rightarrow> vm_msg \<Rightarrow> ('t, 'y, 'w) vm \<Rightarrow> ('t, 'y, 'w) vmres" where
  "do_yieldblockgetblock P m s =
     (case vm_isokendpt P (m_source m) s of
        None \<Rightarrow> Inl VM_panic
      | Some p \<Rightarrow>
          let n = int (VMYBGB_LEN m div VM_PAGE_SIZE P) in
          if VMYBGB_LEN m mod VM_PAGE_SIZE P \<noteq> 0 \<or> n < 1 then Inr (EFAULT, s)
          else
          let yieldid = make64 P (VMYBGB_YIELDIDLO m) (VMYBGB_YIELDIDHI m);
              getid = make64 P (VMYBGB_GETIDLO m) (VMYBGB_GETIDHI m)
          in bindE (if cmp64 P yieldid (VM_BLOCKID_NONE P) \<noteq> 0
                    then yieldblock P p yieldid (VMYBGB_VADDR m) n s else Inr (OK, s)) (\<lambda>(_, s).
             if cmp64 P getid (VM_BLOCKID_NONE P) \<noteq> 0 then getblock P p getid (VMYBGB_VADDR m) n s
             else Inr (ESRCH, s)))"

section \<open>Whole processes\<close>

definition map_free_proc :: "('t, 'y, 'w) vmenv \<Rightarrow> nat \<Rightarrow> ('t, 'y, 'w) vm \<Rightarrow> ('t, 'y, 'w) vmres" where
  "map_free_proc P p s =
     bindE (free_regions P p (length (region_inorder P (tree_of s p))) s) (\<lambda>s.
       bindE (free_yielded_proc P p (set_tree p (region_init P) s)) (\<lambda>(_, s). Inr (OK, s)))"

fun copy_regions ::
  "('t, 'y, 'w) vmenv \<Rightarrow> nat \<Rightarrow> nat list \<Rightarrow> ('t, 'y, 'w) vm \<Rightarrow> ('t, 'y, 'w) vmres" where
  "copy_regions P dst [] s = Inr (OK, s)"
| "copy_regions P dst (vr # vrs) s =
     bindE (map_copy_region P vr s) (\<lambda>(new, s).
       case new of
         None \<Rightarrow> bindE (map_free_proc P dst s) (\<lambda>(_, s). Inr (ENOMEM, s))
       | Some newvr \<Rightarrow>
           let s = link_region P dst newvr (set_region newvr ((regions s newvr)\<lparr>parent := dst\<rparr>) s)
           in if vlength (regions s vr) \<noteq> vlength (regions s newvr) then Inl VM_assert
              else copy_regions P dst vrs s)"

definition map_proc_copy_from ::
  "('t, 'y, 'w) vmenv \<Rightarrow> nat \<Rightarrow> nat \<Rightarrow> nat option \<Rightarrow> ('t, 'y, 'w) vm \<Rightarrow> ('t, 'y, 'w) vmres" where
  "map_proc_copy_from P dst src start s =
     (let rs = region_inorder P (tree_of s src);
          start = (case start of None \<Rightarrow> (case rs of [] \<Rightarrow> None | r # _ \<Rightarrow> Some r) | Some r \<Rightarrow> Some r)
      in case start of
        None \<Rightarrow> Inl VM_assert
      | Some r \<Rightarrow>
          if parent (regions s r) \<noteq> src \<or> region_search P (tree_of s src) (vaddr (regions s r)) AVL_EQUAL \<noteq> Some r
          then Inl VM_assert
          else bindE (copy_regions P dst (dropWhile (\<lambda>q. q \<noteq> r) rs) s) (\<lambda>(e, s).
            if e \<noteq> OK then Inr (e, s)
            else bindE (map_writept P src s) (\<lambda>(_, s).
              bindE (map_writept P dst s) (\<lambda>(_, s). Inr (OK, s)))))"

definition map_proc_copy :: "('t, 'y, 'w) vmenv \<Rightarrow> nat \<Rightarrow> nat \<Rightarrow> ('t, 'y, 'w) vm \<Rightarrow> ('t, 'y, 'w) vmres" where
  "map_proc_copy P dst src s = map_proc_copy_from P dst src None (set_tree dst (region_init P) s)"

end
