(* ===== verification/Region_Fork.thy ===== *)
theory Region_Fork
  imports Region_Page Region_Yield
begin

unbundle bit_operations_syntax

text \<open>
  Copying the memory of a process for \<open>fork\<close> (\<open>map_proc_copy\<close>, \<open>map_copy_region\<close>,
  \<open>map_writept\<close> in \<open>region.c\<close>): the copy has the same regions over the same physical blocks,
  every block counts the new references, and the page tables of both processes are written again,
  so that pages of private memory are no longer writable in either.

  Page tables are not in the repository; \<open>pte p v s\<close> is what the table of process \<open>p\<close> maps the
  address \<open>v\<close> to.
\<close>

section \<open>What the copy relies on\<close>

text \<open>
  A region but for its identity and for \<open>remaps\<close>, the count some memory types keep in the region
  they copy.
\<close>

definition shape :: "vir_region \<Rightarrow> vir_region" where
  "shape x = x\<lparr>remaps := 0, vr_id := 0\<rparr>"

text \<open>
  With enough memory: allocations succeed, \<open>pb_reference\<close> puts the block into an empty slot
  and counts the reference, the memory types agree to a copy and change nothing of the state shown
  here but \<open>remaps\<close>.
\<close>

definition reference_law :: "('t, 'y, 'w) vmenv \<Rightarrow> bool" where
  "reference_law P \<longleftrightarrow>
     (\<forall>b off r s. VM_PAGE_SIZE P dvd off \<longrightarrow> off div VM_PAGE_SIZE P < length (physblocks (regions s r)) \<longrightarrow>
        entry_at P s r off = None \<longrightarrow>
        (\<exists>s'. pb_reference P b off r s = (True, s') \<and> vmprocs s' = vmprocs s \<and> next_region s' = next_region s \<and>
           regions s' = (regions s)(r := (regions s r)\<lparr>physblocks :=
             (physblocks (regions s r))[off div VM_PAGE_SIZE P := Some \<lparr>ph = b, pr_offset = off\<rparr>]\<rparr>) \<and>
           pblocks s' = (pblocks s)(b := (pblocks s b)\<lparr>refcount := Suc (refcount (pblocks s b))\<rparr>)))"

definition copy_law :: "('t, 'y, 'w) vmenv \<Rightarrow> bool" where
  "copy_law P \<longleftrightarrow> (\<forall>m f r q s. ev_copy P m = Some f \<longrightarrow>
     (\<exists>s'. f r q s = (OK, s') \<and> vmprocs s' = vmprocs s \<and> next_region s' = next_region s \<and>
        pblocks s' = pblocks s \<and> (\<forall>x. shape (regions s' x) = shape (regions s x))))"

definition fork_laws :: "('t, 'y, 'w) vmenv \<Rightarrow> bool" where
  "fork_laws P \<longleftrightarrow>
     (\<forall>s. \<not> slab_fails P s) \<and> (\<forall>n s. \<not> calloc_fails P n s) \<and> reference_law P \<and> copy_law P"

text \<open>Writing a page table entry sets that entry and nothing else.\<close>

definition table_laws ::
  "('t, 'y, 'w) vmenv \<Rightarrow> (nat \<Rightarrow> nat \<Rightarrow> ('t, 'y, 'w) vm \<Rightarrow> (nat \<times> 32 word) option) \<Rightarrow> bool" where
  "table_laws P pte \<longleftrightarrow> (\<forall>p v a f s. \<exists>s'. pt_writemap P p v a (VM_PAGE_SIZE P) f s = (OK, s') \<and>
     vmprocs s' = vmprocs s \<and> next_region s' = next_region s \<and> regions s' = regions s \<and> pblocks s' = pblocks s \<and>
     (\<forall>q u. pte q u s' = (if q = p \<and> u = v then Some (a, f) else pte q u s)))"

text \<open>The memory types whose pages are not writable while more than one region refers to them.\<close>

definition private_type :: "('t, 'y, 'w) vmenv \<Rightarrow> nat \<Rightarrow> bool" where
  "private_type P m \<longleftrightarrow> (\<forall>w r off s x. mt_writable P m = Some w \<longrightarrow> memtype (regions s r) = m \<longrightarrow>
     entry_at P s r off = Some x \<longrightarrow> 1 < refcount (pblocks s (ph x)) \<longrightarrow> \<not> w r off s)"

lemma fork_copy:
  assumes "fork_laws P"
  obtains s' where "(case ev_copy P m of None \<Rightarrow> (OK, s) | Some f \<Rightarrow> f r q s) = (OK, s')" "vmprocs s' = vmprocs s"
    "next_region s' = next_region s" "pblocks s' = pblocks s" "\<And>x. shape (regions s' x) = shape (regions s x)"
proof (cases "ev_copy P m")
  case None
  then show thesis using that [of s] by simp
next
  case (Some f)
  have "copy_law P" using assms by (simp add: fork_laws_def)
  from this [unfolded copy_law_def, rule_format, OF Some, of r q s] that show thesis using Some by auto
qed

lemma reference_slot:
  assumes "fork_laws P" and "0 < VM_PAGE_SIZE P" and "i < length (physblocks (regions s r))"
    and "physblocks (regions s r) ! i = None" and "pr_offset x = i * VM_PAGE_SIZE P"
  shows "\<exists>s'. pb_reference P (ph x) (pr_offset x) r s = (True, s') \<and> vmprocs s' = vmprocs s \<and>
    next_region s' = next_region s \<and>
    regions s' = (regions s)(r := (regions s r)\<lparr>physblocks := (physblocks (regions s r))[i := Some x]\<rparr>) \<and>
    pblocks s' = (pblocks s)(ph x := (pblocks s (ph x))\<lparr>refcount := Suc (refcount (pblocks s (ph x)))\<rparr>)"
proof -
  have x: "\<lparr>ph = ph x, pr_offset = i * VM_PAGE_SIZE P\<rparr> = x" using assms(5) by (cases x) simp
  have "VM_PAGE_SIZE P dvd i * VM_PAGE_SIZE P" "i * VM_PAGE_SIZE P div VM_PAGE_SIZE P = i" using assms(2) by simp_all
  then have "\<exists>s'. pb_reference P (ph x) (i * VM_PAGE_SIZE P) r s = (True, s') \<and> vmprocs s' = vmprocs s \<and> next_region s' = next_region s \<and>
     regions s' = (regions s)(r := (regions s r)\<lparr>physblocks :=
       (physblocks (regions s r))[i := Some \<lparr>ph = ph x, pr_offset = i * VM_PAGE_SIZE P\<rparr>]\<rparr>) \<and>
     pblocks s' = (pblocks s)(ph x := (pblocks s (ph x))\<lparr>refcount := Suc (refcount (pblocks s (ph x)))\<rparr>)"
    using assms(1) [unfolded fork_laws_def reference_law_def] assms(3,4) by metis
  then show ?thesis unfolding x assms(5) .
qed

lemma shapeD:
  assumes "shape x = shape y"
  shows "vaddr x = vaddr y" "vlength x = vlength y" "vflags x = vflags y" "memtype x = memtype y"
    "physblocks x = physblocks y" "parent x = parent y"
  using assms by (cases x; cases y; simp add: shape_def)+

lemma shape_region_ok: "shape x = shape y \<Longrightarrow> region_ok P x = region_ok P y"
  using shapeD [of x y] by (simp add: region_ok_def)

lemma slot_offset: "i < a div n \<Longrightarrow> 0 < n \<Longrightarrow> i * n < (a :: nat)"
  using mult_le_mono1 [of "Suc i" "a div n" n] div_times_less_eq_dividend [of a n] by (simp del: div_times_less_eq_dividend)

section \<open>Copying one region\<close>

text \<open>How many of the slots \<open>is\<close> of a region hold a block.\<close>

definition holding :: "vir_region \<Rightarrow> nat list \<Rightarrow> nat \<Rightarrow> nat" where
  "holding vr is b = length (filter (\<lambda>i. map_option ph (physblocks vr ! i) = Some b) is)"

definition more_references :: "(nat \<Rightarrow> nat) \<Rightarrow> ('t, 'y, 'w) vm \<Rightarrow> ('t, 'y, 'w) vm \<Rightarrow> bool" where
  "more_references f s s' \<longleftrightarrow> (\<forall>b. phys (pblocks s' b) = phys (pblocks s b) \<and>
     refcount (pblocks s' b) = refcount (pblocks s b) + f b)"

lemma more_references_trans:
  "more_references f s s' \<Longrightarrow> more_references g s' s'' \<Longrightarrow> more_references (\<lambda>b. f b + g b) s s''"
  by (simp add: more_references_def)

text \<open>The slots \<open>is\<close> of the region object \<open>q\<close> filled from those of \<open>vr\<close>.\<close>

definition slots_copied :: "vir_region \<Rightarrow> nat list \<Rightarrow> nat \<Rightarrow> ('t, 'y, 'w) vm \<Rightarrow> ('t, 'y, 'w) vm \<Rightarrow> bool" where
  "slots_copied vr is q s s' \<longleftrightarrow> vmprocs s' = vmprocs s \<and> next_region s' = next_region s \<and>
     (\<exists>bs. regions s' = (regions s)(q := (regions s q)\<lparr>physblocks := bs\<rparr>) \<and> length bs = length (physblocks (regions s q)) \<and>
       (\<forall>i < length bs. bs ! i = (if i \<in> set is then physblocks vr ! i else physblocks (regions s q) ! i))) \<and>
     more_references (holding vr is) s s'"

lemma slots_copied_Nil: "slots_copied vr [] q s s"
  by (auto simp: slots_copied_def holding_def more_references_def intro: exI [of _ "physblocks (regions s q)"])

lemma slots_copied_skip:
  assumes "slots_copied vr is q s s'" and "physblocks vr ! i = None" and "physblocks (regions s q) ! i = None"
  shows "slots_copied vr (i # is) q s s'"
proof -
  obtain bs where bs: "regions s' = (regions s)(q := (regions s q)\<lparr>physblocks := bs\<rparr>)" "length bs = length (physblocks (regions s q))"
    "\<forall>i < length bs. bs ! i = (if i \<in> set is then physblocks vr ! i else physblocks (regions s q) ! i)"
    using assms(1) unfolding slots_copied_def by blast
  then have "\<forall>j < length bs. bs ! j = (if j \<in> set (i # is) then physblocks vr ! j else physblocks (regions s q) ! j)"
    using assms(2,3) by auto
  moreover have "holding vr (i # is) = holding vr is" using assms(2) by (simp add: holding_def fun_eq_iff)
  ultimately show ?thesis using assms(1) bs(1,2) unfolding slots_copied_def by metis
qed

lemma slots_copied_step:
  assumes "slots_copied vr is q s1 s'" and "physblocks vr ! i = Some x" and "i < length (physblocks (regions s q))"
    and "i \<notin> set is" and "vmprocs s1 = vmprocs s" and "next_region s1 = next_region s"
    and "regions s1 = (regions s)(q := (regions s q)\<lparr>physblocks := (physblocks (regions s q))[i := Some x]\<rparr>)"
    and "pblocks s1 = (pblocks s)(ph x := (pblocks s (ph x))\<lparr>refcount := Suc (refcount (pblocks s (ph x)))\<rparr>)"
  shows "slots_copied vr (i # is) q s s'"
proof -
  obtain bs where bs: "regions s' = (regions s1)(q := (regions s1 q)\<lparr>physblocks := bs\<rparr>)"
    "length bs = length (physblocks (regions s1 q))"
    "\<forall>i < length bs. bs ! i = (if i \<in> set is then physblocks vr ! i else physblocks (regions s1 q) ! i)"
    using assms(1) unfolding slots_copied_def by blast
  have "\<forall>j < length bs. bs ! j = (if j \<in> set (i # is) then physblocks vr ! j else physblocks (regions s q) ! j)"
    using bs(2,3) assms(2-4) by (auto simp: assms(7) nth_list_update)
  moreover have "more_references (\<lambda>b. if b = ph x then 1 else 0) s s1" by (simp add: more_references_def assms(8))
  then have "more_references (holding vr (i # is)) s s'"
    using assms(1,2) unfolding slots_copied_def more_references_def by (auto simp: holding_def)
  moreover have "regions s' = (regions s)(q := (regions s q)\<lparr>physblocks := bs\<rparr>)" "length bs = length (physblocks (regions s q))"
    using bs(1,2) by (simp_all add: assms(7))
  ultimately show ?thesis using assms(1,5,6) unfolding slots_copied_def by metis
qed

lemma copy_slots_run:
  assumes "fork_laws P" and "0 < VM_PAGE_SIZE P" and "region_ok P (regions s vr)" and "vr \<noteq> newvr"
    and "distinct is" and "\<forall>i \<in> set is. i < vlength (regions s vr) div VM_PAGE_SIZE P"
    and "\<forall>i \<in> set is. i < length (physblocks (regions s newvr)) \<and> physblocks (regions s newvr) ! i = None"
  shows "\<exists>s'. copy_slots P vr newvr is s = Inr (True, s') \<and> slots_copied (regions s vr) is newvr s s'"
  using assms(3,5-7)
proof (induction "is" arbitrary: s)
  case Nil
  then show ?case by (simp add: slots_copied_Nil)
next
  case (Cons i "is")
  let ?n = "VM_PAGE_SIZE P" and ?src = "physblocks (regions s vr)" and ?new = "physblocks (regions s newvr)"
  have i: "i < vlength (regions s vr) div ?n" "i < length ?new" "?new ! i = None" "i \<notin> set is" using Cons.prems by simp_all
  have "i * ?n < vlength (regions s vr)" using slot_offset [OF i(1) assms(2)] .
  from physblock_get_ok [OF Cons.prems(1) this] have get: "physblock_get P (regions s vr) (i * ?n) = Inr (?src ! i)"
    using assms(2) by simp
  show ?case
  proof (cases "?src ! i")
    case None
    then have "copy_slots P vr newvr (i # is) s = copy_slots P vr newvr is s" using get by simp
    then show ?thesis using Cons.IH [OF Cons.prems(1)] Cons.prems(2-4) slots_copied_skip [OF _ None i(3)] by auto
  next
    case (Some x)
    have off: "pr_offset x = i * ?n" using Cons.prems(1) i(1) Some by (simp add: region_ok_def)
    from reference_slot [OF assms(1,2) i(2,3) off] obtain s1 where s1:
      "pb_reference P (ph x) (pr_offset x) newvr s = (True, s1)" "vmprocs s1 = vmprocs s" "next_region s1 = next_region s"
      "regions s1 = (regions s)(newvr := (regions s newvr)\<lparr>physblocks := ?new[i := Some x]\<rparr>)"
      "pblocks s1 = (pblocks s)(ph x := (pblocks s (ph x))\<lparr>refcount := Suc (refcount (pblocks s (ph x)))\<rparr>)"
      by blast
    have src: "regions s1 vr = regions s vr" using s1(4) assms(4) by simp
    have "\<exists>s'. copy_slots P vr newvr is s1 = Inr (True, s') \<and> slots_copied (regions s1 vr) is newvr s1 s'"
      using Cons.prems i(4) src by (intro Cons.IH) (auto simp: s1(4) nth_list_update)
    then show ?thesis
      using get Some s1(1) slots_copied_step [OF _ Some i(2,4) s1(2-5)] unfolding src by auto
  qed
qed

text \<open>\<open>map_copy_region\<close>: a new object of the same shape and the same blocks.\<close>

abbreviation slots_of :: "('t, 'y, 'w) vmenv \<Rightarrow> vir_region \<Rightarrow> nat" where
  "slots_of P vr \<equiv> vlength vr div VM_PAGE_SIZE P"

lemma region_new_fork:
  assumes "fork_laws P" and "VM_PAGE_SIZE P dvd n"
  shows "\<exists>s'. region_new P p v n flags mt s = Inr (Some (next_region s), s') \<and> vmprocs s' = vmprocs s \<and>
    next_region s' = Suc (next_region s) \<and> pblocks s' = pblocks s \<and>
    regions s' = (regions s)(next_region s := \<lparr>vaddr = v, vlength = n, vflags = flags, memtype = mt, remaps = 0,
      vr_id = region_ids s, physblocks = replicate (n div VM_PAGE_SIZE P) None, parent = p\<rparr>)"
  using assms by (simp add: region_new_def phys_slot_def Let_def fork_laws_def set_region_def)

lemma map_copy_region_run:
  assumes "fork_laws P" and "0 < VM_PAGE_SIZE P" and "region_ok P (regions s vr)" and "vr < next_region s"
  shows "\<exists>s'. map_copy_region P vr s = Inr (Some (next_region s), s') \<and> vmprocs s' = vmprocs s \<and>
    next_region s' = Suc (next_region s) \<and> (\<forall>q. q \<noteq> next_region s \<longrightarrow> shape (regions s' q) = shape (regions s q)) \<and>
    shape (regions s' (next_region s)) =
      (shape (regions s vr))\<lparr>physblocks := take (slots_of P (regions s vr)) (physblocks (regions s vr))\<rparr> \<and>
    more_references (holding (regions s vr) [0..<slots_of P (regions s vr)]) s s'"
proof -
  let ?vr = "regions s vr" and ?q = "next_region s"
  let ?n = "slots_of P ?vr"
  have dvd: "VM_PAGE_SIZE P dvd vlength ?vr" "?n \<le> length (physblocks ?vr)" using assms(3) by (simp_all add: region_ok_def)
  obtain s1 where s1: "region_new P (parent ?vr) (vaddr ?vr) (vlength ?vr) (vflags ?vr) (memtype ?vr) s = Inr (Some ?q, s1)"
    "vmprocs s1 = vmprocs s" "next_region s1 = Suc ?q" "pblocks s1 = pblocks s"
    "regions s1 = (regions s)(?q := \<lparr>vaddr = vaddr ?vr, vlength = vlength ?vr, vflags = vflags ?vr, memtype = memtype ?vr,
       remaps = 0, vr_id = region_ids s, physblocks = replicate ?n None, parent = parent ?vr\<rparr>)"
    using region_new_fork [OF assms(1) dvd(1)] by blast
  obtain s2 where s2: "(case ev_copy P (memtype ?vr) of None \<Rightarrow> (OK, s1) | Some f \<Rightarrow> f vr ?q s1) = (OK, s2)"
    "vmprocs s2 = vmprocs s1" "next_region s2 = next_region s1" "pblocks s2 = pblocks s1"
    "\<And>x. shape (regions s2 x) = shape (regions s1 x)"
    using fork_copy [OF assms(1)] by blast
  have other: "shape (regions s2 r) = shape (regions s r)" if "r \<noteq> ?q" for r using that s2(5) s1(5) by simp
  have vr2: "shape (regions s2 vr) = shape ?vr" using other assms(4) by simp
  have new2: "shape (regions s2 ?q) = (shape ?vr)\<lparr>physblocks := replicate ?n None\<rparr>"
    using s2(5) [of ?q] by (cases ?vr) (simp add: s1(5) shape_def)
  note src = shapeD [OF vr2]
  have empty: "physblocks (regions s2 ?q) = replicate ?n None" using arg_cong [OF new2, of physblocks] by (simp add: shape_def)
  have "\<exists>s3. copy_slots P vr ?q [0..<?n] s2 = Inr (True, s3) \<and> slots_copied (regions s2 vr) [0..<?n] ?q s2 s3"
    using assms vr2 src(2) empty by (intro copy_slots_run) (simp_all add: shape_region_ok [OF vr2])
  then obtain s3 bs where s3: "copy_slots P vr ?q [0..<?n] s2 = Inr (True, s3)" "vmprocs s3 = vmprocs s2" "next_region s3 = next_region s2"
    "regions s3 = (regions s2)(?q := (regions s2 ?q)\<lparr>physblocks := bs\<rparr>)" "length bs = ?n"
    "\<forall>i < length bs. bs ! i = (if i \<in> set [0..<?n] then physblocks ?vr ! i else None)"
    "more_references (holding (regions s2 vr) [0..<?n]) s2 s3"
    unfolding slots_copied_def src(5) empty by auto
  have bs: "bs = take ?n (physblocks ?vr)" using s3(5,6) dvd(2) by (intro nth_equalityI) auto
  have run: "map_copy_region P vr s = Inr (Some ?q, s3)"
    using s1(1) s2(1) s3(1) dvd(1) src(2) by (simp add: map_copy_region_def Let_def phys_slot_def)
  have "shape (regions s3 ?q) = (shape (regions s2 ?q))\<lparr>physblocks := bs\<rparr>" by (simp add: s3(4) shape_def)
  then have new: "shape (regions s3 ?q) = (shape ?vr)\<lparr>physblocks := take ?n (physblocks ?vr)\<rparr>" unfolding new2 bs by simp
  have "more_references (holding ?vr [0..<?n]) s s3"
    using s3(7) by (simp add: more_references_def s2(4) s1(4) holding_def src(5))
  then show ?thesis using run new other s1(2,3) s2(2,3) s3(2,3) by (intro exI [of _ s3]) (simp add: s3(4))
qed

section \<open>Copying the regions of a process\<close>

definition references :: "('t, 'y, 'w) vmenv \<Rightarrow> ('t, 'y, 'w) vm \<Rightarrow> nat list \<Rightarrow> nat \<Rightarrow> nat" where
  "references P s rs b = (\<Sum>r \<leftarrow> rs. holding (regions s r) [0..<slots_of P (regions s r)] b)"

text \<open>The new object for \<open>vr\<close> in the process \<open>dst\<close>.\<close>

definition copy_of :: "('t, 'y, 'w) vmenv \<Rightarrow> nat \<Rightarrow> vir_region \<Rightarrow> vir_region" where
  "copy_of P dst vr = (shape vr)\<lparr>parent := dst, physblocks := take (slots_of P vr) (physblocks vr)\<rparr>"

definition regions_copied ::
  "('t, 'y, 'w) vmenv \<Rightarrow> ('t \<Rightarrow> nat \<rightharpoonup> nat) \<Rightarrow> nat \<Rightarrow> nat list \<Rightarrow> ('t, 'y, 'w) vm \<Rightarrow> ('t, 'y, 'w) vm \<Rightarrow> bool" where
  "regions_copied P c dst rs s s' \<longleftrightarrow>
     (\<forall>p. p \<noteq> dst \<longrightarrow> tree_of s' p = tree_of s p) \<and>
     (\<forall>p. vm_yielded (vmprocs s' p) = vm_yielded (vmprocs s p)) \<and>
     c (tree_of s' dst) = c (tree_of s dst) ++
       map_of (zip (map (\<lambda>r. vaddr (regions s r)) rs) [next_region s..<next_region s + length rs]) \<and>
     (\<forall>q < next_region s. shape (regions s' q) = shape (regions s q)) \<and>
     (\<forall>i < length rs. shape (regions s' (next_region s + i)) = copy_of P dst (regions s (rs ! i))) \<and>
     more_references (references P s rs) s s'"

lemma copy_of_shape: "shape x = shape y \<Longrightarrow> copy_of P dst x = copy_of P dst y"
  using shapeD [of x y] by (simp add: copy_of_def)

lemma references_shape:
  assumes "\<forall>r \<in> set rs. shape (regions s' r) = shape (regions s r)"
  shows "references P s' rs = references P s rs"
proof -
  have "holding (regions s' r) [0..<slots_of P (regions s' r)] b = holding (regions s r) [0..<slots_of P (regions s r)] b"
    if "r \<in> set rs" for r b
    using shapeD [OF bspec [OF assms that]] by (simp add: holding_def)
  then show ?thesis by (simp add: references_def fun_eq_iff cong: map_cong)
qed

text \<open>One turn of the loop.\<close>

lemma copy_one_region:
  assumes "fork_laws P" and "avl_laws P c" and "0 < VM_PAGE_SIZE P" and "region_ok P (regions s r)" and "r < next_region s"
    and "c (tree_of s dst) (vaddr (regions s r)) = None"
  shows "\<exists>s1. copy_regions P dst (r # rs) s = copy_regions P dst rs s1 \<and> next_region s1 = Suc (next_region s) \<and>
    (\<forall>p. p \<noteq> dst \<longrightarrow> tree_of s1 p = tree_of s p) \<and>
    (\<forall>p. vm_yielded (vmprocs s1 p) = vm_yielded (vmprocs s p)) \<and>
    c (tree_of s1 dst) = (c (tree_of s dst))(vaddr (regions s r) \<mapsto> next_region s) \<and>
    (\<forall>q < next_region s. shape (regions s1 q) = shape (regions s q)) \<and>
    shape (regions s1 (next_region s)) = copy_of P dst (regions s r) \<and>
    more_references (holding (regions s r) [0..<slots_of P (regions s r)]) s s1"
proof -
  let ?q = "next_region s" and ?vr = "regions s r"
  obtain s0 where s0: "map_copy_region P r s = Inr (Some ?q, s0)" "vmprocs s0 = vmprocs s" "next_region s0 = Suc ?q"
    "\<forall>q. q \<noteq> ?q \<longrightarrow> shape (regions s0 q) = shape (regions s q)"
    "shape (regions s0 ?q) = (shape ?vr)\<lparr>physblocks := take (slots_of P ?vr) (physblocks ?vr)\<rparr>"
    "more_references (holding ?vr [0..<slots_of P ?vr]) s s0"
    using map_copy_region_run [OF assms(1,3-5)] by blast
  let ?s1 = "link_region P dst ?q (set_region ?q ((regions s0 ?q)\<lparr>parent := dst\<rparr>) s0)"
  have new: "vaddr (regions s0 ?q) = vaddr ?vr" "vlength (regions s0 ?q) = vlength ?vr"
    using arg_cong [OF s0(5), of vaddr] arg_cong [OF s0(5), of vlength] by (simp_all add: shape_def)
  have r: "vlength (regions s0 r) = vlength ?vr" using s0(4) assms(5) shapeD(2) [of "regions s0 r" ?vr] by simp
  have tree: "tree_of ?s1 dst = region_insert P (tree_of s dst) (vaddr ?vr) ?q"
    using new by (simp add: link_region_def set_tree_def set_region_def s0(2))
  have "shape (regions ?s1 ?q) = (shape (regions s0 ?q))\<lparr>parent := dst\<rparr>"
    by (simp add: link_region_def set_tree_def set_region_def shape_def)
  then have "shape (regions ?s1 ?q) = copy_of P dst ?vr" unfolding s0(5) by (simp add: copy_of_def shape_def)
  moreover have "copy_regions P dst (r # rs) s = copy_regions P dst rs ?s1"
    using s0(1) r new assms(5) by (simp add: link_region_def set_tree_def set_region_def Let_def)
  moreover have "c (tree_of ?s1 dst) = (c (tree_of s dst))(vaddr ?vr \<mapsto> ?q)"
    unfolding tree by (rule avl_lawsD(4) [OF assms(2,6)])
  moreover have "more_references (holding ?vr [0..<slots_of P ?vr]) s ?s1"
    using s0(6) by (simp add: more_references_def link_region_def set_tree_def set_region_def)
  ultimately show ?thesis
    using s0(2-4) by (intro exI [of _ ?s1]) (simp add: link_region_def set_tree_def set_region_def)
qed

lemma regions_copied_Cons:
  assumes s1: "next_region s1 = Suc (next_region s)" "\<forall>p. p \<noteq> dst \<longrightarrow> tree_of s1 p = tree_of s p"
      "\<forall>p. vm_yielded (vmprocs s1 p) = vm_yielded (vmprocs s p)"
      "c (tree_of s1 dst) = (c (tree_of s dst))(vaddr (regions s r) \<mapsto> next_region s)"
      "\<forall>q < next_region s. shape (regions s1 q) = shape (regions s q)"
      "shape (regions s1 (next_region s)) = copy_of P dst (regions s r)"
      "more_references (holding (regions s r) [0..<slots_of P (regions s r)]) s s1"
    and rs: "\<forall>x \<in> set rs. x < next_region s" "vaddr (regions s r) \<notin> set (map (\<lambda>r. vaddr (regions s r)) rs)"
    and rest: "regions_copied P c dst rs s1 s'"
  shows "regions_copied P c dst (r # rs) s s'"
proof -
  let ?q = "next_region s" and ?va = "\<lambda>r. vaddr (regions s r)"
  have same: "\<forall>x \<in> set rs. shape (regions s1 x) = shape (regions s x)" using s1(5) rs(1) by simp
  then have va: "map (\<lambda>r. vaddr (regions s1 r)) rs = map ?va rs" by (auto dest: shapeD)
  note rc = rest [unfolded regions_copied_def va references_shape [OF same] s1(1)]
  have zip: "zip (map ?va (r # rs)) [?q..<?q + length (r # rs)] = (?va r, ?q) # zip (map ?va rs) [Suc ?q..<Suc ?q + length rs]"
    using upt_conv_Cons [of ?q "?q + length (r # rs)"] by (simp del: upt_Suc)
  define m where "m = map_of (zip (map ?va rs) [Suc ?q..<Suc ?q + length rs])"
  have none: "m (?va r) = None" using rs(2) unfolding m_def map_of_eq_None_iff by (auto dest!: set_zip_leftD)
  have "c (tree_of s' dst) = c (tree_of s1 dst) ++ m" using rc unfolding m_def by blast
  then have "c (tree_of s' dst) = c (tree_of s dst) ++ m(?va r \<mapsto> ?q)"
    unfolding s1(4) using none by (simp add: fun_eq_iff map_add_def split: option.splits)
  then have "c (tree_of s' dst) = c (tree_of s dst) ++ map_of (zip (map ?va (r # rs)) [?q..<?q + length (r # rs)])"
    unfolding zip by (simp add: m_def)
  moreover have "shape (regions s' (?q + i)) = copy_of P dst (regions s ((r # rs) ! i))" if i: "i < length (r # rs)" for i
  proof (cases i)
    case 0
    then show ?thesis using rc s1(6) by simp
  next
    case (Suc j)
    then have "shape (regions s' (?q + i)) = copy_of P dst (regions s1 (rs ! j))" using rc i by simp
    moreover have "shape (regions s1 (rs ! j)) = shape (regions s (rs ! j))" using same i Suc by simp
    ultimately show ?thesis using copy_of_shape Suc by simp
  qed
  moreover have "references P s (r # rs) = (\<lambda>b. holding (regions s r) [0..<slots_of P (regions s r)] b + references P s rs b)"
    by (simp add: references_def fun_eq_iff)
  then have "more_references (references P s (r # rs)) s s'" using more_references_trans [OF s1(7)] rc by metis
  ultimately show ?thesis using rc s1(2,3,5) unfolding regions_copied_def by simp
qed

lemma copy_regions_run:
  assumes "fork_laws P" and "avl_laws P c" and "0 < VM_PAGE_SIZE P"
    and "\<forall>r \<in> set rs. region_ok P (regions s r) \<and> r < next_region s"
    and "distinct (map (\<lambda>r. vaddr (regions s r)) rs)"
    and "\<forall>r \<in> set rs. c (tree_of s dst) (vaddr (regions s r)) = None"
  shows "\<exists>s'. copy_regions P dst rs s = Inr (OK, s') \<and> regions_copied P c dst rs s s'"
  using assms(4-6)
proof (induction rs arbitrary: s)
  case Nil
  then show ?case by (simp add: regions_copied_def references_def more_references_def)
next
  case (Cons r rs)
  obtain s1 where s1: "copy_regions P dst (r # rs) s = copy_regions P dst rs s1" "next_region s1 = Suc (next_region s)"
    "\<forall>p. p \<noteq> dst \<longrightarrow> tree_of s1 p = tree_of s p" "\<forall>p. vm_yielded (vmprocs s1 p) = vm_yielded (vmprocs s p)"
    "c (tree_of s1 dst) = (c (tree_of s dst))(vaddr (regions s r) \<mapsto> next_region s)"
    "\<forall>q < next_region s. shape (regions s1 q) = shape (regions s q)"
    "shape (regions s1 (next_region s)) = copy_of P dst (regions s r)"
    "more_references (holding (regions s r) [0..<slots_of P (regions s r)]) s s1"
    using copy_one_region [OF assms(1-3), of s r dst rs] Cons.prems by auto
  have same: "\<forall>x \<in> set rs. shape (regions s1 x) = shape (regions s x)" using s1(6) Cons.prems(1) by simp
  then have va: "\<forall>x \<in> set rs. vaddr (regions s1 x) = vaddr (regions s x)" by (auto dest: shapeD)
  have "\<forall>x \<in> set rs. region_ok P (regions s1 x) \<and> x < next_region s1"
    using Cons.prems(1) same shape_region_ok s1(2) by (metis less_SucI list.set_intros(2))
  moreover have "distinct (map (\<lambda>r. vaddr (regions s1 r)) rs)" using Cons.prems(2) va by (simp cong: map_cong)
  moreover have "\<forall>x \<in> set rs. c (tree_of s1 dst) (vaddr (regions s1 x)) = None"
    using Cons.prems(2,3) va by (auto simp: s1(5) image_iff)
  ultimately obtain s' where s': "copy_regions P dst rs s1 = Inr (OK, s')" "regions_copied P c dst rs s1 s'"
    using Cons.IH by blast
  have "regions_copied P c dst (r # rs) s s'"
    using Cons.prems(1,2) by (intro regions_copied_Cons [OF s1(2-8) _ _ s'(2)]) auto
  then show ?case using s1(1) s'(1) by auto
qed

section \<open>Writing the page tables\<close>

definition same_memory :: "('t, 'y, 'w) vm \<Rightarrow> ('t, 'y, 'w) vm \<Rightarrow> bool" where
  "same_memory s s' \<longleftrightarrow> vmprocs s' = vmprocs s \<and> next_region s' = next_region s \<and> regions s' = regions s \<and> pblocks s' = pblocks s"

lemma same_memory_trans: "same_memory s s' \<Longrightarrow> same_memory s' s'' \<Longrightarrow> same_memory s s''"
  by (simp add: same_memory_def)

text \<open>The flags of a page that may be written, or only read.\<close>

definition page_flags :: "('t, 'y, 'w) vmenv \<Rightarrow> bool \<Rightarrow> 32 word" where
  "page_flags P w = PTF_PRESENT P OR PTF_USER P OR (if w then PTF_WRITE P else PTF_READ P)"

text \<open>The pages at which no write may be allowed: those of private memory with more than one reference.\<close>

definition copy_on_write :: "('t, 'y, 'w) vmenv \<Rightarrow> ('t, 'y, 'w) vm \<Rightarrow> nat \<Rightarrow> phys_region \<Rightarrow> bool" where
  "copy_on_write P s r x \<longleftrightarrow> private_type P (memtype (regions s r)) \<and> 1 < refcount (pblocks s (ph x))"

text \<open>A page that is present is mapped to its block, and not for writing when the write must copy it.\<close>

definition page_mapped ::
  "('t, 'y, 'w) vmenv \<Rightarrow> (nat \<Rightarrow> nat \<Rightarrow> ('t, 'y, 'w) vm \<Rightarrow> (nat \<times> 32 word) option) \<Rightarrow> nat \<Rightarrow> nat \<Rightarrow> nat \<Rightarrow> ('t, 'y, 'w) vm \<Rightarrow> bool"
where
  "page_mapped P pte p r off s \<longleftrightarrow> (\<forall>x. entry_at P s r off = Some x \<longrightarrow>
     (\<exists>w. pte p (vaddr (regions s r) + off) s = Some (phys (pblocks s (ph x)), page_flags P w) \<and>
        (w \<longrightarrow> vflags (regions s r) AND VR_WRITABLE P \<noteq> 0 \<and> \<not> copy_on_write P s r x)))"

lemma page_mapped_same:
  assumes "same_memory s s'" and "pte p (vaddr (regions s r) + off) s' = pte p (vaddr (regions s r) + off) s"
  shows "page_mapped P pte p r off s' \<longleftrightarrow> page_mapped P pte p r off s"
  using assms by (simp add: page_mapped_def same_memory_def copy_on_write_def)

text \<open>What writing the entries of a region relies on.\<close>

definition writable_region :: "('t, 'y, 'w) vmenv \<Rightarrow> ('t, 'y, 'w) vm \<Rightarrow> nat \<Rightarrow> bool" where
  "writable_region P s r \<longleftrightarrow> region_ok P (regions s r) \<and> mt_writable P (memtype (regions s r)) \<noteq> None \<and>
     (\<forall>i < slots_of P (regions s r). \<forall>x. physblocks (regions s r) ! i = Some x \<longrightarrow> refcount (pblocks s (ph x)) \<noteq> 0)"

lemma writable_region_same: "same_memory s s' \<Longrightarrow> writable_region P s' r = writable_region P s r"
  by (simp add: writable_region_def same_memory_def)

definition page_of :: "('t, 'y, 'w) vmenv \<Rightarrow> vir_region \<Rightarrow> nat \<Rightarrow> bool" where
  "page_of P vr off \<longleftrightarrow> VM_PAGE_SIZE P dvd off \<and> off < vlength vr"

text \<open>Writing one entry.\<close>

lemma map_ph_writept_run:
  assumes "table_laws P pte" and "space_ok P" and "writable_region P s r" and "page_of P (regions s r) off"
    and "entry_at P s r off = Some x"
  shows "\<exists>s'. map_ph_writept P p r off s = Inr (OK, s') \<and> same_memory s s' \<and> page_mapped P pte p r off s' \<and>
    (\<forall>q u. q \<noteq> p \<or> u \<noteq> vaddr (regions s r) + off \<longrightarrow> pte q u s' = pte q u s)"
proof -
  let ?vr = "regions s r" and ?n = "VM_PAGE_SIZE P"
  have ok: "region_ok P ?vr" and off: "?n dvd off" "off < vlength ?vr" and n: "0 < ?n"
    using assms by (simp_all add: writable_region_def page_of_def space_ok_def)
  have slot: "off div ?n < slots_of P ?vr" using off ok n by (simp add: region_ok_def div_less_mono)
  then have x: "pr_offset x = off" "refcount (pblocks s (ph x)) \<noteq> 0"
    using assms(3,5) ok off(1) by (auto simp: writable_region_def region_ok_def)
  have at: "wadd (vaddr ?vr) off = vaddr ?vr + off"
    using ok off(2) assms(2) by (simp add: wadd_def region_ok_def space_ok_def)
  obtain wr where wr: "mt_writable P (memtype ?vr) = Some wr" using assms(3) by (auto simp: writable_region_def)
  define w where "w = (vflags ?vr AND VR_WRITABLE P \<noteq> 0 \<and> wr r off s)"
  have "\<exists>s'. pt_writemap P p (vaddr ?vr + off) (phys (pblocks s (ph x))) ?n (page_flags P w) s = (OK, s') \<and>
      vmprocs s' = vmprocs s \<and> next_region s' = next_region s \<and> regions s' = regions s \<and> pblocks s' = pblocks s \<and>
      (\<forall>q u. pte q u s' = (if q = p \<and> u = vaddr ?vr + off then Some (phys (pblocks s (ph x)), page_flags P w) else pte q u s))"
    using assms(1) unfolding table_laws_def by blast
  then obtain s' where s': "pt_writemap P p (vaddr ?vr + off) (phys (pblocks s (ph x))) ?n (page_flags P w) s = (OK, s')"
    "same_memory s s'" "\<forall>q u. pte q u s' = (if q = p \<and> u = vaddr ?vr + off then
        Some (phys (pblocks s (ph x)), page_flags P w) else pte q u s)"
    unfolding same_memory_def by blast
  have "map_ph_writept P p r off s = Inr (OK, s')"
    using s'(1) assms(5) x ok off(1) wr at
    by (simp add: map_ph_writept_def Let_def region_ok_def pr_writable_def w_def page_flags_def mod_eq_0_iff_dvd)
  moreover have "w \<Longrightarrow> \<not> copy_on_write P s r x"
    using wr assms(5) by (auto simp: w_def copy_on_write_def private_type_def)
  then have "page_mapped P pte p r off s'"
    using s'(2,3) assms(5) by (auto simp: page_mapped_def same_memory_def copy_on_write_def w_def)
  ultimately show ?thesis using s'(2,3) by auto
qed

lemma writept_pages_run:
  assumes "table_laws P pte" and "space_ok P" and "writable_region P s r" and "\<forall>v \<in> set vs. page_of P (regions s r) v"
  shows "\<exists>s'. writept_pages P p r vs s = Inr (OK, s') \<and> same_memory s s' \<and> (\<forall>v \<in> set vs. page_mapped P pte p r v s') \<and>
    (\<forall>q u. q \<noteq> p \<or> (\<forall>v \<in> set vs. u \<noteq> vaddr (regions s r) + v) \<longrightarrow> pte q u s' = pte q u s)"
  using assms(3,4)
proof (induction vs arbitrary: s)
  case Nil
  then show ?case by (simp add: same_memory_def)
next
  case (Cons v vs)
  have page: "page_of P (regions s r) v" using Cons.prems(2) by simp
  then have get: "physblock_get P (regions s r) v = Inr (entry_at P s r v)"
    using Cons.prems(1) by (intro physblock_get_ok) (simp_all add: writable_region_def page_of_def)
  have "\<exists>s1. writept_pages P p r (v # vs) s = writept_pages P p r vs s1 \<and> same_memory s s1 \<and> page_mapped P pte p r v s1 \<and>
      (\<forall>q u. q \<noteq> p \<or> u \<noteq> vaddr (regions s r) + v \<longrightarrow> pte q u s1 = pte q u s)"
  proof (cases "entry_at P s r v")
    case None
    then show ?thesis using get by (intro exI [of _ s]) (simp add: same_memory_def page_mapped_def)
  next
    case (Some x)
    from map_ph_writept_run [OF assms(1,2) Cons.prems(1) page Some, of p] get Some show ?thesis by auto
  qed
  then obtain s1 where s1: "writept_pages P p r (v # vs) s = writept_pages P p r vs s1" "same_memory s s1"
    "page_mapped P pte p r v s1" "\<forall>q u. q \<noteq> p \<or> u \<noteq> vaddr (regions s r) + v \<longrightarrow> pte q u s1 = pte q u s"
    by blast
  have reg: "regions s1 = regions s" using s1(2) by (simp add: same_memory_def)
  have "writable_region P s1 r" "\<forall>v \<in> set vs. page_of P (regions s1 r) v"
    using Cons.prems writable_region_same [OF s1(2)] by (simp_all add: reg)
  from Cons.IH [OF this] obtain s' where s': "writept_pages P p r vs s1 = Inr (OK, s')" "same_memory s1 s'"
    "\<forall>v \<in> set vs. page_mapped P pte p r v s'"
    "\<forall>q u. q \<noteq> p \<or> (\<forall>v \<in> set vs. u \<noteq> vaddr (regions s r) + v) \<longrightarrow> pte q u s' = pte q u s1"
    unfolding reg by blast
  have "page_mapped P pte p r v s'" if "v \<notin> set vs"
  proof -
    have "pte p (vaddr (regions s1 r) + v) s' = pte p (vaddr (regions s1 r) + v) s1"
      unfolding reg by (rule s'(4) [rule_format]) (use that in auto)
    from page_mapped_same [of s1 s' pte p r v, OF s'(2) this] s1(3) show ?thesis by simp
  qed
  then show ?case using s1 s' same_memory_trans [OF s1(2) s'(2)] by auto
qed

lemma page_offsets_pages:
  assumes "space_ok P" and "region_ok P vr"
  shows "v \<in> set (page_offsets P 0 (vlength vr)) \<longleftrightarrow> page_of P vr v"
proof
  show "v \<in> set (page_offsets P 0 (vlength vr)) \<Longrightarrow> page_of P vr v"
    using page_offsets_bound assms(1) by (auto simp: page_of_def space_ok_def)
next
  let ?n = "VM_PAGE_SIZE P"
  assume v: "page_of P vr v"
  then obtain i where i: "v = i * ?n" "i * ?n < vlength vr" unfolding page_of_def by (metis dvd_div_mult_self)
  obtain j where j: "vlength vr = j * ?n" using assms(2) unfolding region_ok_def by (metis dvd_div_mult_self)
  have "0 < ?n" using assms(1) by (simp add: space_ok_def)
  then have "i < (vlength vr + ?n - 1) div ?n" using i(2) by (simp add: less_eq_div_iff_mult_less_eq Suc_le_eq [symmetric] j)
  then show "v \<in> set (page_offsets P 0 (vlength vr))" using i(1) by (auto simp: page_offsets_def)
qed

lemma writept_regions_run:
  assumes "table_laws P pte" and "space_ok P" and "\<forall>r \<in> set rs. writable_region P s r"
    and "\<forall>r \<in> set rs. \<forall>r' \<in> set rs. r \<noteq> r' \<longrightarrow>
      vaddr (regions s r) + vlength (regions s r) \<le> vaddr (regions s r') \<or>
      vaddr (regions s r') + vlength (regions s r') \<le> vaddr (regions s r)"
  shows "\<exists>s'. writept_regions P p rs s = Inr (OK, s') \<and> same_memory s s' \<and>
    (\<forall>r \<in> set rs. \<forall>v. page_of P (regions s r) v \<longrightarrow> page_mapped P pte p r v s') \<and>
    (\<forall>q u. q \<noteq> p \<or> (\<forall>r \<in> set rs. u < vaddr (regions s r) \<or> vaddr (regions s r) + vlength (regions s r) \<le> u) \<longrightarrow>
      pte q u s' = pte q u s)"
  using assms(3,4)
proof (induction rs arbitrary: s)
  case Nil
  then show ?case by (simp add: same_memory_def)
next
  case (Cons r rs)
  let ?vs = "page_offsets P 0 (vlength (regions s r))"
  have ok: "writable_region P s r" "region_ok P (regions s r)" using Cons.prems(1) by (simp_all add: writable_region_def)
  have vs: "v \<in> set ?vs \<longleftrightarrow> page_of P (regions s r) v" for v using page_offsets_pages [OF assms(2) ok(2)] .
  from writept_pages_run [OF assms(1,2) ok(1), of ?vs p] vs obtain s1 where s1: "writept_pages P p r ?vs s = Inr (OK, s1)"
    "same_memory s s1" "\<forall>v. page_of P (regions s r) v \<longrightarrow> page_mapped P pte p r v s1"
    "\<forall>q u. q \<noteq> p \<or> (\<forall>v. page_of P (regions s r) v \<longrightarrow> u \<noteq> vaddr (regions s r) + v) \<longrightarrow> pte q u s1 = pte q u s"
    by auto
  have reg: "regions s1 = regions s" using s1(2) by (simp add: same_memory_def)
  have "\<exists>s'. writept_regions P p rs s1 = Inr (OK, s') \<and> same_memory s1 s' \<and>
    (\<forall>r \<in> set rs. \<forall>v. page_of P (regions s1 r) v \<longrightarrow> page_mapped P pte p r v s') \<and>
    (\<forall>q u. q \<noteq> p \<or> (\<forall>r \<in> set rs. u < vaddr (regions s1 r) \<or> vaddr (regions s1 r) + vlength (regions s1 r) \<le> u) \<longrightarrow>
      pte q u s' = pte q u s1)"
    using Cons.prems by (intro Cons.IH) (simp_all add: reg writable_region_same [OF s1(2)])
  then obtain s' where s': "writept_regions P p rs s1 = Inr (OK, s')" "same_memory s1 s'"
    "\<forall>r \<in> set rs. \<forall>v. page_of P (regions s r) v \<longrightarrow> page_mapped P pte p r v s'"
    "\<forall>q u. q \<noteq> p \<or> (\<forall>r \<in> set rs. u < vaddr (regions s r) \<or> vaddr (regions s r) + vlength (regions s r) \<le> u) \<longrightarrow>
      pte q u s' = pte q u s1"
    unfolding reg by blast
  have here: "page_mapped P pte p r v s'" if v: "page_of P (regions s r) v" for v
  proof (cases "r \<in> set rs")
    case True
    then show ?thesis using s'(3) v by blast
  next
    case False
    have "u < vaddr (regions s q) \<or> vaddr (regions s q) + vlength (regions s q) \<le> u"
      if "q \<in> set rs" "u = vaddr (regions s r) + v" for q u
    proof -
      have "vaddr (regions s r) + vlength (regions s r) \<le> vaddr (regions s q) \<or>
          vaddr (regions s q) + vlength (regions s q) \<le> vaddr (regions s r)"
        using Cons.prems(2) that(1) False by (metis list.set_intros)
      then show ?thesis using v that(2) by (auto simp: page_of_def)
    qed
    then have "pte p (vaddr (regions s1 r) + v) s' = pte p (vaddr (regions s1 r) + v) s1"
      unfolding reg by (intro s'(4) [rule_format]) auto
    from page_mapped_same [of s1 s' pte p r v, OF s'(2) this] s1(3) v show ?thesis by simp
  qed
  have out: "pte q u s' = pte q u s"
    if "q \<noteq> p \<or> (\<forall>r' \<in> set (r # rs). u < vaddr (regions s r') \<or> vaddr (regions s r') + vlength (regions s r') \<le> u)" for q u
  proof -
    have "q \<noteq> p \<or> (\<forall>v. page_of P (regions s r) v \<longrightarrow> u \<noteq> vaddr (regions s r) + v)" using that by (auto simp: page_of_def)
    then show ?thesis using s1(4) s'(4) that by auto
  qed
  have "writept_regions P p (r # rs) s = Inr (OK, s')" using s1(1) s'(1) by simp
  then show ?case using same_memory_trans [OF s1(2) s'(2)] s'(3) here out by (intro exI [of _ s']) auto
qed

text \<open>The regions of a process in the order of their addresses.\<close>

lemma regions_inorder:
  assumes "avl_laws P c" and "regions_ok P c p s"
  shows "map (\<lambda>r. vaddr (regions s r)) (region_inorder P (tree_of s p)) = sorted_list_of_set (dom (c (tree_of s p)))"
    and "r \<in> set (region_inorder P (tree_of s p)) \<longleftrightarrow> c (tree_of s p) (vaddr (regions s r)) = Some r"
proof -
  have fin: "finite (dom (c (tree_of s p)))" using avl_lawsD(1) [OF assms(1)] .
  have va: "c (tree_of s p) k = Some q \<Longrightarrow> vaddr (regions s q) = k" for k q using regions_okD(1) [OF assms(2)] .
  show "map (\<lambda>r. vaddr (regions s r)) (region_inorder P (tree_of s p)) = sorted_list_of_set (dom (c (tree_of s p)))"
    unfolding avl_lawsD(6) [OF assms(1)] using fin va by (auto intro!: map_idI)
  show "r \<in> set (region_inorder P (tree_of s p)) \<longleftrightarrow> c (tree_of s p) (vaddr (regions s r)) = Some r"
    unfolding avl_lawsD(6) [OF assms(1)] using fin va by (force simp: image_iff)
qed

lemma map_writept_run:
  assumes "table_laws P pte" and "space_ok P" and "avl_laws P c" and "regions_ok P c p s"
    and "\<forall>r \<in> ran (c (tree_of s p)). writable_region P s r"
  shows "\<exists>s'. map_writept P p s = Inr (OK, s') \<and> same_memory s s' \<and>
    (\<forall>k r v. c (tree_of s p) k = Some r \<longrightarrow> page_of P (regions s r) v \<longrightarrow> page_mapped P pte p r v s') \<and>
    (\<forall>q u. q \<noteq> p \<longrightarrow> pte q u s' = pte q u s)"
proof -
  let ?rs = "region_inorder P (tree_of s p)"
  note mem = regions_inorder(2) [OF assms(3,4)]
  have ran: "r \<in> ran (c (tree_of s p))" if "r \<in> set ?rs" for r using that unfolding mem by (auto intro: ranI)
  have apart: "vaddr (regions s r) + vlength (regions s r) \<le> vaddr (regions s r') \<or>
      vaddr (regions s r') + vlength (regions s r') \<le> vaddr (regions s r)"
    if "r \<in> set ?rs" "r' \<in> set ?rs" "r \<noteq> r'" for r r'
  proof -
    have k: "c (tree_of s p) (vaddr (regions s r)) = Some r" "c (tree_of s p) (vaddr (regions s r')) = Some r'"
      using that(1,2) unfolding mem by simp_all
    then have "vaddr (regions s r) \<noteq> vaddr (regions s r')" using that(3) by auto
    then show ?thesis
      using regions_ok_apart [OF assms(4) k] regions_ok_apart [OF assms(4) k(2,1)] by linarith
  qed
  from writept_regions_run [OF assms(1,2), of ?rs s p] ran apart assms(5)
  obtain s' where s': "writept_regions P p ?rs s = Inr (OK, s')" "same_memory s s'"
    "\<forall>r \<in> set ?rs. \<forall>v. page_of P (regions s r) v \<longrightarrow> page_mapped P pte p r v s'"
    "\<forall>q u. q \<noteq> p \<longrightarrow> pte q u s' = pte q u s"
    by blast
  have "r \<in> set ?rs" if "c (tree_of s p) k = Some r" for k r
    unfolding mem using regions_okD(1) [OF assms(4) that] that by simp
  then show ?thesis using s' unfolding map_writept_def by blast
qed

section \<open>The copy of a process\<close>

text \<open>The region \<open>q\<close> of one state shows the memory of the region \<open>r\<close> of another.\<close>

definition same_region :: "('t, 'y, 'w) vmenv \<Rightarrow> vir_region \<Rightarrow> vir_region \<Rightarrow> bool" where
  "same_region P x y \<longleftrightarrow> vaddr y = vaddr x \<and> vlength y = vlength x \<and> vflags y = vflags x \<and> memtype y = memtype x \<and>
     (\<forall>i < slots_of P x. physblocks y ! i = physblocks x ! i)"

lemma same_region_shape: "shape y = shape x \<Longrightarrow> same_region P x y"
  using shapeD [of y x] by (simp add: same_region_def)

lemma same_region_copy: "shape y = copy_of P dst x \<Longrightarrow> same_region P x y"
  by (cases x; cases y) (simp add: same_region_def copy_of_def shape_def)

lemma same_region_ok:
  assumes "same_region P x y" and "region_ok P x" and "slots_of P x \<le> length (physblocks y)"
  shows "region_ok P y"
  using assms by (simp add: region_ok_def same_region_def)

lemma copy_slots_enough: "shape y = copy_of P dst x \<Longrightarrow> region_ok P x \<Longrightarrow> slots_of P x \<le> length (physblocks y)"
  by (cases x; cases y) (simp add: copy_of_def shape_def region_ok_def)

lemma same_region_writable:
  assumes "same_region P (regions s r) (regions s' q)" and "writable_region P s r" and "region_ok P (regions s' q)"
    and "more_references f s s'"
  shows "writable_region P s' q"
  using assms by (simp add: writable_region_def same_region_def more_references_def)

lemma references_pos:
  assumes "r \<in> set rs" and "i < slots_of P (regions s r)" and "physblocks (regions s r) ! i = Some x"
  shows "0 < references P s rs (ph x)"
proof -
  have "i \<in> set (filter (\<lambda>i. map_option ph (physblocks (regions s r) ! i) = Some (ph x)) [0..<slots_of P (regions s r)])"
    using assms(2,3) by simp
  then have "0 < holding (regions s r) [0..<slots_of P (regions s r)] (ph x)"
    unfolding holding_def by (metis length_pos_if_in_set)
  moreover obtain as bs where "rs = as @ r # bs" using split_list [OF assms(1)] by blast
  ultimately show ?thesis by (simp add: references_def)
qed

text \<open>What the loop over the regions leaves.\<close>

definition process_copied ::
  "('t, 'y, 'w) vmenv \<Rightarrow> ('t \<Rightarrow> nat \<rightharpoonup> nat) \<Rightarrow> nat \<Rightarrow> nat \<Rightarrow> ('t, 'y, 'w) vm \<Rightarrow> ('t, 'y, 'w) vm \<Rightarrow> bool" where
  "process_copied P c src dst s s' \<longleftrightarrow> tree_of s' src = tree_of s src \<and>
     (\<forall>p. vm_yielded (vmprocs s' p) = vm_yielded (vmprocs s p)) \<and>
     regions_ok P c src s' \<and> regions_ok P c dst s' \<and> dom (c (tree_of s' dst)) = dom (c (tree_of s src)) \<and>
     (\<forall>k r. c (tree_of s src) k = Some r \<longrightarrow> same_region P (regions s r) (regions s' r)) \<and>
     (\<forall>k r q. c (tree_of s src) k = Some r \<longrightarrow> c (tree_of s' dst) k = Some q \<longrightarrow> same_region P (regions s r) (regions s' q)) \<and>
     more_references (references P s (region_inorder P (tree_of s src))) s s'"

lemma regions_ok_sub:
  assumes "regions_ok P c p s"
    and sub: "\<And>k r. c (tree_of s' p) k = Some r \<Longrightarrow> c (tree_of s p) k = Some r \<and> shape (regions s' r) = shape (regions s r)"
  shows "regions_ok P c p s'"
proof -
  have "vaddr (regions s' r) = k \<and> parent (regions s' r) = p \<and> region_ok P (regions s' r)"
    if "c (tree_of s' p) k = Some r" for k r
  proof -
    have r: "c (tree_of s p) k = Some r" "shape (regions s' r) = shape (regions s r)" using sub [OF that] by simp_all
    show ?thesis using shapeD [OF r(2)] shape_region_ok [OF r(2), of P] regions_okD [OF assms(1) r(1)] by simp
  qed
  moreover have "k + vlength (regions s' r) \<le> k'"
    if k: "c (tree_of s' p) k = Some r" "c (tree_of s' p) k' = Some r'" "k < k'" for k r k' r'
    using regions_ok_apart [OF assms(1) _ _ k(3)] sub [OF k(1)] sub [OF k(2)] shapeD(2) by metis
  ultimately show ?thesis unfolding regions_ok_def by blast
qed

lemma regions_copied_key:
  assumes "avl_laws P c" and "regions_ok P c src s" and "rs = region_inorder P (tree_of s src)"
    and "m = map_of (zip (map (\<lambda>r. vaddr (regions s r)) rs) [n..<n + length rs])"
  shows "dom m = dom (c (tree_of s src))"
    and "m k = Some q \<Longrightarrow> \<exists>i < length rs. q = n + i \<and> c (tree_of s src) k = Some (rs ! i)"
proof -
  have "dom m = set (map (\<lambda>r. vaddr (regions s r)) rs)" unfolding assms(4) by (simp add: dom_map_of_zip del: set_map)
  then show "dom m = dom (c (tree_of s src))"
    using regions_inorder(1) [OF assms(1,2)] avl_lawsD(1) [OF assms(1)] unfolding assms(3) by simp
  assume "m k = Some q"
  then have "(k, q) \<in> set (zip (map (\<lambda>r. vaddr (regions s r)) rs) [n..<n + length rs])"
    unfolding assms(4) by (rule map_of_SomeD)
  then obtain i where i: "i < length rs" "k = vaddr (regions s (rs ! i))" "q = n + i" by (auto simp: in_set_zip)
  moreover have "c (tree_of s src) k = Some (rs ! i)"
    using regions_inorder(2) [OF assms(1,2)] i(1,2) nth_mem [OF i(1)] unfolding assms(3) by simp
  ultimately show "\<exists>i < length rs. q = n + i \<and> c (tree_of s src) k = Some (rs ! i)" by blast
qed

lemma process_copied_run:
  assumes "fork_laws P" and "avl_laws P c" and "space_ok P" and "regions_ok P c src s" and "dst \<noteq> src"
    and "\<forall>r \<in> ran (c (tree_of s src)). r < next_region s"
  shows "\<exists>s'. copy_regions P dst (region_inorder P (tree_of s src)) (set_tree dst (region_init P) s) = Inr (OK, s') \<and>
    process_copied P c src dst s s'"
proof -
  let ?rs = "region_inorder P (tree_of s src)" and ?s0 = "set_tree dst (region_init P) s" and ?n = "next_region s"
  have s0: "regions ?s0 = regions s" "next_region ?s0 = ?n" "pblocks ?s0 = pblocks s" "tree_of ?s0 src = tree_of s src"
    "c (tree_of ?s0 dst) = Map.empty" "vm_yielded (vmprocs ?s0 p) = vm_yielded (vmprocs s p)" for p
    using assms(5) avl_lawsD(3) [OF assms(2)] by (simp_all add: set_tree_def)
  note keys = regions_inorder [OF assms(2,4)]
  have rs: "region_ok P (regions s r)" "r < ?n" if "r \<in> set ?rs" for r
    using that regions_okD(3) [OF assms(4)] assms(6) unfolding keys by (auto intro: ranI)
  have "0 < VM_PAGE_SIZE P" using assms(3) by (simp add: space_ok_def)
  from copy_regions_run [OF assms(1,2) this, of ?rs ?s0 dst] rs
  obtain s' where s': "copy_regions P dst ?rs ?s0 = Inr (OK, s')" "regions_copied P c dst ?rs ?s0 s'"
    by (auto simp: s0 keys(1))
  have refs: "references P ?s0 ?rs = references P s ?rs" by (simp add: references_def s0 fun_eq_iff)
  define m where "m = map_of (zip (map (\<lambda>r. vaddr (regions s r)) ?rs) [?n..<?n + length ?rs])"
  have src: "tree_of s' src = tree_of s src" and dst: "c (tree_of s' dst) = m"
    and old: "\<And>q. q < ?n \<Longrightarrow> shape (regions s' q) = shape (regions s q)"
    and new: "\<And>i. i < length ?rs \<Longrightarrow> shape (regions s' (?n + i)) = copy_of P dst (regions s (?rs ! i))"
    and more: "more_references (references P s ?rs) s s'"
    and yielded: "\<forall>p. vm_yielded (vmprocs s' p) = vm_yielded (vmprocs s p)"
    using s'(2) assms(5) s0(4) by (auto simp: regions_copied_def s0 refs m_def more_references_def)
  note key = regions_copied_key [OF assms(2,4) refl m_def]
  have copy: "shape (regions s' q) = copy_of P dst (regions s r)"
    if "c (tree_of s src) k = Some r" "m k = Some q" for k r q
    using key(2) [OF that(2)] that(1) new by auto
  have source: "\<exists>r. c (tree_of s src) k = Some r" if "m k = Some q" for k q using key(2) [OF that] by blast
  have same: "same_region P (regions s r) (regions s' q)" if "c (tree_of s src) k = Some r" "m k = Some q" for k r q
    using same_region_copy [OF copy [OF that]] .
  have dst_ok: "vaddr (regions s' q) = k \<and> parent (regions s' q) = dst \<and> region_ok P (regions s' q)" if q: "m k = Some q" for k q
  proof -
    obtain r where r: "c (tree_of s src) k = Some r" using source [OF q] by blast
    note ok = regions_okD [OF assms(4) r] and cp = copy [OF r q] and sm = same [OF r q]
    have "parent (regions s' q) = dst" using arg_cong [OF cp, of parent] by (simp add: copy_of_def shape_def)
    then show ?thesis
      using same_region_ok [OF sm ok(3) copy_slots_enough [OF cp ok(3)]] sm ok(1) by (simp add: same_region_def)
  qed
  have dst_apart: "k + vlength (regions s' q) \<le> k'" if q: "m k = Some q" "m k' = Some q'" "k < k'" for k q k' q'
  proof -
    obtain r r' where r: "c (tree_of s src) k = Some r" "c (tree_of s src) k' = Some r'" using source q(1,2) by blast
    then show ?thesis using regions_ok_apart [OF assms(4) r q(3)] same [OF r(1) q(1)] by (simp add: same_region_def)
  qed
  have dst_regions: "regions_ok P c dst s'" unfolding regions_ok_def dst using dst_ok dst_apart by blast
  have keep: "shape (regions s' r) = shape (regions s r)" if "c (tree_of s src) k = Some r" for k r
    using old assms(6) that by (auto intro: ranI)
  have src_regions: "regions_ok P c src s'" using assms(4) by (rule regions_ok_sub) (auto simp: src dest: keep)
  show ?thesis
    using s'(1) src dst src_regions dst_regions key(1) same same_region_shape keep more yielded
    unfolding process_copied_def by (intro exI [of _ s']) (simp add: dst, blast)
qed

lemma copied_region:
  assumes "process_copied P c src dst s s'" and "c (tree_of s src) k = Some r" and "p \<in> {src, dst}"
  shows "\<exists>q. c (tree_of s' p) k = Some q \<and> same_region P (regions s r) (regions s' q)"
proof (cases "p = src")
  case True
  then show ?thesis using assms(1,2) unfolding process_copied_def by auto
next
  case False
  moreover have "k \<in> dom (c (tree_of s' dst))" using assms(1,2) unfolding process_copied_def by blast
  ultimately show ?thesis using assms unfolding process_copied_def by blast
qed

lemma process_copied_writable:
  assumes "process_copied P c src dst s s'" and "\<forall>r \<in> ran (c (tree_of s src)). writable_region P s r"
  shows "\<forall>r \<in> ran (c (tree_of s' src)). writable_region P s' r" and "\<forall>q \<in> ran (c (tree_of s' dst)). writable_region P s' q"
proof -
  note cp = assms(1) [unfolded process_copied_def]
  have more: "more_references (references P s (region_inorder P (tree_of s src))) s s'" using cp by blast
  have ok: "regions_ok P c src s'" "regions_ok P c dst s'" using cp by blast+
  show "\<forall>r \<in> ran (c (tree_of s' src)). writable_region P s' r"
  proof
    fix r assume "r \<in> ran (c (tree_of s' src))"
    then obtain k where k: "c (tree_of s src) k = Some r" "c (tree_of s' src) k = Some r" using cp by (auto simp: ran_def)
    then have "same_region P (regions s r) (regions s' r)" using cp by blast
    then show "writable_region P s' r"
      using same_region_writable [OF _ _ regions_okD(3) [OF ok(1) k(2)] more] assms(2) k(1) by (auto intro: ranI)
  qed
  show "\<forall>q \<in> ran (c (tree_of s' dst)). writable_region P s' q"
  proof
    fix q assume "q \<in> ran (c (tree_of s' dst))"
    then obtain k where k: "c (tree_of s' dst) k = Some q" by (auto simp: ran_def)
    then obtain r where r: "c (tree_of s src) k = Some r" using cp by blast
    then have "same_region P (regions s r) (regions s' q)" using cp k by blast
    then show "writable_region P s' q"
      using same_region_writable [OF _ _ regions_okD(3) [OF ok(2) k] more] assms(2) r by (auto intro: ranI)
  qed
qed

text \<open>The page of a region in a copied process once the tables are written.\<close>

lemma copied_page:
  assumes "same_region P (regions s r) (regions s1 q)" and "page_mapped P pte p q off s'" and "same_memory s1 s'"
    and "writable_region P s r" and "page_of P (regions s r) off" and "entry_at P s r off = Some x" and "0 < VM_PAGE_SIZE P"
    and "more_references f s s1" and "0 < f (ph x)"
  shows "\<exists>w. pte p (vaddr (regions s r) + off) s' = Some (phys (pblocks s (ph x)), page_flags P w) \<and>
    (w \<longrightarrow> vflags (regions s r) AND VR_WRITABLE P \<noteq> 0 \<and> \<not> private_type P (memtype (regions s r)))"
proof -
  have slot: "off div VM_PAGE_SIZE P < slots_of P (regions s r)"
    using assms(4,5,7) by (simp add: writable_region_def page_of_def region_ok_def div_less_mono)
  then have "entry_at P s' q off = Some x" using assms(1,3,6) by (simp add: same_region_def same_memory_def)
  then obtain w where w: "pte p (vaddr (regions s' q) + off) s' = Some (phys (pblocks s' (ph x)), page_flags P w)"
    "w \<longrightarrow> vflags (regions s' q) AND VR_WRITABLE P \<noteq> 0 \<and> \<not> copy_on_write P s' q x"
    using assms(2) unfolding page_mapped_def by blast
  have "refcount (pblocks s (ph x)) \<noteq> 0" using assms(4,6) slot by (simp add: writable_region_def)
  then have "1 < refcount (pblocks s' (ph x))" using assms(3,8,9) by (simp add: more_references_def same_memory_def)
  then show ?thesis
    using w assms(1,3,8) by (intro exI [of _ w]) (simp add: same_region_def same_memory_def more_references_def copy_on_write_def)
qed

lemma map_proc_copy_start:
  assumes "regions_ok P c src s" and "avl_laws P c" and "dst \<noteq> src" and "c (tree_of s src) \<noteq> Map.empty"
  shows "map_proc_copy P dst src s =
    bindE (copy_regions P dst (region_inorder P (tree_of s src)) (set_tree dst (region_init P) s)) (\<lambda>(e, s).
      if e \<noteq> OK then Inr (e, s)
      else bindE (map_writept P src s) (\<lambda>(_, s). bindE (map_writept P dst s) (\<lambda>(_, s). Inr (OK, s))))"
proof -
  note mem = regions_inorder [OF assms(2,1)]
  obtain k r where k: "c (tree_of s src) k = Some r" using assms(4) by (meson not_None_eq ext)
  then have "r \<in> set (region_inorder P (tree_of s src))" using mem(2) regions_okD(1) [OF assms(1) k] by simp
  then obtain r0 rest where rs: "region_inorder P (tree_of s src) = r0 # rest" by (cases "region_inorder P (tree_of s src)") auto
  then have r0: "c (tree_of s src) (vaddr (regions s r0)) = Some r0" using mem(2) [of r0] by simp
  then have "parent (regions s r0) = src" "region_search P (tree_of s src) (vaddr (regions s r0)) AVL_EQUAL = Some r0"
    using regions_okD(2) [OF assms(1)] search_equal [OF assms(2)] by simp_all
  then show ?thesis using rs assms(3) by (simp add: map_proc_copy_def map_proc_copy_from_def set_tree_def)
qed

lemma both_tables_written:
  assumes "table_laws P pte" and "space_ok P" and "avl_laws P c" and "process_copied P c src dst s s1"
    and "\<forall>r \<in> ran (c (tree_of s src)). writable_region P s r" and "dst \<noteq> src"
  shows "\<exists>s2 s3. map_writept P src s1 = Inr (OK, s2) \<and> map_writept P dst s2 = Inr (OK, s3) \<and> same_memory s1 s3 \<and>
    (\<forall>p \<in> {src, dst}. \<forall>k q v. c (tree_of s1 p) k = Some q \<longrightarrow> page_of P (regions s1 q) v \<longrightarrow> page_mapped P pte p q v s3)"
proof -
  note wr = process_copied_writable [OF assms(4,5)]
  have ok: "regions_ok P c src s1" "regions_ok P c dst s1" using assms(4) unfolding process_copied_def by blast+
  obtain s2 where s2: "map_writept P src s1 = Inr (OK, s2)" "same_memory s1 s2"
    "\<forall>k r v. c (tree_of s1 src) k = Some r \<longrightarrow> page_of P (regions s1 r) v \<longrightarrow> page_mapped P pte src r v s2"
    using map_writept_run [OF assms(1-3) ok(1) wr(1)] by blast
  have ok2: "regions_ok P c dst s2" "\<forall>r \<in> ran (c (tree_of s2 dst)). writable_region P s2 r"
    using ok(2) wr(2) s2(2) by (simp_all add: regions_ok_def same_memory_def writable_region_def)
  obtain s3 where s3: "map_writept P dst s2 = Inr (OK, s3)" "same_memory s2 s3"
    "\<forall>k r v. c (tree_of s2 dst) k = Some r \<longrightarrow> page_of P (regions s2 r) v \<longrightarrow> page_mapped P pte dst r v s3"
    "\<forall>q u. q \<noteq> dst \<longrightarrow> pte q u s3 = pte q u s2"
    using map_writept_run [OF assms(1-3) ok2] by blast
  have "page_mapped P pte src q v s3" if "c (tree_of s1 src) k = Some q" "page_of P (regions s1 q) v" for k q v
    using page_mapped_same [of s2 s3 pte src q v P] s3(2,4) s2(3) that assms(6) by auto
  moreover have "page_mapped P pte dst q v s3" if "c (tree_of s1 dst) k = Some q" "page_of P (regions s1 q) v" for k q v
    using s3(3) s2(2) that by (simp add: same_memory_def)
  ultimately show ?thesis using s2(1) s3(1) same_memory_trans [OF s2(2) s3(2)] by blast
qed

lemma map_proc_copy_run:
  assumes "regions_ok P c src s" and "avl_laws P c" and "space_ok P" and "fork_laws P" and "table_laws P pte"
    and "dst \<noteq> src" and "c (tree_of s src) \<noteq> Map.empty"
    and "\<forall>r \<in> ran (c (tree_of s src)). r < next_region s \<and> writable_region P s r"
  shows "\<exists>s1 s3. map_proc_copy P dst src s = Inr (OK, s3) \<and> process_copied P c src dst s s1 \<and> same_memory s1 s3 \<and>
    (\<forall>p \<in> {src, dst}. \<forall>k q v. c (tree_of s1 p) k = Some q \<longrightarrow> page_of P (regions s1 q) v \<longrightarrow> page_mapped P pte p q v s3)"
proof -
  let ?rs = "region_inorder P (tree_of s src)"
  have wr: "\<forall>r \<in> ran (c (tree_of s src)). writable_region P s r" using assms(8) by simp
  obtain s1 where s1: "copy_regions P dst ?rs (set_tree dst (region_init P) s) = Inr (OK, s1)" "process_copied P c src dst s s1"
    using process_copied_run [OF assms(4,2,3,1,6)] assms(8) by blast
  obtain s2 s3 where s3: "map_writept P src s1 = Inr (OK, s2)" "map_writept P dst s2 = Inr (OK, s3)" "same_memory s1 s3"
    "\<forall>p \<in> {src, dst}. \<forall>k q v. c (tree_of s1 p) k = Some q \<longrightarrow> page_of P (regions s1 q) v \<longrightarrow> page_mapped P pte p q v s3"
    using both_tables_written [OF assms(5,3,2) s1(2) wr assms(6)] by blast
  have "map_proc_copy P dst src s = Inr (OK, s3)"
    unfolding map_proc_copy_start [OF assms(1,2,6,7)] using s1(1) s3(1,2) by simp
  then show ?thesis using s1(2) s3(3,4) by blast
qed

lemma process_copied_same: "process_copied P c src dst s s1 \<Longrightarrow> same_memory s1 s3 \<Longrightarrow> process_copied P c src dst s s3"
  by (simp add: process_copied_def same_memory_def regions_ok_def more_references_def)

text \<open>
  C20. Copying a process's memory for \<open>fork\<close>. With enough memory \<open>map_proc_copy\<close> succeeds and
  leaves the copy with the same regions over the same physical blocks, each block counting the
  new references, both processes well laid out; and each present page is mapped to its block in the
  page tables of both, for writing only if the region is writable and its memory is not private:
  a write to a private page by either process faults.
\<close>

theorem map_proc_copy_copy_on_write:
  assumes "regions_ok P c src s" and "avl_laws P c" and "space_ok P" and "fork_laws P" and "table_laws P pte"
    and "dst \<noteq> src" and "c (tree_of s src) \<noteq> Map.empty"
    and "\<forall>r \<in> ran (c (tree_of s src)). r < next_region s \<and> writable_region P s r"
  shows "\<exists>s'. map_proc_copy P dst src s = Inr (OK, s') \<and> process_copied P c src dst s s' \<and>
    (\<forall>k r off x. c (tree_of s src) k = Some r \<longrightarrow> page_of P (regions s r) off \<longrightarrow> entry_at P s r off = Some x \<longrightarrow>
       (\<forall>p \<in> {src, dst}. \<exists>w. pte p (k + off) s' = Some (phys (pblocks s (ph x)), page_flags P w) \<and>
          (w \<longrightarrow> vflags (regions s r) AND VR_WRITABLE P \<noteq> 0 \<and> \<not> private_type P (memtype (regions s r)))))"
proof -
  let ?rs = "region_inorder P (tree_of s src)"
  have n: "0 < VM_PAGE_SIZE P" and wr: "\<forall>r \<in> ran (c (tree_of s src)). writable_region P s r"
    using assms(3,8) by (simp_all add: space_ok_def)
  obtain s1 s3 where run: "map_proc_copy P dst src s = Inr (OK, s3)" and s1: "process_copied P c src dst s s1"
    and s3: "same_memory s1 s3"
      "\<forall>p \<in> {src, dst}. \<forall>k q v. c (tree_of s1 p) k = Some q \<longrightarrow> page_of P (regions s1 q) v \<longrightarrow> page_mapped P pte p q v s3"
    using map_proc_copy_run [OF assms] by blast
  note cp = s1 [unfolded process_copied_def]
  have page: "\<exists>w. pte p (k + off) s3 = Some (phys (pblocks s (ph x)), page_flags P w) \<and>
      (w \<longrightarrow> vflags (regions s r) AND VR_WRITABLE P \<noteq> 0 \<and> \<not> private_type P (memtype (regions s r)))"
    if r: "c (tree_of s src) k = Some r" and off: "page_of P (regions s r) off" and x: "entry_at P s r off = Some x"
      and p: "p \<in> {src, dst}" for k r off x p
  proof -
    have wrr: "writable_region P s r" using wr r by (auto intro: ranI)
    have va: "vaddr (regions s r) = k" using regions_okD(1) [OF assms(1) r] .
    have "off div VM_PAGE_SIZE P < slots_of P (regions s r)"
      using wrr off n by (simp add: writable_region_def page_of_def region_ok_def div_less_mono)
    then have pos: "0 < references P s ?rs (ph x)" using references_pos x regions_inorder(2) [OF assms(2,1)] r va by blast
    obtain q where q: "c (tree_of s1 p) k = Some q" "same_region P (regions s r) (regions s1 q)"
      using copied_region [OF s1 r p] by blast
    then have "page_of P (regions s1 q) off" using off by (simp add: page_of_def same_region_def)
    then have "page_mapped P pte p q off s3" using s3(2) p q(1) by blast
    moreover have "more_references (references P s ?rs) s s1" using cp by blast
    ultimately show ?thesis using copied_page [of P s r s1 q pte p off s3 x "references P s ?rs", OF q(2) _ s3(1) wrr off x n _ pos] va by blast
  qed
  show ?thesis using run page process_copied_same [OF s1 s3(1)] by blast
qed

section \<open>A process with private and shared memory\<close>

text \<open>
  Page tables as the world: \<open>pt_writemap\<close> sets an entry. Pages of memory type 0 are writable while
  one region refers to them, those of type 1 always.
\<close>

type_synonym fork_state = "((nat \<times> nat) list, (block_id \<times> nat) list, nat \<Rightarrow> nat \<Rightarrow> (nat \<times> 32 word) option) vm"

definition fork_vm :: "((nat \<times> nat) list, (block_id \<times> nat) list, nat \<Rightarrow> nat \<Rightarrow> (nat \<times> 32 word) option) vmenv" where
  "fork_vm = \<lparr>VM_PAGE_SIZE = 4096, VM_DATATOP = 4026531840, MAP_NONE = 4294967294, VM_PROC_NR = 8,
     VM_BLOCKID_NONE = 0, VR_WRITABLE = 1, VR_SHARED = 4, VR_DIRECT = 8, VR_ANON = 256,
     VR_UNINITIALIZED = 512, VR_PHYS64K = 16, VR_LOWER16MB = 32, VR_LOWER1MB = 64, VR_CONTIG = 128,
     PAF_ALIGN64K = 1, PAF_LOWER16MB = 2, PAF_LOWER1MB = 4, PAF_CONTIG = 8, PAF_CLEAR = 16,
     PROT_WRITE = 2, PTF_WRITE = 2, PTF_READ = 0, PTF_PRESENT = 1, PTF_USER = 4, MF_PREALLOC = 1,
     kernel_bytes = 0, vm_bytes = 0,
     region_search = list_search, region_search_root = (\<lambda>t. case t of [] \<Rightarrow> None | e # _ \<Rightarrow> Some (snd e)),
     region_inorder = (\<lambda>t. map (the \<circ> map_of t) (sort (remdups (map fst t)))),
     region_insert = (\<lambda>t k r. (k, r) # t),
     region_remove = (\<lambda>t k. filter (\<lambda>e. fst e \<noteq> k) t), region_init = [],
     yielded_search = map_of, yielded_inorder = map snd, yielded_insert = (\<lambda>t k y. (k, y) # t),
     yielded_remove = (\<lambda>t k. (filter (\<lambda>e. fst e \<noteq> k) t, map_of t k)), yielded_init = [],
     hash_i_64 = (\<lambda>e i. nat e + unat i), cmp64 = (\<lambda>a b. if a < b then -1 else if a = b then 0 else 1),
     make64 = (\<lambda>lo hi. push_bit 32 (ucast hi) OR ucast lo),
     ABS2CLICK = (\<lambda>a. a div 4096), CLICK2ABS = (\<lambda>a. a * 4096),
     slab_fails = (\<lambda>_. False), calloc_fails = (\<lambda>_ _. False), realloc_fails = (\<lambda>_ _. False),
     vm_isokendpt = (\<lambda>_ _. None), alloc_mem = (\<lambda>_ _ s. (None, s)), free_mem = (\<lambda>_ _ s. s),
     pb_new = (\<lambda>_ s. (None, s)), pb_free = (\<lambda>_ s. s),
     pb_reference = (\<lambda>b off r s. (True, slot_update r (off div 4096) (Some \<lparr>ph = b, pr_offset = off\<rparr>)
                (count_update b Suc s))),
     pb_unreferenced = (\<lambda>r off s. slot_update r (off div 4096) None
                (case physblocks (regions s r) ! (off div 4096) of None \<Rightarrow> s
                 | Some x \<Rightarrow> count_update (ph x) (\<lambda>n. n - 1) s)),
     pt_writemap = (\<lambda>p v a _ f s. (0, s\<lparr>vm_world := (vm_world s)(p := (vm_world s p)(v \<mapsto> (a, f)))\<rparr>)),
     sys_abscopy = (\<lambda>_ _ _ s. (0, s)),
     mt_writable = (\<lambda>m. Some (\<lambda>r off s. m = 1 \<or>
       (case physblocks (regions s r) ! (off div 4096) of None \<Rightarrow> False | Some x \<Rightarrow> refcount (pblocks s (ph x)) = 1))),
     mt_regionid = (\<lambda>_. None), mt_refcount = (\<lambda>_. None),
     ev_new = (\<lambda>_. None), ev_copy = (\<lambda>_. None), ev_delete = (\<lambda>_. None), ev_resize = (\<lambda>_. None),
     ev_pagefault = (\<lambda>_. Some (\<lambda>_ _ _ _ s. (0, s)))\<rparr>"

definition forking :: fork_state where
  "forking = \<lparr>vmprocs = (\<lambda>p. \<lparr>vm_endpoint = 7, vm_regions_avl = (if p = 0 then [(8192, 0), (40960, 1)] else []),
        vm_region_top = 0, vm_yielded = 0\<rparr>),
     regions = (\<lambda>r. \<lparr>vaddr = (if r = 0 then 8192 else 40960), vlength = 8192, vflags = 257, memtype = r,
        remaps = 0, vr_id = 0, physblocks = [None, Some \<lparr>ph = r, pr_offset = 4096\<rparr>], parent = 0\<rparr>),
     next_region = 2, freed_regions = {}, region_ids = 2,
     pblocks = (\<lambda>b. \<lparr>phys = b * 4096, refcount = 1\<rparr>),
     yblocks = (\<lambda>_. \<lparr>yid = \<lparr>owner = 0, bid = 0\<rparr>, physaddr = 0, pages = 0, younger = None, older = None\<rparr>),
     next_yielded = 0, freed_yielded = {}, vm_yielded_blocks = (\<lambda>_. []), avl_inited = True,
     lru_youngest = None, lru_oldest = None, vm_world = (\<lambda>_ _. None)\<rparr>"

abbreviation world_pte :: "nat \<Rightarrow> nat \<Rightarrow> fork_state \<Rightarrow> (nat \<times> 32 word) option" where
  "world_pte p v s \<equiv> vm_world s p v"

lemma fork_vm_laws: "avl_laws fork_vm map_of" "space_ok fork_vm" "fork_laws fork_vm" "table_laws fork_vm world_pte"
proof -
  show "avl_laws fork_vm map_of"
    unfolding avl_laws_def
    by (simp add: fork_vm_def list_search_def finite_dom_map_of map_of_filter_key list_inorder list_root)
  show "space_ok fork_vm" by (simp add: space_ok_def fork_vm_def VSPACE_def)
  have "reference_law fork_vm"
    by (simp add: reference_law_def fork_vm_def slot_update_def count_update_def set_region_def)
  moreover have "copy_law fork_vm" by (simp add: copy_law_def fork_vm_def)
  ultimately show "fork_laws fork_vm" by (simp add: fork_laws_def fork_vm_def)
  show "table_laws fork_vm world_pte" by (simp add: table_laws_def fork_vm_def OK_def fun_eq_iff)
qed

lemma fork_vm_private: "private_type fork_vm 0"
  by (auto simp: private_type_def fork_vm_def)

lemma forking_ok: "regions_ok fork_vm map_of 0 forking" "\<forall>r \<in> ran (map_of (tree_of forking 0)). r < 2 \<and> writable_region fork_vm forking r"
  by (auto simp: regions_ok_def writable_region_def region_ok_def fork_vm_def forking_def less_Suc_eq nth_Cons ran_def
      split: if_splits nat.splits)

lemma map_proc_copy_copy_on_write_witness:
  "\<exists>s'. map_proc_copy fork_vm 1 0 forking = Inr (OK, s') \<and> process_copied fork_vm map_of 0 1 forking s' \<and>
     vm_world s' 0 12288 = Some (0, 5) \<and> vm_world s' 1 12288 = Some (0, 5)"
proof -
  have "(1 :: nat) \<noteq> 0" "map_of (tree_of forking 0) \<noteq> Map.empty"
    "\<forall>r \<in> ran (map_of (tree_of forking 0)). r < next_region forking \<and> writable_region fork_vm forking r"
    using forking_ok(2) by (simp_all add: forking_def)
  from map_proc_copy_copy_on_write [OF forking_ok(1) fork_vm_laws this]
  obtain s' where s': "map_proc_copy fork_vm 1 0 forking = Inr (OK, s')" "process_copied fork_vm map_of 0 1 forking s'"
    "\<forall>k r off x. map_of (tree_of forking 0) k = Some r \<longrightarrow> page_of fork_vm (regions forking r) off \<longrightarrow>
       entry_at fork_vm forking r off = Some x \<longrightarrow>
       (\<forall>p \<in> {0, 1}. \<exists>w. vm_world s' p (k + off) = Some (phys (pblocks forking (ph x)), page_flags fork_vm w) \<and>
          (w \<longrightarrow> vflags (regions forking r) AND VR_WRITABLE fork_vm \<noteq> 0 \<and> \<not> private_type fork_vm (memtype (regions forking r))))"
    by blast
  have "map_of (tree_of forking 0) 8192 = Some 0" "page_of fork_vm (regions forking 0) 4096"
    "entry_at fork_vm forking 0 4096 = Some \<lparr>ph = 0, pr_offset = 4096\<rparr>" "memtype (regions forking 0) = 0"
    "phys (pblocks forking 0) = 0" "page_flags fork_vm False = 5"
    by (simp_all add: forking_def fork_vm_def page_of_def page_flags_def)
  then have "\<forall>p \<in> {0, 1}. vm_world s' p 12288 = Some (0, 5)"
    using s'(3) [rule_format, of 8192 0 4096 "\<lparr>ph = 0, pr_offset = 4096\<rparr>"] fork_vm_private by fastforce
  then show ?thesis using s'(1,2) by simp
qed

end
