(* ===== verification/Region_Unmap.thy ===== *)
theory Region_Unmap
  imports Region_Slot Region_Map
begin

text \<open>
  Unmapping in \<open>region.c\<close>. Taking pages off the end of a region shrinks it and uncovers exactly
  those addresses. Taking them off the start goes wrong twice: the offsets of the last pages
  are not moved, and unmapping a whole region also takes its upper neighbour out of the tree.
\<close>

section \<open>What the other parts of VM keep\<close>

text \<open>
  \<open>pb_unreferenced\<close> empties the slot; the page table and the delete hook of a memory type
  leave the regions alone.
\<close>

definition unmap_laws :: "('t, 'y, 'w) vmenv \<Rightarrow> bool" where
  "unmap_laws P \<longleftrightarrow>
     (\<forall>r off s. vmprocs (pb_unreferenced P r off s) = vmprocs s
        \<and> regions (pb_unreferenced P r off s) = (regions s)(r := (regions s r)
            \<lparr>physblocks := (physblocks (regions s r))[off div VM_PAGE_SIZE P := None]\<rparr>)) \<and>
     (\<forall>p v a n f s. vmprocs (snd (pt_writemap P p v a n f s)) = vmprocs s
        \<and> regions (snd (pt_writemap P p v a n f s)) = regions s) \<and>
     (\<forall>m f r s. ev_delete P m = Some f \<longrightarrow> vmprocs (f r s) = vmprocs s \<and> regions (f r s) = regions s)"

lemma unmap_lawsD:
  assumes "unmap_laws P"
  shows "vmprocs (pb_unreferenced P r off s) = vmprocs s"
    and "regions (pb_unreferenced P r off s) = (regions s)(r := (regions s r)
            \<lparr>physblocks := (physblocks (regions s r))[off div VM_PAGE_SIZE P := None]\<rparr>)"
    and "vmprocs (snd (pt_writemap P p v a n f s)) = vmprocs s"
    and "regions (snd (pt_writemap P p v a n f s)) = regions s"
    and "ev_delete P m = Some g \<Longrightarrow> vmprocs (g r s) = vmprocs s"
    and "ev_delete P m = Some g \<Longrightarrow> regions (g r s) = regions s"
  using assms by (auto simp: unmap_laws_def)

section \<open>Freeing a range of pages\<close>

lemma page_offsets_zero [simp]: "0 < VM_PAGE_SIZE P \<Longrightarrow> page_offsets P 0 0 = []"
  by (simp add: page_offsets_def)

lemma page_offsets_aligned:
  assumes "0 < VM_PAGE_SIZE P" and "VM_PAGE_SIZE P dvd start" and "VM_PAGE_SIZE P dvd e"
  shows "page_offsets P start e = map (\<lambda>i. start + i * VM_PAGE_SIZE P) [0..<(e - start) div VM_PAGE_SIZE P]"
proof -
  have "VM_PAGE_SIZE P dvd e - start" using assms by simp
  then obtain n where "e - start = VM_PAGE_SIZE P * n" by (auto simp: dvd_def)
  moreover have "(VM_PAGE_SIZE P * n + VM_PAGE_SIZE P - 1) div VM_PAGE_SIZE P = n"
    using assms(1) div_mult_self4[of "VM_PAGE_SIZE P" n "VM_PAGE_SIZE P - 1"] by simp
  ultimately show ?thesis using assms(1) by (simp add: page_offsets_def)
qed

lemma set_page_offsets:
  assumes "0 < VM_PAGE_SIZE P" and "VM_PAGE_SIZE P dvd start" and "VM_PAGE_SIZE P dvd e"
  shows "set (page_offsets P start e) = {v. start \<le> v \<and> v < e \<and> VM_PAGE_SIZE P dvd v}"
proof -
  obtain a b where ab: "start = VM_PAGE_SIZE P * a" "e = VM_PAGE_SIZE P * b"
    using assms by (auto simp: dvd_def)
  have "v \<in> (\<lambda>i. start + i * VM_PAGE_SIZE P) ` {0..<b - a} \<longleftrightarrow> start \<le> v \<and> v < e \<and> VM_PAGE_SIZE P dvd v" for v
  proof
    assume "start \<le> v \<and> v < e \<and> VM_PAGE_SIZE P dvd v"
    then obtain m where m: "v = VM_PAGE_SIZE P * m" "a \<le> m" "m < b"
      using assms(1) ab by (auto simp: dvd_def)
    then have "v = start + (m - a) * VM_PAGE_SIZE P" "m - a \<in> {0..<b - a}"
      using ab by (auto simp: algebra_simps simp flip: distrib_left)
    then show "v \<in> (\<lambda>i. start + i * VM_PAGE_SIZE P) ` {0..<b - a}" by blast
  next
    assume "v \<in> (\<lambda>i. start + i * VM_PAGE_SIZE P) ` {0..<b - a}"
    then obtain i where "i < b - a" "v = start + i * VM_PAGE_SIZE P" by auto
    then have i: "v = VM_PAGE_SIZE P * (a + i)" "a + i < b" by (auto simp: ab algebra_simps)
    then have "v < e" using assms(1) ab by simp
    then show "start \<le> v \<and> v < e \<and> VM_PAGE_SIZE P dvd v" using i ab by simp
  qed
  moreover have "(e - start) div VM_PAGE_SIZE P = b - a"
    using assms(1) by (simp add: ab flip: diff_mult_distrib2)
  ultimately show ?thesis unfolding page_offsets_aligned[OF assms] by auto
qed

definition cleared :: "('t, 'y, 'w) vmenv \<Rightarrow> nat list \<Rightarrow> phys_region option list \<Rightarrow> phys_region option list" where
  "cleared P vs bs = fold (\<lambda>v bs. bs[v div VM_PAGE_SIZE P := None]) vs bs"

lemma cleared_simps [simp]:
  "cleared P [] bs = bs"
  "cleared P (v # vs) bs = cleared P vs (bs[v div VM_PAGE_SIZE P := None])"
  by (simp_all add: cleared_def)

lemma length_cleared [simp]: "length (cleared P vs bs) = length bs"
  by (induction vs arbitrary: bs) auto

lemma nth_cleared:
  "i < length bs \<Longrightarrow> cleared P vs bs ! i = (if i \<in> (\<lambda>v. v div VM_PAGE_SIZE P) ` set vs then None else bs ! i)"
  by (induction vs arbitrary: bs) (auto simp: nth_list_update)

lemma clear_slot_nth: "xs[j := None] ! i = Some x \<Longrightarrow> i < length xs \<Longrightarrow> xs ! i = Some x"
  by (cases "i = j") auto

lemma region_ok_clear:
  assumes "region_ok P vr"
  shows "region_ok P (vr\<lparr>physblocks := (physblocks vr)[j := None]\<rparr>)"
  using assms by (auto simp: region_ok_def dest!: clear_slot_nth)

lemma region_ok_cleared:
  assumes "region_ok P vr"
  shows "region_ok P (vr\<lparr>physblocks := cleared P vs (physblocks vr)\<rparr>)"
  using assms by (auto simp: region_ok_def nth_cleared split: if_splits)

lemma subfree_loop_clears:
  assumes laws: "unmap_laws P" and reg: "region_ok P (regions s r)"
    and vs: "\<forall>v \<in> set vs. start \<le> v \<and> v < e \<and> VM_PAGE_SIZE P dvd v" and e: "e \<le> vlength (regions s r)"
  shows "\<exists>s'. subfree_loop P r start e vs s = Inr s' \<and> vmprocs s' = vmprocs s
     \<and> regions s' = (regions s)(r := (regions s r)\<lparr>physblocks := cleared P vs (physblocks (regions s r))\<rparr>)"
  using reg vs e
proof (induction vs arbitrary: s)
  case (Cons v vs)
  let ?x = "physblocks (regions s r) ! (v div VM_PAGE_SIZE P)"
  have v: "start \<le> v" "v < e" "VM_PAGE_SIZE P dvd v" using Cons.prems by auto
  then have get: "physblock_get P (regions s r) v = Inr ?x"
    using Cons.prems by (intro physblock_get_ok) auto
  have idx: "v div VM_PAGE_SIZE P < vlength (regions s r) div VM_PAGE_SIZE P"
    using v Cons.prems(1,3) by (intro slot_index) auto
  show ?case
  proof (cases ?x)
    case None
    then have "(physblocks (regions s r))[v div VM_PAGE_SIZE P := None] = physblocks (regions s r)"
      by (metis list_update_id)
    then show ?thesis using Cons.IH[of s] Cons.prems get None by simp
  next
    case (Some x)
    then have off: "pr_offset x = v"
      using Cons.prems(1) idx v(3) by (auto simp: region_ok_def)
    let ?s = "pb_unreferenced P r v s"
    have ok: "region_ok P (regions ?s r)"
      using Cons.prems(1) by (simp add: unmap_lawsD[OF laws] region_ok_clear)
    show ?thesis
      using Cons.IH[OF ok] Cons.prems get Some off v
      by (simp add: unmap_lawsD[OF laws] fun_upd_same del: fun_upd_apply)
  qed
qed simp

lemma map_subfree_clears:
  assumes "unmap_laws P" and "space_ok P" and "region_ok P (regions s r)"
    and "VM_PAGE_SIZE P dvd start" and "VM_PAGE_SIZE P dvd len" and "start + len \<le> vlength (regions s r)"
  obtains s' where "map_subfree P r start len s = Inr s'" and "vmprocs s' = vmprocs s"
    and "regions s' = (regions s)(r := (regions s r)\<lparr>physblocks :=
           cleared P (page_offsets P start (start + len)) (physblocks (regions s r))\<rparr>)"
proof -
  have e: "wadd start len = start + len"
    using assms by (simp add: wadd_def region_ok_def space_ok_def)
  have "\<forall>v \<in> set (page_offsets P start (start + len)). start \<le> v \<and> v < start + len \<and> VM_PAGE_SIZE P dvd v"
    using assms set_page_offsets[of P start "start + len"] by (simp add: space_ok_def)
  from subfree_loop_clears[OF assms(1,3) this assms(6)] show ?thesis
    using that by (auto simp: map_subfree_def e)
qed

section \<open>Unmapping the end of a region\<close>

lemma unmap_end_step:
  assumes laws: "unmap_laws P" "space_ok P" and reg: "region_ok P (regions s r)"
    and rng: "0 < offset" "offset + len = vlength (regions s r)" "VM_PAGE_SIZE P dvd len"
  shows "\<exists>e s'. map_unmap_region P p r offset len s = Inr (e, s') \<and> e \<in> {OK, ENOMEM} \<and> vmprocs s' = vmprocs s
     \<and> regions s' = (regions s)(r := (regions s r)\<lparr>physblocks :=
           cleared P (page_offsets P offset (offset + len)) (physblocks (regions s r)), vlength := offset\<rparr>)"
proof -
  have dvd: "VM_PAGE_SIZE P dvd offset"
    using reg rng by (metis region_ok_def dvd_add_left_iff)
  have w: "wadd offset len = offset + len"
    using assms by (simp add: wadd_def region_ok_def space_ok_def)
  obtain s1 where s1: "map_subfree P r offset len s = Inr s1" "vmprocs s1 = vmprocs s"
    "regions s1 = (regions s)(r := (regions s r)\<lparr>physblocks :=
           cleared P (page_offsets P offset (offset + len)) (physblocks (regions s r))\<rparr>)"
    using map_subfree_clears[OF laws reg dvd rng(3)] rng(2) by auto
  let ?s2 = "set_region r ((regions s1 r)\<lparr>vlength := offset\<rparr>) s1"
  let ?w = "wadd (vaddr (regions s r)) offset"
  obtain e s' where pt: "pt_writemap P p ?w (MAP_NONE P) len 0 ?s2 = (e, s')" by fastforce
  have keep: "vmprocs s' = vmprocs ?s2" "regions s' = regions ?s2"
    using unmap_lawsD(3,4)[OF laws(1), of p ?w "MAP_NONE P" len 0 ?s2] by (simp_all add: pt)
  have len: "vlength (regions s1 r) = offset + len" using s1 rng by simp
  have "map_unmap_region P p r offset len s = Inr (if e \<noteq> OK then ENOMEM else OK, s')"
    using s1(1) rng(1,3) rng(2)[symmetric] w len pt by (simp add: map_unmap_region_def phys_slot_def set_region_def)
  then show ?thesis
    using keep s1(2,3) by (intro exI[of _ "if e \<noteq> OK then ENOMEM else OK"] exI[of _ s'])
      (simp add: set_region_def)
qed

section \<open>Unmapping the start of a region\<close>

lemma shift_offsets_ok:
  assumes "distinct (map (\<lambda>v. v div VM_PAGE_SIZE P) vs)"
    and "\<forall>v \<in> set vs. VM_PAGE_SIZE P dvd v \<and> v < vlength vr
           \<and> (\<forall>x. physblocks vr ! (v div VM_PAGE_SIZE P) = Some x \<longrightarrow> pr_offset x = v)"
  shows "\<exists>bs. shift_offsets P len vs vr = Inr (vr\<lparr>physblocks := bs\<rparr>) \<and> length bs = length (physblocks vr)
     \<and> (\<forall>i. i \<notin> (\<lambda>v. v div VM_PAGE_SIZE P) ` set vs \<longrightarrow> bs ! i = physblocks vr ! i)"
  using assms
proof (induction vs arbitrary: vr)
  case Nil
  then show ?case by (intro exI[of _ "physblocks vr"]) simp
next
  case (Cons v vs)
  let ?i = "v div VM_PAGE_SIZE P" and ?x = "physblocks vr ! (v div VM_PAGE_SIZE P)"
  let ?bs = "case ?x of None \<Rightarrow> physblocks vr
             | Some x \<Rightarrow> (physblocks vr)[?i := Some (x\<lparr>pr_offset := wsub (pr_offset x) len\<rparr>)]"
  have get: "physblock_get P vr v = Inr ?x"
    using Cons.prems(2) by (auto simp: physblock_get_def split: option.splits)
  have keep: "j \<noteq> ?i \<Longrightarrow> ?bs ! j = physblocks vr ! j" for j by (simp split: option.splits)
  have "\<forall>w \<in> set vs. VM_PAGE_SIZE P dvd w \<and> w < vlength (vr\<lparr>physblocks := ?bs\<rparr>)
      \<and> (\<forall>x. physblocks (vr\<lparr>physblocks := ?bs\<rparr>) ! (w div VM_PAGE_SIZE P) = Some x \<longrightarrow> pr_offset x = w)"
  proof
    fix w assume w: "w \<in> set vs"
    then have "w div VM_PAGE_SIZE P \<noteq> ?i" using Cons.prems(1) by (auto simp: image_iff)
    then show "VM_PAGE_SIZE P dvd w \<and> w < vlength (vr\<lparr>physblocks := ?bs\<rparr>)
      \<and> (\<forall>x. physblocks (vr\<lparr>physblocks := ?bs\<rparr>) ! (w div VM_PAGE_SIZE P) = Some x \<longrightarrow> pr_offset x = w)"
      using Cons.prems(2) w keep by simp
  qed
  from Cons.IH[OF _ this] Cons.prems(1)
  obtain bs where bs: "shift_offsets P len vs (vr\<lparr>physblocks := ?bs\<rparr>) = Inr (vr\<lparr>physblocks := bs\<rparr>)"
    "length bs = length ?bs" "\<forall>i. i \<notin> (\<lambda>v. v div VM_PAGE_SIZE P) ` set vs \<longrightarrow> bs ! i = ?bs ! i"
    by auto
  have "shift_offsets P len (v # vs) vr = shift_offsets P len vs (vr\<lparr>physblocks := ?bs\<rparr>)"
    using get by (auto split: option.splits)
  moreover have "length ?bs = length (physblocks vr)" by (simp split: option.splits)
  ultimately show ?case using bs keep by (intro exI[of _ bs]) auto
qed

text \<open>After the pages were freed: the region moves up in the tree, and the loop keeps the last slots.\<close>

lemma unmap_start_result:
  assumes "space_ok P" and reg: "region_ok P (regions s r)" and len: "VM_PAGE_SIZE P dvd len" "len \<le> vlength (regions s r)"
  defines "k \<equiv> vaddr (regions s r)" and "L \<equiv> vlength (regions s r)" and "PS \<equiv> VM_PAGE_SIZE P"
  shows "\<exists>bs. unmap_start P p r (len div PS) len s =
      Inr (set_region r ((regions s r)\<lparr>vaddr := k + len, vlength := L - len, physblocks := bs\<rparr>)
          (set_tree p (region_insert P (region_remove P (tree_of s p) k) (k + len) r) s))
    \<and> (\<forall>q. L - len \<le> q \<longrightarrow> len \<le> q \<longrightarrow> q < L \<longrightarrow> PS dvd q \<longrightarrow> len < L \<longrightarrow>
           bs ! ((q - len) div PS) = physblocks (regions s r) ! (q div PS))"
proof -
  have PS: "0 < PS" using assms(1) by (simp add: space_ok_def PS_def)
  have dvd: "PS dvd L" "PS dvd L - len" using reg len by (auto simp: region_ok_def PS_def L_def)
  have w: "wadd k len = k + len"
    using assms(1) reg len by (simp add: wadd_def region_ok_def space_ok_def k_def)
  have slots: "phys_slot P (L - len) = Inr ((L - len) div PS)" "len div PS + (L - len) div PS = L div PS"
    using dvd len by (auto simp: phys_slot_def PS_def[symmetric] L_def[symmetric] simp flip: div_plus_div_distrib_dvd_left)
  have room: "L div PS \<le> length (physblocks (regions s r))"
    using reg by (simp add: region_ok_def L_def PS_def)
  let ?vr = "(regions s r)\<lparr>vaddr := k + len, vlength := L - len\<rparr>" and ?vs = "page_offsets P 0 (L - len)"
  have set_vs: "set ?vs = {v. v < L - len \<and> PS dvd v}"
    using set_page_offsets[of P 0 "L - len"] PS dvd by (simp add: PS_def)
  have "map (\<lambda>v. v div PS) ?vs = [0..<(L - len) div PS]"
    using PS dvd page_offsets_aligned[of P 0 "L - len"] by (simp add: PS_def comp_def)
  then have dist: "distinct (map (\<lambda>v. v div PS) ?vs)" by simp
  have "\<forall>v \<in> set ?vs. PS dvd v \<and> v < vlength ?vr
      \<and> (\<forall>x. physblocks ?vr ! (v div PS) = Some x \<longrightarrow> pr_offset x = v)"
  proof
    fix v assume v: "v \<in> set ?vs"
    then have "v < L" "PS dvd v" by (auto simp: set_vs)
    then have "v div PS < L div PS" using slot_index[OF reg, of v] by (simp add: L_def PS_def)
    moreover have "v < L - len" "v div PS * PS = v" "PS dvd v" using v by (auto simp: set_vs)
    ultimately show "PS dvd v \<and> v < vlength ?vr \<and> (\<forall>x. physblocks ?vr ! (v div PS) = Some x \<longrightarrow> pr_offset x = v)"
      using reg by (simp add: region_ok_def L_def[symmetric] PS_def[symmetric])
  qed
  from shift_offsets_ok[of P ?vs ?vr len, folded PS_def, OF dist this]
  obtain bs where bs: "shift_offsets P len ?vs ?vr = Inr (?vr\<lparr>physblocks := bs\<rparr>)"
    "length bs = length (physblocks (regions s r))"
    "\<forall>i. i \<notin> (\<lambda>v. v div PS) ` set ?vs \<longrightarrow> bs ! i = physblocks (regions s r) ! i" by auto
  let ?bs = "if (L - len) div PS \<noteq> 0 then memmove_down (len div PS) ((L - len) div PS) bs else bs"
  show ?thesis
  proof (intro exI[of _ ?bs] conjI allI impI)
    show "unmap_start P p r (len div PS) len s =
      Inr (set_region r ((regions s r)\<lparr>vaddr := k + len, vlength := L - len, physblocks := ?bs\<rparr>)
          (set_tree p (region_insert P (region_remove P (tree_of s p) k) (k + len) r) s))"
      using bs(1) slots(1) w
      by (auto simp: unmap_start_def link_region_def set_region_def set_tree_def
          k_def[symmetric] L_def[symmetric])
  next
    fix q assume q: "L - len \<le> q" "len \<le> q" "q < L" "PS dvd q" "len < L"
    have idx: "(q - len) div PS = q div PS - len div PS" "(q - len) div PS < (L - len) div PS"
      "len div PS \<le> q div PS"
      using q len(1) PS dvd by (auto simp: PS_def[symmetric] dvd_def simp flip: diff_mult_distrib2)
    have "(L - len) div PS \<le> q div PS" using q(1) by (rule div_le_mono)
    then have "q div PS \<notin> (\<lambda>v. v div PS) ` set ?vs"
      using PS dvd by (auto simp: set_vs dvd_def)
    then have "bs ! (q div PS) = physblocks (regions s r) ! (q div PS)" using bs(3) by blast
    then show "?bs ! ((q - len) div PS) = physblocks (regions s r) ! (q div PS)"
      using idx slots(2) room bs(2) by (simp add: memmove_down_def nth_append)
  qed
qed

text \<open>The whole operation at the start of a region, up to the page table.\<close>

lemma unmap_start_whole:
  assumes laws: "unmap_laws P" "space_ok P" and reg: "region_ok P (regions s r)"
    and len: "VM_PAGE_SIZE P dvd len" "0 < len" "len < vlength (regions s r)"
  defines "k \<equiv> vaddr (regions s r)" and "L \<equiv> vlength (regions s r)"
  shows "\<exists>e s' bs. map_unmap_region P p r 0 len s = Inr (e, s')
     \<and> vmprocs s' = vmprocs (set_tree p (region_insert P (region_remove P (tree_of s p) k) (k + len) r) s)
     \<and> regions s' = (regions s)(r := (regions s r)\<lparr>vaddr := k + len, vlength := L - len, physblocks := bs\<rparr>)
     \<and> (\<forall>q. L - len \<le> q \<longrightarrow> len \<le> q \<longrightarrow> q < L \<longrightarrow> VM_PAGE_SIZE P dvd q \<longrightarrow>
           bs ! ((q - len) div VM_PAGE_SIZE P) = physblocks (regions s r) ! (q div VM_PAGE_SIZE P))"
proof -
  have w: "wadd 0 len = len" "wadd k 0 = k" using laws(2) reg len
    by (auto simp: wadd_def region_ok_def space_ok_def k_def)
  obtain s1 where s1: "map_subfree P r 0 len s = Inr s1" "vmprocs s1 = vmprocs s"
    "regions s1 = (regions s)(r := (regions s r)\<lparr>physblocks :=
        cleared P (page_offsets P 0 len) (physblocks (regions s r))\<rparr>)"
    using map_subfree_clears[OF laws reg, of 0 len] len by auto
  have reg1: "region_ok P (regions s1 r)" using reg s1(3) by (simp add: region_ok_cleared)
  have same: "vaddr (regions s1 r) = k" "vlength (regions s1 r) = L" "tree_of s1 p = tree_of s p"
    using s1 by (simp_all add: k_def L_def)
  have le: "len \<le> vlength (regions s1 r)" using len(3) same by (simp add: L_def)
  obtain bs where bs: "unmap_start P p r (len div VM_PAGE_SIZE P) len s1 =
      Inr (set_region r ((regions s1 r)\<lparr>vaddr := k + len, vlength := L - len, physblocks := bs\<rparr>)
          (set_tree p (region_insert P (region_remove P (tree_of s p) k) (k + len) r) s1))"
    and tail: "\<forall>q. L - len \<le> q \<longrightarrow> len \<le> q \<longrightarrow> q < L \<longrightarrow> VM_PAGE_SIZE P dvd q \<longrightarrow> len < L \<longrightarrow>
           bs ! ((q - len) div VM_PAGE_SIZE P) = physblocks (regions s1 r) ! (q div VM_PAGE_SIZE P)"
    using unmap_start_result[OF laws(2) reg1 len(1) le, of p, unfolded same] by blast
  let ?s2 = "set_region r ((regions s1 r)\<lparr>vaddr := k + len, vlength := L - len, physblocks := bs\<rparr>)
          (set_tree p (region_insert P (region_remove P (tree_of s p) k) (k + len) r) s1)"
  obtain e s' where pt: "pt_writemap P p k (MAP_NONE P) len 0 ?s2 = (e, s')" by fastforce
  have keep: "vmprocs s' = vmprocs ?s2" "regions s' = regions ?s2"
    using unmap_lawsD(3,4)[OF laws(1), of p k "MAP_NONE P" len 0 ?s2] by (simp_all add: pt)
  have unm: "map_unmap_region P p r 0 len s = Inr (if e \<noteq> OK then ENOMEM else OK, s')"
    using s1(1) bs pt w len
    by (simp add: map_unmap_region_def phys_slot_def k_def[symmetric] L_def[symmetric] set_region_def)
  have "physblocks (regions s1 r) ! (q div VM_PAGE_SIZE P) = physblocks (regions s r) ! (q div VM_PAGE_SIZE P)"
    if "len \<le> q" "q < L" "VM_PAGE_SIZE P dvd q" for q
  proof -
    have "q div VM_PAGE_SIZE P < length (physblocks (regions s r))"
      using slot_index[OF reg, of q] reg that by (simp add: L_def region_ok_def)
    moreover have "v \<in> set (page_offsets P 0 len) \<Longrightarrow> v div VM_PAGE_SIZE P \<noteq> q div VM_PAGE_SIZE P" for v
      using laws(2) len(1) that set_page_offsets[of P 0 len]
      by (metis (mono_tags, lifting) dvd_0_right dvd_div_mult_self mem_Collect_eq not_less space_ok_def)
    then have "q div VM_PAGE_SIZE P \<notin> (\<lambda>v. v div VM_PAGE_SIZE P) ` set (page_offsets P 0 len)"
      by (metis imageE)
    ultimately show ?thesis by (simp add: s1(3) nth_cleared)
  qed
  then have "\<forall>q. L - len \<le> q \<longrightarrow> len \<le> q \<longrightarrow> q < L \<longrightarrow> VM_PAGE_SIZE P dvd q \<longrightarrow>
      bs ! ((q - len) div VM_PAGE_SIZE P) = physblocks (regions s r) ! (q div VM_PAGE_SIZE P)"
    using tail len(3) unfolding L_def[symmetric] by metis
  moreover have "regions s' = (regions s)(r := (regions s r)\<lparr>vaddr := k + len, vlength := L - len, physblocks := bs\<rparr>)"
    using keep(2) s1(3) by (simp add: set_region_def set_tree_def)
  moreover have "vmprocs s' = vmprocs (set_tree p (region_insert P (region_remove P (tree_of s p) k) (k + len) r) s)"
    using keep(1) s1(2) by (simp add: set_region_def set_tree_def)
  ultimately show ?thesis using unm by blast
qed

section \<open>Properties\<close>

text \<open>A region shortened at its end, with the entries behind the end cleared.\<close>

lemma shortened_ok:
  assumes "regions_ok P c p s" and r: "c (tree_of s p) k = Some r"
    and "0 < n" "n \<le> vlength (regions s r)" "VM_PAGE_SIZE P dvd n"
    and s': "vmprocs s' = vmprocs s" "regions s' = (regions s)(r := (regions s r)\<lparr>physblocks := cleared P offs (physblocks (regions s r)), vlength := n\<rparr>)"
  shows "regions_ok P c p s'"
proof -
  let ?bs = "cleared P offs (physblocks (regions s r))"
  note reg = regions_okD [OF assms(1) r]
  have cleared: "region_ok P ((regions s r)\<lparr>physblocks := ?bs\<rparr>)" using reg(3) by (rule region_ok_cleared)
  have le: "n div VM_PAGE_SIZE P \<le> vlength (regions s r) div VM_PAGE_SIZE P"
    using assms(4) by (rule div_le_mono)
  have small: "\<forall>i < n div VM_PAGE_SIZE P. \<forall>x. ?bs ! i = Some x \<longrightarrow> pr_offset x = i * VM_PAGE_SIZE P"
    "n div VM_PAGE_SIZE P \<le> length ?bs" "vaddr (regions s r) + n \<le> VM_DATATOP P"
    using cleared le assms(4) by (auto simp: region_ok_def)
  have new: "region_ok P (regions s' r)"
    using small assms(3,5) reg(3) by (simp add: s'(2) region_ok_def)
  have len: "vlength (regions s' q) \<le> vlength (regions s q)" for q
    using assms(4) by (simp add: s'(2))
  show ?thesis
    unfolding regions_ok_def s'(1)
  proof (intro conjI allI impI)
    fix j q assume j: "c (tree_of s p) j = Some q"
    show "vaddr (regions s' q) = j" "parent (regions s' q) = p" "region_ok P (regions s' q)"
      using regions_okD [OF assms(1) j] new by (auto simp: s'(2))
    fix j' q' assume "c (tree_of s p) j' = Some q'" "j < j'"
    then show "j + vlength (regions s' q) \<le> j'"
      using regions_ok_apart [OF assms(1) j] len [of q] by (meson add_left_mono le_trans)
  qed
qed

lemma shortened_covers:
  assumes "regions_ok P c p s" and "c (tree_of s p) k = Some r" and "n + m = vlength (regions s r)"
    and "inj_on (c (tree_of s p)) (dom (c (tree_of s p)))"
    and s': "vmprocs s' = vmprocs s" "regions s' = (regions s)(r := (regions s r)\<lparr>physblocks := bs, vlength := n\<rparr>)"
  shows "covers c p s' q a \<longleftrightarrow> covers c p s q a \<and> \<not> (k + n \<le> a \<and> a < k + n + m)"
proof -
  have only: "c (tree_of s p) j = Some r \<longleftrightarrow> j = k" for j
    using assms(2,4) by (metis domI inj_onD)
  have at_r: "covers c p s r a \<longleftrightarrow> k \<le> a \<and> a < k + vlength (regions s r)"
    "covers c p s' r a \<longleftrightarrow> k \<le> a \<and> a < k + n"
    by (simp_all add: covers_def s' only)
  show ?thesis
  proof (cases "q = r")
    case True
    then show ?thesis unfolding True at_r assms(3) [symmetric] by arith
  next
    case False
    then have "covers c p s' q a \<longleftrightarrow> covers c p s q a" unfolding covers_def s' by simp
    moreover have "\<not> (k \<le> a \<and> a < k + vlength (regions s r))" if "covers c p s q a"
      using covers_unique [OF assms(1) that, of r] False at_r(1) by blast
    ultimately show ?thesis unfolding assms(3) [symmetric] by (metis add.assoc le_add1 le_trans)
  qed
qed

text \<open>
  C22. Unmapping the last pages of a region succeeds or reports ENOMEM from the page table, and
  in both cases uncovers exactly those addresses: every other address stays covered by the
  same region, and the process's regions stay well laid out.
\<close>

theorem map_unmap_end_uncovers:
  assumes "regions_ok P c p s" and "avl_laws P c" and "space_ok P" and "unmap_laws P"
    and "c (tree_of s p) k = Some r" and "0 < offset" and "offset + len = vlength (regions s r)"
    and "VM_PAGE_SIZE P dvd len" and "inj_on (c (tree_of s p)) (dom (c (tree_of s p)))"
  shows "\<exists>e s'. map_unmap_region P p r offset len s = Inr (e, s') \<and> e \<in> {OK, ENOMEM}
     \<and> regions_ok P c p s'
     \<and> (\<forall>q a. covers c p s' q a \<longleftrightarrow> covers c p s q a \<and> \<not> (k + offset \<le> a \<and> a < k + offset + len))"
proof -
  note reg = regions_okD [OF assms(1,5)]
  obtain e s' where s': "map_unmap_region P p r offset len s = Inr (e, s')" "e \<in> {OK, ENOMEM}"
    "vmprocs s' = vmprocs s" "regions s' = (regions s)(r := (regions s r)\<lparr>physblocks :=
       cleared P (page_offsets P offset (offset + len)) (physblocks (regions s r)), vlength := offset\<rparr>)"
    using unmap_end_step [OF assms(4,3) reg(3) assms(6-8)] by blast
  have "VM_PAGE_SIZE P dvd offset" using reg(3) assms(7,8) by (metis region_ok_def dvd_add_left_iff)
  moreover have "offset \<le> vlength (regions s r)" using assms(7) by simp
  ultimately have "regions_ok P c p s'" by (intro shortened_ok [OF assms(1,5,6) _ _ s'(3,4)])
  then show ?thesis
    using s'(1,2) shortened_covers [OF assms(1,5,7,9) s'(3,4)] by blast
qed

lemma list_vm_unmap: "unmap_laws list_vm"
  by (auto simp: unmap_laws_def list_vm_def slot_update_def count_update_def set_region_def split: option.splits)

theorem map_unmap_end_uncovers_witness:
  "\<exists>e s'. map_unmap_region list_vm 0 1 4096 4096 two_regions = Inr (e, s') \<and> e \<in> {OK, ENOMEM}
     \<and> regions_ok list_vm map_of 0 s'
     \<and> (\<forall>q a. covers map_of 0 s' q a \<longleftrightarrow> covers map_of 0 two_regions q a \<and> \<not> (45056 \<le> a \<and> a < 49152))"
proof -
  have "map_of (tree_of two_regions 0) 40960 = Some 1" "4096 + 4096 = vlength (regions two_regions 1)"
    "VM_PAGE_SIZE list_vm dvd 4096" "inj_on (map_of (tree_of two_regions 0)) (dom (map_of (tree_of two_regions 0)))"
    by (auto simp: two_regions_def list_vm_def inj_on_def)
  then show ?thesis
    using map_unmap_end_uncovers[OF two_regions_ok list_vm_laws list_vm_unmap, of 40960 1 4096 4096] by simp
qed

text \<open>
  C23. Unmapping the first pages of a region leaves the pages at the end with their old offsets:
  after it, looking up a page that was present there stops the server on an assertion, although
  the page is still mapped.
\<close>

theorem map_unmap_start_breaks_pages:
  assumes "regions_ok P c p s" and "avl_laws P c" and "space_ok P" and "unmap_laws P"
    and "c (tree_of s p) k = Some r" and "0 < len" and "VM_PAGE_SIZE P dvd len"
    and "len \<le> q" and "vlength (regions s r) \<le> q + len" and "q < vlength (regions s r)"
    and "VM_PAGE_SIZE P dvd q" and "physblocks (regions s r) ! (q div VM_PAGE_SIZE P) = Some x"
  shows "\<exists>e s'. map_unmap_region P p r 0 len s = Inr (e, s') \<and> map_lookup P p (k + q) True s' = Inl VM_assert"
proof -
  note reg = regions_okD[OF assms(1,5)]
  let ?L = "vlength (regions s r)" and ?t = "tree_of s p"
  obtain e s' bs where s': "map_unmap_region P p r 0 len s = Inr (e, s')"
    "vmprocs s' = vmprocs (set_tree p (region_insert P (region_remove P ?t k) (k + len) r) s)"
    "regions s' = (regions s)(r := (regions s r)\<lparr>vaddr := k + len, vlength := ?L - len, physblocks := bs\<rparr>)"
    "bs ! ((q - len) div VM_PAGE_SIZE P) = Some x"
    using unmap_start_whole[OF assms(4,3) reg(3) assms(7,6)] assms(8-12) reg(1) by fastforce
  have tree: "tree_of s' p = region_insert P (region_remove P ?t k) (k + len) r"
    by (simp add: s'(2) set_tree_def)
  have inside: "j \<le> k \<or> k + ?L \<le> j" if "c ?t j \<noteq> None" for j
    using regions_ok_apart[OF assms(1,5)] that by (meson not_less option.exhaust)
  have no: "c (region_remove P ?t k) (k + len) = None"
    using inside[of "k + len"] assms(6,8,10)
    by (cases "c ?t (k + len)") (auto simp: avl_lawsD(5)[OF assms(2)])
  have cont: "c (tree_of s' p) = (c ?t)(k := None, k + len \<mapsto> r)"
    by (simp add: tree avl_lawsD(4)[OF assms(2) no] avl_lawsD(5)[OF assms(2)] del: fun_upd_apply)
  have off: "pr_offset x = q"
    using reg(3) slot_index[OF reg(3) assms(10,11)] assms(11,12) by (simp add: region_ok_def)
  have "region_search P (tree_of s' p) (k + q) AVL_LESS_EQUAL = Some r"
  proof -
    have "k + len \<in> dom (c (tree_of s' p))" by (simp add: cont)
    then obtain j r' where j: "region_search P (tree_of s' p) (k + q) AVL_LESS_EQUAL = Some r'"
      "c (tree_of s' p) j = Some r'" "j \<le> k + q" "k + len \<le> j"
      using search_less_equal_cases[OF assms(2), of "tree_of s' p" "k + q"] assms(8)
      by (meson add_left_mono not_less)
    then have "j = k + len" using inside[of j] assms(6,10) by (auto simp: cont split: if_splits)
    then show ?thesis using j by (simp add: cont)
  qed
  moreover have "wadd (k + len) (?L - len) = k + ?L"
    using reg(1,3) assms(3,8,10) by (simp add: wadd_def region_ok_def space_ok_def)
  moreover have "(q - len) mod VM_PAGE_SIZE P = 0" using assms(7,11) by (simp flip: dvd_eq_mod_eq_0)
  ultimately have "map_lookup P p (k + q) True s' = Inl VM_assert"
    using s'(4) off assms(6,8,10) by (simp add: map_lookup_def s'(3) physblock_get_def)
  then show ?thesis using s'(1) by blast
qed

theorem map_unmap_start_breaks_pages_witness:
  "\<exists>e s'. map_unmap_region list_vm 0 0 0 4096 two_regions = Inr (e, s')
      \<and> map_lookup list_vm 0 12288 True s' = Inl VM_assert"
  using map_unmap_start_breaks_pages[OF two_regions_ok list_vm_laws list_vm_unmap,
      of 8192 0 4096 4096 "\<lparr>ph = 0, pr_offset = 4096\<rparr>"]
  by (simp add: two_regions_def list_vm_def)

text \<open>
  Unmapping a whole region that another one follows directly takes both out of the tree:
  the emptied region is put back at the address of its neighbour and removed by that address,
  so the neighbour is lost to the process although it is still mapped.
\<close>

theorem map_unmap_whole_drops_neighbour:
  assumes "regions_ok P c p s" and "avl_laws P c" and "space_ok P" and "unmap_laws P"
    and "c (tree_of s p) k = Some r" and "c (tree_of s p) (k + vlength (regions s r)) = Some q"
  shows "\<exists>e s'. map_unmap_region P p r 0 (vlength (regions s r)) s = Inr (e, s') \<and> e \<in> {OK, ENOMEM}
     \<and> c (tree_of s' p) = (c (tree_of s p))(k := None, k + vlength (regions s r) := None)
     \<and> regions s' q = regions s q"
proof -
  note reg = regions_okD[OF assms(1,5)]
  let ?L = "vlength (regions s r)" and ?t = "tree_of s p"
  have PS: "0 < VM_PAGE_SIZE P" "VM_PAGE_SIZE P dvd ?L" "0 < ?L" "?L \<le> VM_DATATOP P"
    using assms(3) reg(3) by (auto simp: space_ok_def region_ok_def)
  have w: "wadd 0 ?L = ?L" "wadd k 0 = k" "wadd 0 0 = 0"
    using assms(3) reg by (auto simp: wadd_def region_ok_def space_ok_def)
  have qr: "q \<noteq> r" using regions_okD(1)[OF assms(1,6)] reg(1) PS(3) by auto
  obtain s1 where s1: "map_subfree P r 0 ?L s = Inr s1" "vmprocs s1 = vmprocs s"
    "regions s1 = (regions s)(r := (regions s r)\<lparr>physblocks :=
        cleared P (page_offsets P 0 ?L) (physblocks (regions s r))\<rparr>)"
    using map_subfree_clears[OF assms(4,3) reg(3), of 0 ?L] PS by auto
  have reg1: "region_ok P (regions s1 r)" using reg(3) s1(3) by (simp add: region_ok_cleared)
  have same: "vaddr (regions s1 r) = k" "vlength (regions s1 r) = ?L" "tree_of s1 p = ?t"
    using s1 reg(1) by simp_all
  let ?ins = "region_insert P (region_remove P ?t k) (k + ?L) r"
  obtain bs where bs: "unmap_start P p r (?L div VM_PAGE_SIZE P) ?L s1 =
      Inr (set_region r ((regions s1 r)\<lparr>vaddr := k + ?L, vlength := 0, physblocks := bs\<rparr>) (set_tree p ?ins s1))"
    using unmap_start_result[OF assms(3) reg1 PS(2), of p] same by auto
  define s2 where "s2 = set_region r ((regions s1 r)\<lparr>vaddr := k + ?L, vlength := 0, physblocks := bs\<rparr>) (set_tree p ?ins s1)"
  define s3 where "s3 = set_tree p (region_remove P ?ins (k + ?L)) s2"
  have s2: "tree_of s2 p = ?ins" "vaddr (regions s2 r) = k + ?L" "vlength (regions s2 r) = 0"
    by (simp_all add: s2_def set_region_def set_tree_def)
  have s3: "tree_of s3 p = region_remove P ?ins (k + ?L)" "vlength (regions s3 r) = 0" "regions s3 q = regions s q"
    using qr s1(3) by (simp_all add: s3_def s2_def set_region_def set_tree_def)
  obtain s4 where s4: "map_free P r s3 = Inr s4" "vmprocs s4 = vmprocs s3" "regions s4 q = regions s3 q"
    using s3(2) w PS(1) qr unmap_lawsD(5,6)[OF assms(4)]
    by (cases "ev_delete P (memtype (regions s3 r))")
      (auto simp: map_free_def map_subfree_def free_region_object_def set_region_def Let_def)
  obtain e s' where pt: "pt_writemap P p k (MAP_NONE P) ?L 0 s4 = (e, s')" by fastforce
  have keep: "vmprocs s' = vmprocs s4" "regions s' = regions s4"
    using unmap_lawsD(3,4)[OF assms(4), of p k "MAP_NONE P" ?L 0 s4] by (simp_all add: pt)
  have "map_unmap_region P p r 0 ?L s = Inr (if e \<noteq> OK then ENOMEM else OK, s')"
    using s1(1) bs[folded s2_def] s2 s4(1)[unfolded s3_def] pt w PS(2) reg(1)
    by (simp add: map_unmap_region_def phys_slot_def)
  moreover have "c (tree_of s' p) = (c ?t)(k := None, k + ?L := None)"
    using avl_lawsD(9)[OF assms(2), of _ "k + ?L" "region_remove P ?t k" r]
    by (simp add: keep s4 s3 avl_lawsD(5)[OF assms(2)] fun_eq_iff)
  ultimately show ?thesis using keep s4(3) s3(3) by auto
qed

definition adjacent :: list_state where
  "adjacent = two_regions\<lparr>vmprocs := (\<lambda>_. \<lparr>vm_endpoint = 7, vm_regions_avl = [(8192, 0), (16384, 1)],
        vm_region_top = 0, vm_yielded = 0\<rparr>),
     regions := (\<lambda>r. (regions two_regions r)\<lparr>vaddr := if r = 0 then 8192 else 16384\<rparr>)\<rparr>"

lemma adjacent_ok: "regions_ok list_vm map_of 0 adjacent"
  by (auto simp: regions_ok_def region_ok_def list_vm_def two_regions_def adjacent_def less_Suc_eq nth_Cons
      split: if_splits nat.splits)

theorem map_unmap_whole_drops_neighbour_witness:
  "\<exists>e s'. map_unmap_region list_vm 0 0 0 8192 adjacent = Inr (e, s') \<and> e \<in> {OK, ENOMEM}
     \<and> map_of (tree_of s' 0) = Map.empty \<and> regions s' 1 = regions adjacent 1"
proof -
  have "map_of (tree_of adjacent 0) 8192 = Some 0" "vlength (regions adjacent 0) = 8192"
    "map_of (tree_of adjacent 0) (8192 + vlength (regions adjacent 0)) = Some 1"
    "(map_of (tree_of adjacent 0))(8192 := None, 16384 := None) = Map.empty"
    by (auto simp: adjacent_def two_regions_def)
  then show ?thesis
    using map_unmap_whole_drops_neighbour[OF adjacent_ok list_vm_laws list_vm_unmap, of 8192 0 1] by simp
qed

end
