(* ===== verification/Region_Exit.thy ===== *)
theory Region_Exit
  imports Region_Fork Region_Unmap
begin

text \<open>
  Freeing the memory of a process (\<open>map_free_proc\<close>, \<open>map_free\<close>, \<open>map_subfree\<close> in \<open>region.c\<close>) whose
  blocks other processes also refer to: its references are given back and nothing else changes.
  After a \<open>fork\<close>, the exit of the copy therefore leaves the memory of the process as it was.
\<close>

section \<open>Giving back references\<close>

text \<open>
  \<open>pb_unreferenced\<close> empties the slot and counts one reference less, when it is not the last one;
  \<open>ev_delete\<close> changes at most \<open>remaps\<close>.
\<close>

definition release_laws :: "('t, 'y, 'w) vmenv \<Rightarrow> bool" where
  "release_laws P \<longleftrightarrow>
     (\<forall>r off s x. VM_PAGE_SIZE P dvd off \<longrightarrow> off div VM_PAGE_SIZE P < length (physblocks (regions s r)) \<longrightarrow>
        entry_at P s r off = Some x \<longrightarrow> 1 < refcount (pblocks s (ph x)) \<longrightarrow>
        vmprocs (pb_unreferenced P r off s) = vmprocs s \<and>
        regions (pb_unreferenced P r off s) = (regions s)(r := (regions s r)\<lparr>physblocks :=
          (physblocks (regions s r))[off div VM_PAGE_SIZE P := None]\<rparr>) \<and>
        pblocks (pb_unreferenced P r off s) =
          (pblocks s)(ph x := (pblocks s (ph x))\<lparr>refcount := refcount (pblocks s (ph x)) - 1\<rparr>)) \<and>
     (\<forall>m f r s. ev_delete P m = Some f \<longrightarrow> vmprocs (f r s) = vmprocs s \<and> pblocks (f r s) = pblocks s \<and>
        (\<forall>q. shape (regions (f r s) q) = shape (regions s q)))"

lemma release_slot:
  assumes "release_laws P" and "0 < VM_PAGE_SIZE P" and "i < length (physblocks (regions s r))"
    and "physblocks (regions s r) ! i = Some x" and "1 < refcount (pblocks s (ph x))"
  shows "vmprocs (pb_unreferenced P r (i * VM_PAGE_SIZE P) s) = vmprocs s"
    and "regions (pb_unreferenced P r (i * VM_PAGE_SIZE P) s) =
      (regions s)(r := (regions s r)\<lparr>physblocks := (physblocks (regions s r))[i := None]\<rparr>)"
    and "pblocks (pb_unreferenced P r (i * VM_PAGE_SIZE P) s) =
      (pblocks s)(ph x := (pblocks s (ph x))\<lparr>refcount := refcount (pblocks s (ph x)) - 1\<rparr>)"
  using assms(1) [unfolded release_laws_def, THEN conjunct1, rule_format, of "i * VM_PAGE_SIZE P" s r x] assms(2-5) by simp_all

definition fewer_references :: "(nat \<Rightarrow> nat) \<Rightarrow> ('t, 'y, 'w) vm \<Rightarrow> ('t, 'y, 'w) vm \<Rightarrow> bool" where
  "fewer_references f s s' \<longleftrightarrow> (\<forall>b. phys (pblocks s' b) = phys (pblocks s b) \<and>
     refcount (pblocks s' b) + f b = refcount (pblocks s b))"

text \<open>Every block \<open>f\<close> counts references to has another one.\<close>

definition referenced_besides :: "(nat \<Rightarrow> nat) \<Rightarrow> ('t, 'y, 'w) vm \<Rightarrow> bool" where
  "referenced_besides f s \<longleftrightarrow> (\<forall>b. 0 < f b \<longrightarrow> f b < refcount (pblocks s b))"

lemma fewer_references_trans:
  "fewer_references f s s' \<Longrightarrow> fewer_references g s' s'' \<Longrightarrow> fewer_references (\<lambda>b. f b + g b) s s''"
  by (auto simp: fewer_references_def) (metis add.assoc add.commute)

lemma holding_Cons:
  "holding vr (i # is) b = (if map_option ph (physblocks vr ! i) = Some b then Suc (holding vr is b) else holding vr is b)"
  by (simp add: holding_def)

lemma holding_cleared:
  assumes "i \<notin> set is"
  shows "holding (vr\<lparr>physblocks := (physblocks vr)[i := None]\<rparr>) is = holding vr is"
proof -
  have "filter (\<lambda>j. map_option ph ((physblocks vr)[i := None] ! j) = Some b) is =
      filter (\<lambda>j. map_option ph (physblocks vr ! j) = Some b) is" for b
    using assms by (intro filter_cong refl) (metis nth_list_update_neq)
  then show ?thesis by (simp add: holding_def fun_eq_iff del: map_option_eq_Some)
qed

text \<open>The loop of \<open>map_subfree\<close> over the slots \<open>is\<close>.\<close>

lemma subfree_releases:
  assumes "release_laws P" and "0 < VM_PAGE_SIZE P" and "region_ok P (regions s r)" and "distinct is"
    and "\<forall>i \<in> set is. i < slots_of P (regions s r)" and "referenced_besides (holding (regions s r) is) s"
    and "e = vlength (regions s r)"
  shows "\<exists>s' bs. subfree_loop P r 0 e (map (\<lambda>i. i * VM_PAGE_SIZE P) is) s = Inr s' \<and> vmprocs s' = vmprocs s \<and>
    regions s' = (regions s)(r := (regions s r)\<lparr>physblocks := bs\<rparr>) \<and> fewer_references (holding (regions s r) is) s s'"
  using assms(3-7)
proof (induction "is" arbitrary: s)
  case Nil
  then show ?case by (intro exI [of _ s] exI [of _ "physblocks (regions s r)"]) (simp add: fewer_references_def holding_def)
next
  case (Cons i "is")
  let ?n = "VM_PAGE_SIZE P" and ?bs = "physblocks (regions s r)"
  have i: "i < slots_of P (regions s r)" "i < length ?bs" using Cons.prems(1,3) by (auto simp: region_ok_def)
  have at: "i * ?n < vlength (regions s r)" using slot_offset [OF i(1) assms(2)] .
  have get: "physblock_get P (regions s r) (i * ?n) = Inr (?bs ! i)"
    using physblock_get_ok [OF Cons.prems(1) at] assms(2) by simp
  show ?case
  proof (cases "?bs ! i")
    case None
    then have "holding (regions s r) (i # is) = holding (regions s r) is" by (simp add: holding_Cons fun_eq_iff)
    moreover from this have "\<exists>s' bs. subfree_loop P r 0 e (map (\<lambda>i. i * ?n) is) s = Inr s' \<and> vmprocs s' = vmprocs s \<and>
        regions s' = (regions s)(r := (regions s r)\<lparr>physblocks := bs\<rparr>) \<and> fewer_references (holding (regions s r) is) s s'"
      using Cons.prems by (intro Cons.IH) simp_all
    ultimately show ?thesis using get None by (simp del: fun_upd_apply)
  next
    case (Some x)
    have off: "pr_offset x = i * ?n" using Cons.prems(1) i(1) Some by (simp add: region_ok_def)
    have hold: "holding (regions s r) (i # is) b = holding (regions s r) is b + (if b = ph x then 1 else 0)" for b
      using Some by (simp add: holding_Cons)
    have "0 < holding (regions s r) (i # is) (ph x)" unfolding hold by simp
    then have more: "1 < refcount (pblocks s (ph x))"
      using Cons.prems(4) unfolding referenced_besides_def by (metis One_nat_def Suc_leI le_less_trans)
    let ?s = "pb_unreferenced P r (i * ?n) s"
    note rel = release_slot [OF assms(1,2) i(2) Some more]
    have keep: "holding (regions ?s r) is = holding (regions s r) is"
      using holding_cleared [of i "is" "regions s r"] Cons.prems(2) by (simp add: rel(2))
    have "holding (regions s r) is b < refcount (pblocks ?s b)" if "0 < holding (regions s r) is b" for b
    proof -
      have "holding (regions s r) (i # is) b < refcount (pblocks s b)"
        using Cons.prems(4) [unfolded referenced_besides_def, rule_format, of b] that hold [of b] by simp
      then show ?thesis by (cases "b = ph x") (simp_all add: rel(3) hold)
    qed
    then have "referenced_besides (holding (regions ?s r) is) ?s" unfolding keep referenced_besides_def by blast
    then have "\<exists>s' bs. subfree_loop P r 0 e (map (\<lambda>i. i * ?n) is) ?s = Inr s' \<and> vmprocs s' = vmprocs ?s \<and>
        regions s' = (regions ?s)(r := (regions ?s r)\<lparr>physblocks := bs\<rparr>) \<and> fewer_references (holding (regions ?s r) is) ?s s'"
      using Cons.prems region_ok_clear [OF Cons.prems(1), of i] by (intro Cons.IH) (simp_all add: rel(2))
    then obtain s' bs where s': "subfree_loop P r 0 e (map (\<lambda>i. i * ?n) is) ?s = Inr s'" "vmprocs s' = vmprocs s"
      "regions s' = (regions s)(r := (regions s r)\<lparr>physblocks := bs\<rparr>)" "fewer_references (holding (regions s r) is) ?s s'"
      unfolding keep by (auto simp: rel(1,2) fun_upd_same simp del: fun_upd_apply)
    have one: "fewer_references (\<lambda>b. if b = ph x then 1 else 0) s ?s" using more by (simp add: fewer_references_def rel(3))
    have "holding (regions s r) (i # is) = (\<lambda>b. (if b = ph x then 1 else 0) + holding (regions s r) is b)"
      unfolding fun_eq_iff hold by simp
    then have "fewer_references (holding (regions s r) (i # is)) s s'" using fewer_references_trans [OF one s'(4)] by simp
    moreover have "subfree_loop P r 0 e (map (\<lambda>i. i * ?n) (i # is)) s = Inr s'" using get Some off at s'(1) Cons.prems(5) by simp
    ultimately show ?thesis using s'(2,3) by blast
  qed
qed

lemma map_free_releases:
  assumes "release_laws P" and "space_ok P" and "region_ok P (regions s r)"
    and "referenced_besides (holding (regions s r) [0..<slots_of P (regions s r)]) s"
  shows "\<exists>s'. map_free P r s = Inr s' \<and> vmprocs s' = vmprocs s \<and> (\<forall>q. q \<noteq> r \<longrightarrow> shape (regions s' q) = shape (regions s q)) \<and>
    fewer_references (holding (regions s r) [0..<slots_of P (regions s r)]) s s'"
proof -
  let ?n = "VM_PAGE_SIZE P" and ?vr = "regions s r"
  have n: "0 < ?n" using assms(2) by (simp add: space_ok_def)
  have len: "?n dvd vlength ?vr" "vlength ?vr < VSPACE" using assms(2,3) by (auto simp: region_ok_def space_ok_def)
  have offs: "page_offsets P 0 (vlength ?vr) = map (\<lambda>i. i * ?n) [0..<slots_of P ?vr]"
    using page_offsets_aligned [OF n, of 0 "vlength ?vr"] len(1) by simp
  obtain s1 bs where s1: "subfree_loop P r 0 (vlength ?vr) (map (\<lambda>i. i * ?n) [0..<slots_of P ?vr]) s = Inr s1"
    "vmprocs s1 = vmprocs s" "regions s1 = (regions s)(r := ?vr\<lparr>physblocks := bs\<rparr>)"
    "fewer_references (holding ?vr [0..<slots_of P ?vr]) s s1"
    using subfree_releases [OF assms(1) n assms(3) _ _ assms(4) refl] by auto
  define s2 where "s2 = (case ev_delete P (memtype (regions s1 r)) of None \<Rightarrow> s1 | Some f \<Rightarrow> f r s1)"
  have s2: "vmprocs s2 = vmprocs s1" "pblocks s2 = pblocks s1" "\<forall>q. shape (regions s2 q) = shape (regions s1 q)"
    using assms(1) unfolding release_laws_def by (auto simp: s2_def split: option.split)
  have "map_free P r s = Inr (free_region_object r (set_region r ((regions s2 r)\<lparr>physblocks := []\<rparr>) s2))"
    using s1(1) len by (simp add: map_free_def map_subfree_def wadd_def offs s2_def [symmetric])
  then show ?thesis
    using s1(2-4) s2 by (auto simp: free_region_object_def set_region_def fewer_references_def)
qed

section \<open>Freeing a process\<close>

text \<open>The references of a process, counted along its tree.\<close>

abbreviation key_holding :: "('t, 'y, 'w) vmenv \<Rightarrow> ('t \<Rightarrow> nat \<rightharpoonup> nat) \<Rightarrow> ('t, 'y, 'w) vm \<Rightarrow> nat \<Rightarrow> nat \<Rightarrow> nat \<Rightarrow> nat" where
  "key_holding P c s p k \<equiv> holding (regions s (the (c (tree_of s p) k))) [0..<slots_of P (regions s (the (c (tree_of s p) k)))]"

definition key_references :: "('t, 'y, 'w) vmenv \<Rightarrow> ('t \<Rightarrow> nat \<rightharpoonup> nat) \<Rightarrow> ('t, 'y, 'w) vm \<Rightarrow> nat \<Rightarrow> nat \<Rightarrow> nat" where
  "key_references P c s p b = (\<Sum>k \<in> dom (c (tree_of s p)). key_holding P c s p k b)"

lemma references_keys:
  assumes "avl_laws P c"
  shows "references P s (region_inorder P (tree_of s p)) = key_references P c s p"
proof
  fix b
  let ?ks = "sorted_list_of_set (dom (c (tree_of s p)))"
  have "set ?ks = dom (c (tree_of s p))" using avl_lawsD(1) [OF assms] by simp
  then have "key_references P c s p b = (\<Sum>k \<leftarrow> ?ks. key_holding P c s p k b)"
    unfolding key_references_def
    using sum.distinct_set_conv_list [of ?ks "\<lambda>k. key_holding P c s p k b"] by simp
  then show "references P s (region_inorder P (tree_of s p)) b = key_references P c s p b"
    by (simp add: references_def avl_lawsD(6) [OF assms] comp_def)
qed

lemma holding_shape: "shape x = shape y \<Longrightarrow> holding x [0..<slots_of P x] = holding y [0..<slots_of P y]"
  using shapeD [of x y] by (simp add: holding_def fun_eq_iff)

text \<open>Taking one region out of the tree.\<close>

lemma key_references_remove:
  assumes "avl_laws P c" and "c (tree_of s p) k = Some r" and "c (tree_of s' p) = (c (tree_of s p))(k := None)"
    and "\<And>j q. j \<noteq> k \<Longrightarrow> c (tree_of s p) j = Some q \<Longrightarrow> shape (regions s' q) = shape (regions s q)"
  shows "key_references P c s p b = holding (regions s r) [0..<slots_of P (regions s r)] b + key_references P c s' p b"
proof -
  have "key_holding P c s' p j = key_holding P c s p j" if j: "j \<in> dom (c (tree_of s p)) - {k}" for j
  proof -
    obtain q where q: "c (tree_of s p) j = Some q" "j \<noteq> k" using j by blast
    have "shape (regions s' q) = shape (regions s q)" using assms(4) q by blast
    from holding_shape [OF this, of P] show ?thesis using q by (simp add: assms(3))
  qed
  then have "key_references P c s' p b = (\<Sum>j \<in> dom (c (tree_of s p)) - {k}. key_holding P c s p j b)"
    unfolding key_references_def assms(3) by (intro sum.cong) auto
  moreover have "k \<in> dom (c (tree_of s p))" using assms(2) by blast
  ultimately show ?thesis
    using sum.remove [OF avl_lawsD(1) [OF assms(1)], of k "tree_of s p" "\<lambda>j. key_holding P c s p j b"] assms(2)
    by (simp add: key_references_def)
qed

definition process_freed ::
  "('t, 'y, 'w) vmenv \<Rightarrow> ('t \<Rightarrow> nat \<rightharpoonup> nat) \<Rightarrow> nat \<Rightarrow> ('t, 'y, 'w) vm \<Rightarrow> ('t, 'y, 'w) vm \<Rightarrow> bool" where
  "process_freed P c p s s' \<longleftrightarrow> c (tree_of s' p) = Map.empty \<and> (\<forall>q. q \<noteq> p \<longrightarrow> vmprocs s' q = vmprocs s q) \<and>
     vm_yielded (vmprocs s' p) = vm_yielded (vmprocs s p) \<and>
     (\<forall>r. r \<notin> ran (c (tree_of s p)) \<longrightarrow> shape (regions s' r) = shape (regions s r)) \<and>
     fewer_references (key_references P c s p) s s'"

text \<open>One turn of the loop.\<close>

lemma free_one_region:
  assumes laws: "release_laws P" "avl_laws P c" "space_ok P" and ok: "regions_ok P c p s"
    and besides: "referenced_besides (key_references P c s p) s" and some: "c (tree_of s p) \<noteq> Map.empty"
  shows "\<exists>k r s1. free_regions P p (Suc fuel) s = free_regions P p fuel s1 \<and> c (tree_of s p) k = Some r \<and>
    c (tree_of s1 p) = (c (tree_of s p))(k := None) \<and> (\<forall>q. q \<noteq> p \<longrightarrow> vmprocs s1 q = vmprocs s q) \<and>
    vm_yielded (vmprocs s1 p) = vm_yielded (vmprocs s p) \<and> (\<forall>q. q \<noteq> r \<longrightarrow> shape (regions s1 q) = shape (regions s q)) \<and>
    fewer_references (holding (regions s r) [0..<slots_of P (regions s r)]) s s1 \<and>
    key_references P c s p = (\<lambda>b. holding (regions s r) [0..<slots_of P (regions s r)] b + key_references P c s1 p b)"
proof -
  let ?t = "tree_of s p"
  obtain r where root: "region_search_root P ?t = Some r"
    using avl_lawsD(7) [OF laws(2), of ?t] some by (cases "region_search_root P ?t") auto
  then obtain k where k: "c ?t k = Some r" using avl_lawsD(8) [OF laws(2)] by (auto simp: ran_def)
  note reg = regions_okD [OF ok k]
  let ?hold = "holding (regions s r) [0..<slots_of P (regions s r)]"
  let ?s0 = "set_tree p (region_remove P ?t (vaddr (regions s r))) s"
  have s0: "regions ?s0 = regions s" "pblocks ?s0 = pblocks s" "c (tree_of ?s0 p) = (c ?t)(k := None)"
    "q \<noteq> p \<Longrightarrow> vmprocs ?s0 q = vmprocs s q" "vm_yielded (vmprocs ?s0 q) = vm_yielded (vmprocs s q)" for q
    using reg(1) by (simp_all add: set_tree_def avl_lawsD(5) [OF laws(2)])
  have other: "q \<noteq> r" if "c ?t j = Some q" "j \<noteq> k" for j q using regions_okD(1) [OF ok that(1)] reg(1) that(2) by auto
  have "key_references P c s p b = ?hold b + key_references P c ?s0 p b" for b
    using key_references_remove [OF laws(2) k s0(3)] s0(1) by simp
  then have "referenced_besides (holding (regions ?s0 r) [0..<slots_of P (regions ?s0 r)]) ?s0"
    using besides unfolding referenced_besides_def s0(1,2) by (metis add_gr_0 add_lessD1)
  then obtain s1 where s1: "map_free P r ?s0 = Inr s1" "vmprocs s1 = vmprocs ?s0"
    "\<forall>q. q \<noteq> r \<longrightarrow> shape (regions s1 q) = shape (regions s q)" "fewer_references ?hold ?s0 s1"
    using map_free_releases [OF laws(1,3), of ?s0 r] reg(3) unfolding s0(1) by blast
  have tree1: "c (tree_of s1 p) = (c ?t)(k := None)" using s0(3) s1(2) by simp
  then have "key_references P c s p b = ?hold b + key_references P c s1 p b" for b
    using key_references_remove [OF laws(2) k tree1] other s1(3) by blast
  moreover have "fewer_references ?hold s s1" using s1(4) by (simp add: fewer_references_def s0(2))
  moreover have "free_regions P p (Suc fuel) s = free_regions P p fuel s1" using root s1(1) by simp
  ultimately show ?thesis using k tree1 s0(4,5) s1(2,3) by (intro exI [of _ k] exI [of _ r] exI [of _ s1]) (simp add: fun_eq_iff)
qed

lemma referenced_besides_rest:
  assumes "referenced_besides (\<lambda>b. f b + g b) s" and "fewer_references f s s'"
  shows "referenced_besides g s'"
  unfolding referenced_besides_def
proof (intro allI impI)
  fix b assume "0 < g b"
  then have "f b + g b < refcount (pblocks s b)" using assms(1) by (simp add: referenced_besides_def)
  moreover have "refcount (pblocks s' b) + f b = refcount (pblocks s b)" using assms(2) by (simp add: fewer_references_def)
  ultimately show "g b < refcount (pblocks s' b)" by linarith
qed

lemma free_regions_run:
  assumes laws: "release_laws P" "avl_laws P c" "space_ok P"
    and "regions_ok P c p s" and "referenced_besides (key_references P c s p) s" and "card (dom (c (tree_of s p))) = fuel"
  shows "\<exists>s'. free_regions P p fuel s = Inr s' \<and> process_freed P c p s s'"
  using assms(4-6)
proof (induction fuel arbitrary: s)
  case 0
  then have "c (tree_of s p) = Map.empty" using avl_lawsD(1) [OF laws(2)] by simp
  moreover from this have "region_search_root P (tree_of s p) = None"
    using avl_lawsD(8) [OF laws(2), of "tree_of s p"] by (cases "region_search_root P (tree_of s p)") auto
  ultimately show ?case by (intro exI [of _ s]) (simp add: process_freed_def fewer_references_def key_references_def)
next
  case (Suc fuel)
  have "c (tree_of s p) \<noteq> Map.empty" using Suc.prems(3) by auto
  then obtain k r s1 where s1: "free_regions P p (Suc fuel) s = free_regions P p fuel s1" "c (tree_of s p) k = Some r"
    "c (tree_of s1 p) = (c (tree_of s p))(k := None)" "\<forall>q. q \<noteq> p \<longrightarrow> vmprocs s1 q = vmprocs s q"
    "vm_yielded (vmprocs s1 p) = vm_yielded (vmprocs s p)" "\<forall>q. q \<noteq> r \<longrightarrow> shape (regions s1 q) = shape (regions s q)"
    "fewer_references (holding (regions s r) [0..<slots_of P (regions s r)]) s s1"
    "key_references P c s p = (\<lambda>b. holding (regions s r) [0..<slots_of P (regions s r)] b + key_references P c s1 p b)"
    using free_one_region [OF laws Suc.prems(1,2), of fuel] by blast
  have "c (tree_of s p) j = Some q \<and> shape (regions s1 q) = shape (regions s q)" if "c (tree_of s1 p) j = Some q" for j q
  proof -
    have j: "c (tree_of s p) j = Some q" "j \<noteq> k" using that by (auto simp: s1(3) split: if_splits)
    then have "q \<noteq> r" using regions_okD(1) [OF Suc.prems(1)] s1(2) by blast
    then show ?thesis using j(1) s1(6) by simp
  qed
  with Suc.prems(1) have ok1: "regions_ok P c p s1" by (rule regions_ok_sub)
  have "referenced_besides (key_references P c s1 p) s1"
    using referenced_besides_rest [OF _ s1(7)] Suc.prems(2) unfolding s1(8) by blast
  moreover have "card (dom (c (tree_of s1 p))) = fuel"
    using Suc.prems(3) s1(2) avl_lawsD(1) [OF laws(2), of "tree_of s p"] by (simp add: s1(3) domI)
  ultimately obtain s' where s': "free_regions P p fuel s1 = Inr s'" "process_freed P c p s1 s'" using Suc.IH ok1 by blast
  note fr = s'(2) [unfolded process_freed_def]
  have "shape (regions s' q) = shape (regions s q)" if q: "q \<notin> ran (c (tree_of s p))" for q
  proof -
    have "q \<noteq> r" "q \<notin> ran (c (tree_of s1 p))" using s1(2) q by (auto simp: s1(3) ran_def split: if_splits)
    then show ?thesis using fr s1(6) by auto
  qed
  moreover have "fewer_references (key_references P c s p) s s'" unfolding s1(8) using fewer_references_trans [OF s1(7)] fr by blast
  ultimately have "process_freed P c p s s'" using fr s1(4,5) unfolding process_freed_def by simp
  then show ?case using s1(1) s'(1) by simp
qed

lemma map_free_proc_run:
  assumes "release_laws P" and "avl_laws P c" and "space_ok P" and "regions_ok P c p s"
    and "referenced_besides (key_references P c s p) s" and "vm_yielded (vmprocs s p) = 0"
  shows "\<exists>s'. map_free_proc P p s = Inr (OK, s') \<and> process_freed P c p s s'"
proof -
  have "length (region_inorder P (tree_of s p)) = card (dom (c (tree_of s p)))" by (simp add: avl_lawsD(6) [OF assms(2)])
  then obtain s1 where s1: "free_regions P p (length (region_inorder P (tree_of s p))) s = Inr s1" "process_freed P c p s s1"
    using free_regions_run [OF assms(1-5) refl] by auto
  let ?s = "set_tree p (region_init P) s1"
  have "vm_yielded (vmprocs ?s p) = 0" using s1(2) assms(6) by (simp add: process_freed_def set_tree_def)
  then have "map_free_proc P p s = Inr (OK, ?s)"
    using s1(1) by (simp add: map_free_proc_def free_yielded_proc_def free_hashes.simps [of P p 0])
  moreover have "process_freed P c p s ?s"
    using s1(2) avl_lawsD(3) [OF assms(2)] by (simp add: process_freed_def set_tree_def fewer_references_def)
  ultimately show ?thesis by blast
qed

text \<open>The references of a copy are those of the process it was copied from.\<close>

lemma copy_references:
  assumes "avl_laws P c" and "process_copied P c src dst s s1"
  shows "key_references P c s1 dst = references P s (region_inorder P (tree_of s src))"
proof -
  note cp = assms(2) [unfolded process_copied_def]
  have "key_holding P c s1 dst k = key_holding P c s src k" if k: "k \<in> dom (c (tree_of s1 dst))" for k
  proof -
    obtain q where q: "c (tree_of s1 dst) k = Some q" using k by blast
    then obtain r where r: "c (tree_of s src) k = Some r" using cp by blast
    then have same: "same_region P (regions s r) (regions s1 q)" using cp q by blast
    then have "holding (regions s1 q) [0..<slots_of P (regions s1 q)] = holding (regions s r) [0..<slots_of P (regions s r)]"
      by (auto simp: holding_def same_region_def fun_eq_iff intro!: arg_cong [of _ _ length] filter_cong)
    then show ?thesis by (simp add: q r)
  qed
  then show ?thesis
    unfolding references_keys [OF assms(1)] key_references_def fun_eq_iff using cp by (auto intro!: sum.cong)
qed

lemma copy_referenced_besides:
  assumes "regions_ok P c src s" and "avl_laws P c" and "space_ok P"
    and "\<forall>r \<in> ran (c (tree_of s src)). r < next_region s \<and> writable_region P s r"
    and "more_references (references P s (region_inorder P (tree_of s src))) s s1"
  shows "referenced_besides (references P s (region_inorder P (tree_of s src))) s1"
  unfolding referenced_besides_def
proof (intro allI impI)
  fix b assume "0 < references P s (region_inorder P (tree_of s src)) b"
  then obtain r where r: "r \<in> set (region_inorder P (tree_of s src))" "0 < holding (regions s r) [0..<slots_of P (regions s r)] b"
    unfolding references_def by (auto simp: sum_list_eq_0_iff simp flip: neq0_conv)
  then obtain i x where i: "i < slots_of P (regions s r)" "physblocks (regions s r) ! i = Some x" "ph x = b"
    unfolding holding_def by (auto simp: length_greater_0_conv filter_empty_conv)
  have "writable_region P s r" using r(1) regions_inorder(2) [OF assms(2,1)] assms(4) by (auto intro: ranI)
  then have "refcount (pblocks s b) \<noteq> 0" using i by (auto simp: writable_region_def)
  then show "references P s (region_inorder P (tree_of s src)) b < refcount (pblocks s1 b)"
    using assms(5) by (simp add: more_references_def)
qed

text \<open>
  C21. A copy that exits leaves nothing behind. After \<open>map_proc_copy\<close>, freeing the copy with
  \<open>map_free_proc\<close> succeeds, empties its tree, and gives every block the number of references
  it had before; the regions of the copied process have kept their place, their flags and their
  blocks.
\<close>

theorem fork_then_exit_restores:
  assumes "regions_ok P c src s" and "avl_laws P c" and "space_ok P" and "fork_laws P" and "table_laws P pte"
    and "dst \<noteq> src" and "c (tree_of s src) \<noteq> Map.empty"
    and "\<forall>r \<in> ran (c (tree_of s src)). r < next_region s \<and> writable_region P s r"
    and "release_laws P" and "vm_yielded (vmprocs s dst) = 0"
  shows "\<exists>s1 s2. map_proc_copy P dst src s = Inr (OK, s1) \<and> map_free_proc P dst s1 = Inr (OK, s2) \<and>
    c (tree_of s2 dst) = Map.empty \<and> tree_of s2 src = tree_of s src \<and> regions_ok P c src s2 \<and>
    (\<forall>k r. c (tree_of s src) k = Some r \<longrightarrow> same_region P (regions s r) (regions s2 r)) \<and>
    (\<forall>b. refcount (pblocks s2 b) = refcount (pblocks s b) \<and> phys (pblocks s2 b) = phys (pblocks s b))"
proof -
  let ?refs = "references P s (region_inorder P (tree_of s src))"
  obtain s1 where run: "map_proc_copy P dst src s = Inr (OK, s1)" and copied: "process_copied P c src dst s s1"
    using map_proc_copy_run [OF assms(1-8)] process_copied_same by blast
  note cp = copied [unfolded process_copied_def]
  have refs: "key_references P c s1 dst = ?refs" by (rule copy_references [OF assms(2) copied])
  have more: "more_references ?refs s s1" using cp by blast
  have besides: "referenced_besides (key_references P c s1 dst) s1"
    unfolding refs using copy_referenced_besides [OF assms(1-3,8) more] .
  have "regions_ok P c dst s1" "vm_yielded (vmprocs s1 dst) = 0" using cp assms(10) by auto
  from map_free_proc_run [OF assms(9,2,3) this(1) besides this(2)] obtain s2 where s2:
    "map_free_proc P dst s1 = Inr (OK, s2)" "process_freed P c dst s1 s2" by blast
  note fr = s2(2) [unfolded process_freed_def refs]
  have tree: "tree_of s2 src = tree_of s src" using fr cp assms(6) by simp
  have keep: "shape (regions s2 r) = shape (regions s1 r)" if "c (tree_of s src) k = Some r" for k r
  proof -
    have "parent (regions s1 r) = src" using regions_okD(2) [of P c src s1 k r] cp that by simp
    then have "r \<notin> ran (c (tree_of s1 dst))"
      using regions_okD(2) [of P c dst s1] cp assms(6) by (auto simp: ran_def)
    then show ?thesis using fr by blast
  qed
  have "regions_ok P c src s1" using cp by blast
  then have ok: "regions_ok P c src s2" by (rule regions_ok_sub) (use tree keep cp in auto)
  have same: "same_region P (regions s r) (regions s2 r)" if "c (tree_of s src) k = Some r" for k r
    using cp that shapeD [OF keep [OF that]] by (simp add: same_region_def)
  have "refcount (pblocks s2 b) = refcount (pblocks s b) \<and> phys (pblocks s2 b) = phys (pblocks s b)" for b
    using fr more by (simp add: fewer_references_def more_references_def)
  then show ?thesis using run s2(1) fr tree ok same by blast
qed

lemma fork_vm_release: "release_laws fork_vm"
  by (simp add: release_laws_def fork_vm_def slot_update_def count_update_def set_region_def)

lemma fork_then_exit_restores_witness:
  "\<exists>s1 s2. map_proc_copy fork_vm 1 0 forking = Inr (OK, s1) \<and> map_free_proc fork_vm 1 s1 = Inr (OK, s2) \<and>
     map_of (tree_of s2 1) = Map.empty \<and> refcount (pblocks s2 0) = 1"
proof -
  have "(1 :: nat) \<noteq> 0" "map_of (tree_of forking 0) \<noteq> Map.empty"
    "\<forall>r \<in> ran (map_of (tree_of forking 0)). r < next_region forking \<and> writable_region fork_vm forking r"
    using forking_ok(2) by (simp_all add: forking_def)
  moreover have "vm_yielded (vmprocs forking 1) = 0" "refcount (pblocks forking 0) = 1" by (simp_all add: forking_def)
  ultimately show ?thesis
    using fork_then_exit_restores [OF forking_ok(1) fork_vm_laws _ _ _ fork_vm_release, of 1] by metis
qed

end
