(* ===== verification/Region_Lru.thy ===== *)
theory Region_Lru
  imports Region_Slot Region_Yield
begin

text \<open>
  The yielded blocks of \<open>region.c\<close> as a list, youngest first: the doubly linked list, the trees of
  the table and the counts of the processes all describe the same blocks, freeing a block takes
  it out of all of them, and VM takes memory lnk from the oldest blocks.
\<close>

section \<open>The doubly linked list\<close>

definition olders :: "('t, 'y, 'w) vm \<Rightarrow> nat \<Rightarrow> nat option" where
  "olders s = (\<lambda>y. older (yblocks s y))"

definition youngers :: "('t, 'y, 'w) vm \<Rightarrow> nat \<Rightarrow> nat option" where
  "youngers s = (\<lambda>y. younger (yblocks s y))"

definition ylist :: "('t, 'y, 'w) vm \<Rightarrow> nat list \<Rightarrow> bool" where
  "ylist s ys \<longleftrightarrow> dll (olders s) (youngers s) (lru_youngest s) (lru_oldest s) ys"

lemma links_set_yb [simp]:
  "olders (set_yb y (older_update (\<lambda>_. p)) s) = (olders s)(y := p)"
  "youngers (set_yb y (older_update (\<lambda>_. p)) s) = youngers s"
  "youngers (set_yb y (younger_update (\<lambda>_. p)) s) = (youngers s)(y := p)"
  "olders (set_yb y (younger_update (\<lambda>_. p)) s) = olders s"
  "lru_youngest (set_yb y f s) = lru_youngest s" "lru_oldest (set_yb y f s) = lru_oldest s"
  by (auto simp: fun_eq_iff olders_def youngers_def set_yb_def)

lemma links_ends [simp]:
  "olders (s\<lparr>lru_youngest := p\<rparr>) = olders s" "youngers (s\<lparr>lru_youngest := p\<rparr>) = youngers s"
  "olders (s\<lparr>lru_oldest := p\<rparr>) = olders s" "youngers (s\<lparr>lru_oldest := p\<rparr>) = youngers s"
  by (simp_all add: olders_def youngers_def)

definition yinfo :: "yielded \<Rightarrow> block_id \<times> nat \<times> int" where
  "yinfo y = (yid y, physaddr y, pages y)"

text \<open>A change of the links alone.\<close>

definition relinked :: "('t, 'y, 'w) vm \<Rightarrow> ('t, 'y, 'w) vm \<Rightarrow> bool" where
  "relinked s s' \<longleftrightarrow> (\<exists>yb f r. s' = s\<lparr>yblocks := yb, lru_youngest := f, lru_oldest := r\<rparr>
     \<and> (\<forall>y. yinfo (yb y) = yinfo (yblocks s y)))"

lemma relinkedI:
  "s' = s\<lparr>yblocks := yb, lru_youngest := f, lru_oldest := r\<rparr> \<Longrightarrow>
     (\<And>y. yinfo (yb y) = yinfo (yblocks s y)) \<Longrightarrow> relinked s s'"
  unfolding relinked_def by blast

lemma relinkedD:
  assumes "relinked s s'"
  shows "vmprocs s' = vmprocs s" "regions s' = regions s" "pblocks s' = pblocks s"
    "vm_yielded_blocks s' = vm_yielded_blocks s" "avl_inited s' = avl_inited s"
    "next_yielded s' = next_yielded s" "next_region s' = next_region s" "freed_yielded s' = freed_yielded s"
    "yid (yblocks s' y) = yid (yblocks s y)" "physaddr (yblocks s' y) = physaddr (yblocks s y)"
    "pages (yblocks s' y) = pages (yblocks s y)"
proof -
  obtain yb f r where eq: "s' = s\<lparr>yblocks := yb, lru_youngest := f, lru_oldest := r\<rparr>"
    and info: "\<forall>y. yinfo (yb y) = yinfo (yblocks s y)"
    using assms unfolding relinked_def by blast
  show "vmprocs s' = vmprocs s" "regions s' = regions s" "pblocks s' = pblocks s"
    "vm_yielded_blocks s' = vm_yielded_blocks s" "avl_inited s' = avl_inited s"
    "next_yielded s' = next_yielded s" "next_region s' = next_region s" "freed_yielded s' = freed_yielded s"
    by (simp_all add: eq)
  show "yid (yblocks s' y) = yid (yblocks s y)" "physaddr (yblocks s' y) = physaddr (yblocks s y)"
    "pages (yblocks s' y) = pages (yblocks s y)"
    using info[rule_format, of y] by (simp_all add: eq yinfo_def)
qed

lemma relinked_trans: "relinked s s' \<Longrightarrow> relinked s' s'' \<Longrightarrow> relinked s s''"
  unfolding relinked_def by fastforce

lemma relinked_steps:
  "relinked s (s\<lparr>lru_youngest := p\<rparr>)" "relinked s (s\<lparr>lru_oldest := p\<rparr>)"
  "relinked s (set_yb y (older_update f) s)" "relinked s (set_yb y (younger_update f) s)"
proof -
  show "relinked s (s\<lparr>lru_youngest := p\<rparr>)"
    by (rule relinkedI[where yb = "yblocks s" and f = p and r = "lru_oldest s"]) simp_all
  show "relinked s (s\<lparr>lru_oldest := p\<rparr>)"
    by (rule relinkedI[where yb = "yblocks s" and f = "lru_youngest s" and r = p]) simp_all
  show "relinked s (set_yb y (older_update f) s)"
    by (rule relinkedI[where yb = "(yblocks s)(y := older_update f (yblocks s y))" and f = "lru_youngest s" and r = "lru_oldest s"])
      (simp_all add: yinfo_def set_yb_def)
  show "relinked s (set_yb y (younger_update f) s)"
    by (rule relinkedI[where yb = "(yblocks s)(y := younger_update f (yblocks s y))" and f = "lru_youngest s" and r = "lru_oldest s"])
      (simp_all add: yinfo_def set_yb_def)
qed

lemma lru_unlink_ok:
  assumes "ylist s (xs @ y # ys)"
  shows "\<exists>s'. lru_unlink y s = Inr s' \<and> ylist s' (xs @ ys) \<and> relinked s s'"
proof -
  let ?nx = "olders s" and ?pv = "youngers s"
  have rd: "older (yblocks s z) = ?nx z" "younger (yblocks s z) = ?pv z" for z
    by (simp_all add: olders_def youngers_def)
  note d = assms[unfolded ylist_def]
  have nb: "?nx y = (if ys = [] then None else Some (hd ys))" "?pv y = (if xs = [] then None else Some (last xs))"
    using dll_neighbours[OF d] by auto
  have ends: "xs = [] \<Longrightarrow> lru_youngest s = Some y" "ys = [] \<Longrightarrow> lru_oldest s = Some y"
    using dll_hd[OF d] dll_last[OF d] by auto
  have lnk: "ys \<noteq> [] \<Longrightarrow> ?pv (hd ys) = Some y" "xs \<noteq> [] \<Longrightarrow> ?nx (last xs) = Some y"
  proof -
    assume "ys \<noteq> []"
    then have "xs @ y # ys = (xs @ [y]) @ hd ys # tl ys" by simp
    from dll_neighbours(2)[OF d[unfolded this]] show "?pv (hd ys) = Some y" by simp
  next
    assume "xs \<noteq> []"
    then have "xs @ y # ys = butlast xs @ last xs # y # ys" by (simp add: append_butlast_last_id[symmetric])
    from dll_neighbours(1)[OF d[unfolded this]] show "?nx (last xs) = Some y" by simp
  qed
  have ne: "last xs \<noteq> hd ys" if "xs \<noteq> []" "ys \<noteq> []"
    using dll_distinct[OF d] last_in_set[OF that(1)] hd_in_set[OF that(2)] by auto
  let ?s1 = "if xs = [] then s\<lparr>lru_youngest := ?nx y\<rparr> else set_yb (last xs) (older_update (\<lambda>_. ?nx y)) s"
  let ?s2 = "if ys = [] then ?s1\<lparr>lru_oldest := ?pv y\<rparr> else set_yb (hd ys) (younger_update (\<lambda>_. ?pv y)) ?s1"
  have keep: "younger (yblocks (set_yb z (older_update f) s) w) = younger (yblocks s w)" for z f w
    by (simp add: set_yb_def)
  have eq: "lru_unlink y s = Inr ?s2"
    using nb ends lnk ne unfolding lru_unlink_def Let_def
    by (cases "xs = []"; cases "ys = []") (simp_all add: rd keep)
  have "ylist ?s2 (xs @ ys)"
    unfolding ylist_def using dll_remove[OF d] nb by (simp split: if_splits)
  moreover have "relinked s ?s2"
    by (cases "xs = []"; cases "ys = []") (simp_all, (rule relinked_trans; rule relinked_steps)+)
  ultimately show ?thesis using eq by blast
qed

lemma lru_add_ok:
  assumes "ylist s ys" and "y \<notin> set ys" and "younger (yblocks s y) = None"
  shows "ylist (lru_add y s) (y # ys)" and "relinked s (lru_add y s)"
proof -
  have none: "youngers s y = None" using assms(3) by (simp add: youngers_def)
  show "ylist (lru_add y s) (y # ys)"
    using dll_push_front[OF assms(1)[unfolded ylist_def] assms(2)] none
    by (cases "lru_youngest s") (simp_all add: ylist_def lru_add_def fun_upd_idem)
  show "relinked s (lru_add y s)"
  proof (cases "lru_youngest s")
    case None
    then show ?thesis
      using relinked_trans[OF relinked_trans[OF relinked_steps(2) relinked_steps(3)] relinked_steps(1)]
      by (simp add: lru_add_def)
  next
    case (Some a)
    then show ?thesis
      using relinked_trans[OF relinked_trans[OF relinked_steps(4) relinked_steps(3)] relinked_steps(1)]
      by (simp add: lru_add_def)
  qed
qed

section \<open>List, table and counts together\<close>

definition yhash :: "('t, 'y, 'w) vmenv \<Rightarrow> block_id \<Rightarrow> nat" where
  "yhash P b = hash_i_64 P (owner b) (bid b) mod YIELD_HASHSIZE"

text \<open>
  What the trees of the table and the kernel's endpoints promise: a tree is a map from block
  identifiers; an endpoint belongs to one process and freeing memory leaves the regions' state.
\<close>

definition yield_laws :: "('t, 'y, 'w) vmenv \<Rightarrow> ('y \<Rightarrow> block_id \<rightharpoonup> nat) \<Rightarrow> bool" where
  "yield_laws P yc \<longleftrightarrow>
     (\<forall>t b. yielded_search P t b = yc t b) \<and>
     (\<forall>t b. yc (fst (yielded_remove P t b)) = (yc t)(b := None) \<and> snd (yielded_remove P t b) = yc t b) \<and>
     (\<forall>t b y. yc t b = None \<longrightarrow> yc (yielded_insert P t b y) = (yc t)(b \<mapsto> y)) \<and>
     yc (yielded_init P) = Map.empty \<and>
     (\<forall>e s s'. (\<forall>p. vm_endpoint (vmprocs s' p) = vm_endpoint (vmprocs s p)) \<longrightarrow>
        vm_isokendpt P e s' = vm_isokendpt P e s) \<and>
     (\<forall>e s p. vm_isokendpt P e s = Some p \<longrightarrow> vm_endpoint (vmprocs s p) = e) \<and>
     (\<forall>a n s. \<exists>w. free_mem P a n s = s\<lparr>vm_world := w\<rparr>)"

definition yield_ok :: "('t, 'y, 'w) vmenv \<Rightarrow> ('y \<Rightarrow> block_id \<rightharpoonup> nat) \<Rightarrow> ('t, 'y, 'w) vm \<Rightarrow> nat list \<Rightarrow> bool" where
  "yield_ok P yc s ys \<longleftrightarrow> avl_inited s \<and> ylist s ys \<and> (\<forall>y \<in> set ys. y < next_yielded s) \<and>
     (\<forall>h < YIELD_HASHSIZE. \<forall>b y. yc (vm_yielded_blocks s h) b = Some y \<longleftrightarrow>
        y \<in> set ys \<and> yid (yblocks s y) = b \<and> yhash P b = h) \<and>
     (\<forall>y \<in> set ys. vm_isokendpt P (owner (yid (yblocks s y))) s \<noteq> None) \<and>
     (\<forall>e p. vm_isokendpt P e s = Some p \<longrightarrow>
        vm_yielded (vmprocs s p) = int (length (filter (\<lambda>y. owner (yid (yblocks s y)) = e) ys)))"

lemma yield_lawsD:
  assumes "yield_laws P yc"
  shows "yielded_search P t b = yc t b"
    and "yc (fst (yielded_remove P t b)) = (yc t)(b := None)" "snd (yielded_remove P t b) = yc t b"
    and "yc t b = None \<Longrightarrow> yc (yielded_insert P t b y) = (yc t)(b \<mapsto> y)"
    and "(\<And>p. vm_endpoint (vmprocs s' p) = vm_endpoint (vmprocs s p)) \<Longrightarrow> vm_isokendpt P e s' = vm_isokendpt P e s"
    and "vm_isokendpt P e s = Some p \<Longrightarrow> vm_endpoint (vmprocs s p) = e"
    and "\<exists>w. free_mem P a n s = s\<lparr>vm_world := w\<rparr>"
proof -
  show "yielded_search P t b = yc t b"
    "yc (fst (yielded_remove P t b)) = (yc t)(b := None)" "snd (yielded_remove P t b) = yc t b"
    using assms by (simp_all add: yield_laws_def)
  show "yc t b = None \<Longrightarrow> yc (yielded_insert P t b y) = (yc t)(b \<mapsto> y)"
    using assms by (simp add: yield_laws_def)
  have "\<forall>e s s'. (\<forall>p. vm_endpoint (vmprocs s' p) = vm_endpoint (vmprocs s p)) \<longrightarrow>
      vm_isokendpt P e s' = vm_isokendpt P e s"
    using assms unfolding yield_laws_def by (elim conjE)
  then show "(\<And>p. vm_endpoint (vmprocs s' p) = vm_endpoint (vmprocs s p)) \<Longrightarrow> vm_isokendpt P e s' = vm_isokendpt P e s"
    by simp
  have "\<forall>e s p. vm_isokendpt P e s = Some p \<longrightarrow> vm_endpoint (vmprocs s p) = e"
    using assms unfolding yield_laws_def by (elim conjE)
  then show "vm_isokendpt P e s = Some p \<Longrightarrow> vm_endpoint (vmprocs s p) = e" by simp
  have "\<forall>a n s. \<exists>w. free_mem P a n s = s\<lparr>vm_world := w\<rparr>"
    using assms unfolding yield_laws_def by (elim conjE)
  then show "\<exists>w. free_mem P a n s = s\<lparr>vm_world := w\<rparr>" by simp
qed

lemma yield_okD:
  assumes "yield_ok P yc s ys"
  shows "avl_inited s" "ylist s ys" "distinct ys"
    and "y \<in> set ys \<Longrightarrow> y < next_yielded s"
    and "h < YIELD_HASHSIZE \<Longrightarrow> yc (vm_yielded_blocks s h) b = Some y \<longleftrightarrow>
           y \<in> set ys \<and> yid (yblocks s y) = b \<and> yhash P b = h"
    and "y \<in> set ys \<Longrightarrow> \<exists>p. vm_isokendpt P (owner (yid (yblocks s y))) s = Some p"
    and "vm_isokendpt P e s = Some p \<Longrightarrow>
           vm_yielded (vmprocs s p) = int (length (filter (\<lambda>y. owner (yid (yblocks s y)) = e) ys))"
proof -
  show "distinct ys" using assms dll_distinct unfolding yield_ok_def ylist_def by blast
qed (use assms in \<open>simp_all add: yield_ok_def\<close>)

lemma yield_ok_remove:
  assumes laws: "yield_laws P yc" and ok: "yield_ok P yc s (xs @ y # zs)" and list: "ylist s' (xs @ zs)"
    and eq: "avl_inited s' = avl_inited s" "next_yielded s' = next_yielded s" "\<And>z. yid (yblocks s' z) = yid (yblocks s z)"
    and tree: "vm_yielded_blocks s' = (vm_yielded_blocks s)(yhash P (yid (yblocks s y)) := t)"
      "yc t = (yc (vm_yielded_blocks s (yhash P (yid (yblocks s y)))))(yid (yblocks s y) := None)"
    and p: "vm_isokendpt P (owner (yid (yblocks s y))) s = Some p"
    and ep: "\<And>q. vm_endpoint (vmprocs s' q) = vm_endpoint (vmprocs s q)"
    and cnt: "\<And>q. vm_yielded (vmprocs s' q) = (if q = p then vm_yielded (vmprocs s q) - 1 else vm_yielded (vmprocs s q))"
  shows "yield_ok P yc s' (xs @ zs)"
  unfolding yield_ok_def
proof (intro conjI allI impI ballI)
  let ?b = "yid (yblocks s y)" and ?ys = "xs @ y # zs"
  let ?h = "yhash P ?b"
  have ends: "vm_isokendpt P e s' = vm_isokendpt P e s" for e using yield_lawsD(5)[OF laws, of s' s] ep by blast
  show "avl_inited s'" using yield_okD(1)[OF ok] eq(1) by simp
  show "ylist s' (xs @ zs)" by (rule list)
  {
    fix e q assume q: "vm_isokendpt P e s' = Some q"
    then have "q = p \<longleftrightarrow> e = owner ?b" using ends p yield_lawsD(6)[OF laws] by (metis option.inject)
    then show "vm_yielded (vmprocs s' q) = int (length (filter (\<lambda>y. owner (yid (yblocks s' y)) = e) (xs @ zs)))"
      using yield_okD(7)[OF ok, of e q] q ends eq(3) cnt by auto
  }
  {
    fix z assume "z \<in> set (xs @ zs)"
    then show "z < next_yielded s'" "vm_isokendpt P (owner (yid (yblocks s' z))) s' \<noteq> None"
      using yield_okD(4,6)[OF ok, of z] ends eq(2,3) by auto
  }
  fix h b z assume hs: "h < YIELD_HASHSIZE"
  note old = yield_okD(5)[OF ok]
  have h: "?h < YIELD_HASHSIZE" by (simp add: yhash_def YIELD_HASHSIZE_def)
  have here: "yc (vm_yielded_blocks s ?h) ?b = Some y" using old[OF h] by simp
  have uniq: "z = y" if z: "z \<in> set ?ys" "yid (yblocks s z) = ?b"
  proof -
    have "yc (vm_yielded_blocks s ?h) ?b = Some z" using old[OF h] z by blast
    then show ?thesis using here by simp
  qed
  show "yc (vm_yielded_blocks s' h) b = Some z \<longleftrightarrow> z \<in> set (xs @ zs) \<and> yid (yblocks s' z) = b \<and> yhash P b = h"
  proof (cases "h = ?h \<and> b = ?b")
    case True
    then show ?thesis using uniq yield_okD(3)[OF ok] by (auto simp: tree eq(3))
  next
    case False
    then have "yc (vm_yielded_blocks s' h) b = yc (vm_yielded_blocks s h) b" by (auto simp: tree)
    then show ?thesis using old[OF hs, of b z] False by (auto simp: eq(3))
  qed
qed

lemma freeyieldednode_ok:
  assumes laws: "yield_laws P yc" and ok: "yield_ok P yc s (xs @ y # zs)"
  shows "\<exists>s'. freeyieldednode P y freemem s = Inr (VM_PAGE_SIZE P, s') \<and> yield_ok P yc s' (xs @ zs)
     \<and> next_yielded s' = next_yielded s \<and> freed_yielded s' = insert y (freed_yielded s)
     \<and> pblocks s' = pblocks s"
proof -
  let ?b = "yid (yblocks s y)"
  let ?h = "yhash P ?b"
  obtain s1 where s1: "lru_unlink y s = Inr s1" "ylist s1 (xs @ zs)" "relinked s s1"
    using lru_unlink_ok[OF yield_okD(2)[OF ok]] by blast
  note r = relinkedD[OF s1(3)]
  obtain p where p: "vm_isokendpt P (owner ?b) s = Some p" using yield_okD(6)[OF ok, of y] by auto
  then have p1: "vm_isokendpt P (owner ?b) s1 = Some p" using yield_lawsD(5)[OF laws, of s1 s] by (simp add: r)
  have avl: "get_yielded_avl P ?b s1 = Inr ?h"
    using yield_okD(1)[OF ok] by (simp add: get_yielded_avl_def yhash_def r)
  have "yc (vm_yielded_blocks s ?h) ?b = Some y"
    using yield_okD(5)[OF ok, of ?h] by (simp add: yhash_def YIELD_HASHSIZE_def)
  then obtain t where t: "yielded_remove P (vm_yielded_blocks s ?h) ?b = (t, Some y)"
    using yield_lawsD(3)[OF laws, of "vm_yielded_blocks s ?h" ?b] by (metis prod.collapse)
  have yct: "yc t = (yc (vm_yielded_blocks s ?h))(?b := None)"
    using yield_lawsD(2)[OF laws, of "vm_yielded_blocks s ?h" ?b] by (simp add: t)
  define s2 where "s2 = add_yielded p (-1) (set_yavl ?h t s1)"
  obtain w where w: "freemem \<Longrightarrow> free_mem P (ABS2CLICK P (physaddr (yblocks s y))) (pages (yblocks s y)) s2
      = s2\<lparr>vm_world := w\<rparr>" "\<not> freemem \<Longrightarrow> w = vm_world s2"
    using yield_lawsD(7)[OF laws, of "ABS2CLICK P (physaddr (yblocks s y))" "pages (yblocks s y)" s2]
    by (cases freemem) auto
  define s3 where "s3 = s2\<lparr>vm_world := w, freed_yielded := insert y (freed_yielded s2)\<rparr>"
  have eq: "freeyieldednode P y freemem s = Inr (VM_PAGE_SIZE P, s3)"
    using s1(1) p1 avl t w yield_okD(7)[OF ok p]
    by (cases freemem) (simp_all add: freeyieldednode_def Let_def r s3_def s2_def[symmetric])
  have f3: "avl_inited s3 = avl_inited s" "next_yielded s3 = next_yielded s"
    "vm_yielded_blocks s3 = (vm_yielded_blocks s)(?h := t)" "yid (yblocks s3 z) = yid (yblocks s z)"
    "vm_endpoint (vmprocs s3 q) = vm_endpoint (vmprocs s q)"
    "vm_yielded (vmprocs s3 q) = (if q = p then vm_yielded (vmprocs s q) - 1 else vm_yielded (vmprocs s q))"
    "freed_yielded s3 = insert y (freed_yielded s)" "pblocks s3 = pblocks s" for z q
    by (simp_all add: s3_def s2_def add_yielded_def set_yavl_def r)
  have "ylist s3 (xs @ zs)"
    using s1(2) by (simp add: s3_def s2_def add_yielded_def set_yavl_def ylist_def olders_def youngers_def)
  then have "yield_ok P yc s3 (xs @ zs)" by (rule yield_ok_remove[OF laws ok _ f3(1,2,4,3) yct p f3(5,6)])
  then show ?thesis using eq f3(2,7,8) by auto
qed

text \<open>Taking memory back, one block from the old end after the other.\<close>

lemma free_oldest_ok:
  assumes laws: "yield_laws P yc" and PS: "0 < VM_PAGE_SIZE P"
    and ok: "yield_ok P yc s ys" "length ys \<le> fuel" "freed + length ys * VM_PAGE_SIZE P < VSPACE"
  shows "\<exists>k s'. free_oldest P m fuel freed s = Inr (freed + k * VM_PAGE_SIZE P, s') \<and> k \<le> length ys
     \<and> yield_ok P yc s' (take (length ys - k) ys)
     \<and> (m \<le> freed + k * VM_PAGE_SIZE P \<or> k = length ys) \<and> (\<forall>j < k. freed + j * VM_PAGE_SIZE P < m)
     \<and> freed_yielded s' = freed_yielded s \<union> set (drop (length ys - k) ys)"
  using ok
proof (induction ys arbitrary: s freed fuel rule: rev_induct)
  case Nil
  then have "lru_oldest s = None" using yield_okD(2)[OF Nil.prems(1)] by (simp add: ylist_def dll_def)
  then show ?case using Nil by (intro exI[of _ 0] exI[of _ s]) simp
next
  case (snoc y ys)
  show ?case
  proof (cases "freed < m")
    case False
    then show ?thesis using snoc.prems(1) by (intro exI[of _ 0] exI[of _ s]) simp
  next
    case True
    have old: "lru_oldest s = Some y"
      using dll_last[OF yield_okD(2)[OF snoc.prems(1), unfolded ylist_def]] by simp
    obtain fuel' where fuel: "fuel = Suc fuel'" using snoc.prems(2) by (cases fuel) auto
    obtain s1 where s1: "freeyieldednode P y True s = Inr (VM_PAGE_SIZE P, s1)" "yield_ok P yc s1 ys"
      "freed_yielded s1 = insert y (freed_yielded s)"
      using freeyieldednode_ok[OF laws, of s ys y "[]" True] snoc.prems(1) by auto
    have w: "wadd freed (VM_PAGE_SIZE P) = freed + VM_PAGE_SIZE P"
      using snoc.prems(3) by (simp add: wadd_def algebra_simps)
    obtain k s' where k: "free_oldest P m fuel' (freed + VM_PAGE_SIZE P) s1 =
        Inr (freed + VM_PAGE_SIZE P + k * VM_PAGE_SIZE P, s')" "k \<le> length ys"
      "yield_ok P yc s' (take (length ys - k) ys)"
      "m \<le> freed + VM_PAGE_SIZE P + k * VM_PAGE_SIZE P \<or> k = length ys"
      "\<forall>j < k. freed + VM_PAGE_SIZE P + j * VM_PAGE_SIZE P < m"
      "freed_yielded s' = freed_yielded s1 \<union> set (drop (length ys - k) ys)"
      using snoc.IH[OF s1(2), of fuel' "freed + VM_PAGE_SIZE P"] snoc.prems(2,3) fuel by (auto simp: algebra_simps)
    have "free_oldest P m fuel freed s = Inr (freed + Suc k * VM_PAGE_SIZE P, s')"
      using True old fuel s1(1) w k(1) by (simp add: algebra_simps)
    moreover have "\<forall>j < Suc k. freed + j * VM_PAGE_SIZE P < m"
    proof (intro allI impI)
      fix j assume "j < Suc k"
      then show "freed + j * VM_PAGE_SIZE P < m" using True k(5) by (cases j) (auto simp: algebra_simps)
    qed
    ultimately show ?thesis
      using k(2-4,6) s1(3) by (intro exI[of _ "Suc k"] exI[of _ s']) (auto simp: algebra_simps)
  qed
qed

section \<open>A new block\<close>

lemma ylist_cong:
  assumes "\<And>z. z \<in> set ys \<Longrightarrow> yblocks s' z = yblocks s z"
    and "lru_youngest s' = lru_youngest s" "lru_oldest s' = lru_oldest s"
  shows "ylist s' ys \<longleftrightarrow> ylist s ys"
proof -
  have "chain (olders s') q ys = chain (olders s) q ys" "chain (youngers s') q (rev ys) = chain (youngers s) q (rev ys)" for q
    by (rule chain_cong, simp add: olders_def youngers_def assms(1))+
  then show ?thesis by (simp add: ylist_def dll_def assms(2,3))
qed

lemma yield_ok_frame:
  assumes laws: "yield_laws P yc" and ok: "yield_ok P yc s ys"
    and blocks: "\<And>z. z \<in> set ys \<Longrightarrow> yblocks s' z = yblocks s z"
    and ends: "lru_youngest s' = lru_youngest s" "lru_oldest s' = lru_oldest s"
    and rest: "vm_yielded_blocks s' = vm_yielded_blocks s" "avl_inited s' = avl_inited s"
      "next_yielded s \<le> next_yielded s'" "vmprocs s' = vmprocs s"
  shows "yield_ok P yc s' ys"
proof -
  have e: "vm_isokendpt P e s' = vm_isokendpt P e s" for e
    using yield_lawsD(5)[OF laws, of s' s] rest(4) by simp
  have f: "filter (\<lambda>y. owner (yid (yblocks s' y)) = e) ys = filter (\<lambda>y. owner (yid (yblocks s y)) = e) ys" for e
    by (rule filter_cong) (simp_all add: blocks)
  show ?thesis
    unfolding yield_ok_def rest(1,2,4) e f
    using ok blocks rest(3) ylist_cong[of ys s' s, OF blocks ends]
    by (auto simp: yield_ok_def intro: order_less_le_trans)
qed

lemma remember_yielded_ok:
  assumes laws: "yield_laws P yc" and ok: "yield_ok P yc s ys"
    and y: "y < next_yielded s" "y \<notin> set ys" "younger (yblocks s y) = None"
    and b: "yid (yblocks s y) = b" "yhash P b = h" "yc (vm_yielded_blocks s h) b = None"
    and p: "vm_isokendpt P (owner b) s = Some p"
  shows "yield_ok P yc (remember_yielded P p h y s) (y # ys)"
    and "yinfo (yblocks (remember_yielded P p h y s) z) = yinfo (yblocks s z)"
    and "pblocks (remember_yielded P p h y s) = pblocks s" "regions (remember_yielded P p h y s) = regions s"
    and "vm_regions_avl (vmprocs (remember_yielded P p h y s) q) = vm_regions_avl (vmprocs s q)"
    and "vm_endpoint (vmprocs (remember_yielded P p h y s) q) = vm_endpoint (vmprocs s q)"
    and "next_yielded (remember_yielded P p h y s) = next_yielded s"
proof -
  let ?t = "yielded_insert P (vm_yielded_blocks s h) b y"
  define s1 where "s1 = add_yielded p 1 (set_yavl h ?t s)"
  have h: "h < YIELD_HASHSIZE" using b(2) by (auto simp: yhash_def YIELD_HASHSIZE_def)
  have rem: "remember_yielded P p h y s = lru_add y s1" by (simp add: remember_yielded_def b(1) s1_def)
  have f1: "yblocks s1 = yblocks s" "lru_youngest s1 = lru_youngest s" "lru_oldest s1 = lru_oldest s"
    "avl_inited s1 = avl_inited s" "next_yielded s1 = next_yielded s" "pblocks s1 = pblocks s" "regions s1 = regions s"
    "vm_yielded_blocks s1 = (vm_yielded_blocks s)(h := ?t)"
    "vm_endpoint (vmprocs s1 q) = vm_endpoint (vmprocs s q)" "vm_regions_avl (vmprocs s1 q) = vm_regions_avl (vmprocs s q)"
    "vm_yielded (vmprocs s1 q) = (if q = p then vm_yielded (vmprocs s q) + 1 else vm_yielded (vmprocs s q))" for q
    by (simp_all add: s1_def add_yielded_def set_yavl_def)
  have l1: "ylist s1 ys" using yield_okD(2)[OF ok] by (simp add: ylist_def olders_def youngers_def f1(1-3))
  have y1: "younger (yblocks s1 y) = None" using y(3) by (simp add: f1(1))
  note add = lru_add_ok[OF l1 y(2) y1]
  note r = relinkedD[OF add(2)]
  show "yinfo (yblocks (remember_yielded P p h y s) z) = yinfo (yblocks s z)"
    "pblocks (remember_yielded P p h y s) = pblocks s" "regions (remember_yielded P p h y s) = regions s"
    "vm_regions_avl (vmprocs (remember_yielded P p h y s) q) = vm_regions_avl (vmprocs s q)"
    "vm_endpoint (vmprocs (remember_yielded P p h y s) q) = vm_endpoint (vmprocs s q)"
    "next_yielded (remember_yielded P p h y s) = next_yielded s"
    unfolding rem by (simp_all add: r f1 yinfo_def)
  let ?s2 = "lru_add y s1"
  have e2: "vm_isokendpt P e ?s2 = vm_isokendpt P e s" for e
    using yield_lawsD(5)[OF laws, of ?s2 s] by (simp add: r f1)
  have yct: "yc ?t = (yc (vm_yielded_blocks s h))(b \<mapsto> y)" by (rule yield_lawsD(4)[OF laws b(3)])
  show "yield_ok P yc (remember_yielded P p h y s) (y # ys)"
    unfolding rem yield_ok_def
  proof (intro conjI allI impI ballI)
    show "avl_inited ?s2" using yield_okD(1)[OF ok] by (simp add: r f1)
    show "ylist ?s2 (y # ys)" by (rule add(1))
    fix e q assume q: "vm_isokendpt P e ?s2 = Some q"
    then have "q = p \<longleftrightarrow> e = owner b"
      using e2 p yield_lawsD(6)[OF laws] by (metis option.inject)
    then show "vm_yielded (vmprocs ?s2 q) = int (length (filter (\<lambda>y. owner (yid (yblocks ?s2 y)) = e) (y # ys)))"
      using yield_okD(7)[OF ok, of e q] q e2 by (auto simp: r f1 b(1))
  next
    fix z assume "z \<in> set (y # ys)"
    then show "z < next_yielded ?s2" "vm_isokendpt P (owner (yid (yblocks ?s2 z))) ?s2 \<noteq> None"
      using yield_okD(4,6)[OF ok, of z] y(1) p b(1) e2 by (auto simp: r f1)
  next
    fix g d z assume g: "g < YIELD_HASHSIZE"
    note old = yield_okD(5)[OF ok g, of d z]
    show "yc (vm_yielded_blocks ?s2 g) d = Some z \<longleftrightarrow> z \<in> set (y # ys) \<and> yid (yblocks ?s2 z) = d \<and> yhash P d = g"
    proof (cases "g = h \<and> d = b")
      case True
      then have "\<not> (z \<in> set ys \<and> yid (yblocks s z) = b)" using old b(2,3) by auto
      then show ?thesis using True b by (auto simp: r f1 yct)
    next
      case False
      then have "yc (vm_yielded_blocks ?s2 g) d = yc (vm_yielded_blocks s g) d" by (auto simp: r f1 yct)
      then show ?thesis using old False b(1,2) by (auto simp: r f1)
    qed
  qed
qed

section \<open>Yielding a page and getting it back\<close>

text \<open>Memory is available and the page table can be written; both leave the regions' state alone.\<close>

definition memory_available :: "('t, 'y, 'w) vmenv \<Rightarrow> bool" where
  "memory_available P \<longleftrightarrow>
     (\<forall>p v a n f s. \<exists>w. pt_writemap P p v a n f s = (OK, s\<lparr>vm_world := w\<rparr>)) \<and>
     (\<forall>n f s. \<exists>k w. alloc_mem P n f s = (Some k, s\<lparr>vm_world := w\<rparr>)) \<and>
     (\<forall>s. \<not> slab_fails P s)"

lemma map_lookup_cong:
  "vm_regions_avl (vmprocs s' p) = vm_regions_avl (vmprocs s p) \<Longrightarrow> regions s' = regions s \<Longrightarrow>
     map_lookup P p a want s' = map_lookup P p a want s"
  by (simp add: map_lookup_def split: option.split)

lemma map_ph_writept_ok:
  assumes "memory_available P" and "entry_at P s r off = Some x" and "VM_PAGE_SIZE P dvd vaddr (regions s r)"
    and "VM_PAGE_SIZE P dvd pr_offset x" and "refcount (pblocks s (ph x)) \<noteq> 0"
    and "mt_writable P (memtype (regions s r)) \<noteq> None"
  shows "\<exists>w. map_ph_writept P p r off s = Inr (OK, s\<lparr>vm_world := w\<rparr>)"
proof -
  obtain wr where wr: "pr_writable P r off s = Inr wr"
    using assms(6) by (auto simp: pr_writable_def)
  obtain w where "pt_writemap P p (wadd (vaddr (regions s r)) (pr_offset x)) (phys (pblocks s (ph x))) (VM_PAGE_SIZE P)
      (PTF_PRESENT P OR PTF_USER P OR (if wr then PTF_WRITE P else PTF_READ P)) s = (OK, s\<lparr>vm_world := w\<rparr>)"
    using assms(1) unfolding memory_available_def by blast
  then show ?thesis using assms wr by (auto simp: map_ph_writept_def Let_def)
qed

text \<open>A page that may be yielded: present, anonymous, mapped once.\<close>

definition yieldable :: "('t, 'y, 'w) vmenv \<Rightarrow> ('t \<Rightarrow> nat \<rightharpoonup> nat) \<Rightarrow> nat \<Rightarrow> nat \<Rightarrow> nat \<Rightarrow> phys_region \<Rightarrow>
    ('t, 'y, 'w) vm \<Rightarrow> bool" where
  "yieldable P c p va r x s \<longleftrightarrow> covers c p s r va \<and> VM_PAGE_SIZE P dvd va
     \<and> physblocks (regions s r) ! ((va - vaddr (regions s r)) div VM_PAGE_SIZE P) = Some x
     \<and> vflags (regions s r) AND VR_ANON P \<noteq> 0 \<and> refcount (pblocks s (ph x)) = 1
     \<and> VM_PAGE_SIZE P dvd phys (pblocks s (ph x)) \<and> mt_writable P (memtype (regions s r)) \<noteq> None"

lemma yieldable_page:
  assumes "regions_ok P c p s" and "avl_laws P c" and "space_ok P" and "yieldable P c p va r x s"
  shows "map_lookup P p va True s = Inr (Some (r, Some x))" and "entry_at P s r (pr_offset x) = Some x"
    and "VM_PAGE_SIZE P dvd vaddr (regions s r)" and "VM_PAGE_SIZE P dvd pr_offset x"
    and "vaddr (regions s r) \<le> va" and "va < wadd (vaddr (regions s r)) (vlength (regions s r))"
proof -
  have y: "covers c p s r va" "VM_PAGE_SIZE P dvd va"
    "physblocks (regions s r) ! ((va - vaddr (regions s r)) div VM_PAGE_SIZE P) = Some x"
    using assms(4) by (auto simp: yieldable_def)
  obtain k where k: "c (tree_of s p) k = Some r" "k \<le> va" "va < k + vlength (regions s r)"
    using y(1) by (auto simp: covers_def)
  note reg = regions_okD[OF assms(1) k(1)]
  let ?off = "va - vaddr (regions s r)"
  have dvd: "VM_PAGE_SIZE P dvd vaddr (regions s r)" "VM_PAGE_SIZE P dvd ?off"
    using reg(3) y(2) by (auto simp: region_ok_def)
  have lt: "?off < vlength (regions s r)" using k reg(1) by simp
  have off: "pr_offset x = ?off"
    using slot_index[OF reg(3) lt dvd(2)] y(3) reg(3) dvd(2) by (simp add: region_ok_def)
  show "map_lookup P p va True s = Inr (Some (r, Some x))"
    using map_lookup_found[OF assms(1-3) y(1), of True] physblock_get_ok[OF reg(3) lt dvd(2)] y(3) by simp
  show "entry_at P s r (pr_offset x) = Some x" "VM_PAGE_SIZE P dvd vaddr (regions s r)" "VM_PAGE_SIZE P dvd pr_offset x"
    using y(3) dvd off by simp_all
  show "vaddr (regions s r) \<le> va" "va < wadd (vaddr (regions s r)) (vlength (regions s r))"
    using k reg(1) region_end_nat[OF assms(3) reg(3)] by simp_all
qed

lemma yieldblock_page:
  assumes regs: "regions_ok P c p s" "avl_laws P c" "space_ok P" and page: "yieldable P c p va r x s"
    and laws: "yield_laws P yc" "memory_available P" and ok: "yield_ok P yc s ys"
    and p: "vm_isokendpt P (vm_endpoint (vmprocs s p)) s = Some p"
    and new: "\<forall>y \<in> set ys. yid (yblocks s y) \<noteq> \<lparr>owner = vm_endpoint (vmprocs s p), bid = i\<rparr>"
  shows "\<exists>s' k. yieldblock P p i va 1 s = Inr (OK, s') \<and> yield_ok P yc s' (next_yielded s # ys)
     \<and> yinfo (yblocks s' (next_yielded s)) =
         (\<lparr>owner = vm_endpoint (vmprocs s p), bid = i\<rparr>, phys (pblocks s (ph x)), 1)
     \<and> pblocks s' = (pblocks s)(ph x := (pblocks s (ph x))\<lparr>phys := CLICK2ABS P k\<rparr>)
     \<and> regions s' = regions s \<and> tree_of s' p = tree_of s p \<and> vm_endpoint (vmprocs s' p) = vm_endpoint (vmprocs s p)"
proof -
  note pg = yieldable_page[OF regs page]
  let ?b = "\<lparr>owner = vm_endpoint (vmprocs s p), bid = i\<rparr>" and ?y = "next_yielded s"
  let ?h = "yhash P ?b"
  have h: "?h < YIELD_HASHSIZE" by (simp add: yhash_def YIELD_HASHSIZE_def)
  have avl: "get_yielded_avl P ?b s = Inr ?h" using yield_okD(1)[OF ok] by (simp add: get_yielded_avl_def yhash_def)
  have none: "yc (vm_yielded_blocks s ?h) ?b = None"
    using yield_okD(5)[OF ok h, of ?b] new by (metis not_None_eq)
  have pagefacts: "vflags (regions s r) AND VR_ANON P \<noteq> 0" "refcount (pblocks s (ph x)) = 1"
    "phys (pblocks s (ph x)) mod VM_PAGE_SIZE P = 0" "mt_writable P (memtype (regions s r)) \<noteq> None" "va mod VM_PAGE_SIZE P = 0"
    using page by (auto simp: yieldable_def)
  have chk: "yield_check P p (nat 1) va None s = Inr (Inr [ph x])"
    using pg(1) pagefacts by (simp add: nat_1)
  let ?s0 = "s\<lparr>next_yielded := Suc ?y\<rparr>"
  obtain k w where al: "alloc_mem P 1 (PAF_CLEAR P) ?s0 = (Some k, ?s0\<lparr>vm_world := w\<rparr>)"
    using laws(2) unfolding memory_available_def by blast
  define s1 where "s1 = set_yb ?y (\<lambda>yb. yb\<lparr>yid := ?b, physaddr := phys (pblocks s (ph x)), pages := 1, younger := None\<rparr>)
      (?s0\<lparr>vm_world := w\<rparr>)"
  let ?s2 = "set_phys (ph x) (CLICK2ABS P k) s1"
  have s1: "regions s1 = regions s" "vmprocs s1 = vmprocs s" "pblocks s1 = pblocks s"
    by (simp_all add: s1_def set_yb_def)
  have "\<exists>w. map_ph_writept P p r (pr_offset x) ?s2 = Inr (OK, ?s2\<lparr>vm_world := w\<rparr>)"
    by (rule map_ph_writept_ok[OF laws(2), where x = x]) (use pg pagefacts in \<open>simp_all add: set_phys_def s1\<close>)
  then obtain w2 where wp: "map_ph_writept P p r (pr_offset x) ?s2 = Inr (OK, ?s2\<lparr>vm_world := w2\<rparr>)" by blast
  define s3 where "s3 = ?s2\<lparr>vm_world := w2\<rparr>"
  have look: "map_lookup P p va True s1 = Inr (Some (r, Some x))"
    using map_lookup_cong[of s1 p s P va True] s1 pg(1) by simp
  have yp: "yield_pages P p (nat 1) va (CLICK2ABS P k) s1 = Inr s3"
    using look pagefacts(2) wp by (simp add: nat_1 s1 s3_def)
  have eq: "yieldblock P p i va 1 s = Inr (OK, remember_yielded P p ?h ?y s3)"
    using avl none yield_lawsD(1)[OF laws(1)] pagefacts chk al yp laws(2)
    by (simp add: yieldblock_def memory_available_def s1_def[symmetric])
  have f3: "lru_youngest s3 = lru_youngest s" "lru_oldest s3 = lru_oldest s" "vm_yielded_blocks s3 = vm_yielded_blocks s"
    "avl_inited s3 = avl_inited s" "next_yielded s3 = Suc ?y" "vmprocs s3 = vmprocs s" "regions s3 = regions s"
    "z \<noteq> ?y \<Longrightarrow> yblocks s3 z = yblocks s z" "yinfo (yblocks s3 ?y) = (?b, phys (pblocks s (ph x)), 1)"
    "younger (yblocks s3 ?y) = None" "yid (yblocks s3 ?y) = ?b"
    "pblocks s3 = (pblocks s)(ph x := (pblocks s (ph x))\<lparr>phys := CLICK2ABS P k\<rparr>)" for z
    by (simp_all add: s3_def s1_def set_phys_def set_yb_def yinfo_def)
  have notin: "?y \<notin> set ys" using yield_okD(4)[OF ok, of ?y] by auto
  have ok3: "yield_ok P yc s3 ys"
    by (rule yield_ok_frame[OF laws(1) ok f3(8) f3(1,2,3,4) _ f3(6)]) (use notin f3(5) in auto)
  have p3: "vm_isokendpt P (owner ?b) s3 = Some p"
    using p yield_lawsD(5)[OF laws(1), of s3 s] f3(6) by simp
  have none3: "yc (vm_yielded_blocks s3 ?h) ?b = None" using none f3(3) by simp
  have lt3: "?y < next_yielded s3" using f3(5) by simp
  note rm = remember_yielded_ok[OF laws(1) ok3 lt3 notin f3(10,11) refl none3 p3]
  show ?thesis
    using eq rm f3(6,7,9,12) by (intro exI[of _ "remember_yielded P p ?h ?y s3"] exI[of _ k]) simp
qed

lemma getblock_page:
  assumes regs: "regions_ok P c p s" "avl_laws P c" "space_ok P" and page: "yieldable P c p va r x s"
    and laws: "yield_laws P yc" "memory_available P" and ok: "yield_ok P yc s (y # ys)"
    and y: "yinfo (yblocks s y) = (\<lparr>owner = vm_endpoint (vmprocs s p), bid = i\<rparr>, a, 1)"
  shows "\<exists>s'. getblock P p i va 1 s = Inr (OK, s') \<and> yield_ok P yc s' ys
     \<and> phys (pblocks s' (ph x)) = a"
proof -
  note pg = yieldable_page[OF regs page]
  let ?b = "\<lparr>owner = vm_endpoint (vmprocs s p), bid = i\<rparr>"
  let ?h = "yhash P ?b"
  have h: "?h < YIELD_HASHSIZE" by (simp add: yhash_def YIELD_HASHSIZE_def)
  have yb: "yid (yblocks s y) = ?b" "physaddr (yblocks s y) = a" "pages (yblocks s y) = 1"
    using y by (auto simp: yinfo_def)
  have avl: "get_yielded_avl P ?b s = Inr ?h" using yield_okD(1)[OF ok] by (simp add: get_yielded_avl_def yhash_def)
  have search: "yielded_search P (vm_yielded_blocks s ?h) ?b = Some y"
    using yield_okD(5)[OF ok h, of ?b y] yb(1) yield_lawsD(1)[OF laws(1)] by simp
  have pagefacts: "refcount (pblocks s (ph x)) = 1" "mt_writable P (memtype (regions s r)) \<noteq> None"
    using page by (auto simp: yieldable_def)
  have clean: "get_clean_phys_region P p va s = Inr (Some (r, pr_offset x), s)"
    using pg pagefacts(1) by (simp add: get_clean_phys_region_def)
  obtain w where fm: "free_mem P (ABS2CLICK P (phys (pblocks s (ph x)))) 1 s = s\<lparr>vm_world := w\<rparr>"
    using yield_lawsD(7)[OF laws(1)] by blast
  let ?s2 = "set_phys (ph x) a (s\<lparr>vm_world := w\<rparr>)"
  have "\<exists>w. map_ph_writept P p r (pr_offset x) ?s2 = Inr (OK, ?s2\<lparr>vm_world := w\<rparr>)"
    by (rule map_ph_writept_ok[OF laws(2), where x = x]) (use pg pagefacts in \<open>simp_all add: set_phys_def\<close>)
  then obtain w2 where wp: "map_ph_writept P p r (pr_offset x) ?s2 = Inr (OK, ?s2\<lparr>vm_world := w2\<rparr>)" by blast
  define s3 where "s3 = ?s2\<lparr>vm_world := w2\<rparr>"
  have get: "get_pages P p (nat 1) va a s = Inr (OK, s3)"
    using clean pg(2) pagefacts(1) fm wp by (simp add: nat_1 s3_def)
  have ok3: "yield_ok P yc s3 (y # ys)"
    by (rule yield_ok_frame[OF laws(1) ok]) (simp_all add: s3_def set_phys_def)
  obtain s4 where s4: "freeyieldednode P y False s3 = Inr (VM_PAGE_SIZE P, s4)" "yield_ok P yc s4 ys"
    "pblocks s4 = pblocks s3"
    using freeyieldednode_ok[OF laws(1), of s3 "[]" y ys False] ok3 by auto
  have "getblock P p i va 1 s = Inr (OK, s4)"
    using avl search yb get s4(1) by (simp add: getblock_def)
  then show ?thesis using s4(2,3) by (auto simp: s3_def set_phys_def)
qed

section \<open>The concrete environment\<close>

lemma list_vm_yield_fields:
  "yielded_search list_vm = map_of" "yielded_remove list_vm = (\<lambda>t k. (filter (\<lambda>e. fst e \<noteq> k) t, map_of t k))"
  "yielded_insert list_vm = (\<lambda>t k y. (k, y) # t)" "yielded_init list_vm = []"
  "vm_isokendpt list_vm e s = (if vm_endpoint (vmprocs s 0) = e then Some 0 else None)"
  "free_mem list_vm a n s = s\<lparr>vm_world := vm_world s\<rparr>" "pt_writemap list_vm p v a m f s = (0, s)"
  "alloc_mem list_vm n fl s = (Some (vm_world s), s\<lparr>vm_world := vm_world s + nat n\<rparr>)"
  "\<not> slab_fails list_vm s" "VM_PAGE_SIZE list_vm = 4096" "CLICK2ABS list_vm k = k * 4096"
  "VR_ANON list_vm = 256" "mt_writable list_vm t = Some (\<lambda>_ _ _. True)"
  by (simp_all add: list_vm_def)

lemma map_of_filter_id: "map_of (filter (\<lambda>e. fst e \<noteq> k) t) = (map_of t)(k := None)" for k :: block_id
  by (induction t) (auto simp: fun_eq_iff)

lemma keep_world: "\<exists>w. s = s\<lparr>vm_world := w\<rparr>" for s :: list_state
proof
  show "s = s\<lparr>vm_world := vm_world s\<rparr>" by (cases s) simp
qed

lemma list_vm_yield: "yield_laws list_vm map_of"
  unfolding yield_laws_def list_vm_yield_fields
  using keep_world by (auto simp: map_of_filter_id split: if_splits)

lemma list_vm_memory: "memory_available list_vm"
  unfolding memory_available_def list_vm_yield_fields OK_def
  using keep_world by (auto simp: list_vm_yield_fields)

lemma two_regions_no_yields: "yield_ok list_vm map_of two_regions []"
  by (auto simp: yield_ok_def ylist_def dll_def two_regions_def list_vm_yield_fields split: if_splits)

lemma two_regions_yieldable:
  "yieldable list_vm map_of 0 12288 0 \<lparr>ph = 0, pr_offset = 4096\<rparr> two_regions"
proof -
  have "covers map_of 0 two_regions 0 12288"
    unfolding covers_def by (intro exI[of _ 8192]) (simp add: two_regions_def)
  then show ?thesis
    by (simp add: yieldable_def list_vm_yield_fields) (simp add: two_regions_def)
qed

section \<open>Properties\<close>

text \<open>
  C24. Yielding a page and getting it back is the identity on the page: a present, anonymous,
  singly mapped page is yielded under a new identifier, a different page takes its place and the
  block becomes the youngest; asking for it back puts the old physical page in place again and
  leaves the list, the table and the counts as they were.
\<close>

theorem yield_then_get_restores:
  assumes "regions_ok P c p s" and "avl_laws P c" and "space_ok P" and "yieldable P c p va r x s"
    and "yield_laws P yc" and "memory_available P" and "yield_ok P yc s ys"
    and "\<forall>k. VM_PAGE_SIZE P dvd CLICK2ABS P k"
    and "vm_isokendpt P (vm_endpoint (vmprocs s p)) s = Some p"
    and "\<forall>y \<in> set ys. yid (yblocks s y) \<noteq> \<lparr>owner = vm_endpoint (vmprocs s p), bid = i\<rparr>"
  shows "\<exists>s1 s2. yieldblock P p i va 1 s = Inr (OK, s1) \<and> yield_ok P yc s1 (next_yielded s # ys)
     \<and> getblock P p i va 1 s1 = Inr (OK, s2) \<and> yield_ok P yc s2 ys
     \<and> phys (pblocks s2 (ph x)) = phys (pblocks s (ph x))"
proof -
  obtain s1 k where s1: "yieldblock P p i va 1 s = Inr (OK, s1)" "yield_ok P yc s1 (next_yielded s # ys)"
    "yinfo (yblocks s1 (next_yielded s)) = (\<lparr>owner = vm_endpoint (vmprocs s p), bid = i\<rparr>, phys (pblocks s (ph x)), 1)"
    "pblocks s1 = (pblocks s)(ph x := (pblocks s (ph x))\<lparr>phys := CLICK2ABS P k\<rparr>)"
    "regions s1 = regions s" "tree_of s1 p = tree_of s p" "vm_endpoint (vmprocs s1 p) = vm_endpoint (vmprocs s p)"
    using yieldblock_page[OF assms(1-7,9,10)] by blast
  have "regions_ok P c p s1" using assms(1) unfolding regions_ok_def s1(5,6) .
  moreover have "yieldable P c p va r x s1"
    using assms(4,8) by (simp add: yieldable_def covers_def s1(4-6))
  ultimately show ?thesis
    using getblock_page[OF _ assms(2,3) _ assms(5,6) s1(2), of p va r x i "phys (pblocks s (ph x))"] s1(1-3,7) by auto
qed

theorem yield_then_get_restores_witness:
  "\<exists>s1 s2. yieldblock list_vm 0 5 12288 1 two_regions = Inr (OK, s1) \<and> yield_ok list_vm map_of s1 [0]
     \<and> getblock list_vm 0 5 12288 1 s1 = Inr (OK, s2) \<and> yield_ok list_vm map_of s2 []
     \<and> phys (pblocks s2 0) = 0"
proof -
  have "next_yielded two_regions = 0" "phys (pblocks two_regions 0) = 0"
    by (simp_all add: two_regions_def)
  moreover have "\<forall>k. VM_PAGE_SIZE list_vm dvd CLICK2ABS list_vm k"
    "vm_isokendpt list_vm (vm_endpoint (vmprocs two_regions 0)) two_regions = Some 0"
    by (simp_all add: list_vm_yield_fields)
  ultimately show ?thesis
    using yield_then_get_restores[OF two_regions_ok list_vm_laws two_regions_yieldable list_vm_yield list_vm_memory
        two_regions_no_yields, of 5] by simp
qed

text \<open>
  C25. VM takes memory back from the oldest blocks first: \<open>free_yielded\<close> frees the blocks at the old
  end of the list, one after the other, until it has counted the bytes asked for, a page for every
  block whatever its size, or none is left; it frees no block more than that count needs. The list,
  the table and the counts stay consistent. This is the order of least recent use; the report of
  the lab says that the function was changed to the most recently used.
\<close>

theorem free_yielded_frees_oldest:
  assumes "yield_laws P yc" and "0 < VM_PAGE_SIZE P" and "yield_ok P yc s ys"
    and "length ys * VM_PAGE_SIZE P < VSPACE"
  shows "\<exists>k s'. free_yielded P m s = Inr (k * VM_PAGE_SIZE P, s') \<and> k \<le> length ys
     \<and> yield_ok P yc s' (take (length ys - k) ys)
     \<and> (m \<le> k * VM_PAGE_SIZE P \<or> k = length ys) \<and> (\<forall>j < k. j * VM_PAGE_SIZE P < m)
     \<and> freed_yielded s' = freed_yielded s \<union> set (drop (length ys - k) ys)"
proof -
  have "set ys \<subseteq> {..<next_yielded s}" using yield_okD(4)[OF assms(3)] by auto
  then have "length ys \<le> next_yielded s"
    using yield_okD(3)[OF assms(3)] by (metis card_lessThan card_mono distinct_card finite_lessThan)
  then show ?thesis
    using free_oldest_ok[OF assms(1-3), of "next_yielded s" 0 m] assms(4) by (simp add: free_yielded_def)
qed

text \<open>Two blocks of process 0, number 1 the younger.\<close>

definition two_yields :: list_state where
  "two_yields = two_regions\<lparr>next_yielded := 2, lru_youngest := Some 1, lru_oldest := Some 0,
     yblocks := (\<lambda>y. \<lparr>yid = \<lparr>owner = 7, bid = of_nat y\<rparr>, physaddr = y * 4096, pages = 1,
        younger = (if y = 0 then Some 1 else None), older = (if y = 0 then None else Some 0)\<rparr>),
     vm_yielded_blocks := (\<lambda>h. if h = 7 then [(\<lparr>owner = 7, bid = 0\<rparr>, 0)]
        else if h = 8 then [(\<lparr>owner = 7, bid = 1\<rparr>, 1)] else []),
     vmprocs := (vmprocs two_regions)(0 := (vmprocs two_regions 0)\<lparr>vm_yielded := 2\<rparr>)\<rparr>"

lemma two_yields_ok: "yield_ok list_vm map_of two_yields [1, 0]"
proof -
  have hash: "yhash list_vm \<lparr>owner = 7, bid = 0\<rparr> = 7" "yhash list_vm \<lparr>owner = 7, bid = 1\<rparr> = 8"
    by (simp_all add: yhash_def YIELD_HASHSIZE_def list_vm_def)
  have links: "ylist two_yields [1, 0]"
    by (simp add: ylist_def dll_def olders_def youngers_def two_yields_def)
  show ?thesis
    unfolding yield_ok_def list_vm_yield_fields
    using links hash by (auto simp: two_yields_def two_regions_def split: if_splits)
qed

theorem free_yielded_frees_oldest_witness:
  "\<exists>s'. free_yielded list_vm 1 two_yields = Inr (4096, s') \<and> yield_ok list_vm map_of s' [1] \<and> freed_yielded s' = {0}"
proof -
  have "0 < VM_PAGE_SIZE list_vm" "length [1, 0::nat] * VM_PAGE_SIZE list_vm < VSPACE"
    by (simp_all add: list_vm_yield_fields VSPACE_def)
  from free_yielded_frees_oldest[OF list_vm_yield this(1) two_yields_ok this(2), of 1]
  obtain k s' where k: "free_yielded list_vm 1 two_yields = Inr (k * 4096, s')" "k \<le> 2"
    "yield_ok list_vm map_of s' (take (2 - k) [1, 0])" "1 \<le> k * 4096 \<or> k = 2" "\<forall>j < k. j * 4096 < (1::nat)"
    "freed_yielded s' = freed_yielded two_yields \<union> set (drop (2 - k) [1, 0])"
    by (auto simp: list_vm_yield_fields numeral_2_eq_2)
  have "\<not> 1 < k" using k(5) by auto
  then have "k = 1" using k(4) by auto
  moreover have "freed_yielded two_yields = {}" by (simp add: two_yields_def two_regions_def)
  ultimately show ?thesis using k by auto
qed

end
