(* ===== verification/Region_Sanity.thy ===== *)
theory Region_Sanity
  imports Region_Lru
begin

text \<open>
  The self-checks that \<open>region.c\<close> compiles with SANITYCHECKS: \<open>lrucheck\<close> walks the list of
  yielded blocks, \<open>map_sanitycheck\<close> the regions of all processes, \<open>blockstats\<close> counts the
  list. Each stops the server when it finds something wrong.

  What the checks use and the repository lacks is the record \<open>sanenv\<close>: the check that a pointer
  is an object of its slab (\<open>SLABSANE\<close>), the number and use of process slots, the chain of
  physical regions that a block links (\<open>firstregion\<close> and \<open>next_ph_list\<close>, kept by \<open>pb.c\<close>),
  the memory type's own check, \<open>pt_writemap\<close> called to compare (\<open>WMF_VERIFY\<close>), and the result of
  asking for the time, which \<open>blockstats\<close> does for nothing. The
  parent of a physical region is the region its slot belongs to by the way it is named here.
\<close>

section \<open>The checks\<close>

record ('t, 'y, 'w) sanenv =
  sane_yielded :: "nat \<Rightarrow> ('t, 'y, 'w) vm \<Rightarrow> bool"
  sane_region :: "nat \<Rightarrow> ('t, 'y, 'w) vm \<Rightarrow> bool"
  sane_phys :: "nat \<Rightarrow> nat \<Rightarrow> ('t, 'y, 'w) vm \<Rightarrow> bool"
  sane_block :: "nat \<Rightarrow> ('t, 'y, 'w) vm \<Rightarrow> bool"
  VMP_NR :: nat
  vm_inuse :: "nat \<Rightarrow> ('t, 'y, 'w) vm \<Rightarrow> bool"
  ph_list :: "nat \<Rightarrow> ('t, 'y, 'w) vm \<Rightarrow> (nat \<times> nat) list"
  ev_sanitycheck :: "nat \<Rightarrow> (nat \<Rightarrow> nat \<Rightarrow> ('t, 'y, 'w) vm \<Rightarrow> bool) option"
  pt_verify :: "nat \<Rightarrow> nat \<Rightarrow> nat \<Rightarrow> 32 word \<Rightarrow> ('t, 'y, 'w) vm \<Rightarrow> int"
  getuptime :: int

definition vassert :: "bool \<Rightarrow> vm_stop + unit" where
  "vassert b = (if b then Inr () else Inl VM_assert)"

text \<open>One node of the list of yielded blocks.\<close>

definition lru_node_ok :: "('t, 'y, 'w) sanenv \<Rightarrow> ('t, 'y, 'w) vm \<Rightarrow> nat \<Rightarrow> bool" where
  "lru_node_ok C s y \<longleftrightarrow> sane_yielded C y s \<and>
     (case younger (yblocks s y) of
        Some x \<Rightarrow> sane_yielded C x s \<and> older (yblocks s x) = Some y
      | None \<Rightarrow> lru_youngest s = Some y) \<and>
     (case older (yblocks s y) of
        Some x \<Rightarrow> sane_yielded C x s \<and> younger (yblocks s x) = Some y
      | None \<Rightarrow> lru_oldest s = Some y)"

fun lru_walk :: "('t, 'y, 'w) sanenv \<Rightarrow> ('t, 'y, 'w) vm \<Rightarrow> nat \<Rightarrow> nat option \<Rightarrow> vm_stop + unit" where
  "lru_walk C s fuel None = Inr ()"
| "lru_walk C s 0 (Some y) = Inl VM_endless"
| "lru_walk C s (Suc fuel) (Some y) =
     bindE (vassert (lru_node_ok C s y)) (\<lambda>_. lru_walk C s fuel (older (yblocks s y)))"

definition lrucheck :: "('t, 'y, 'w) sanenv \<Rightarrow> ('t, 'y, 'w) vm \<Rightarrow> vm_stop + unit" where
  "lrucheck C s =
     (case (lru_youngest s, lru_oldest s) of
        (None, None) \<Rightarrow> Inr ()
      | (Some y, Some z) \<Rightarrow>
          bindE (vassert (sane_yielded C y s \<and> sane_yielded C z s \<and>
                          younger (yblocks s y) = None \<and> older (yblocks s z) = None))
            (\<lambda>_. lru_walk C s (Suc (next_yielded s)) (Some y))
      | _ \<Rightarrow> Inl VM_assert)"

text \<open>The numbers \<open>blockstats\<close> prints: blocks and kB, when there are any.\<close>

definition blockstats ::
  "('t, 'y, 'w) vmenv \<Rightarrow> ('t, 'y, 'w) sanenv \<Rightarrow> ('t, 'y, 'w) vm \<Rightarrow> vm_stop + (nat \<times> nat) option" where
  "blockstats P C s =
     bindE (vassert (getuptime C = OK)) (\<lambda>_.
     bindE (lrucheck C s) (\<lambda>_. bindE (count_older s (next_yielded s) (lru_youngest s)) (\<lambda>n.
       Inr (if 0 < n then Some (n, (n * VM_PAGE_SIZE P) mod VSPACE div 1024) else None))))"

definition map_sanitycheck_pt ::
  "('t, 'y, 'w) vmenv \<Rightarrow> ('t, 'y, 'w) sanenv \<Rightarrow> nat \<Rightarrow> nat \<Rightarrow> phys_region \<Rightarrow> ('t, 'y, 'w) vm \<Rightarrow> vm_stop + int" where
  "map_sanitycheck_pt P C p r x s =
     bindE (pr_writable P r (pr_offset x) s) (\<lambda>w.
       Inr (pt_verify C p (wadd (vaddr (regions s r)) (pr_offset x)) (phys (pblocks s (ph x)))
              (PTF_PRESENT P OR PTF_USER P OR (if w then PTF_WRITE P else PTF_READ P)) s))"

fun each :: "('a \<Rightarrow> vm_stop + unit) \<Rightarrow> 'a list \<Rightarrow> vm_stop + unit" where
  "each f [] = Inr ()"
| "each f (x # xs) = bindE (f x) (\<lambda>_. each f xs)"

text \<open>The macro \<open>ALLREGIONS(regioncode, physcode)\<close>.\<close>

definition ALLREGIONS ::
  "('t, 'y, 'w) vmenv \<Rightarrow> ('t, 'y, 'w) sanenv \<Rightarrow> ('t, 'y, 'w) vm \<Rightarrow> (nat \<Rightarrow> nat \<Rightarrow> vm_stop + unit) \<Rightarrow>
   (nat \<Rightarrow> nat \<Rightarrow> nat \<Rightarrow> phys_region \<Rightarrow> vm_stop + unit) \<Rightarrow> vm_stop + unit" where
  "ALLREGIONS P C s regioncode physcode =
     each (\<lambda>p. if \<not> vm_inuse C p s then Inr () else
       each (\<lambda>r. bindE (regioncode p r) (\<lambda>_.
         each (\<lambda>v. bindE (physblock_get P (regions s r) v) (\<lambda>x.
             case x of None \<Rightarrow> Inr () | Some pr \<Rightarrow> physcode p r v pr))
           (page_offsets P 0 (vlength (regions s r)))))
         (region_inorder P (tree_of s p)))
     [0..<VMP_NR C]"

text \<open>
  \<open>seencount\<close> of a block after the counting pass: how many of the slots the passes visit hold
  it. The pass stops where a slot's own check stops, and the memory type checks each block when it
  is seen for the first time.
\<close>

definition region_slots :: "('t, 'y, 'w) vmenv \<Rightarrow> vir_region \<Rightarrow> phys_region list" where
  "region_slots P vr =
     List.map_filter (\<lambda>v. physblocks vr ! (v div VM_PAGE_SIZE P)) (page_offsets P 0 (vlength vr))"

definition all_slots :: "('t, 'y, 'w) vmenv \<Rightarrow> ('t, 'y, 'w) sanenv \<Rightarrow> ('t, 'y, 'w) vm \<Rightarrow> (nat \<times> phys_region) list" where
  "all_slots P C s =
     concat (map (\<lambda>p. concat (map (\<lambda>r. map (Pair r) (region_slots P (regions s r))) (region_inorder P (tree_of s p))))
       (filter (\<lambda>p. vm_inuse C p s) [0..<VMP_NR C]))"

definition seencount :: "('t, 'y, 'w) vmenv \<Rightarrow> ('t, 'y, 'w) sanenv \<Rightarrow> ('t, 'y, 'w) vm \<Rightarrow> nat \<Rightarrow> nat" where
  "seencount P C s b = length (filter (\<lambda>(r, x). ph x = b) (all_slots P C s))"

fun first_seen :: "('t, 'y, 'w) sanenv \<Rightarrow> ('t, 'y, 'w) vm \<Rightarrow> nat set \<Rightarrow> (nat \<times> phys_region) list \<Rightarrow> vm_stop + unit" where
  "first_seen C s B [] = Inr ()"
| "first_seen C s B ((r, x) # xs) =
     bindE (if ph x \<in> B then Inr () else
              case ev_sanitycheck C (memtype (regions s r)) of
                None \<Rightarrow> Inr ()
              | Some f \<Rightarrow> vassert (f r (pr_offset x) s))
       (\<lambda>_. first_seen C s (insert (ph x) B) xs)"

text \<open>The links of a block, from one of the slots that hold it.\<close>

definition check_links ::
  "('t, 'y, 'w) vmenv \<Rightarrow> ('t, 'y, 'w) sanenv \<Rightarrow> ('t, 'y, 'w) vm \<Rightarrow> nat \<Rightarrow> phys_region \<Rightarrow> vm_stop + unit" where
  "check_links P C s r x =
     (let b = ph x; links = ph_list C b s; n = refcount (pblocks s b) in
      bindE (if 0 < n
             then bindE (vassert (links \<noteq> [])) (\<lambda>_. vassert (n = 1 \<longrightarrow> hd links = (r, pr_offset x)))
             else vassert (links = [])) (\<lambda>_.
      bindE (each (\<lambda>(r', o'). vassert (sane_phys C r' o' s \<and> map_option ph (entry_at P s r' o') = Some b)) links) (\<lambda>_.
        vassert (n = length links))))"

definition map_sanitycheck ::
  "('t, 'y, 'w) vmenv \<Rightarrow> ('t, 'y, 'w) sanenv \<Rightarrow> ('t, 'y, 'w) vm \<Rightarrow> vm_stop + unit" where
  "map_sanitycheck P C s =
     bindE (lrucheck C s) (\<lambda>_.
     bindE (ALLREGIONS P C s (\<lambda>p r. vassert (sane_region C r s))
             (\<lambda>p r v x. vassert (sane_phys C r (pr_offset x) s \<and> sane_block C (ph x) s \<and> sane_region C r s))) (\<lambda>_.
     bindE (ALLREGIONS P C s (\<lambda>p r. Inr ()) (\<lambda>p r v x. vassert (pr_offset x = v))) (\<lambda>_.
     bindE (first_seen C s {} (all_slots P C s)) (\<lambda>_.
     bindE (ALLREGIONS P C s
             (\<lambda>p r. bindE (getnextvr P r s) (\<lambda>nxt.
               bindE (case nxt of None \<Rightarrow> Inr () | Some n \<Rightarrow>
                        vassert (vaddr (regions s r) < vaddr (regions s n) \<and>
                                 wadd (vaddr (regions s r)) (vlength (regions s r)) \<le> vaddr (regions s n))) (\<lambda>_.
               vassert (vaddr (regions s r) mod VM_PAGE_SIZE P = 0))))
             (\<lambda>p r v x.
               bindE (check_links P C s r x) (\<lambda>_.
                 vassert (refcount (pblocks s (ph x)) = seencount P C s (ph x) \<and> pr_offset x mod VM_PAGE_SIZE P = 0)))) (\<lambda>_.
     ALLREGIONS P C s (\<lambda>p r. Inr ())
       (\<lambda>p r v x. bindE (map_sanitycheck_pt P C p r x s) (\<lambda>e. vassert (e = OK))))))))"

section \<open>The list of yielded blocks\<close>

lemma vassert_ok [simp]: "vassert b = Inr () \<longleftrightarrow> b"
  by (simp add: vassert_def)

lemma bind_unit: "bindE (m :: vm_stop + unit) f = Inr () \<longleftrightarrow> m = Inr () \<and> f () = Inr ()"
  by (simp add: bindE_eq_Inr_conv)

lemma lru_walk_chain:
  "lru_walk C s fuel p = Inr () \<Longrightarrow> \<exists>ys. chain (olders s) p ys \<and> (\<forall>y \<in> set ys. lru_node_ok C s y)"
proof (induction fuel arbitrary: p)
  case 0
  then show ?case by (cases p) (auto intro: exI [of _ "[]"])
next
  case (Suc fuel)
  show ?case
  proof (cases p)
    case None
    then show ?thesis by (auto intro: exI [of _ "[]"])
  next
    case (Some y)
    then have "lru_node_ok C s y" "lru_walk C s fuel (olders s y) = Inr ()"
      using Suc.prems by (simp_all add: bind_unit olders_def)
    with Suc.IH obtain ys where "chain (olders s) (olders s y) ys" "\<forall>y \<in> set ys. lru_node_ok C s y" by blast
    then show ?thesis using Some \<open>lru_node_ok C s y\<close> by (intro exI [of _ "y # ys"]) simp
  qed
qed

lemma lru_walk_ok:
  "chain (olders s) p ys \<Longrightarrow> \<forall>y \<in> set ys. lru_node_ok C s y \<Longrightarrow> length ys \<le> fuel \<Longrightarrow> lru_walk C s fuel p = Inr ()"
proof (induction ys arbitrary: p fuel)
  case (Cons y ys)
  then obtain n where n: "fuel = Suc n" by (cases fuel) auto
  have "p = Some y" "chain (olders s) (older (yblocks s y)) ys" using Cons.prems(1) by (simp_all add: olders_def)
  then show ?case using Cons.IH [of "older (yblocks s y)" n] Cons.prems(2,3) n by (simp add: bind_unit)
qed simp

text \<open>Going back along links that agree with the links forward.\<close>

lemma seg_back:
  assumes "chain nx (Some x) (x # xs)" and "\<And>y z. y \<in> set (x # xs) \<Longrightarrow> nx y = Some z \<Longrightarrow> pv z = Some y"
  shows "seg pv (Some (last (x # xs))) (rev xs) (Some x)"
  using assms
proof (induction xs arbitrary: x)
  case Nil
  then show ?case by simp
next
  case (Cons y ys)
  have nx: "nx x = Some y" "chain nx (Some y) (y # ys)" using Cons.prems(1) by simp_all
  have "seg pv (Some (last (y # ys))) (rev ys) (Some y)"
    using nx(2) Cons.prems(2) by (intro Cons.IH) auto
  moreover have "pv y = Some x" using Cons.prems(2) [of x y] nx(1) by simp
  ultimately show ?case by (simp add: seg_append)
qed

lemma ylist_node_ok:
  assumes "ylist s ys" and "\<forall>y \<in> set ys. sane_yielded C y s" and "y \<in> set ys"
  shows "lru_node_ok C s y"
proof -
  obtain xs zs where ys: "ys = xs @ y # zs" using assms(3) by (meson split_list)
  have d: "dll (olders s) (youngers s) (lru_youngest s) (lru_oldest s) (xs @ y # zs)"
    using assms(1) by (simp add: ylist_def ys)
  have o: "older (yblocks s y) = (if zs = [] then None else Some (hd zs))"
    "younger (yblocks s y) = (if xs = [] then None else Some (last xs))"
    using dll_neighbours [OF d] by (simp_all add: olders_def youngers_def)
  have nx: "younger (yblocks s (hd zs)) = Some y" if "zs \<noteq> []"
  proof -
    have "(xs @ [y]) @ hd zs # tl zs = xs @ y # zs" using that by simp
    with dll_neighbours(2) [of "olders s" "youngers s" _ _ "xs @ [y]" "hd zs" "tl zs"] d show ?thesis
      by (auto simp: youngers_def)
  qed
  have pv: "older (yblocks s (last xs)) = Some y" if "xs \<noteq> []"
  proof -
    have "butlast xs @ last xs # y # zs = xs @ y # zs" using that by (simp add: append_butlast_last_id [symmetric])
    with dll_neighbours(1) [of "olders s" "youngers s" _ _ "butlast xs" "last xs" "y # zs"] d show ?thesis
      by (auto simp: olders_def)
  qed
  have "sane_yielded C (hd zs) s" if "zs \<noteq> []" using assms(2) that by (simp add: ys)
  moreover have "sane_yielded C (last xs) s" if "xs \<noteq> []" using assms(2) that by (simp add: ys)
  moreover have "lru_youngest s = Some y" if "xs = []" using dll_hd [OF d] that by simp
  moreover have "lru_oldest s = Some y" if "zs = []" using dll_last [OF d] that by simp
  ultimately show ?thesis
    unfolding lru_node_ok_def o using nx pv assms(2) by (simp add: ys)
qed

lemma lrucheck_iff:
  assumes lim: "\<And>y. sane_yielded C y s \<Longrightarrow> y < next_yielded s"
  shows "lrucheck C s = Inr () \<longleftrightarrow> (\<exists>ys. ylist s ys \<and> (\<forall>y \<in> set ys. sane_yielded C y s))"
proof
  assume ok: "lrucheck C s = Inr ()"
  show "\<exists>ys. ylist s ys \<and> (\<forall>y \<in> set ys. sane_yielded C y s)"
  proof (cases "lru_youngest s")
    case None
    then have "lru_oldest s = None" using ok by (cases "lru_oldest s") (simp_all add: lrucheck_def)
    then show ?thesis using None by (intro exI [of _ "[]"]) (simp add: ylist_def dll_def)
  next
    case (Some y)
    then obtain z where z: "lru_oldest s = Some z" using ok by (cases "lru_oldest s") (simp_all add: lrucheck_def)
    have "younger (yblocks s y) = None" "lru_walk C s (Suc (next_yielded s)) (Some y) = Inr ()"
      using ok by (simp_all add: lrucheck_def Some z bind_unit del: lru_walk.simps)
    from lru_walk_chain [OF this(2)] obtain ys where ys: "chain (olders s) (Some y) ys" "\<forall>y \<in> set ys. lru_node_ok C s y"
      by blast
    then obtain xs where xs: "ys = y # xs" by (auto simp: chain_Some)
    have "youngers s w = Some v" if "v \<in> set (y # xs)" "olders s v = Some w" for v w
      using ys(2) that unfolding lru_node_ok_def youngers_def olders_def xs by auto
    then have "seg (youngers s) (Some (last ys)) (rev xs) (Some y)"
      using seg_back [of "olders s" y xs "youngers s"] ys(1) by (simp add: xs)
    moreover have "olders s (last ys) = None"
      using ys(1) seg_end [of "olders s" "Some y" ys None] by (simp add: chain_seg xs)
    then have "lru_oldest s = Some (last ys)"
      using ys(2) last_in_set [of ys] unfolding lru_node_ok_def olders_def by (auto simp: xs)
    ultimately have "chain (youngers s) (lru_oldest s) (rev ys)"
      using \<open>younger (yblocks s y) = None\<close> by (simp add: xs chain_append youngers_def)
    then have "ylist s ys" using ys(1) Some by (simp add: ylist_def dll_def)
    moreover have "\<forall>y \<in> set ys. sane_yielded C y s" using ys(2) by (simp add: lru_node_ok_def)
    ultimately show ?thesis by blast
  qed
next
  assume "\<exists>ys. ylist s ys \<and> (\<forall>y \<in> set ys. sane_yielded C y s)"
  then obtain ys where ys: "ylist s ys" "\<forall>y \<in> set ys. sane_yielded C y s" by blast
  have d: "dll (olders s) (youngers s) (lru_youngest s) (lru_oldest s) ys" using ys(1) by (simp add: ylist_def)
  show "lrucheck C s = Inr ()"
  proof (cases "ys = []")
    case True
    then show ?thesis using dll_hd [OF d] dll_last [OF d] by (simp add: lrucheck_def)
  next
    case False
    have e: "lru_youngest s = Some (hd ys)" "lru_oldest s = Some (last ys)"
      using dll_hd [OF d] dll_last [OF d] False by simp_all
    have "set ys \<subseteq> {..<next_yielded s}" using ys(2) lim by auto
    then have "length ys \<le> next_yielded s"
      using dll_distinct [OF d] by (metis card_lessThan card_mono distinct_card finite_lessThan)
    then have "lru_walk C s (Suc (next_yielded s)) (Some (hd ys)) = Inr ()"
      using d e(1) ylist_node_ok [OF ys] by (intro lru_walk_ok [of s _ ys]) (simp_all add: dll_def)
    moreover have "lru_node_ok C s (hd ys)" "lru_node_ok C s (last ys)"
      using ylist_node_ok [OF ys] False by simp_all
    moreover have "younger (yblocks s (hd ys)) = None"
      using dll_neighbours(2) [of "olders s" "youngers s" _ _ "[]" "hd ys" "tl ys"] d False by (simp add: youngers_def)
    moreover have "older (yblocks s (last ys)) = None"
      using dll_neighbours(1) [of "olders s" "youngers s" _ _ "butlast ys" "last ys" "[]"] d False by (simp add: olders_def)
    ultimately show ?thesis
      using ys(2) False by (simp add: lrucheck_def e bind_unit del: lru_walk.simps)
  qed
qed

section \<open>The regions\<close>

lemma each_ok: "each f xs = Inr () \<longleftrightarrow> (\<forall>x \<in> set xs. f x = Inr ())"
  by (induction xs) (auto simp: bind_unit)

lemma physblock_get_offset:
  assumes "0 < VM_PAGE_SIZE P" and "v \<in> set (page_offsets P 0 (vlength vr))"
  shows "physblock_get P vr v =
    (case physblocks vr ! (v div VM_PAGE_SIZE P) of None \<Rightarrow> Inr None
     | Some x \<Rightarrow> if pr_offset x = v then Inr (Some x) else Inl VM_assert)"
  using page_offsets_bound [OF assms] by (simp add: physblock_get_def mod_eq_0_iff_dvd)

definition in_slot :: "('t, 'y, 'w) vmenv \<Rightarrow> ('t, 'y, 'w) vm \<Rightarrow> nat \<Rightarrow> nat \<Rightarrow> phys_region \<Rightarrow> bool" where
  "in_slot P s r v x \<longleftrightarrow> v \<in> set (page_offsets P 0 (vlength (regions s r))) \<and> entry_at P s r v = Some x"

lemma ALLREGIONS_ok:
  assumes "0 < VM_PAGE_SIZE P"
  shows "ALLREGIONS P C s rc pc = Inr () \<longleftrightarrow>
    (\<forall>p < VMP_NR C. vm_inuse C p s \<longrightarrow> (\<forall>r \<in> set (region_inorder P (tree_of s p)).
       rc p r = Inr () \<and> (\<forall>v x. in_slot P s r v x \<longrightarrow> pr_offset x = v \<and> pc p r v x = Inr ())))"
proof -
  have slot: "bindE (physblock_get P (regions s r) v) (\<lambda>x. case x of None \<Rightarrow> Inr () | Some pr \<Rightarrow> pc p r v pr) = Inr () \<longleftrightarrow>
      (\<forall>x. in_slot P s r v x \<longrightarrow> pr_offset x = v \<and> pc p r v x = Inr ())"
    if "v \<in> set (page_offsets P 0 (vlength (regions s r)))" for p r v
    using physblock_get_offset [OF assms that] that by (auto simp: in_slot_def split: option.splits)
  have "(\<forall>v \<in> set (page_offsets P 0 (vlength (regions s r))).
      bindE (physblock_get P (regions s r) v) (\<lambda>x. case x of None \<Rightarrow> Inr () | Some pr \<Rightarrow> pc p r v pr) = Inr ()) \<longleftrightarrow>
      (\<forall>v x. in_slot P s r v x \<longrightarrow> pr_offset x = v \<and> pc p r v x = Inr ())" for p r
    using slot [where p = p and r = r] by (auto simp: in_slot_def)
  then show ?thesis by (auto simp: ALLREGIONS_def each_ok bind_unit)
qed

definition type_accepts :: "('t, 'y, 'w) sanenv \<Rightarrow> ('t, 'y, 'w) vm \<Rightarrow> nat \<times> phys_region \<Rightarrow> bool" where
  "type_accepts C s z \<longleftrightarrow>
     (case ev_sanitycheck C (memtype (regions s (fst z))) of None \<Rightarrow> True | Some f \<Rightarrow> f (fst z) (pr_offset (snd z)) s)"

lemma first_seen_ok:
  "first_seen C s B xs = Inr () \<longleftrightarrow>
     (\<forall>b. b \<notin> B \<longrightarrow> (case find (\<lambda>(r, x). ph x = b) xs of None \<Rightarrow> True | Some z \<Rightarrow> type_accepts C s z))"
proof (induction xs arbitrary: B)
  case Nil
  then show ?case by simp
next
  case (Cons rx xs)
  obtain r x where rx: "rx = (r, x)" by fastforce
  let ?Q = "\<lambda>m. case m of None \<Rightarrow> True | Some z \<Rightarrow> type_accepts C s z"
  have "first_seen C s B (rx # xs) = Inr () \<longleftrightarrow>
      (ph x \<notin> B \<longrightarrow> type_accepts C s (r, x)) \<and> (\<forall>b. b \<notin> insert (ph x) B \<longrightarrow> ?Q (find (\<lambda>(r, x). ph x = b) xs))"
    unfolding Cons [symmetric] rx by (auto simp: bind_unit type_accepts_def split: option.splits)
  also have "\<dots> \<longleftrightarrow> (\<forall>b. b \<notin> B \<longrightarrow> ?Q (if ph x = b then Some (r, x) else find (\<lambda>(r, x). ph x = b) xs))"
    by auto
  finally show ?case by (simp add: rx)
qed

text \<open>What the check demands of the links of a slot's block, and of a slot.\<close>

definition links_sane ::
  "('t, 'y, 'w) vmenv \<Rightarrow> ('t, 'y, 'w) sanenv \<Rightarrow> ('t, 'y, 'w) vm \<Rightarrow> nat \<Rightarrow> phys_region \<Rightarrow> bool" where
  "links_sane P C s r x \<longleftrightarrow>
     (let b = ph x; links = ph_list C b s; n = refcount (pblocks s b) in
      length links = n \<and> (n = 1 \<longrightarrow> links = [(r, pr_offset x)]) \<and>
      (\<forall>(r', o') \<in> set links. sane_phys C r' o' s \<and> map_option ph (entry_at P s r' o') = Some b))"

definition slot_sane ::
  "('t, 'y, 'w) vmenv \<Rightarrow> ('t, 'y, 'w) sanenv \<Rightarrow> ('t, 'y, 'w) vm \<Rightarrow> nat \<Rightarrow> nat \<Rightarrow> nat \<Rightarrow> phys_region \<Rightarrow> bool" where
  "slot_sane P C s p r v x \<longleftrightarrow>
     pr_offset x = v \<and> sane_phys C r (pr_offset x) s \<and> sane_block C (ph x) s \<and>
     refcount (pblocks s (ph x)) = seencount P C s (ph x) \<and> links_sane P C s r x \<and>
     map_sanitycheck_pt P C p r x s = Inr OK"

lemma check_links_ok: "check_links P C s r x = Inr () \<longleftrightarrow> links_sane P C s r x"
  by (cases "ph_list C (ph x) s") (auto simp: check_links_def links_sane_def Let_def bind_unit each_ok)

text \<open>A process as the tree laws and the operations leave it: a region is filed under its address.\<close>

definition filed :: "('t \<Rightarrow> nat \<rightharpoonup> nat) \<Rightarrow> nat \<Rightarrow> ('t, 'y, 'w) vm \<Rightarrow> bool" where
  "filed c p s \<longleftrightarrow> (\<forall>k r. c (tree_of s p) k = Some r \<longrightarrow>
     vaddr (regions s r) = k \<and> parent (regions s r) = p \<and> k + vlength (regions s r) < VSPACE)"

definition apart :: "('t \<Rightarrow> nat \<rightharpoonup> nat) \<Rightarrow> nat \<Rightarrow> ('t, 'y, 'w) vm \<Rightarrow> nat \<Rightarrow> nat \<Rightarrow> bool" where
  "apart c p s k r \<longleftrightarrow> (\<forall>k' r'. c (tree_of s p) k' = Some r' \<longrightarrow> k < k' \<longrightarrow> k + vlength (regions s r) \<le> k')"

text \<open>Looking only at the next region finds every overlap.\<close>

lemma getnextvr_ok:
  assumes laws: "avl_laws P c" and f: "filed c p s" and r: "c (tree_of s p) k = Some r"
  shows "bindE (getnextvr P r s) (\<lambda>nxt. bindE (case nxt of None \<Rightarrow> Inr () | Some n \<Rightarrow>
      vassert (vaddr (regions s r) < vaddr (regions s n) \<and> wadd (vaddr (regions s r)) (vlength (regions s r)) \<le> vaddr (regions s n)))
      (\<lambda>_. vassert (vaddr (regions s r) mod VM_PAGE_SIZE P = 0))) = Inr () \<longleftrightarrow>
    apart c p s k r \<and> VM_PAGE_SIZE P dvd k"
proof -
  have k: "vaddr (regions s r) = k" "parent (regions s r) = p" "wadd k (vlength (regions s r)) = k + vlength (regions s r)"
    using f r by (simp_all add: filed_def wadd_def)
  have eq: "region_search P (tree_of s p) k AVL_EQUAL = Some r" using search_equal [OF laws] r by simp
  consider "region_search P (tree_of s p) k AVL_GREATER = None" "\<forall>j \<in> dom (c (tree_of s p)). j \<le> k"
    | j n where "region_search P (tree_of s p) k AVL_GREATER = Some n" "c (tree_of s p) j = Some n" "k < j"
        "\<forall>i \<in> dom (c (tree_of s p)). k < i \<longrightarrow> j \<le> i"
    using search_greater_cases [OF laws, of "tree_of s p" k] by (elim disjE exE conjE) simp_all
  then show ?thesis
  proof cases
    case 1
    then have "apart c p s k r" unfolding apart_def by (meson domI leD)
    then show ?thesis using 1 eq by (simp add: getnextvr_def k Let_def mod_eq_0_iff_dvd)
  next
    case 2
    have n: "vaddr (regions s n) = j" "parent (regions s n) = p" using f 2(2) by (simp_all add: filed_def)
    have "apart c p s k r \<longleftrightarrow> k + vlength (regions s r) \<le> j"
      unfolding apart_def using 2(2-4) by (meson domI le_trans)
    then show ?thesis
      using 2 eq n by (auto simp: getnextvr_def k Let_def mod_eq_0_iff_dvd bind_unit)
  qed
qed

lemma set_inorder:
  assumes "avl_laws P c"
  shows "set (region_inorder P t) = ran (c t)"
  using avl_lawsD(1,6) [OF assms, of t] by (auto simp: ran_def dom_def image_iff) (metis option.sel)

text \<open>The conditions of the passes over the slots of a region, given that each entry has the offset of its place.\<close>

definition pointers_sane :: "('t, 'y, 'w) vmenv \<Rightarrow> ('t, 'y, 'w) sanenv \<Rightarrow> ('t, 'y, 'w) vm \<Rightarrow> nat \<Rightarrow> bool" where
  "pointers_sane P C s r \<longleftrightarrow> sane_region C r s \<and> (\<forall>v x. in_slot P s r v x \<longrightarrow> pr_offset x = v \<and>
     sane_phys C r (pr_offset x) s \<and> sane_block C (ph x) s \<and> sane_region C r s)"

definition counts_sane :: "('t, 'y, 'w) vmenv \<Rightarrow> ('t, 'y, 'w) sanenv \<Rightarrow> ('t, 'y, 'w) vm \<Rightarrow> nat \<Rightarrow> bool" where
  "counts_sane P C s r \<longleftrightarrow> (\<forall>v x. in_slot P s r v x \<longrightarrow> pr_offset x = v \<and> links_sane P C s r x \<and>
     refcount (pblocks s (ph x)) = seencount P C s (ph x) \<and> pr_offset x mod VM_PAGE_SIZE P = 0)"

definition mapped_sane :: "('t, 'y, 'w) vmenv \<Rightarrow> ('t, 'y, 'w) sanenv \<Rightarrow> ('t, 'y, 'w) vm \<Rightarrow> nat \<Rightarrow> nat \<Rightarrow> bool" where
  "mapped_sane P C s p r \<longleftrightarrow>
     (\<forall>v x. in_slot P s r v x \<longrightarrow> pr_offset x = v \<and> map_sanitycheck_pt P C p r x s = Inr OK)"

lemma passes_sane:
  assumes "0 < VM_PAGE_SIZE P"
  shows "pointers_sane P C s r \<and> (apart c p s k r \<and> VM_PAGE_SIZE P dvd k) \<and> counts_sane P C s r \<and> mapped_sane P C s p r \<longleftrightarrow>
    sane_region C r s \<and> VM_PAGE_SIZE P dvd k \<and> apart c p s k r \<and>
    (\<forall>v x. in_slot P s r v x \<longrightarrow> slot_sane P C s p r v x)"
proof -
  have "pr_offset x mod VM_PAGE_SIZE P = 0" if "in_slot P s r v x" "pr_offset x = v" for v x
    using page_offsets_bound [OF assms] that by (auto simp: in_slot_def)
  then show ?thesis unfolding pointers_sane_def counts_sane_def mapped_sane_def slot_sane_def by blast
qed

text \<open>A condition on every region of every process in use.\<close>

abbreviation every_region ::
  "('t \<Rightarrow> nat \<rightharpoonup> nat) \<Rightarrow> ('t, 'y, 'w) sanenv \<Rightarrow> ('t, 'y, 'w) vm \<Rightarrow> (nat \<Rightarrow> nat \<Rightarrow> nat \<Rightarrow> bool) \<Rightarrow> bool" where
  "every_region c C s Q \<equiv>
     \<forall>p < VMP_NR C. vm_inuse C p s \<longrightarrow> (\<forall>k r. c (tree_of s p) k = Some r \<longrightarrow> Q p k r)"

lemma all_inorder:
  assumes "avl_laws P c"
  shows "(\<forall>r \<in> set (region_inorder P (tree_of s p)). Q r) \<longleftrightarrow> (\<forall>k r. c (tree_of s p) k = Some r \<longrightarrow> Q r)"
  unfolding set_inorder [OF assms] by (auto simp: ran_def)

lemma pointer_passes:
  assumes "avl_laws P c" and "0 < VM_PAGE_SIZE P"
  shows "ALLREGIONS P C s (\<lambda>p r. vassert (sane_region C r s))
      (\<lambda>p r v x. vassert (sane_phys C r (pr_offset x) s \<and> sane_block C (ph x) s \<and> sane_region C r s)) = Inr () \<longleftrightarrow>
      every_region c C s (\<lambda>p k r. pointers_sane P C s r)"
    and "ALLREGIONS P C s (\<lambda>p r. Inr ()) (\<lambda>p r v x. vassert (pr_offset x = v)) = Inr () \<longleftrightarrow>
      every_region c C s (\<lambda>p k r. \<forall>v x. in_slot P s r v x \<longrightarrow> pr_offset x = v)"
  unfolding ALLREGIONS_ok [OF assms(2)] all_inorder [OF assms(1)] pointers_sane_def vassert_ok by simp_all

lemma layout_pass:
  assumes "avl_laws P c" and "0 < VM_PAGE_SIZE P" and "\<forall>p < VMP_NR C. vm_inuse C p s \<longrightarrow> filed c p s"
  shows "ALLREGIONS P C s
      (\<lambda>p r. bindE (getnextvr P r s) (\<lambda>nxt. bindE (case nxt of None \<Rightarrow> Inr () | Some n \<Rightarrow>
         vassert (vaddr (regions s r) < vaddr (regions s n) \<and> wadd (vaddr (regions s r)) (vlength (regions s r)) \<le> vaddr (regions s n)))
         (\<lambda>_. vassert (vaddr (regions s r) mod VM_PAGE_SIZE P = 0))))
      (\<lambda>p r v x. bindE (check_links P C s r x) (\<lambda>_.
         vassert (refcount (pblocks s (ph x)) = seencount P C s (ph x) \<and> pr_offset x mod VM_PAGE_SIZE P = 0))) = Inr () \<longleftrightarrow>
      every_region c C s (\<lambda>p k r. (apart c p s k r \<and> VM_PAGE_SIZE P dvd k) \<and> counts_sane P C s r)"
proof -
  have nx: "bindE (getnextvr P r s) (\<lambda>nxt. bindE (case nxt of None \<Rightarrow> Inr () | Some n \<Rightarrow>
      vassert (vaddr (regions s r) < vaddr (regions s n) \<and> wadd (vaddr (regions s r)) (vlength (regions s r)) \<le> vaddr (regions s n)))
      (\<lambda>_. vassert (vaddr (regions s r) mod VM_PAGE_SIZE P = 0))) = Inr () \<longleftrightarrow> apart c p s k r \<and> VM_PAGE_SIZE P dvd k"
    if "p < VMP_NR C" "vm_inuse C p s" "c (tree_of s p) k = Some r" for p k r
    by (rule getnextvr_ok [OF assms(1) assms(3) [rule_format, OF that(1,2)] that(3)])
  have "bindE (check_links P C s r x) (\<lambda>_. vassert (refcount (pblocks s (ph x)) = seencount P C s (ph x) \<and>
      pr_offset x mod VM_PAGE_SIZE P = 0)) = Inr () \<longleftrightarrow>
      links_sane P C s r x \<and> refcount (pblocks s (ph x)) = seencount P C s (ph x) \<and> pr_offset x mod VM_PAGE_SIZE P = 0" for r x
    unfolding bind_unit check_links_ok vassert_ok ..
  then show ?thesis
    unfolding ALLREGIONS_ok [OF assms(2)] all_inorder [OF assms(1)] counts_sane_def using nx by (simp only: cong: imp_cong)
qed

lemma mapped_pass:
  assumes "avl_laws P c" and "0 < VM_PAGE_SIZE P"
  shows "ALLREGIONS P C s (\<lambda>p r. Inr ()) (\<lambda>p r v x. bindE (map_sanitycheck_pt P C p r x s) (\<lambda>e. vassert (e = OK))) = Inr () \<longleftrightarrow>
      every_region c C s (\<lambda>p k r. mapped_sane P C s p r)"
proof -
  have "bindE (map_sanitycheck_pt P C p r x s) (\<lambda>e. vassert (e = OK)) = Inr () \<longleftrightarrow> map_sanitycheck_pt P C p r x s = Inr OK"
    for p r x by (cases "map_sanitycheck_pt P C p r x s") auto
  then show ?thesis unfolding ALLREGIONS_ok [OF assms(2)] all_inorder [OF assms(1)] mapped_sane_def by simp
qed

section \<open>Properties\<close>

text \<open>
  C18. The self-check of the server accepts exactly the consistent states. In states whose regions
  are filed under their addresses, \<open>map_sanitycheck\<close> passes if and only if: the yielded blocks form
  one doubly linked list of allocated objects; in every process in use no two regions overlap,
  although the check only compares neighbours, and all start at a page; every slot
  has the offset of its place; every block a slot holds is referenced and linked exactly as often as
  slots hold it, and its page table entry agrees; and the memory types accept the blocks.
\<close>

theorem map_sanitycheck_iff:
  assumes "avl_laws P c" and "0 < VM_PAGE_SIZE P"
    and "\<And>p. p < VMP_NR C \<Longrightarrow> vm_inuse C p s \<Longrightarrow> filed c p s"
    and "\<And>y. sane_yielded C y s \<Longrightarrow> y < next_yielded s"
  shows "map_sanitycheck P C s = Inr () \<longleftrightarrow>
    (\<exists>ys. ylist s ys \<and> (\<forall>y \<in> set ys. sane_yielded C y s)) \<and>
    (\<forall>p < VMP_NR C. vm_inuse C p s \<longrightarrow> (\<forall>k r. c (tree_of s p) k = Some r \<longrightarrow>
       sane_region C r s \<and> VM_PAGE_SIZE P dvd k \<and> apart c p s k r \<and>
       (\<forall>v x. in_slot P s r v x \<longrightarrow> slot_sane P C s p r v x))) \<and>
    (\<forall>b. case find (\<lambda>(r, x). ph x = b) (all_slots P C s) of None \<Rightarrow> True
       | Some z \<Rightarrow> type_accepts C s z)"
proof -
  have f: "\<forall>p < VMP_NR C. vm_inuse C p s \<longrightarrow> filed c p s" using assms(3) by blast
  have "map_sanitycheck P C s = Inr () \<longleftrightarrow>
      (\<exists>ys. ylist s ys \<and> (\<forall>y \<in> set ys. sane_yielded C y s)) \<and>
      every_region c C s (\<lambda>p k r. pointers_sane P C s r) \<and>
      every_region c C s (\<lambda>p k r. \<forall>v x. in_slot P s r v x \<longrightarrow> pr_offset x = v) \<and>
      (\<forall>b. case find (\<lambda>(r, x). ph x = b) (all_slots P C s) of None \<Rightarrow> True | Some z \<Rightarrow> type_accepts C s z) \<and>
      every_region c C s (\<lambda>p k r. (apart c p s k r \<and> VM_PAGE_SIZE P dvd k) \<and> counts_sane P C s r) \<and>
      every_region c C s (\<lambda>p k r. mapped_sane P C s p r)"
    unfolding map_sanitycheck_def bind_unit [of "lrucheck C s"] bind_unit [of "ALLREGIONS P C s _ _"]
      bind_unit [of "first_seen C s {} _"] first_seen_ok pointer_passes [OF assms(1,2)]
      layout_pass [OF assms(1,2) f] mapped_pass [OF assms(1,2)]
    using lrucheck_iff [of C s, OF assms(4)] by simp
  also have "\<dots> \<longleftrightarrow> (\<exists>ys. ylist s ys \<and> (\<forall>y \<in> set ys. sane_yielded C y s)) \<and>
      every_region c C s (\<lambda>p k r. pointers_sane P C s r \<and> (apart c p s k r \<and> VM_PAGE_SIZE P dvd k) \<and>
        counts_sane P C s r \<and> mapped_sane P C s p r) \<and>
      (\<forall>b. case find (\<lambda>(r, x). ph x = b) (all_slots P C s) of None \<Rightarrow> True | Some z \<Rightarrow> type_accepts C s z)"
    unfolding pointers_sane_def by blast
  finally show ?thesis unfolding passes_sane [OF assms(2)] .
qed

definition sample_checks :: "((nat \<times> nat) list, (block_id \<times> nat) list, nat) sanenv" where
  "sample_checks = \<lparr>sane_yielded = (\<lambda>y s. y < next_yielded s), sane_region = (\<lambda>r s. r < next_region s),
     sane_phys = (\<lambda>_ _ _. True), sane_block = (\<lambda>_ _. True), VMP_NR = 1, vm_inuse = (\<lambda>_ _. True),
     ph_list = (\<lambda>b _. [(b, 4096)]), ev_sanitycheck = (\<lambda>_. None), pt_verify = (\<lambda>_ _ _ _ _. 0),
     getuptime = 0\<rparr>"

lemma two_regions_offsets: "page_offsets list_vm 0 8192 = [0, 4096]"
  by (simp add: page_offsets_def list_vm_def numeral_2_eq_2)

lemma two_regions_slot:
  "in_slot list_vm two_regions r v x \<longleftrightarrow> v = 4096 \<and> x = \<lparr>ph = r, pr_offset = 4096\<rparr>"
proof -
  have "in_slot list_vm two_regions r v x \<longleftrightarrow> (v = 0 \<or> v = 4096) \<and> entry_at list_vm two_regions r v = Some x"
    using two_regions_offsets by (simp add: in_slot_def two_regions_def)
  also have "\<dots> \<longleftrightarrow> v = 4096 \<and> x = \<lparr>ph = r, pr_offset = 4096\<rparr>" by (auto simp: two_regions_def list_vm_def)
  finally show ?thesis .
qed

lemma two_regions_slots:
  "all_slots list_vm sample_checks two_regions = [(0, \<lparr>ph = 0, pr_offset = 4096\<rparr>), (1, \<lparr>ph = 1, pr_offset = 4096\<rparr>)]"
proof -
  have "region_slots list_vm (regions two_regions r) = [\<lparr>ph = r, pr_offset = 4096\<rparr>]" for r
    using two_regions_offsets
    by (simp add: region_slots_def two_regions_def List.map_filter_simps, simp add: list_vm_def)
  moreover have "region_inorder list_vm (tree_of two_regions 0) = [0, 1]" by (simp add: list_vm_def two_regions_def)
  ultimately show ?thesis by (simp add: all_slots_def sample_checks_def)
qed

theorem map_sanitycheck_iff_witness:
  "map_sanitycheck list_vm sample_checks two_regions = Inr ()"
proof -
  have f: "filed map_of 0 two_regions" using two_regions_ok by (auto simp: filed_def regions_ok_def two_regions_def VSPACE_def)
  have a: "apart map_of 0 two_regions k r" if "map_of (tree_of two_regions 0) k = Some r" for k r
    using that by (auto simp: apart_def two_regions_def split: if_splits)
  have c: "seencount list_vm sample_checks two_regions b = 1" if "b = 0 \<or> b = 1" for b
    using that by (auto simp: seencount_def two_regions_slots)
  have sl: "slot_sane list_vm sample_checks two_regions 0 r 4096 \<lparr>ph = r, pr_offset = 4096\<rparr>" if "r = 0 \<or> r = 1" for r
    using c [OF that]
    by (simp add: slot_sane_def links_sane_def Let_def sample_checks_def map_sanitycheck_pt_def pr_writable_def OK_def,
        simp add: two_regions_def list_vm_def)
  have n: "VMP_NR sample_checks = 1" "sane_region sample_checks r two_regions \<longleftrightarrow> r < 2" "ev_sanitycheck sample_checks m = None"
    "sane_yielded sample_checks y two_regions \<longleftrightarrow> y < next_yielded two_regions" for r m y
    by (simp_all add: sample_checks_def two_regions_def)
  have y: "\<exists>ys. ylist two_regions ys \<and> (\<forall>y \<in> set ys. sane_yielded sample_checks y two_regions)"
    by (intro exI [of _ "[]"]) (simp add: ylist_def dll_def two_regions_def)
  have t: "r = 0 \<or> r = 1" "4096 dvd k" if "map_of (tree_of two_regions 0) k = Some r" for k r
    using that by (auto simp: two_regions_def split: if_splits)
  have ty: "case find (\<lambda>(r, x). ph x = b) (all_slots list_vm sample_checks two_regions) of None \<Rightarrow> True
      | Some z \<Rightarrow> type_accepts sample_checks two_regions z" for b
    by (simp add: type_accepts_def n split: option.splits)
  have p: "VM_PAGE_SIZE list_vm = 4096" by (simp add: list_vm_def)
  have r: "\<forall>k r. map_of (tree_of two_regions q) k = Some r \<longrightarrow>
      sane_region sample_checks r two_regions \<and> VM_PAGE_SIZE list_vm dvd k \<and> apart map_of q two_regions k r \<and>
      (\<forall>v x. in_slot list_vm two_regions r v x \<longrightarrow> slot_sane list_vm sample_checks two_regions q r v x)" if "q = 0" for q
    unfolding that two_regions_slot n p
  proof (intro allI impI conjI)
    fix k r
    assume kr: "map_of (tree_of two_regions 0) k = Some r"
    from t(1) [OF kr] show "r < 2" by auto
    show "4096 dvd k" by (rule t(2) [OF kr])
    show "apart map_of 0 two_regions k r" by (rule a [OF kr])
    fix v :: nat and x :: phys_region
    assume "v = 4096 \<and> x = \<lparr>ph = r, pr_offset = 4096\<rparr>"
    then show "slot_sane list_vm sample_checks two_regions 0 r v x" using sl [OF t(1) [OF kr]] by simp
  qed
  show ?thesis
    using map_sanitycheck_iff [of list_vm map_of sample_checks two_regions, OF list_vm_laws(1)] f r y ty
    by (simp add: n p)
qed

text \<open>
  The list of yielded blocks is counted once each: the number \<open>blockstats\<close> prints is the length
  of the list, whenever the check lets it get that far.
\<close>

lemma count_older_chain:
  "chain (olders s) p ys \<Longrightarrow> length ys \<le> fuel \<Longrightarrow> count_older s fuel p = Inr (length ys)"
proof (induction ys arbitrary: p fuel)
  case Nil
  then show ?case by (cases fuel) auto
next
  case (Cons y ys)
  then obtain n where "fuel = Suc n" by (cases fuel) auto
  then show ?case using Cons by (simp add: olders_def)
qed

lemma blockstats_counts:
  assumes "\<And>y. sane_yielded C y s \<Longrightarrow> y < next_yielded s" and "blockstats P C s = Inr r"
  shows "\<exists>ys. ylist s ys \<and>
    r = (if ys = [] then None else Some (length ys, (length ys * VM_PAGE_SIZE P) mod VSPACE div 1024))"
proof -
  have "lrucheck C s = Inr ()" using assms(2) by (auto simp: blockstats_def bindE_eq_Inr_conv)
  then obtain ys where ys: "ylist s ys" "\<forall>y \<in> set ys. sane_yielded C y s" using lrucheck_iff [of C s] assms(1) by blast
  then have d: "dll (olders s) (youngers s) (lru_youngest s) (lru_oldest s) ys" by (simp add: ylist_def)
  have "set ys \<subseteq> {..<next_yielded s}" using ys(2) assms(1) by auto
  then have "length ys \<le> next_yielded s"
    using dll_distinct [OF d] by (metis card_lessThan card_mono distinct_card finite_lessThan)
  then have "count_older s (next_yielded s) (lru_youngest s) = Inr (length ys)"
    using d by (intro count_older_chain) (simp_all add: dll_def)
  then show ?thesis using assms(2) ys(1) by (auto simp: blockstats_def bindE_eq_Inr_conv intro!: exI [of _ ys])
qed

end
