(* ===== verification/Cthread.thy ===== *)
theory Cthread
  imports Prelude
begin

text \<open>
  The two-thread counter of \<open>Homework/h4/cthread.c\<close>: two threads add 1 to a shared counter
  \<open>N\<close> times each, under a semaphore.

  The program is a step relation. Every access to shared memory and every call to the
  semaphore is one atomic step, so the steps of \<open>main\<close> and of the two threads interleave in
  every order; the read, the addition and the write of \<open>count\<close> are separate steps.
  \<open>malloc\<close>, \<open>pthread_create\<close> and \<open>pthread_join\<close> may fail. The counter is an integer: the
  theorems show it stays between 0 and \<open>2 * N\<close>, which the C \<open>int\<close> holds for the program's
  \<open>N\<close>.
\<close>

section \<open>The program\<close>

definition cthread_N :: nat where "cthread_N = 1000000"

datatype pc = Unborn | Loop | Wait | Load | Incr | Store | Post | Done

record thread =
  tpc :: pc
  ti :: nat
  ttmp :: int

datatype mpc = Init | Create nat | Join nat | Report | Finished | Exited

record cstate =
  main_pc :: mpc
  count :: int
  sem :: nat
  threads :: "nat \<Rightarrow> thread"
  printed :: "(bool \<times> int) option"

definition init_state :: cstate where
  "init_state = \<lparr>main_pc = Init, count = 0, sem = 0,
     threads = (\<lambda>_. \<lparr>tpc = Unborn, ti = 0, ttmp = 0\<rparr>), printed = None\<rparr>"

definition set_thread :: "nat \<Rightarrow> thread \<Rightarrow> cstate \<Rightarrow> cstate" where
  "set_thread t x s = s\<lparr>threads := (threads s)(t := x)\<rparr>"

text \<open>One step of \<open>thread_count\<close> in thread \<open>t\<close>; no result when the thread cannot move.\<close>

definition thread_step :: "nat \<Rightarrow> nat \<Rightarrow> cstate \<Rightarrow> cstate option" where
  "thread_step N t s =
     (let x = threads s t in
      case tpc x of
        Unborn \<Rightarrow> None
      | Loop \<Rightarrow> Some (set_thread t (x\<lparr>tpc := (if ti x < N then Wait else Done)\<rparr>) s)
      | Wait \<Rightarrow> if 0 < sem s then Some ((set_thread t (x\<lparr>tpc := Load\<rparr>) s)\<lparr>sem := sem s - 1\<rparr>) else None
      | Load \<Rightarrow> Some (set_thread t (x\<lparr>tpc := Incr, ttmp := count s\<rparr>) s)
      | Incr \<Rightarrow> Some (set_thread t (x\<lparr>tpc := Store, ttmp := ttmp x + 1\<rparr>) s)
      | Store \<Rightarrow> Some ((set_thread t (x\<lparr>tpc := Post\<rparr>) s)\<lparr>count := ttmp x\<rparr>)
      | Post \<Rightarrow> Some ((set_thread t (x\<lparr>tpc := Loop, ti := ti x + 1\<rparr>) s)\<lparr>sem := sem s + 1\<rparr>)
      | Done \<Rightarrow> None)"

text \<open>
  One step of \<open>main\<close>. \<open>fails\<close> is the result of the call to the library made in the step:
  \<open>malloc\<close> in the first one, whose null result the first \<open>pthread_create\<close> writes through, then
  \<open>pthread_create\<close> and \<open>pthread_join\<close>. \<open>Exited\<close> is the process ended early, by that crash or by
  \<open>exit(1)\<close>. The output pairs which of the two messages is printed with the value of
  \<open>count\<close>; \<open>pthread_exit\<close> ends the thread there.
\<close>

definition main_step :: "nat \<Rightarrow> bool \<Rightarrow> cstate \<Rightarrow> cstate option" where
  "main_step N fails s =
     (case main_pc s of
        Init \<Rightarrow> Some (s\<lparr>sem := 1, main_pc := (if fails then Exited else Create 0)\<rparr>)
      | Create i \<Rightarrow>
          if fails then Some (s\<lparr>main_pc := Exited\<rparr>)
          else Some ((set_thread i \<lparr>tpc = Loop, ti = 0, ttmp = 0\<rparr> s)
                 \<lparr>main_pc := (if i = 0 then Create 1 else Join 0)\<rparr>)
      | Join i \<Rightarrow>
          if fails then Some (s\<lparr>main_pc := Exited\<rparr>)
          else if tpc (threads s i) = Done
          then Some (s\<lparr>main_pc := (if i = 0 then Join 1 else Report)\<rparr>)
          else None
      | Report \<Rightarrow> Some (s\<lparr>printed := Some (count s < 2 * int N, count s), main_pc := Finished\<rparr>)
      | Finished \<Rightarrow> None
      | Exited \<Rightarrow> None)"

text \<open>An early end is the end of the whole process, so no thread moves after it.\<close>

inductive cstep :: "nat \<Rightarrow> bool \<Rightarrow> cstate \<Rightarrow> cstate \<Rightarrow> bool" for N where
  main: "main_step N fails s = Some s' \<Longrightarrow> cstep N fails s s'"
| thread: "t < 2 \<Longrightarrow> main_pc s \<noteq> Exited \<Longrightarrow> thread_step N t s = Some s' \<Longrightarrow> cstep N fails s s'"

inductive creach :: "nat \<Rightarrow> cstate \<Rightarrow> bool" for N where
  start: "creach N init_state"
| step: "creach N s \<Longrightarrow> cstep N fails s s' \<Longrightarrow> creach N s'"

inductive_cases cstepE: "cstep N fails s s'"

section \<open>The invariant\<close>

definition critical :: "pc \<Rightarrow> bool" where
  "critical p \<longleftrightarrow> p \<in> {Load, Incr, Store, Post}"

definition added :: "thread \<Rightarrow> nat" where
  "added x = ti x + (if tpc x = Post then 1 else 0)"

definition occ :: "pc \<Rightarrow> nat" where
  "occ p = (if critical p then 1 else 0)"

definition occupants :: "cstate \<Rightarrow> nat" where
  "occupants s = occ (tpc (threads s 0)) + occ (tpc (threads s 1))"

definition thread_ok :: "nat \<Rightarrow> cstate \<Rightarrow> thread \<Rightarrow> bool" where
  "thread_ok N s x \<longleftrightarrow>
     (tpc x = Unborn \<longrightarrow> ti x = 0) \<and> (tpc x = Loop \<longrightarrow> ti x \<le> N) \<and> (tpc x = Done \<longrightarrow> ti x = N) \<and>
     (tpc x = Wait \<or> critical (tpc x) \<longrightarrow> ti x < N) \<and>
     (tpc x = Incr \<longrightarrow> ttmp x = count s) \<and> (tpc x = Store \<longrightarrow> ttmp x = count s + 1)"

definition main_ok :: "nat \<Rightarrow> cstate \<Rightarrow> bool" where
  "main_ok N s \<longleftrightarrow>
     (main_pc s = Init \<longrightarrow> tpc (threads s 0) = Unborn \<and> tpc (threads s 1) = Unborn) \<and>
     (\<forall>i. main_pc s = Create i \<longrightarrow> i < 2 \<and> tpc (threads s 1) = Unborn \<and>
        (i = 0) = (tpc (threads s 0) = Unborn)) \<and>
     (\<forall>i. main_pc s = Join i \<longrightarrow> i < 2 \<and> tpc (threads s 0) \<noteq> Unborn \<and> tpc (threads s 1) \<noteq> Unborn \<and>
        (i = 1 \<longrightarrow> tpc (threads s 0) = Done)) \<and>
     (main_pc s = Report \<or> main_pc s = Finished \<longrightarrow> tpc (threads s 0) = Done \<and> tpc (threads s 1) = Done) \<and>
     (main_pc s = Finished \<longrightarrow> printed s = Some (False, 2 * int N)) \<and>
     (main_pc s \<noteq> Finished \<longrightarrow> printed s = None)"

definition cinv :: "nat \<Rightarrow> cstate \<Rightarrow> bool" where
  "cinv N s \<longleftrightarrow>
     (main_pc s \<noteq> Init \<longrightarrow> sem s + occupants s = 1) \<and>
     count s = int (added (threads s 0)) + int (added (threads s 1)) \<and>
     thread_ok N s (threads s 0) \<and> thread_ok N s (threads s 1) \<and> main_ok N s"

lemma two_cases: "t < 2 \<longleftrightarrow> t = 0 \<or> t = (1::nat)"
  by auto

lemma cinv_init: "cinv N init_state"
  by (simp add: cinv_def main_ok_def thread_ok_def added_def critical_def init_state_def)

text \<open>What a step of a thread does, seen from the other parts of the state.\<close>

lemmas thread_step_defs = thread_step_def Let_def set_thread_def

lemma thread_step_frame:
  assumes "thread_step N t s = Some s'"
  shows "tpc (threads s t) \<noteq> Unborn" "tpc (threads s t) \<noteq> Done" "tpc (threads s' t) \<noteq> Unborn"
    "u \<noteq> t \<Longrightarrow> threads s' u = threads s u" "main_pc s' = main_pc s" "printed s' = printed s"
  using assms by (cases "tpc (threads s t)"; auto simp: thread_step_defs split: if_splits)+

lemma thread_step_sem:
  assumes "thread_step N t s = Some s'"
  shows "sem s' + occ (tpc (threads s' t)) = sem s + occ (tpc (threads s t))"
  using assms by (cases "tpc (threads s t)") (auto simp: thread_step_defs occ_def critical_def split: if_splits)

lemma thread_step_count:
  assumes "thread_step N t s = Some s'" and "thread_ok N s (threads s t)"
  shows "count s' + int (added (threads s t)) = count s + int (added (threads s' t))"
  using assms
  by (cases "tpc (threads s t)") (auto simp: thread_step_defs thread_ok_def added_def split: if_splits)

lemma thread_step_ok:
  assumes "thread_step N t s = Some s'" and "thread_ok N s (threads s t)"
  shows "thread_ok N s' (threads s' t)"
  using assms
  by (cases "tpc (threads s t)") (auto simp: thread_step_defs thread_ok_def critical_def split: if_splits)

lemma thread_step_writes:
  assumes "thread_step N t s = Some s'"
  shows "count s' = count s \<or> critical (tpc (threads s t))"
  using assms by (cases "tpc (threads s t)") (auto simp: thread_step_defs critical_def split: if_splits)

lemma other_thread_ok:
  assumes "thread_ok N s x" and "count s' = count s \<or> \<not> critical (tpc x)"
  shows "thread_ok N s' x"
  using assms by (auto simp: thread_ok_def critical_def)

lemma cinv_exclusion:
  assumes "cinv N s"
  shows "\<not> (critical (tpc (threads s 0)) \<and> critical (tpc (threads s 1)))"
proof (cases "main_pc s = Init")
  case True
  with assms show ?thesis by (auto simp: cinv_def main_ok_def critical_def)
next
  case False
  with assms show ?thesis by (auto simp: cinv_def occupants_def occ_def split: if_splits)
qed

lemma main_ok_thread:
  assumes "main_ok N s" and "thread_step N t s = Some s'" and "t < 2"
  shows "main_ok N s'"
  using assms thread_step_frame [OF assms(2)] by (auto simp: main_ok_def two_cases)

lemma cinv_thread:
  assumes "cinv N s" and "t < 2" and "thread_step N t s = Some s'"
  shows "cinv N s'"
proof -
  obtain u where u: "u < 2" "u \<noteq> t" "t = 0 \<and> u = 1 \<or> t = 1 \<and> u = 0"
    using assms(2) by (auto simp: two_cases)
  have ok: "thread_ok N s (threads s t)" "thread_ok N s (threads s u)"
    using assms(1) u by (auto simp: cinv_def)
  note f = thread_step_frame [OF assms(3)]
  have "count s' = count s \<or> \<not> critical (tpc (threads s u))"
    using thread_step_writes [OF assms(3)] cinv_exclusion [OF assms(1)] u(3) by auto
  then have "thread_ok N s' (threads s' u)" using other_thread_ok [OF ok(2)] f(4) [OF u(2)] by simp
  moreover have "thread_ok N s' (threads s' t)" by (rule thread_step_ok [OF assms(3) ok(1)])
  moreover have "main_ok N s'"
    using main_ok_thread [OF _ assms(3,2)] assms(1) by (simp add: cinv_def)
  moreover have "main_pc s' \<noteq> Init \<longrightarrow> sem s' + occupants s' = 1"
    using assms(1) thread_step_sem [OF assms(3)] f(4) [OF u(2)] f(5) u(3)
    by (auto simp: cinv_def occupants_def)
  moreover have "count s' = int (added (threads s' 0)) + int (added (threads s' 1))"
    using assms(1) thread_step_count [OF assms(3) ok(1)] f(4) [OF u(2)] u(3) by (auto simp: cinv_def)
  ultimately show ?thesis using u(3) by (auto simp: cinv_def)
qed

lemma fresh_thread:
  assumes "tpc x = Unborn" and "thread_ok N s x"
  shows "occ (tpc x) = 0" "added x = 0"
  using assms by (simp_all add: occ_def critical_def added_def thread_ok_def)

lemma new_thread [simp]:
  "occ Loop = 0" "added \<lparr>tpc = Loop, ti = 0, ttmp = 0\<rparr> = 0"
  "thread_ok N s \<lparr>tpc = Loop, ti = 0, ttmp = 0\<rparr>"
  by (simp_all add: occ_def critical_def added_def thread_ok_def)

lemma thread_ok_update [simp]:
  "thread_ok N (s\<lparr>main_pc := p\<rparr>) x = thread_ok N s x" "thread_ok N (s\<lparr>sem := v\<rparr>) x = thread_ok N s x"
  "thread_ok N (s\<lparr>threads := f\<rparr>) x = thread_ok N s x" "thread_ok N (s\<lparr>printed := w\<rparr>) x = thread_ok N s x"
  by (simp_all add: thread_ok_def)

lemma cinvD:
  assumes "cinv N s"
  shows "main_pc s \<noteq> Init \<Longrightarrow> sem s + occupants s = 1"
    "count s = int (added (threads s 0)) + int (added (threads s 1))"
    "thread_ok N s (threads s 0)" "thread_ok N s (threads s 1)"
    "main_pc s = Init \<Longrightarrow> tpc (threads s 0) = Unborn \<and> tpc (threads s 1) = Unborn"
    "main_pc s = Create i \<Longrightarrow>
       i < 2 \<and> tpc (threads s 1) = Unborn \<and> (i = 0 \<longleftrightarrow> tpc (threads s 0) = Unborn)"
    "main_pc s = Join i \<Longrightarrow>
       i < 2 \<and> tpc (threads s 0) \<noteq> Unborn \<and> tpc (threads s 1) \<noteq> Unborn \<and> (i = 1 \<longrightarrow> tpc (threads s 0) = Done)"
    "main_pc s = Report \<or> main_pc s = Finished \<Longrightarrow> tpc (threads s 0) = Done \<and> tpc (threads s 1) = Done"
    "main_pc s = Finished \<Longrightarrow> printed s = Some (False, 2 * int N)"
    "main_pc s \<noteq> Finished \<Longrightarrow> printed s = None"
  using assms unfolding cinv_def main_ok_def by blast+

lemmas cinvI_defs = cinv_def main_ok_def occupants_def

lemma cinv_create:
  assumes inv: "cinv N s" and pc: "main_pc s = Create i" and st: "main_step N False s = Some s'"
  shows "cinv N s'"
proof -
  note m = cinvD(6) [OF inv pc]
  have sm: "sem s + occupants s = 1" "printed s = None" using cinvD(1,10) [OF inv] pc by simp_all
  note ok = cinvD(3,4) [OF inv]
  have fr: "occ (tpc (threads s 1)) = 0" "added (threads s 1) = 0" using fresh_thread [OF _ ok(2)] m by simp_all
  have s': "s' = (set_thread i \<lparr>tpc = Loop, ti = 0, ttmp = 0\<rparr> s)\<lparr>main_pc := (if i = 0 then Create 1 else Join 0)\<rparr>"
    using st pc by (simp add: main_step_def)
  show ?thesis
  proof (cases "i = 0")
    case True
    then have "occ (tpc (threads s 0)) = 0" "added (threads s 0) = 0" using fresh_thread [OF _ ok(1)] m by simp_all
    then show ?thesis
      using True sm ok m fr cinvD(2) [OF inv] by (simp add: s' set_thread_def cinvI_defs)
  next
    case False
    then have "i = 1" using m by simp
    then show ?thesis
      using sm ok m fr cinvD(2) [OF inv] by (simp add: s' set_thread_def cinvI_defs)
  qed
qed

lemma cinv_exit:
  assumes inv: "cinv N s" and pc: "main_pc s = Create i \<or> main_pc s = Join i"
  shows "cinv N (s\<lparr>main_pc := Exited\<rparr>)"
proof -
  have "sem s + occupants s = 1" "printed s = None" using cinvD(1,10) [OF inv] pc by auto
  then show ?thesis using cinvD(2-4) [OF inv] by (simp add: cinvI_defs)
qed

lemma cinv_join:
  assumes inv: "cinv N s" and pc: "main_pc s = Join i" and st: "main_step N False s = Some s'"
  shows "cinv N s'"
proof -
  note m = cinvD(7) [OF inv pc]
  have sm: "sem s + occupants s = 1" "printed s = None" using cinvD(1,10) [OF inv] pc by simp_all
  have s': "s' = s\<lparr>main_pc := (if i = 0 then Join 1 else Report)\<rparr>" "tpc (threads s i) = Done"
    using st pc by (simp_all add: main_step_def split: if_splits)
  show ?thesis
  proof (cases "i = 0")
    case True
    then show ?thesis using sm m s' cinvD(2-4) [OF inv] by (simp add: cinvI_defs)
  next
    case False
    then have "i = 1" using m by simp
    then show ?thesis using sm m s' cinvD(2-4) [OF inv] by (simp add: cinvI_defs)
  qed
qed

lemma cinv_main:
  assumes inv: "cinv N s" and st: "main_step N fails s = Some s'"
  shows "cinv N s'"
proof (cases "main_pc s")
  case Init
  have "occ (tpc (threads s 0)) = 0" "occ (tpc (threads s 1)) = 0" "printed s = None"
    using cinvD(5,10) [OF inv] Init by (simp_all add: occ_def critical_def)
  then show ?thesis
    using st Init cinvD(2-5) [OF inv] by (cases fails) (auto simp: main_step_def cinvI_defs)
next
  case (Create i)
  with assms show ?thesis by (cases fails) (auto simp: main_step_def intro: cinv_create cinv_exit)
next
  case (Join i)
  with assms show ?thesis
    by (cases fails) (auto simp: main_step_def intro: cinv_join cinv_exit split: if_splits)
next
  case Report
  note d = cinvD(8) [OF inv disjI1, OF Report]
  then have "count s = 2 * int N" using cinvD(2-4) [OF inv] by (simp add: thread_ok_def added_def)
  moreover have "sem s + occupants s = 1" "printed s = None" using cinvD(1,10) [OF inv] Report by auto
  ultimately show ?thesis
    using st Report d cinvD(2-4) [OF inv] by (auto simp: main_step_def cinvI_defs)
qed (use st in \<open>simp_all add: main_step_def\<close>)

lemma cinv_reach: "creach N s \<Longrightarrow> cinv N s"
proof (induction rule: creach.induct)
  case start
  show ?case by (rule cinv_init)
next
  case (step s fails s')
  then show ?case by (auto elim!: cstepE intro: cinv_thread cinv_main)
qed

section \<open>Progress\<close>

definition thread_left :: "nat \<Rightarrow> thread \<Rightarrow> nat" where
  "thread_left N x =
     (case tpc x of
        Unborn \<Rightarrow> 6 * N + 1 | Loop \<Rightarrow> 6 * (N - ti x) + 1 | Wait \<Rightarrow> 6 * (N - ti x)
      | Load \<Rightarrow> 6 * (N - ti x) - 1 | Incr \<Rightarrow> 6 * (N - ti x) - 2 | Store \<Rightarrow> 6 * (N - ti x) - 3
      | Post \<Rightarrow> 6 * (N - ti x) - 4 | Done \<Rightarrow> 0)"

definition main_left :: "mpc \<Rightarrow> nat" where
  "main_left p =
     (case p of Init \<Rightarrow> 6 | Create i \<Rightarrow> 5 - i | Join i \<Rightarrow> 3 - i | Report \<Rightarrow> 1 | Finished \<Rightarrow> 0 | Exited \<Rightarrow> 0)"

text \<open>An upper bound on the number of steps that remain.\<close>

definition steps_left :: "nat \<Rightarrow> cstate \<Rightarrow> nat" where
  "steps_left N s =
     thread_left N (threads s 0) + thread_left N (threads s 1) + main_left (main_pc s)"

lemma thread_left_less:
  assumes "thread_step N t s = Some s'" and "thread_ok N s (threads s t)"
  shows "thread_left N (threads s' t) < thread_left N (threads s t)"
  using assms
  by (cases "tpc (threads s t)")
    (auto simp: thread_step_defs thread_ok_def critical_def thread_left_def split: if_splits)

lemma thread_left_step:
  assumes "cinv N s" and "t < 2" and "thread_step N t s = Some s'"
  shows "steps_left N s' < steps_left N s"
proof -
  obtain u where u: "u \<noteq> t" "t = 0 \<and> u = 1 \<or> t = 1 \<and> u = 0"
    using assms(2) by (auto simp: two_cases)
  have ok: "thread_ok N s (threads s t)" using assms(1,2) by (auto simp: cinv_def two_cases)
  show ?thesis
    using thread_left_less [OF assms(3) ok] thread_step_frame(4) [OF assms(3) u(1)]
      thread_step_frame(5) [OF assms(3)] u(2)
    by (auto simp: steps_left_def)
qed

lemma thread_left_born:
  "tpc x = Unborn \<Longrightarrow> thread_left N x = thread_left N \<lparr>tpc = Loop, ti = 0, ttmp = 0\<rparr>"
  by (simp add: thread_left_def)

lemma main_left_step:
  assumes "cinv N s" and "main_step N fails s = Some s'"
  shows "steps_left N s' < steps_left N s"
proof (cases "main_pc s")
  case (Create i)
  then have "i = 0 \<or> i = 1" "tpc (threads s 1) = Unborn" "i = 0 \<longrightarrow> tpc (threads s 0) = Unborn"
    using cinvD(6) [OF assms(1)] by auto
  with Create assms(2) show ?thesis
    by (auto simp: main_step_def set_thread_def steps_left_def main_left_def thread_left_born split: if_splits)
next
  case (Join i)
  then have "i = 0 \<or> i = 1" using cinvD(7) [OF assms(1)] by auto
  with Join assms(2) show ?thesis
    by (auto simp: main_step_def steps_left_def main_left_def split: if_splits)
qed (use assms(2) in \<open>auto simp: main_step_def steps_left_def main_left_def\<close>)

lemma thread_can_move:
  assumes "tpc (threads s t) \<notin> {Unborn, Wait, Done} \<or> tpc (threads s t) = Wait \<and> 0 < sem s"
  shows "\<exists>s'. thread_step N t s = Some s'"
  using assms by (cases "tpc (threads s t)") (auto simp: thread_step_def Let_def)

lemma main_moves: "main_step N False s = Some s' \<Longrightarrow> \<exists>s'. cstep N False s s'"
  by (blast intro: cstep.main)

lemma main_step_not_join:
  assumes "main_pc s \<noteq> Finished" and "main_pc s \<noteq> Exited" and "\<forall>i. main_pc s \<noteq> Join i"
  shows "main_step N False s \<noteq> None"
  using assms by (cases "main_pc s") (simp_all add: main_step_def)

lemma joined_can_move:
  assumes inv: "cinv N s" and pc: "main_pc s = Join i" and nd: "tpc (threads s i) \<noteq> Done"
  shows "\<exists>t < 2. tpc (threads s t) \<notin> {Unborn, Wait, Done} \<or> tpc (threads s t) = Wait \<and> 0 < sem s"
proof (cases "sem s = 0")
  case True
  then have "occupants s \<noteq> 0" using cinvD(1) [OF inv] pc by simp
  then have "critical (tpc (threads s 0)) \<or> critical (tpc (threads s 1))"
    by (rule contrapos_np) (simp add: occupants_def occ_def)
  then have "tpc (threads s 0) \<notin> {Unborn, Wait, Done} \<or> tpc (threads s 1) \<notin> {Unborn, Wait, Done}"
    by (auto simp: critical_def)
  moreover have "(0::nat) < 2" "(1::nat) < 2" by simp_all
  ultimately show ?thesis by blast
next
  case False
  note m = cinvD(7) [OF inv pc]
  have "i < 2" using m by (rule conjunct1)
  moreover have "tpc (threads s i) \<noteq> Unborn"
  proof (cases "i = 0")
    case True
    then show ?thesis using m by simp
  next
    case False
    then have "i = 1" using m by linarith
    then show ?thesis using m by simp
  qed
  moreover have "tpc (threads s i) \<notin> {Unborn, Wait, Done} \<or> tpc (threads s i) = Wait \<and> 0 < sem s"
    using False nd calculation(2) by simp
  ultimately show ?thesis by blast
qed

lemma can_move:
  assumes inv: "cinv N s" and pc: "main_pc s \<noteq> Finished" "main_pc s \<noteq> Exited"
  shows "\<exists>s'. cstep N False s s'"
proof (cases "main_step N False s")
  case (Some s')
  then show ?thesis by (rule main_moves)
next
  case None
  with main_step_not_join [OF pc, of N] obtain i where i: "main_pc s = Join i" by blast
  with None have "tpc (threads s i) \<noteq> Done" by (auto simp: main_step_def)
  with joined_can_move [OF inv i] obtain t where t: "t < 2" "\<exists>s'. thread_step N t s = Some s'"
    using thread_can_move by blast
  then show ?thesis using pc(2) by (blast intro: cstep.thread)
qed

section \<open>Properties\<close>

text \<open>
  C26. The threads exclude each other and no increment is lost. In every reachable state at
  most one of the two threads is between \<open>sem_wait\<close> and \<open>sem_post\<close>, the counter lies
  between 0 and \<open>2 * N\<close>, and when \<open>main\<close> prints, it prints the message for the complete
  count with the value \<open>2 * N\<close>, in every interleaving.
\<close>

theorem cthread_mutual_exclusion_and_count:
  assumes "creach N s"
  shows "\<not> (critical (tpc (threads s 0)) \<and> critical (tpc (threads s 1))) \<and>
    0 \<le> count s \<and> count s \<le> 2 * int N \<and>
    (main_pc s = Finished \<longrightarrow> printed s = Some (False, 2 * int N)) \<and>
    (\<forall>o'. printed s = Some o' \<longrightarrow> o' = (False, 2 * int N))"
proof -
  have inv: "cinv N s" using assms by (rule cinv_reach)
  have "added x \<le> N" if "thread_ok N s x" for x
    using that by (cases "tpc x") (auto simp: thread_ok_def added_def critical_def)
  then have "added (threads s 0) \<le> N" "added (threads s 1) \<le> N" using inv by (auto simp: cinv_def)
  moreover note cinv_exclusion [OF inv]
  moreover have "main_pc s = Finished \<longrightarrow> printed s = Some (False, 2 * int N)"
    using inv by (auto simp: cinv_def main_ok_def)
  moreover have "main_pc s \<noteq> Finished \<longrightarrow> printed s = None"
    using inv unfolding cinv_def main_ok_def by blast
  ultimately show ?thesis using inv by (auto simp: cinv_def)
qed

theorem cthread_mutual_exclusion_and_count_witness:
  "creach cthread_N init_state \<and> count init_state \<le> 2 * int cthread_N"
  using cthread_mutual_exclusion_and_count [OF creach.start, of cthread_N] creach.start by blast

text \<open>
  C27. The program always ends. From every reachable state that is not final some step is
  possible even when no library call fails, so there is no deadlock, and every step, of
  any thread and with any outcome, lowers the bound on the remaining steps, so every
  schedule ends, with the message printed or with a failed thread call.
\<close>

theorem cthread_always_ends:
  assumes "creach N s"
  shows "(main_pc s \<noteq> Finished \<and> main_pc s \<noteq> Exited \<longrightarrow> (\<exists>s'. cstep N False s s')) \<and>
    (\<forall>fails s'. cstep N fails s s' \<longrightarrow> steps_left N s' < steps_left N s)"
  using can_move [OF cinv_reach [OF assms]] thread_left_step [OF cinv_reach [OF assms]]
    main_left_step [OF cinv_reach [OF assms]]
  by (auto elim!: cstepE)

theorem cthread_always_ends_witness:
  "(\<exists>s'. cstep cthread_N False init_state s') \<and> steps_left cthread_N init_state = 12000008"
  using cthread_always_ends [OF creach.start, of cthread_N]
  by (simp add: init_state_def steps_left_def thread_left_def main_left_def cthread_N_def)

section \<open>Executions\<close>

text \<open>
  A whole execution: it goes on as long as any step is possible, in any order. \<open>fs n\<close> says whether
  the library call made at time \<open>n\<close>, if there is one, fails.
\<close>

definition execution :: "nat \<Rightarrow> (nat \<Rightarrow> bool) \<Rightarrow> (nat \<Rightarrow> cstate) \<Rightarrow> bool" where
  "execution N fs f \<longleftrightarrow> f 0 = init_state \<and>
     (\<forall>n. cstep N (fs n) (f n) (f (Suc n)) \<or> ((\<nexists>fails s'. cstep N fails (f n) s') \<and> f (Suc n) = f n))"

text \<open>\<open>main\<close> ends early only after one of its calls failed, and no step follows either end.\<close>

abbreviation ended :: "cstate \<Rightarrow> bool" where
  "ended s \<equiv> main_pc s = Finished \<or> main_pc s = Exited"

lemma main_exits:
  "main_step N fails s = Some s' \<Longrightarrow> main_pc s' = Exited \<Longrightarrow> fails"
  by (cases "main_pc s") (auto simp: main_step_def split: if_splits)

lemma execution_reach: "execution N fs f \<Longrightarrow> creach N (f n)"
proof (induction n)
  case 0
  then show ?case by (simp add: execution_def creach.start)
next
  case (Suc n)
  then show ?case unfolding execution_def by (metis creach.step)
qed

lemma execution_inv: "execution N fs f \<Longrightarrow> cinv N (f n)"
  by (rule cinv_reach [OF execution_reach])

lemma execution_exited:
  assumes "execution N fs f" and "main_pc (f n) = Exited"
  shows "\<exists>m < n. fs m \<and> main_step N True (f m) = Some (f (Suc m)) \<and> main_pc (f (Suc m)) = Exited"
  using assms(2)
proof (induction n)
  case 0
  then show ?case using assms(1) by (simp add: execution_def init_state_def)
next
  case (Suc n)
  show ?case
  proof (cases "main_pc (f n) = Exited")
    case True
    then show ?thesis using Suc.IH less_SucI by blast
  next
    case False
    then have "cstep N (fs n) (f n) (f (Suc n))" using assms(1) Suc.prems unfolding execution_def by metis
    then consider "main_step N (fs n) (f n) = Some (f (Suc n))" | t where "thread_step N t (f n) = Some (f (Suc n))"
      by (auto elim: cstepE)
    then show ?thesis
    proof cases
      case 1
      then have "fs n" using main_exits Suc.prems by blast
      then show ?thesis using 1 Suc.prems by auto
    next
      case 2
      then show ?thesis using thread_step_frame(5) Suc.prems False by metis
    qed
  qed
qed

lemma ended_stops:
  assumes "cinv N s" and "ended s"
  shows "\<not> cstep N fails s s'"
proof -
  have "main_step N fails s = None" using assms(2) by (auto simp: main_step_def)
  moreover have "thread_step N t s = None" if "main_pc s = Finished" "t < 2" for t
    using cinvD(8) [OF assms(1)] that by (auto simp: two_cases thread_step_def Let_def)
  ultimately show ?thesis using assms(2) by (auto elim!: cstepE)
qed

lemma execution_ended:
  assumes "execution N fs f" and "ended (f n)" and "n \<le> m"
  shows "f m = f n"
  using assms(3)
proof (induction m rule: dec_induct)
  case (step m)
  then have "ended (f m)" using assms(2) by simp
  from ended_stops [OF execution_inv [OF assms(1)] this] have "f (Suc m) = f m"
    using assms(1) unfolding execution_def by metis
  then show ?case using step by simp
qed simp

lemma execution_steps:
  assumes "execution N fs f" and "\<forall>m < n. \<not> ended (f m)"
  shows "steps_left N (f n) + n \<le> steps_left N init_state"
  using assms(2)
proof (induction n)
  case 0
  then show ?case using assms(1) by (simp add: execution_def)
next
  case (Suc n)
  have inv: "cinv N (f n)" by (rule execution_inv [OF assms(1)])
  have "\<exists>s'. cstep N False (f n) s'" using can_move [OF inv] Suc.prems by simp
  then have "cstep N (fs n) (f n) (f (Suc n))" using assms(1) unfolding execution_def by metis
  then have "steps_left N (f (Suc n)) < steps_left N (f n)"
    using thread_left_step [OF inv] main_left_step [OF inv] by (auto elim!: cstepE)
  moreover have "steps_left N (f n) + n \<le> steps_left N init_state" using Suc by simp
  ultimately show ?case by simp
qed

lemma execution_ends:
  assumes "execution N fs f"
  shows "\<exists>n \<le> 12 * N + 8. ended (f n)"
proof (rule ccontr)
  assume "\<not> ?thesis"
  then have "\<forall>m < 12 * N + 9. \<not> ended (f m)" by auto
  from execution_steps [OF assms this] show False
    by (simp add: steps_left_def thread_left_def main_left_def init_state_def)
qed

text \<open>A scheduler that prefers \<open>main\<close>, then the first thread.\<close>

definition sched :: "nat \<Rightarrow> cstate \<Rightarrow> cstate" where
  "sched N s =
     (case main_step N False s of Some s' \<Rightarrow> s' | None \<Rightarrow>
      if main_pc s = Exited then s else
      case thread_step N 0 s of Some s' \<Rightarrow> s' | None \<Rightarrow>
      case thread_step N 1 s of Some s' \<Rightarrow> s' | None \<Rightarrow> s)"

lemma sched_step:
  assumes inv: "cinv N s"
  shows "cstep N False s (sched N s) \<or> ((\<nexists>fails s'. cstep N fails s s') \<and> sched N s = s)"
proof (cases "ended s")
  case True
  note no = ended_stops [OF inv True]
  then have "main_step N False s = None" using cstep.main by (metis option.exhaust)
  moreover have "thread_step N t s = None" if "main_pc s \<noteq> Exited" "t < 2" for t
    using no cstep.thread [OF that(2,1)] by (metis option.exhaust)
  ultimately have "sched N s = s" by (simp add: sched_def)
  then show ?thesis using no by blast
next
  case False
  then obtain s' where st: "cstep N False s s'" using can_move [OF inv] by blast
  have "cstep N False s (sched N s)"
  proof (cases "main_step N False s")
    case (Some s1)
    then show ?thesis by (auto simp: sched_def intro: cstep.main)
  next
    case None
    then obtain t where "t < 2" "thread_step N t s = Some s'" using st by (auto elim: cstepE)
    then show ?thesis
      using None False by (cases "thread_step N 0 s") (auto simp: sched_def two_cases intro: cstep.thread)
  qed
  then show ?thesis by blast
qed

lemma sched_execution: "execution N (\<lambda>_. False) (\<lambda>n. (sched N ^^ n) init_state)"
proof -
  have "cinv N ((sched N ^^ n) init_state)" for n
  proof (induction n)
    case 0
    then show ?case by (simp add: cinv_init)
  next
    case (Suc n)
    then show ?case using sched_step [OF Suc] by (auto elim!: cstepE intro: cinv_thread cinv_main)
  qed
  then show ?thesis using sched_step unfolding execution_def by simp
qed

section \<open>Eventually\<close>

text \<open>
  C28. The count is printed in the end. However the steps of \<open>main\<close> and of the threads are
  scheduled, as long as some enabled step is taken: when no library call fails, the program comes,
  within \<open>12 * N + 8\<close> steps, to the point where \<open>main\<close> has printed the message for the complete count
  with \<open>2 * N\<close>, and stays there. It ends without that message only when a call of \<open>main\<close> failed,
  in the step that ended it.
\<close>

theorem cthread_eventually_prints:
  assumes "execution N fs f"
  shows "((\<forall>n. \<not> fs n) \<longrightarrow>
      (\<exists>n \<le> 12 * N + 8. \<forall>m \<ge> n. main_pc (f m) = Finished \<and> printed (f m) = Some (False, 2 * int N))) \<and>
    (\<exists>n \<le> 12 * N + 8. \<forall>m \<ge> n. f m = f n \<and>
      (printed (f n) \<noteq> Some (False, 2 * int N) \<longrightarrow>
         printed (f n) = None \<and> (\<exists>k < n. fs k \<and> main_step N True (f k) = Some (f n))))"
proof -
  obtain n where n: "n \<le> 12 * N + 8" "ended (f n)" using execution_ends [OF assms] by blast
  note stay = execution_ended [OF assms n(2)]
  have fin: "printed (f n) = Some (False, 2 * int N)" if "main_pc (f n) = Finished"
    using cinvD(9) [OF execution_inv [OF assms]] that by blast
  have early: "printed (f n) = None \<and> (\<exists>k < n. fs k \<and> main_step N True (f k) = Some (f n))" if ex: "main_pc (f n) = Exited"
  proof -
    obtain k where k: "k < n" "fs k" "main_step N True (f k) = Some (f (Suc k))" "main_pc (f (Suc k)) = Exited"
      using execution_exited [OF assms ex] by blast
    moreover have "f n = f (Suc k)" using execution_ended [OF assms, of "Suc k" n] k by simp
    moreover have "printed (f n) = None" using cinvD(10) [OF execution_inv [OF assms], of n] ex by simp
    ultimately show ?thesis by auto
  qed
  have "main_pc (f n) = Finished" if "\<forall>k. \<not> fs k" using n(2) early that by blast
  then show ?thesis using n stay fin early by metis
qed

theorem cthread_eventually_prints_witness:
  "\<exists>n \<le> 12000008. \<forall>m \<ge> n. main_pc ((sched cthread_N ^^ m) init_state) = Finished \<and>
     printed ((sched cthread_N ^^ m) init_state) = Some (False, 2000000)"
  using cthread_eventually_prints [OF sched_execution, of cthread_N] by (simp add: cthread_N_def)

end
