(* ===== verification/C_Strings.thy ===== *)
theory C_Strings
  imports Prelude
begin

text \<open>
  The range of \<open>int\<close>, and decimal numbers as C text, shared by the sorting programs, the banker's
  algorithm and the dice driver: the digits \<open>atoi\<close> reads and the conversion \<open>%d\<close> of \<open>printf\<close>.
\<close>

definition INT_MAX :: int where "INT_MAX = 2147483647"

definition in_int :: "int \<Rightarrow> bool" where
  "in_int v \<longleftrightarrow> - INT_MAX - 1 \<le> v \<and> v \<le> INT_MAX"

abbreviation newline :: char where "newline \<equiv> CHR 0x0A"

definition is_space :: "char \<Rightarrow> bool" where
  "is_space c \<longleftrightarrow> c = CHR '' '' \<or> c \<in> {CHR 0x09, CHR 0x0A, CHR 0x0B, CHR 0x0C, CHR 0x0D}"

definition digit_val :: "char \<Rightarrow> int" where
  "digit_val c = of_char c - 48"

definition is_digit :: "char \<Rightarrow> bool" where
  "is_digit c \<longleftrightarrow> 0 \<le> digit_val c \<and> digit_val c \<le> 9"

fun digits_val :: "int \<Rightarrow> string \<Rightarrow> int" where
  "digits_val v [] = v"
| "digits_val v (c # s) = (if is_digit c then digits_val (10 * v + digit_val c) s else v)"

text \<open>The conversion \<open>%d\<close>.\<close>

definition digit_char :: "nat \<Rightarrow> char" where
  "digit_char n = char_of (n + 48)"

fun show_nat :: "nat \<Rightarrow> string" where
  "show_nat n = (if n < 10 then [digit_char n] else show_nat (n div 10) @ [digit_char (n mod 10)])"

declare show_nat.simps [simp del]

definition show_int :: "int \<Rightarrow> string" where
  "show_int v = (if v < 0 then CHR ''-'' # show_nat (nat (- v)) else show_nat (nat v))"

section \<open>The digits read back\<close>

lemma digit_char_val [simp]: "n < 10 \<Longrightarrow> digit_val (digit_char n) = int n"
proof -
  assume "n < 10"
  then have "int (of_char (char_of (n + 48))) = int n + 48" by simp
  then show ?thesis by (simp only: digit_val_def digit_char_def of_nat_of_char)
qed

lemma digit_char_props:
  assumes "n < 10"
  shows "is_digit (digit_char n)" "digit_char n \<noteq> CHR ''-''" "digit_char n \<noteq> CHR ''+''" "digit_char n \<noteq> CHR ''=''"
    "digit_char n \<noteq> CHR '' ''" "digit_char n \<noteq> newline" "digit_char n \<noteq> CHR 0x00" "\<not> is_space (digit_char n)"
proof -
  show d: "is_digit (digit_char n)" using assms by (simp add: is_digit_def)
  then show "digit_char n \<noteq> CHR ''-''" "digit_char n \<noteq> CHR ''+''" "digit_char n \<noteq> CHR ''=''"
    "digit_char n \<noteq> CHR '' ''" "digit_char n \<noteq> newline" "digit_char n \<noteq> CHR 0x00" "\<not> is_space (digit_char n)"
    by (auto simp: is_digit_def digit_val_def is_space_def)
qed

lemma show_nat_digits: "c \<in> set (show_nat n) \<Longrightarrow> \<exists>d < 10. c = digit_char d"
proof (induction n rule: show_nat.induct)
  case (1 n)
  show ?case
  proof (cases "n < 10")
    case True
    then show ?thesis using 1(2) by (subst (asm) show_nat.simps) auto
  next
    case False
    then have "c \<in> set (show_nat (n div 10)) \<or> c = digit_char (n mod 10)"
      using 1(2) by (subst (asm) show_nat.simps) auto
    then show ?thesis using 1(1) [OF False] by (metis mod_less_divisor zero_less_numeral)
  qed
qed

lemma show_nat_nonempty [simp]: "show_nat n \<noteq> []"
  by (subst show_nat.simps) simp

lemma digits_val_snoc: "\<forall>c \<in> set s. is_digit c \<Longrightarrow> is_digit d \<Longrightarrow> digits_val v (s @ [d]) = 10 * digits_val v s + digit_val d"
  by (induction s arbitrary: v) auto

lemma digits_val_show: "digits_val 0 (show_nat n) = int n"
proof (induction n rule: show_nat.induct)
  case (1 n)
  show ?case
  proof (cases "n < 10")
    case True
    then show ?thesis by (subst show_nat.simps) (simp add: digit_char_props)
  next
    case False
    have "\<forall>c \<in> set (show_nat (n div 10)). is_digit c" using show_nat_digits digit_char_props(1) by blast
    then have "digits_val 0 (show_nat (n div 10) @ [digit_char (n mod 10)]) =
        10 * digits_val 0 (show_nat (n div 10)) + digit_val (digit_char (n mod 10))"
      by (intro digits_val_snoc) (simp_all add: digit_char_props)
    also have "\<dots> = int (10 * (n div 10) + n mod 10)"
      unfolding 1 [OF False] digit_char_val [OF mod_less_divisor [OF zero_less_numeral]]
        of_nat_add of_nat_mult of_nat_numeral ..
    also have "\<dots> = int n" by (simp only: mult_div_mod_eq)
    finally show ?thesis using False by (subst show_nat.simps) simp
  qed
qed

lemma show_int_chars:
  assumes "c \<in> set (show_int v)"
  shows "c = CHR ''-'' \<or> (\<exists>d < 10. c = digit_char d)"
  using assms show_nat_digits by (auto simp: show_int_def split: if_splits)

lemma show_int_nonempty [simp]: "show_int v \<noteq> []"
  by (simp add: show_int_def)

end
