(* ===== verification/Banker.thy ===== *)
theory Banker
  imports C_Strings
begin

text \<open>
  The banker's algorithm for several resources (\<open>src/Homework/h5/banker.cpp\<close>). A process whose
  requests can be met gets them, runs to its end and gives back all it may hold; the program does so
  until every process has ended or none can go on. It is shown to print that all processes end
  safely exactly when some order lets every process run to its end.

  The global arrays are functions of their indices, which the loops keep in bounds; they are the
  arguments of \<open>banker_main\<close>, and \<open>banker_M\<close>, \<open>banker_R\<close> and \<open>banker_A\<close> are the values in the
  file. Additions and subtractions that do not fit \<open>int\<close> are \<open>Banker_overflow\<close>.
\<close>

section \<open>The program\<close>

datatype banker_stop = Banker_overflow

definition PS_CNT :: nat where "PS_CNT = 5"
definition RS_CNT :: nat where "RS_CNT = 4"

text \<open>The arrays have five rows, of which the initializers give four; the last is zero.\<close>

definition rows :: "int list list \<Rightarrow> nat \<Rightarrow> nat \<Rightarrow> int" where
  "rows xs i j = (if i < length xs then xs ! i ! j else 0)"

definition banker_M :: "nat \<Rightarrow> nat \<Rightarrow> int" where
  "banker_M = rows [[7, 5, 2, 4], [3, 3, 2, 3], [6, 2, 3, 4], [2, 9, 4, 2]]"

definition banker_R :: "nat \<Rightarrow> nat \<Rightarrow> int" where
  "banker_R = rows [[6, 4, 1, 3], [1, 3, 0, 2], [3, 1, 1, 2], [1, 7, 0, 0]]"

definition banker_A :: "nat \<Rightarrow> int" where
  "banker_A j = [3, 2, 1, 3] ! j"

definition S_RUNNING :: int where "S_RUNNING = 1"
definition S_SUCCESS :: int where "S_SUCCESS = 2"
definition S_FAIL :: int where "S_FAIL = 0"
definition UNREACHABLE :: int where "UNREACHABLE = -1"

text \<open>The variables that change: the global arrays \<open>R\<close> and \<open>A\<close>, and \<open>remainingPs\<close>.\<close>

record bank =
  requests :: "nat \<Rightarrow> nat \<Rightarrow> int"
  available :: "nat \<Rightarrow> int"
  remainingPs :: int

definition isSatisfy :: "(nat \<Rightarrow> int) \<Rightarrow> (nat \<Rightarrow> int) \<Rightarrow> bool" where
  "isSatisfy A r = fold (\<lambda>j ok. if A j < r j then False else ok) [0..<RS_CNT] True"

text \<open>The loops \<open>for(int j=0;j<RS_CNT;j++) A[j]-=R[i][j]\<close> and \<open>A[j]+=M[i][j]\<close>.\<close>

fun update_each :: "(int \<Rightarrow> int \<Rightarrow> int) \<Rightarrow> (nat \<Rightarrow> int) \<Rightarrow> nat list \<Rightarrow> (nat \<Rightarrow> int) \<Rightarrow> banker_stop + (nat \<Rightarrow> int)" where
  "update_each f r [] A = Inr A"
| "update_each f r (j # js) A =
     (let v = f (A j) (r j) in if in_int v then update_each f r js (A(j := v)) else Inl Banker_overflow)"

definition try_process :: "(nat \<Rightarrow> nat \<Rightarrow> int) \<Rightarrow> nat \<Rightarrow> bool \<times> bank \<Rightarrow> banker_stop + bool \<times> bank" where
  "try_process M i = (\<lambda>(isFound, s).
     if requests s i 0 = UNREACHABLE then Inr (isFound, s)
     else if isSatisfy (available s) (requests s i)
     then bindE (update_each (-) (requests s i) [0..<RS_CNT] (available s)) (\<lambda>A.
          bindE (update_each (+) (M i) [0..<RS_CNT] A) (\<lambda>A.
            Inr (True, s\<lparr>available := A, requests := (requests s)(i := (requests s i)(0 := UNREACHABLE)),
                         remainingPs := remainingPs s - 1\<rparr>)))
     else Inr (isFound, s))"

fun try_all :: "(nat \<Rightarrow> nat \<Rightarrow> int) \<Rightarrow> nat list \<Rightarrow> bool \<times> bank \<Rightarrow> banker_stop + bool \<times> bank" where
  "try_all M [] fs = Inr fs"
| "try_all M (i # is) fs = bindE (try_process M i fs) (try_all M is)"

text \<open>
  The outer loop. A turn that finds a process leaves one fewer to run, and a turn that finds none
  ends the loop.
\<close>

definition to_run :: "bank \<Rightarrow> nat set" where
  "to_run s = {i. i < PS_CNT \<and> requests s i 0 \<noteq> UNREACHABLE}"

lemma finite_to_run [simp]: "finite (to_run s)"
  by (simp add: to_run_def)

lemma try_process_to_run:
  assumes "try_process M i (b, s) = Inr (b', s')" and "i < PS_CNT"
  shows "b' = b \<and> s' = s \<or> b' \<and> to_run s' \<subset> to_run s"
proof (cases "requests s i 0 \<noteq> UNREACHABLE \<and> isSatisfy (available s) (requests s i)")
  case False
  then show ?thesis using assms(1) by (auto simp: try_process_def split: if_splits)
next
  case True
  then have b': "b'" and r: "requests s' = (requests s)(i := (requests s i)(0 := UNREACHABLE))"
    using assms(1) by (auto simp: try_process_def bindE_convs)
  have "to_run s' = to_run s - {i}" "i \<in> to_run s" using True assms(2) by (auto simp: to_run_def r split: if_splits)
  then show ?thesis using b' by blast
qed

lemma try_all_to_run:
  assumes "try_all M is (b, s) = Inr (b', s')" and "\<forall>i \<in> set is. i < PS_CNT"
  shows "to_run s' \<subseteq> to_run s \<and> (b' \<longrightarrow> b \<or> to_run s' \<subset> to_run s)"
  using assms
proof (induction "is" arbitrary: b s)
  case (Cons i "is")
  then obtain b1 s1 where s1: "try_process M i (b, s) = Inr (b1, s1)" "try_all M is (b1, s1) = Inr (b', s')"
    by (auto simp: bindE_convs)
  have "b1 = b \<and> s1 = s \<or> b1 \<and> to_run s1 \<subset> to_run s" using try_process_to_run [OF s1(1)] Cons.prems(2) by simp
  moreover have "to_run s' \<subseteq> to_run s1 \<and> (b' \<longrightarrow> b1 \<or> to_run s' \<subset> to_run s1)"
    using Cons.IH [OF s1(2)] Cons.prems(2) by simp
  ultimately show ?case by blast
qed simp

function banker_loop :: "(nat \<Rightarrow> nat \<Rightarrow> int) \<Rightarrow> int \<Rightarrow> bank \<Rightarrow> banker_stop + int \<times> bank" where
  "banker_loop M exitStatus s =
     (if exitStatus = S_RUNNING
      then bindE (try_all M [0..<PS_CNT] (False, s)) (\<lambda>(isFound, s).
        let exitStatus = (if \<not> isFound then S_FAIL else exitStatus);
            exitStatus = (if remainingPs s \<le> 0 then S_SUCCESS else exitStatus)
        in banker_loop M exitStatus s)
      else Inr (exitStatus, s))"
  by auto

termination
proof (relation "measure (\<lambda>(M, st, s). if st = S_RUNNING then Suc (card (to_run s)) else 0)")
  fix M st s x found and s' :: bank and st' st''
  assume "st = S_RUNNING" "try_all M [0..<PS_CNT] (False, s) = Inr x" "(found, s') = x"
    and st: "st' = (if \<not> found then S_FAIL else st)" "st'' = (if remainingPs s' \<le> 0 then S_SUCCESS else st')"
  then have "found \<longrightarrow> to_run s' \<subset> to_run s" using try_all_to_run [of M "[0..<PS_CNT]" False s found s'] by auto
  then have "found \<longrightarrow> card (to_run s') < card (to_run s)" using psubset_card_mono [OF finite_to_run] by blast
  then show "((M, st'', s'), (M, st, s)) \<in> measure (\<lambda>(M, st, s). if st = S_RUNNING then Suc (card (to_run s)) else 0)"
    using \<open>st = S_RUNNING\<close> unfolding st by (auto simp: S_FAIL_def S_RUNNING_def S_SUCCESS_def)
qed simp

declare banker_loop.simps [simp del]

text \<open>What \<open>main\<close> prints and returns.\<close>

definition banker_main :: "(nat \<Rightarrow> nat \<Rightarrow> int) \<Rightarrow> (nat \<Rightarrow> nat \<Rightarrow> int) \<Rightarrow> (nat \<Rightarrow> int) \<Rightarrow> banker_stop + string \<times> int" where
  "banker_main M R A =
     bindE (banker_loop M S_RUNNING \<lparr>requests = R, available = A, remainingPs = int PS_CNT\<rparr>) (\<lambda>(exitStatus, s).
       if exitStatus = S_SUCCESS then Inr (''all recources released, processes terminated safely.'' @ [newline], 0)
       else if exitStatus = S_FAIL then Inr (''the state is unsafe, and the request should be denied.'' @ [newline], 0)
       else Inr (''system error.'' @ [newline], -1))"

section \<open>Safe states\<close>

text \<open>
  An order in which the processes can run one after the other, each given what it requests
  when its turn comes. A state is safe when there is one for all processes.
\<close>

fun finish_order :: "(nat \<Rightarrow> nat \<Rightarrow> int) \<Rightarrow> (nat \<Rightarrow> nat \<Rightarrow> int) \<Rightarrow> (nat \<Rightarrow> int) \<Rightarrow> nat list \<Rightarrow> bool" where
  "finish_order M R A [] = True"
| "finish_order M R A (i # is) =
     ((\<forall>j < RS_CNT. R i j \<le> A j) \<and> finish_order M R (\<lambda>j. A j - R i j + M i j) is)"

definition safe_state :: "(nat \<Rightarrow> nat \<Rightarrow> int) \<Rightarrow> (nat \<Rightarrow> nat \<Rightarrow> int) \<Rightarrow> (nat \<Rightarrow> int) \<Rightarrow> bool" where
  "safe_state M R A \<longleftrightarrow> (\<exists>is. distinct is \<and> set is = {..<PS_CNT} \<and> finish_order M R A is)"

text \<open>Requests within the maximum, and not more resources in all than \<open>int\<close> can count.\<close>

definition claims_ok :: "(nat \<Rightarrow> nat \<Rightarrow> int) \<Rightarrow> (nat \<Rightarrow> nat \<Rightarrow> int) \<Rightarrow> (nat \<Rightarrow> int) \<Rightarrow> bool" where
  "claims_ok M R A \<longleftrightarrow> (\<forall>i < PS_CNT. \<forall>j < RS_CNT. 0 \<le> R i j \<and> R i j \<le> M i j) \<and>
     (\<forall>j < RS_CNT. 0 \<le> A j \<and> A j + (\<Sum>i < PS_CNT. M i j) \<le> INT_MAX)"

text \<open>What is available when the processes \<open>V\<close> have ended.\<close>

definition after :: "(nat \<Rightarrow> nat \<Rightarrow> int) \<Rightarrow> (nat \<Rightarrow> nat \<Rightarrow> int) \<Rightarrow> (nat \<Rightarrow> int) \<Rightarrow> nat set \<Rightarrow> nat \<Rightarrow> int" where
  "after M R A V j = A j + (\<Sum>i \<in> V. M i j - R i j)"

definition can_run :: "(nat \<Rightarrow> nat \<Rightarrow> int) \<Rightarrow> (nat \<Rightarrow> nat \<Rightarrow> int) \<Rightarrow> (nat \<Rightarrow> int) \<Rightarrow> nat set \<Rightarrow> nat \<Rightarrow> bool" where
  "can_run M R A V i \<longleftrightarrow> (\<forall>j < RS_CNT. R i j \<le> after M R A V j)"

lemma after_insert: "finite V \<Longrightarrow> i \<notin> V \<Longrightarrow> after M R A (insert i V) j = after M R A V j - R i j + M i j"
  by (simp add: after_def)

lemma finish_order_snoc:
  "distinct (is @ [i]) \<Longrightarrow> finish_order M R A (is @ [i]) \<longleftrightarrow> finish_order M R A is \<and> can_run M R A (set is) i"
proof (induction "is" arbitrary: A)
  case Nil
  then show ?case by (simp add: can_run_def after_def)
next
  case (Cons k "is")
  have "after M R (\<lambda>j. A j - R k j + M k j) (set is) j = after M R A (set (k # is)) j" for j
    using Cons.prems by (simp add: after_def)
  then show ?case using Cons by (simp add: can_run_def)
qed

lemma finish_order_prefix: "finish_order M R A (is @ js) \<Longrightarrow> finish_order M R A is"
  by (induction "is" arbitrary: A) simp_all

lemma after_mono:
  assumes "claims_ok M R A" and "V \<subseteq> W" and "W \<subseteq> {..<PS_CNT}" and "j < RS_CNT"
  shows "after M R A V j \<le> after M R A W j"
proof -
  have "(\<Sum>i \<in> V. M i j - R i j) \<le> (\<Sum>i \<in> W. M i j - R i j)"
    using assms finite_subset [OF assms(3)] by (intro sum_mono2) (auto simp: claims_ok_def)
  then show ?thesis by (simp add: after_def)
qed

lemma after_bounds:
  assumes "claims_ok M R A" and "V \<subseteq> {..<PS_CNT}" and "j < RS_CNT"
  shows "0 \<le> after M R A V j \<and> after M R A V j \<le> INT_MAX"
proof -
  have "after M R A {} j \<le> after M R A V j" "after M R A V j \<le> after M R A {..<PS_CNT} j"
    using after_mono [OF assms(1)] assms(2,3) by blast+
  moreover have "(\<Sum>i < PS_CNT. M i j - R i j) \<le> (\<Sum>i < PS_CNT. M i j)"
    using assms(1,3) by (intro sum_mono) (auto simp: claims_ok_def)
  ultimately show ?thesis using assms(1,3) by (auto simp: after_def claims_ok_def)
qed

section \<open>The loops\<close>

lemma isSatisfy_iff: "isSatisfy A r \<longleftrightarrow> (\<forall>j < RS_CNT. r j \<le> A j)"
proof -
  have "fold (\<lambda>j ok. if A j < r j then False else ok) js b \<longleftrightarrow> b \<and> (\<forall>j \<in> set js. r j \<le> A j)" for js b
    by (induction js arbitrary: b) auto
  then show ?thesis by (auto simp: isSatisfy_def)
qed

lemma update_each_ok:
  assumes "distinct js" and "\<forall>j \<in> set js. in_int (f (A j) (r j))"
  shows "update_each f r js A = Inr (\<lambda>j. if j \<in> set js then f (A j) (r j) else A j)"
  using assms by (induction js arbitrary: A) (auto simp: Let_def fun_eq_iff)

text \<open>The processes \<open>V\<close> have ended, in an order they could run in.\<close>

definition bank_at ::
  "(nat \<Rightarrow> nat \<Rightarrow> int) \<Rightarrow> (nat \<Rightarrow> nat \<Rightarrow> int) \<Rightarrow> (nat \<Rightarrow> int) \<Rightarrow> nat set \<Rightarrow> bank \<Rightarrow> bool" where
  "bank_at M R A V s \<longleftrightarrow> V \<subseteq> {..<PS_CNT} \<and> (\<forall>j < RS_CNT. available s j = after M R A V j) \<and>
     (\<forall>i < PS_CNT. if i \<in> V then requests s i 0 = UNREACHABLE else requests s i = R i) \<and>
     remainingPs s = int PS_CNT - int (card V) \<and>
     (\<exists>is. distinct is \<and> set is = V \<and> finish_order M R A is)"

lemma try_process_at:
  assumes "claims_ok M R A" and "bank_at M R A V s" and "i < PS_CNT"
  shows "if i \<in> V \<or> \<not> can_run M R A V i then try_process M i (b, s) = Inr (b, s)
    else \<exists>s'. try_process M i (b, s) = Inr (True, s') \<and> bank_at M R A (insert i V) s'"
proof -
  note at = assms(2) [unfolded bank_at_def]
  have "0 \<le> R i 0" using assms(1,3) by (simp add: claims_ok_def RS_CNT_def)
  then have un: "R i 0 \<noteq> UNREACHABLE" by (simp add: UNREACHABLE_def)
  have req: "requests s i = R i" if "i \<notin> V" using at assms(3) that by auto
  have sat: "isSatisfy (available s) (R i) \<longleftrightarrow> can_run M R A V i" using at by (simp add: isSatisfy_iff can_run_def)
  show ?thesis
  proof (cases "i \<in> V \<or> \<not> can_run M R A V i")
    case True
    have "i \<in> V \<Longrightarrow> requests s i 0 = UNREACHABLE" using at assms(3) by auto
    then show ?thesis using True req sat by (cases "i \<in> V") (simp_all add: try_process_def)
  next
    case False
    have fin: "finite V" using at finite_subset by blast
    let ?A1 = "\<lambda>j. if j \<in> set [0..<RS_CNT] then available s j - R i j else available s j"
    let ?A2 = "\<lambda>j. if j \<in> set [0..<RS_CNT] then ?A1 j + M i j else ?A1 j"
    let ?V = "insert i V"
    have i: "?V \<subseteq> {..<PS_CNT}" using at assms(3) by blast
    have next_A: "?A2 j = after M R A ?V j" if "j < RS_CNT" for j using at that False fin by (simp add: after_insert)
    have "in_int (available s j - R i j)" if "j \<in> set [0..<RS_CNT]" for j
    proof -
      have "R i j \<le> available s j" "0 \<le> R i j" "available s j \<le> INT_MAX"
        using False at that assms(1,3) after_bounds [OF assms(1), of V j] by (auto simp: can_run_def claims_ok_def)
      then show ?thesis by (simp add: in_int_def INT_MAX_def)
    qed
    then have one: "update_each (-) (R i) [0..<RS_CNT] (available s) = Inr ?A1" by (intro update_each_ok) auto
    have "in_int (?A1 j + M i j)" if "j \<in> set [0..<RS_CNT]" for j
      using next_A [of j] after_bounds [OF assms(1) i, of j] that by (simp add: in_int_def INT_MAX_def)
    then have two: "update_each (+) (M i) [0..<RS_CNT] ?A1 = Inr ?A2" by (intro update_each_ok) auto
    let ?s = "s\<lparr>available := ?A2, requests := (requests s)(i := (requests s i)(0 := UNREACHABLE)), remainingPs := remainingPs s - 1\<rparr>"
    have run: "try_process M i (b, s) = Inr (True, ?s)" using False req un sat one two by (simp add: try_process_def)
    obtain "is" where "is": "distinct is" "set is = V" "finish_order M R A is" using at by blast
    then have "distinct (is @ [i]) \<and> set (is @ [i]) = ?V \<and> finish_order M R A (is @ [i])"
      using False finish_order_snoc by auto
    then have "\<exists>is. distinct is \<and> set is = ?V \<and> finish_order M R A is" by blast
    moreover have "\<forall>j < RS_CNT. available ?s j = after M R A ?V j" using next_A by simp
    ultimately have "bank_at M R A ?V ?s" using at i False fin unfolding bank_at_def by auto
    then show ?thesis using run False by auto
  qed
qed

lemma try_all_at:
  assumes "claims_ok M R A" and "bank_at M R A V s" and "\<forall>i \<in> set is. i < PS_CNT"
  shows "\<exists>b' W s'. try_all M is (b, s) = Inr (b', s') \<and> bank_at M R A W s' \<and> V \<subseteq> W \<and> (b' \<longleftrightarrow> b \<or> V \<noteq> W) \<and>
    (V = W \<longrightarrow> (\<forall>i \<in> set is. i \<in> V \<or> \<not> can_run M R A V i))"
  using assms(2,3)
proof (induction "is" arbitrary: b s V)
  case Nil
  then show ?case by auto
next
  case (Cons i "is")
  have i: "i < PS_CNT" "\<forall>i \<in> set is. i < PS_CNT" using Cons.prems(2) by simp_all
  note one = try_process_at [OF assms(1) Cons.prems(1) i(1), of b]
  show ?case
  proof (cases "i \<in> V \<or> \<not> can_run M R A V i")
    case True
    then show ?thesis using one Cons.IH [OF Cons.prems(1) i(2), of b] by auto
  next
    case False
    then obtain s1 where s1: "try_process M i (b, s) = Inr (True, s1)" "bank_at M R A (insert i V) s1" using one by auto
    obtain W s' where "try_all M is (True, s1) = Inr (True, s')" "bank_at M R A W s'" "insert i V \<subseteq> W"
      using Cons.IH [OF s1(2) i(2), of True] by fastforce
    then show ?thesis using s1(1) False by auto
  qed
qed

lemma bank_at_all: "bank_at M R A V s \<Longrightarrow> remainingPs s \<le> 0 \<longleftrightarrow> V = {..<PS_CNT}"
  using card_subset_eq [of "{..<PS_CNT}" V] card_mono [of "{..<PS_CNT}" V] by (auto simp: bank_at_def)

lemma banker_loop_at:
  assumes "claims_ok M R A" and "bank_at M R A V s"
  shows "\<exists>W s'. banker_loop M S_RUNNING s = Inr (if W = {..<PS_CNT} then S_SUCCESS else S_FAIL, s') \<and>
    bank_at M R A W s' \<and> (\<forall>i < PS_CNT. W = {..<PS_CNT} \<or> i \<in> W \<or> \<not> can_run M R A W i)"
  using assms(2)
proof (induction "PS_CNT - card V" arbitrary: V s rule: less_induct)
  case less
  obtain found W s1 where s1: "try_all M [0..<PS_CNT] (False, s) = Inr (found, s1)" "bank_at M R A W s1" "V \<subseteq> W"
    "found \<longleftrightarrow> V \<noteq> W" "V = W \<longrightarrow> (\<forall>i < PS_CNT. i \<in> V \<or> \<not> can_run M R A V i)"
    using try_all_at [OF assms(1) less.prems, of "[0..<PS_CNT]" False] by auto
  have W: "W \<subseteq> {..<PS_CNT}" "finite W" using s1(2) finite_subset by (auto simp: bank_at_def)
  note all = bank_at_all [OF s1(2)]
  have turn: "banker_loop M S_RUNNING s =
      banker_loop M (if W = {..<PS_CNT} then S_SUCCESS else if V = W then S_FAIL else S_RUNNING) s1"
    using s1(1,4) all by (subst banker_loop.simps) (simp add: Let_def)
  have stop: "banker_loop M st s1 = Inr (st, s1)" if "st = S_SUCCESS \<or> st = S_FAIL" for st
    using that by (subst banker_loop.simps) (auto simp: S_RUNNING_def S_SUCCESS_def S_FAIL_def)
  show ?case
  proof (cases "W = {..<PS_CNT} \<or> V = W")
    case True
    then show ?thesis using turn stop s1(2,5) by (intro exI [of _ W] exI [of _ s1]) auto
  next
    case False
    then have "card V < card W" using psubset_card_mono [OF W(2)] s1(3) by blast
    moreover have "card W < PS_CNT" using False W(1) psubset_card_mono [of "{..<PS_CNT}" W] by auto
    ultimately show ?thesis using less.hyps [OF _ s1(2)] turn False by simp
  qed
qed

text \<open>When no other process can run the state is not safe: the first of an order to be left out could run.\<close>

lemma stuck_unsafe:
  assumes "claims_ok M R A" and "W \<subset> {..<PS_CNT}" and "\<forall>i < PS_CNT. i \<in> W \<or> \<not> can_run M R A W i"
  shows "\<not> safe_state M R A"
proof
  assume "safe_state M R A"
  then obtain "is" where "is": "distinct is" "set is = {..<PS_CNT}" "finish_order M R A is" by (auto simp: safe_state_def)
  then have "\<exists>i \<in> set is. i \<notin> W" using assms(2) by blast
  then obtain as i bs where split: "is = as @ i # bs" "i \<notin> W" "\<forall>k \<in> set as. k \<in> W"
    using split_list_first_prop [of "is" "\<lambda>i. i \<notin> W"] by blast
  have i: "i < PS_CNT" "set as \<subseteq> W" using "is"(2) split by auto
  have "finish_order M R A (as @ [i])" using finish_order_prefix [of M R A "as @ [i]" bs] "is"(3) split(1) by simp
  then have "can_run M R A (set as) i" using finish_order_snoc "is"(1) split(1) by force
  moreover have "after M R A (set as) j \<le> after M R A W j" if "j < RS_CNT" for j
    using after_mono [OF assms(1) i(2) _ that] assms(2) by blast
  ultimately have "can_run M R A W i" unfolding can_run_def by (meson order_trans)
  then show False using assms(3) i(1) split(2) by blast
qed

text \<open>
  C29. The banker's algorithm decides safety. If no process requests more than its maximum and
  the resources are few enough for \<open>int\<close>, the program ends, without overflow, and prints that all
  processes end safely if some order lets every process run with what is then available, and
  that the state is unsafe if no order does.
\<close>

theorem banker_decides_safety:
  assumes "claims_ok M R A"
  shows "banker_main M R A =
    Inr ((if safe_state M R A then ''all recources released, processes terminated safely.''
          else ''the state is unsafe, and the request should be denied.'') @ [newline], 0)"
proof -
  have "bank_at M R A {} \<lparr>requests = R, available = A, remainingPs = int PS_CNT\<rparr>"
    by (auto simp: bank_at_def after_def intro: exI [of _ "[]"])
  from banker_loop_at [OF assms this] obtain W s where
    run: "banker_loop M S_RUNNING \<lparr>requests = R, available = A, remainingPs = int PS_CNT\<rparr> =
      Inr (if W = {..<PS_CNT} then S_SUCCESS else S_FAIL, s)"
    and W: "bank_at M R A W s" "\<forall>i < PS_CNT. W = {..<PS_CNT} \<or> i \<in> W \<or> \<not> can_run M R A W i"
    by blast
  have "safe_state M R A \<longleftrightarrow> W = {..<PS_CNT}"
  proof
    show "W = {..<PS_CNT} \<Longrightarrow> safe_state M R A" using W(1) by (auto simp: safe_state_def bank_at_def)
    show "safe_state M R A \<Longrightarrow> W = {..<PS_CNT}" using stuck_unsafe [OF assms, of W] W by (auto simp: bank_at_def)
  qed
  then show ?thesis using run by (simp add: banker_main_def S_SUCCESS_def S_FAIL_def)
qed

lemma index_sets: "{..<PS_CNT} = {0, 1, 2, 3, 4}" "{..<RS_CNT} = {0, 1, 2, 3}"
  by (simp_all add: PS_CNT_def RS_CNT_def lessThan_nat_numeral lessThan_Suc insert_commute pred_numeral_simps)

lemma all_indices:
  "(\<forall>i < PS_CNT. Q i) \<longleftrightarrow> Q 0 \<and> Q 1 \<and> Q 2 \<and> Q 3 \<and> Q 4"
  "(\<forall>j < RS_CNT. Q j) \<longleftrightarrow> Q 0 \<and> Q 1 \<and> Q 2 \<and> Q 3"
proof -
  have "(\<forall>i < PS_CNT. Q i) \<longleftrightarrow> (\<forall>i \<in> {..<PS_CNT}. Q i)" "(\<forall>j < RS_CNT. Q j) \<longleftrightarrow> (\<forall>j \<in> {..<RS_CNT}. Q j)" by auto
  then show "(\<forall>i < PS_CNT. Q i) \<longleftrightarrow> Q 0 \<and> Q 1 \<and> Q 2 \<and> Q 3 \<and> Q 4" "(\<forall>j < RS_CNT. Q j) \<longleftrightarrow> Q 0 \<and> Q 1 \<and> Q 2 \<and> Q 3"
    unfolding index_sets by simp_all
qed

lemma demo_claims_ok: "claims_ok banker_M banker_R banker_A"
  by (simp add: claims_ok_def all_indices index_sets banker_M_def banker_R_def banker_A_def rows_def INT_MAX_def)

text \<open>The matrices of the file are an unsafe state: only the processes 1, 2 and 4 can run.\<close>

lemma demo_stuck: "\<not> safe_state banker_M banker_R banker_A"
proof (rule stuck_unsafe [OF demo_claims_ok])
  show "{1, 2, 4} \<subset> {..<PS_CNT}" unfolding index_sets by auto
  show "\<forall>i < PS_CNT. i \<in> {1, 2, 4} \<or> \<not> can_run banker_M banker_R banker_A {1, 2, 4} i"
    by (simp add: all_indices can_run_def after_def banker_M_def banker_R_def banker_A_def rows_def)
qed

lemma banker_decides_safety_witness:
  "banker_main banker_M banker_R banker_A =
     Inr (''the state is unsafe, and the request should be denied.'' @ [newline], 0)"
  using banker_decides_safety [OF demo_claims_ok] demo_stuck by simp

end
