(* ===== verification/Getchpids.thy ===== *)
theory Getchpids
  imports Prelude
begin

text \<open>
  The child process query of \<open>Homework/h7/getnchpid.c\<close>, a server call of the Minix process
  manager.

  The process table \<open>mproc\<close>, its length \<open>NR_PROCS\<close> and the slot \<open>who_p\<close> of the caller
  belong to Minix and are parameters. The caller's array is a pointer into a memory of
  process ids; a null pointer is \<open>None\<close>. An access outside the table is a fault.
\<close>

section \<open>The program\<close>

type_synonym pid = int

record mproc_slot =
  mp_parent :: int
  mp_pid :: pid

record pm =
  mproc :: "mproc_slot list"
  who_p :: int

abbreviation NR_PROCS :: "pm \<Rightarrow> int" where
  "NR_PROCS e \<equiv> int (length (mproc e))"

datatype fault = Outside_table int

definition getnchpid ::
  "pm \<Rightarrow> int \<Rightarrow> ptr \<Rightarrow> (nat \<Rightarrow> pid) \<Rightarrow> fault + (int \<times> (nat \<Rightarrow> pid))" where
  "getnchpid e n childpid mem =
     (case childpid of
        None \<Rightarrow> Inr (-1, mem)
      | Some p \<Rightarrow>
          if n > NR_PROCS e then Inr (-1, mem)
          else if n < 0 \<or> n \<ge> NR_PROCS e then Inl (Outside_table n)
          else let rmc = mproc e ! nat n in
               if mp_parent rmc \<noteq> who_p e then Inr (-1, mem)
               else Inr (0, mem(p := mp_pid rmc)))"

text \<open>Adding an index to the array pointer; a null array stays null at index 0.\<close>

definition ptr_add :: "ptr \<Rightarrow> int \<Rightarrow> ptr" where
  "ptr_add p i = (case p of None \<Rightarrow> if i = 0 then None else Some (nat i) | Some a \<Rightarrow> Some (a + nat i))"

function getchpids_from ::
  "pm \<Rightarrow> int \<Rightarrow> ptr \<Rightarrow> int \<Rightarrow> (nat \<Rightarrow> pid) \<Rightarrow> fault + (int \<times> (nat \<Rightarrow> pid))" where
  "getchpids_from e n childpid index mem =
     (if index < n then
        bindE (getnchpid e index (ptr_add childpid index) mem) (\<lambda>(r, mem).
          if r \<noteq> 0 then Inr (-1, mem) else getchpids_from e n childpid (index + 1) mem)
      else Inr (index, mem))"
  by pat_completeness auto
termination
  by (relation "measure (\<lambda>(e, n, childpid, index, mem). nat (n - index))") auto

declare getchpids_from.simps [simp del]

definition getchpids :: "pm \<Rightarrow> int \<Rightarrow> ptr \<Rightarrow> (nat \<Rightarrow> pid) \<Rightarrow> fault + (int \<times> (nat \<Rightarrow> pid))" where
  "getchpids e n childpid mem = getchpids_from e n childpid 0 mem"

text \<open>
  The test program. Each \<open>fork\<close> returns to one process that goes on here: 0 in the child, the
  child's id or an error in the process that called it. The function \<open>getchpid\<close> it calls does
  not exist in the repository and is a parameter, from the request and the array to the array.
  The two arrays are uninitialised at first.
\<close>

datatype outcome = Exit int | Assert_failed

function fork_loop :: "(nat \<Rightarrow> pid) \<Rightarrow> nat \<Rightarrow> (nat \<Rightarrow> pid) \<Rightarrow> outcome + (nat \<times> (nat \<Rightarrow> pid))" where
  "fork_loop fork childNum childpidRef =
     (if childNum \<le> 4 then
        let pid = fork childNum in
        if pid = 0 then fork_loop fork (Suc childNum) (childpidRef(childNum := pid))
        else Inl (Exit 0)
      else Inr (childNum, childpidRef))"
  by pat_completeness auto
termination by (relation "measure (\<lambda>(_, n, _). 5 - n)") auto

declare fork_loop.simps [simp del]

definition test_main ::
  "(nat \<Rightarrow> pid) \<Rightarrow> (nat \<Rightarrow> (nat \<Rightarrow> pid) \<Rightarrow> (nat \<Rightarrow> pid)) \<Rightarrow> (nat \<Rightarrow> pid) \<Rightarrow> (nat \<Rightarrow> pid) \<Rightarrow> outcome" where
  "test_main fork getchpid childpid childpidRef =
     (case fork_loop fork 0 childpidRef of
        Inl r \<Rightarrow> r
      | Inr (childNum, childpidRef) \<Rightarrow>
          let childpid = getchpid childNum childpid in
          if \<forall>i \<in> set [0..<childNum]. childpidRef i = childpid i then Exit 0 else Assert_failed)"

section \<open>What the calls return\<close>

definition child_slot :: "pm \<Rightarrow> nat \<Rightarrow> bool" where
  "child_slot e i \<longleftrightarrow> mp_parent (mproc e ! i) = who_p e"

text \<open>The slots from \<open>i\<close> below \<open>n\<close> up to the first one of another process's child.\<close>

definition leading :: "pm \<Rightarrow> nat \<Rightarrow> nat \<Rightarrow> mproc_slot list" where
  "leading e i n = takeWhile (\<lambda>x. mp_parent x = who_p e) (drop i (take n (mproc e)))"

text \<open>Writing a list of ids to consecutive cells.\<close>

fun store_pids :: "nat \<Rightarrow> pid list \<Rightarrow> (nat \<Rightarrow> pid) \<Rightarrow> nat \<Rightarrow> pid" where
  "store_pids a [] mem = mem"
| "store_pids a (x # xs) mem = store_pids (Suc a) xs (mem(a := x))"

lemma store_pids_other: "i < a \<or> a + length xs \<le> i \<Longrightarrow> store_pids a xs mem i = mem i"
  by (induction xs arbitrary: a mem) auto

lemma store_pids_at: "i < length xs \<Longrightarrow> store_pids a xs mem (a + i) = xs ! i"
proof (induction xs arbitrary: a mem i)
  case (Cons x xs)
  show ?case
  proof (cases i)
    case 0
    then show ?thesis by (simp add: store_pids_other)
  next
    case (Suc j)
    have "store_pids (Suc a) xs (mem(a := x)) (Suc a + j) = xs ! j"
      using Cons Suc by (intro Cons.IH) simp
    then show ?thesis using Suc by simp
  qed
qed simp

lemma getnchpid_in_table:
  assumes "i < length (mproc e)"
  shows "getnchpid e (int i) (Some p) mem =
    Inr (if mp_parent (mproc e ! i) = who_p e then (0, mem(p := mp_pid (mproc e ! i))) else (-1, mem))"
  using assms by (simp add: getnchpid_def Let_def)

lemma ptr_add_Some [simp]: "ptr_add (Some a) (int i) = Some (a + i)"
  by (simp add: ptr_add_def)

lemma getchpids_from_step:
  assumes "i < n" and "i < length (mproc e)"
  shows "getchpids_from e (int n) (Some a) (int i) mem =
    (if mp_parent (mproc e ! i) = who_p e
     then getchpids_from e (int n) (Some a) (int (Suc i)) (mem(a + i := mp_pid (mproc e ! i)))
     else Inr (-1, mem))"
  using assms by (subst getchpids_from.simps) (simp add: getnchpid_in_table add.commute)

text \<open>
  The loop from index \<open>i\<close> on a request that fits the table, over the slots still to visit.
\<close>

lemma leading_step:
  assumes "i < n" and "n \<le> length (mproc e)"
  shows "leading e i n =
    (if mp_parent (mproc e ! i) = who_p e then mproc e ! i # leading e (Suc i) n else [])"
proof -
  have "drop i (take n (mproc e)) = mproc e ! i # drop (Suc i) (take n (mproc e))"
    using assms by (simp add: Cons_nth_drop_Suc [symmetric])
  then show ?thesis by (simp add: leading_def)
qed

lemma getchpids_from_table:
  assumes "n \<le> length (mproc e)" and "i \<le> n"
  shows "getchpids_from e (int n) (Some a) (int i) mem =
    Inr (if i + length (leading e i n) = n then int n else -1,
         store_pids (a + i) (map mp_pid (leading e i n)) mem)"
  using assms(2)
proof (induction "n - i" arbitrary: i mem)
  case 0
  then show ?case by (simp add: getchpids_from.simps leading_def)
next
  case (Suc d)
  have lt: "i < n" using Suc.hyps(2) by simp
  have "getchpids_from e (int n) (Some a) (int (Suc i)) (mem(a + i := mp_pid (mproc e ! i))) =
      Inr (if Suc i + length (leading e (Suc i) n) = n then int n else -1,
           store_pids (a + Suc i) (map mp_pid (leading e (Suc i) n)) (mem(a + i := mp_pid (mproc e ! i))))"
    using Suc.hyps(2) lt by (intro Suc.hyps(1)) auto
  then show ?case using lt assms(1) by (simp add: getchpids_from_step leading_step)
qed

lemma leading_nth:
  assumes "n \<le> length (mproc e)" and "i \<le> k" and "k < n" and "\<forall>j. i \<le> j \<and> j \<le> k \<longrightarrow> child_slot e j"
  shows "k - i < length (leading e i n) \<and> leading e i n ! (k - i) = mproc e ! k"
  using assms(2,4)
proof (induction "k - i" arbitrary: i)
  case 0
  then show ?case using assms(1,3) by (simp add: leading_step child_slot_def)
next
  case (Suc d)
  have "k - Suc i < length (leading e (Suc i) n) \<and> leading e (Suc i) n ! (k - Suc i) = mproc e ! k"
    using Suc.hyps(2) Suc.prems by (intro Suc.hyps(1)) auto
  moreover have "k - i = Suc (k - Suc i)" using Suc.hyps(2) by simp
  moreover have "mp_parent (mproc e ! i) = who_p e" using Suc.prems by (auto simp: child_slot_def)
  ultimately show ?case using Suc.hyps(2) assms(1,3) by (simp add: leading_step)
qed

lemma leading_full:
  assumes "n \<le> length (mproc e)"
  shows "length (leading e 0 n) = n \<longleftrightarrow> (\<forall>i < n. child_slot e i)"
proof
  assume "length (leading e 0 n) = n"
  then have "takeWhile (\<lambda>x. mp_parent x = who_p e) (take n (mproc e)) = take n (mproc e)"
    unfolding leading_def drop0
    by (subst takeWhile_eq_take) simp
  then have "mp_parent x = who_p e" if "x \<in> set (take n (mproc e))" for x
    using that by (metis set_takeWhileD)
  then show "\<forall>i < n. child_slot e i"
    using assms by (metis child_slot_def length_take min.absorb2 nth_mem nth_take)
next
  assume "\<forall>i < n. child_slot e i"
  then have "\<forall>x \<in> set (take n (mproc e)). mp_parent x = who_p e"
    using assms by (auto simp: in_set_conv_nth child_slot_def)
  then have "takeWhile (\<lambda>x. mp_parent x = who_p e) (take n (mproc e)) = take n (mproc e)"
    by (simp add: takeWhile_eq_all_conv)
  then show "length (leading e 0 n) = n" unfolding leading_def drop0 using assms by (simp only: length_take min.absorb2)
qed

lemma leading_length: "length (leading e 0 n) \<le> n"
  using length_takeWhile_le [of _ "take n (mproc e)"] by (simp add: leading_def)

section \<open>Properties\<close>

text \<open>
  C39. The result of \<open>getchpids\<close> on a request that fits the table. It returns \<open>n\<close> exactly
  when each of the first \<open>n\<close> slots of the process table belongs to a child of the caller,
  and then the array holds their process ids in slot order. Otherwise it returns -1, with the
  ids of the children before the first foreign slot written. No other cell changes, and the
  table is never read outside its bounds.
\<close>

theorem getchpids_reads_slot_prefix:
  assumes "n \<le> length (mproc e)"
  shows "\<exists>r mem'. getchpids e (int n) (Some a) mem = Inr (r, mem') \<and>
    r = (if \<forall>i < n. child_slot e i then int n else -1) \<and>
    (\<forall>i < n. (\<forall>j \<le> i. child_slot e j) \<longrightarrow> mem' (a + i) = mp_pid (mproc e ! i)) \<and>
    (\<forall>i. i < a \<or> a + n \<le> i \<longrightarrow> mem' i = mem i)"
proof -
  have "getchpids e (int n) (Some a) mem =
      Inr (if length (leading e 0 n) = n then int n else -1,
           store_pids a (map mp_pid (leading e 0 n)) mem)"
    using getchpids_from_table [OF assms, of 0 a mem] by (simp add: getchpids_def)
  moreover have "i < length (leading e 0 n) \<and> leading e 0 n ! i = mproc e ! i"
    if "i < n" "\<forall>j \<le> i. child_slot e j" for i
    using leading_nth [OF assms, of 0 i] that by simp
  ultimately show ?thesis
    using leading_full [OF assms] leading_length [of e n] by (auto simp: store_pids_at store_pids_other)
qed

theorem getchpids_reads_slot_prefix_witness:
  "\<exists>r mem'. getchpids \<lparr>mproc = [\<lparr>mp_parent = 7, mp_pid = 40\<rparr>, \<lparr>mp_parent = 7, mp_pid = 41\<rparr>], who_p = 7\<rparr>
     (int 2) (Some 3) (\<lambda>_. 0) = Inr (r, mem') \<and> r = 2 \<and> mem' 4 = 41 \<and> mem' 5 = 0"
proof -
  let ?e = "\<lparr>mproc = [\<lparr>mp_parent = 7, mp_pid = 40\<rparr>, \<lparr>mp_parent = 7, mp_pid = 41\<rparr>], who_p = 7\<rparr>"
  have c: "\<forall>i < 2. child_slot ?e i" by (simp add: child_slot_def less_2_cases_iff)
  obtain r mem' where "getchpids ?e (int 2) (Some 3) (\<lambda>_. 0) = Inr (r, mem')"
    "r = (if \<forall>i < 2. child_slot ?e i then int 2 else -1)"
    "\<forall>i < 2. (\<forall>j \<le> i. child_slot ?e j) \<longrightarrow> mem' (3 + i) = mp_pid (mproc ?e ! i)"
    "\<forall>i. i < 3 \<or> 3 + 2 \<le> i \<longrightarrow> mem' i = 0"
    using getchpids_reads_slot_prefix [of 2 ?e 3 "\<lambda>_. 0"] by auto
  moreover from this(3) [rule_format, of 1] c have "mem' 4 = 41" by simp
  ultimately show ?thesis using c by (intro exI [of _ r] exI [of _ mem']) simp
qed

text \<open>
  The table bound is off by one. A request for more children than the table has slots, in
  a process that is the parent of every slot, reads one slot past the end of the table, since
  \<open>getnchpid\<close> rejects only numbers above \<open>NR_PROCS\<close>.
\<close>

theorem getchpids_reads_past_table:
  assumes "length (mproc e) < n" and "\<forall>i < length (mproc e). child_slot e i"
  shows "getchpids e (int n) (Some a) mem = Inl (Outside_table (NR_PROCS e))"
proof -
  let ?N = "length (mproc e)"
  have last: "getchpids_from e (int n) (Some a) (int ?N) mem' = Inl (Outside_table (NR_PROCS e))" for mem'
    using assms(1) by (subst getchpids_from.simps) (simp add: getnchpid_def)
  have "getchpids_from e (int n) (Some a) (int i) mem' = Inl (Outside_table (NR_PROCS e))" if "i \<le> ?N" for i mem'
    using that
  proof (induction "?N - i" arbitrary: i mem')
    case 0
    then show ?case using last by simp
  next
    case (Suc d)
    then have "i < ?N" by simp
    moreover have "getchpids_from e (int n) (Some a) (int (Suc i)) (mem'(a + i := mp_pid (mproc e ! i))) =
        Inl (Outside_table (NR_PROCS e))"
      using Suc.hyps(2) \<open>i < ?N\<close> by (intro Suc.hyps(1)) auto
    ultimately show ?case using assms by (simp add: getchpids_from_step child_slot_def)
  qed
  from this [of 0] show ?thesis by (simp add: getchpids_def)
qed

theorem getchpids_reads_past_table_witness:
  "getchpids \<lparr>mproc = [\<lparr>mp_parent = 7, mp_pid = 40\<rparr>], who_p = 7\<rparr> (int 2) (Some 3) (\<lambda>_. 0) =
     Inl (Outside_table 1)"
  using getchpids_reads_past_table [of "\<lparr>mproc = [\<lparr>mp_parent = 7, mp_pid = 40\<rparr>], who_p = 7\<rparr>" 2 3 "\<lambda>_. 0"]
  by (simp add: child_slot_def)

lemma fork_loop_from:
  assumes "n \<le> 5"
  shows "fork_loop fork n ref =
     (if \<forall>i. n \<le> i \<and> i < 5 \<longrightarrow> fork i = 0 then Inr (5, \<lambda>i. if n \<le> i \<and> i < 5 then 0 else ref i)
      else Inl (Exit 0))"
  using assms
proof (induction fork n ref rule: fork_loop.induct)
  case (1 fork n ref)
  show ?case
  proof (cases "n \<le> 4 \<and> fork n = 0")
    case True
    then have "fork_loop fork n ref = fork_loop fork (Suc n) (ref(n := 0))"
      by (subst fork_loop.simps) simp
    moreover have "(\<forall>i. Suc n \<le> i \<and> i < 5 \<longrightarrow> fork i = 0) = (\<forall>i. n \<le> i \<and> i < 5 \<longrightarrow> fork i = 0)"
      using True by (metis Suc_leD Suc_leI le_neq_implies_less)
    moreover have "(\<lambda>i. if Suc n \<le> i \<and> i < 5 then 0 else (ref(n := 0)) i) =
        (\<lambda>i. if n \<le> i \<and> i < 5 then 0 else ref i)"
      using True by auto
    ultimately show ?thesis using 1 True by simp
  next
    case False
    then show ?thesis
      using 1(2) by (subst fork_loop.simps) (auto simp: Let_def intro: exI [of _ n])
  qed
qed

text \<open>
  The test program compares process ids with zeros. Whatever \<open>getchpid\<close> does, a process that
  gets a result other than 0 from one of its five forks exits with 0; the one for which all
  five return 0 passes the comparison exactly when \<open>getchpid\<close> leaves five zeros in the array.
\<close>

theorem test_main_expects_zeros:
  "test_main fork getchpid childpid ref =
     (if (\<exists>i < 5. fork i \<noteq> 0) \<or> (\<forall>i < 5. getchpid 5 childpid i = 0) then Exit 0 else Assert_failed)"
  by (auto simp: test_main_def fork_loop_from Let_def)

end
