(* ===== verification/Sort_List.thy ===== *)
theory Sort_List
  imports C_Strings Complex_Main
begin

text \<open>
  The linked list of the sorting programs. The same code is in \<open>Homework/h3/ex2.c\<close>,
  \<open>Lab/Lab 5/code/list.c\<close> and \<open>Lab/Lab 6/cmplx-sort/src-kernel/list.c\<close>.

  Memory is a map from addresses to the objects \<open>malloc\<close> returned: nodes, strings, integers
  and doubles; \<open>free\<close> removes an object. \<open>room\<close> is the number of allocations that still
  succeed; the programs never test the result of \<open>malloc\<close>, so when there is no room the
  store that follows hits the null pointer. An access to an object that does not exist or has
  another type, a null access, a second \<open>free\<close> and the use of a variable that was never
  given a value (\<open>Indeterminate\<close>) are crashes.

  The loops follow \<open>next\<close> pointers. Their fuel is one more than the number of addresses
  handed out, which a list without cycles cannot use up.
\<close>

section \<open>Memory\<close>

datatype crash = Null_access | Wild_access | Bad_free | Overflow | Failed_assert | Endless | Outside_array | Indeterminate

datatype double = Finite rat | Infinite bool | Not_a_number

record node =
  key :: ptr
  data :: ptr
  next_node :: ptr

datatype cell = Node_cell node | Str_cell string | Int_cell "32 word" | Double_cell double

record heap =
  cells :: "nat \<Rightarrow> cell option"
  brk :: nat
  room :: nat

record clist =
  head :: ptr
  len :: int

definition new_cell :: "cell \<Rightarrow> heap \<Rightarrow> crash + (nat \<times> heap)" where
  "new_cell c h =
     (if room h = 0 then Inl Null_access
      else Inr (brk h, h\<lparr>cells := (cells h)(brk h \<mapsto> c), brk := Suc (brk h), room := room h - 1\<rparr>))"

definition free_cell :: "ptr \<Rightarrow> heap \<Rightarrow> crash + heap" where
  "free_cell p h =
     (case p of None \<Rightarrow> Inr h
      | Some a \<Rightarrow> if cells h a = None then Inl Bad_free else Inr (h\<lparr>cells := (cells h)(a := None)\<rparr>))"

definition load :: "heap \<Rightarrow> ptr \<Rightarrow> crash + cell" where
  "load h p =
     (case p of None \<Rightarrow> Inl Null_access
      | Some a \<Rightarrow> (case cells h a of None \<Rightarrow> Inl Wild_access | Some c \<Rightarrow> Inr c))"

definition get_node :: "heap \<Rightarrow> ptr \<Rightarrow> crash + node" where
  "get_node h p = bindE (load h p) (\<lambda>c. case c of Node_cell n \<Rightarrow> Inr n | _ \<Rightarrow> Inl Wild_access)"

definition get_str :: "heap \<Rightarrow> ptr \<Rightarrow> crash + string" where
  "get_str h p = bindE (load h p) (\<lambda>c. case c of Str_cell s \<Rightarrow> Inr s | _ \<Rightarrow> Inl Wild_access)"

definition put_next :: "nat \<Rightarrow> ptr \<Rightarrow> heap \<Rightarrow> crash + heap" where
  "put_next a p h =
     bindE (get_node h (Some a)) (\<lambda>n.
       Inr (h\<lparr>cells := (cells h)(a \<mapsto> Node_cell (n\<lparr>next_node := p\<rparr>))\<rparr>))"

section \<open>The operations\<close>

definition listConstructor :: clist where
  "listConstructor = \<lparr>head = None, len = 0\<rparr>"

fun last_from :: "nat \<Rightarrow> heap \<Rightarrow> nat \<Rightarrow> crash + nat" where
  "last_from 0 h a = Inl Endless"
| "last_from (Suc fuel) h a =
     bindE (get_node h (Some a)) (\<lambda>n.
       case next_node n of None \<Rightarrow> Inr a | Some b \<Rightarrow> last_from fuel h b)"

definition listAdd :: "clist \<Rightarrow> nat \<Rightarrow> heap \<Rightarrow> crash + (clist \<times> heap)" where
  "listAdd l a h =
     bindE (case head l of
              None \<Rightarrow> Inr (l\<lparr>head := Some a\<rparr>, h)
            | Some p \<Rightarrow>
                bindE (last_from (Suc (brk h)) h p) (\<lambda>z.
                bindE (put_next z (Some a) h) (\<lambda>h. Inr (l, h))))
       (\<lambda>(l, h). if len l = INT_MAX then Inl Overflow else Inr (l\<lparr>len := len l + 1\<rparr>, h))"

definition insert_c :: "clist \<Rightarrow> nat \<Rightarrow> nat \<Rightarrow> heap \<Rightarrow> crash + (clist \<times> heap)" where
  "insert_c l k d h =
     bindE (new_cell (Node_cell \<lparr>key = Some k, data = Some d, next_node = None\<rparr>) h) (\<lambda>(a, h).
       listAdd l a h)"

fun search_from :: "nat \<Rightarrow> heap \<Rightarrow> string \<Rightarrow> ptr \<Rightarrow> crash + ptr" where
  "search_from fuel h k None = Inr None"
| "search_from 0 h k (Some a) = Inl Endless"
| "search_from (Suc fuel) h k (Some a) =
     bindE (get_node h (Some a)) (\<lambda>n.
     bindE (get_str h (key n)) (\<lambda>s.
       if k = s then Inr (data n) else search_from fuel h k (next_node n)))"

definition listSearch :: "clist \<Rightarrow> string \<Rightarrow> heap \<Rightarrow> crash + ptr" where
  "listSearch l k h = (if len l = 0 then Inr None else search_from (Suc (brk h)) h k (head l))"

text \<open>Each field is read from the memory as it is at that point, after the earlier frees.\<close>

fun destroy_from :: "nat \<Rightarrow> ptr \<Rightarrow> heap \<Rightarrow> crash + heap" where
  "destroy_from fuel None h = Inr h"
| "destroy_from 0 (Some a) h = Inl Endless"
| "destroy_from (Suc fuel) (Some a) h =
     bindE (get_node h (Some a)) (\<lambda>n.
     bindE (free_cell (key n) h) (\<lambda>h.
     bindE (get_node h (Some a)) (\<lambda>n.
     bindE (free_cell (data n) h) (\<lambda>h.
     bindE (get_node h (Some a)) (\<lambda>n.
     bindE (free_cell (Some a) h) (\<lambda>h.
       destroy_from fuel (next_node n) h))))))"

definition listDestructor :: "clist \<Rightarrow> heap \<Rightarrow> crash + heap" where
  "listDestructor l h = (if len l = 0 then Inr h else destroy_from (Suc (brk h)) (head l) h)"

section \<open>What a list in memory holds\<close>

text \<open>
  A row is the addresses of a node, of its key and of its data. A list in memory stands for
  the sequence of its entries: key and data object. Every row owns its three objects.
\<close>

type_synonym row = "nat \<times> nat \<times> nat"

abbreviation nod :: "row \<Rightarrow> nat" where "nod r \<equiv> fst r"

definition row_holds :: "heap \<Rightarrow> row \<Rightarrow> ptr \<Rightarrow> string \<times> cell \<Rightarrow> bool" where
  "row_holds h r p e \<longleftrightarrow>
     cells h (nod r) = Some (Node_cell \<lparr>key = Some (fst (snd r)), data = Some (snd (snd r)), next_node = p\<rparr>) \<and>
     cells h (fst (snd r)) = Some (Str_cell (fst e)) \<and> cells h (snd (snd r)) = Some (snd e)"

fun rows_at :: "heap \<Rightarrow> ptr \<Rightarrow> row list \<Rightarrow> (string \<times> cell) list \<Rightarrow> bool" where
  "rows_at h p [] es \<longleftrightarrow> p = None \<and> es = []"
| "rows_at h p (r # rs) [] \<longleftrightarrow> False"
| "rows_at h p (r # rs) (e # es) \<longleftrightarrow>
     p = Some (nod r) \<and> (\<exists>q. row_holds h r q e \<and> rows_at h q rs es)"

fun owned :: "row list \<Rightarrow> nat list" where
  "owned [] = []"
| "owned (r # rs) = nod r # fst (snd r) # snd (snd r) # owned rs"

definition heap_ok :: "heap \<Rightarrow> bool" where
  "heap_ok h \<longleftrightarrow> (\<forall>a. cells h a \<noteq> None \<longrightarrow> a < brk h)"

definition list_rep :: "heap \<Rightarrow> clist \<Rightarrow> row list \<Rightarrow> (string \<times> cell) list \<Rightarrow> bool" where
  "list_rep h l rs es \<longleftrightarrow>
     heap_ok h \<and> rows_at h (head l) rs es \<and> distinct (owned rs) \<and> len l = int (length rs)"

lemmas load_defs = load_def get_node_def get_str_def put_next_def free_cell_def

lemma rows_at_Nil_es [simp]: "rows_at h p rs [] \<longleftrightarrow> p = None \<and> rs = []"
  by (cases rs) auto

lemma rows_at_length: "rows_at h p rs es \<Longrightarrow> length rs = length es"
  by (induction h p rs es rule: rows_at.induct) auto

lemma owned_append [simp]: "owned (rs @ ss) = owned rs @ owned ss"
  by (induction rs rule: owned.induct) auto

lemma nod_in_owned: "r \<in> set rs \<Longrightarrow> nod r \<in> set (owned rs)"
  by (induction rs rule: owned.induct) auto

lemma owned_row: "r \<in> set rs \<Longrightarrow> {nod r, fst (snd r), snd (snd r)} \<subseteq> set (owned rs)"
  by (induction rs rule: owned.induct) auto

lemma rows_at_cong:
  "(\<And>a. a \<in> set (owned rs) \<Longrightarrow> cells h' a = cells h a) \<Longrightarrow> rows_at h' p rs es = rows_at h p rs es"
proof (induction h p rs es rule: rows_at.induct)
  case (3 h p r rs e es)
  have "cells h' (nod r) = cells h (nod r)" "cells h' (fst (snd r)) = cells h (fst (snd r))"
    "cells h' (snd (snd r)) = cells h (snd (snd r))"
    using owned_row [of r "r # rs"] 3(2) by auto
  moreover have "rows_at h' q rs es = rows_at h q rs es" for q
    using 3 by auto
  ultimately show ?case by (simp add: row_holds_def)
qed auto

lemma rows_owned_alloc: "rows_at h p rs es \<Longrightarrow> a \<in> set (owned rs) \<Longrightarrow> cells h a \<noteq> None"
  by (induction h p rs es rule: rows_at.induct) (auto simp: row_holds_def)

lemma length_owned: "length (owned rs) = 3 * length rs"
  by (induction rs rule: owned.induct) auto

lemma list_rep_fuel:
  assumes "list_rep h l rs es"
  shows "length rs \<le> brk h"
proof -
  have "set (owned rs) \<subseteq> {..<brk h}"
    using assms rows_owned_alloc by (fastforce simp: list_rep_def heap_ok_def)
  moreover have "distinct (owned rs)" using assms by (simp add: list_rep_def)
  ultimately have "3 * length rs \<le> brk h"
    by (metis card_lessThan card_mono distinct_card finite_lessThan length_owned)
  then show ?thesis by simp
qed

lemma row_node:
  "row_holds h r q e \<Longrightarrow> get_node h (Some (nod r)) =
     Inr \<lparr>key = Some (fst (snd r)), data = Some (snd (snd r)), next_node = q\<rparr>"
  by (simp add: row_holds_def get_node_def load_def)

lemma row_key: "row_holds h r q e \<Longrightarrow> get_str h (Some (fst (snd r))) = Inr (fst e)"
  by (simp add: row_holds_def get_str_def load_def)

section \<open>Adding\<close>

lemma last_from_rows:
  assumes "rows_at h (Some p) rs es" and "length rs \<le> fuel"
  shows "last_from fuel h p = Inr (nod (last rs))"
  using assms
proof (induction rs arbitrary: p es fuel)
  case (Cons r rs)
  obtain e es' where es: "es = e # es'" using Cons.prems(1) by (cases es) auto
  obtain q where q: "p = nod r" "row_holds h r q e" "rows_at h q rs es'" using Cons.prems(1) es by auto
  obtain n where n: "fuel = Suc n" using Cons.prems(2) by (cases fuel) auto
  show ?case
  proof (cases rs)
    case Nil
    then show ?thesis using q n row_node [OF q(2)] by simp
  next
    case (Cons r' rs')
    then have "q = Some (nod r')" using q(3) by (cases es') auto
    then show ?thesis using Cons.IH [of "nod r'" es' n] Cons.prems(2) q n Cons row_node [OF q(2)] by simp
  qed
qed simp

lemma rows_snoc:
  assumes "rows_at h p rs es" and "rs \<noteq> []" and "distinct (owned (rs @ [r]))"
    and "row_holds h r None e" and "get_node h (Some (nod (last rs))) = Inr n"
  shows "rows_at (h\<lparr>cells := (cells h)(nod (last rs) \<mapsto> Node_cell (n\<lparr>next_node := Some (nod r)\<rparr>))\<rparr>) p
    (rs @ [r]) (es @ [e])"
  using assms
proof (induction rs arbitrary: p es)
  case (Cons r' rs)
  let ?h = "h\<lparr>cells := (cells h)(nod (last (r' # rs)) \<mapsto> Node_cell (n\<lparr>next_node := Some (nod r)\<rparr>))\<rparr>"
  obtain e' es' q where es: "es = e' # es'" "p = Some (nod r')" "row_holds h r' q e'" "rows_at h q rs es'"
    using Cons.prems(1) by (cases es) auto
  have ne: "nod (last (r' # rs)) \<notin> set (owned [r])"
    using Cons.prems(3) nod_in_owned [of "last (r' # rs)" "r' # rs"] by auto
  have r: "row_holds ?h r None e" using Cons.prems(4) ne by (auto simp: row_holds_def)
  show ?case
  proof (cases "rs = []")
    case True
    have "n = \<lparr>key = Some (fst (snd r')), data = Some (snd (snd r')), next_node = q\<rparr>"
      using Cons.prems(5) row_node [OF es(3)] True by simp
    moreover have "nod r' \<noteq> fst (snd r')" "nod r' \<noteq> snd (snd r')"
      using Cons.prems(3) by auto
    ultimately have "row_holds ?h r' (Some (nod r)) e'" using es(3) True by (simp add: row_holds_def)
    then show ?thesis using True es r by (auto simp del: fun_upd_apply)
  next
    case False
    have "nod (last rs) \<in> set (owned rs)" using nod_in_owned [of "last rs" rs] False by simp
    then have "nod (last rs) \<notin> {nod r', fst (snd r'), snd (snd r')}"
      using Cons.prems(3) by auto
    then have "row_holds ?h r' q e'" using es(3) False by (simp add: row_holds_def)
    moreover have "rows_at ?h q (rs @ [r]) (es' @ [e])"
      using Cons.IH [OF es(4) False] Cons.prems(3-5) False by (auto simp del: fun_upd_apply)
    ultimately show ?thesis using es by (auto simp del: fun_upd_apply)
  qed
qed simp

lemma rows_last_node:
  assumes "rows_at h p rs es" and "rs \<noteq> []"
  shows "\<exists>n. get_node h (Some (nod (last rs))) = Inr n"
  using assms
proof (induction h p rs es rule: rows_at.induct)
  case (3 h p r rs e es)
  then obtain q where q: "row_holds h r q e" "rows_at h q rs es" by auto
  show ?case
  proof (cases "rs = []")
    case True
    then show ?thesis using row_node [OF q(1)] by simp
  next
    case False
    then show ?thesis using "3.IH" [OF q(2)] by simp
  qed
qed auto

text \<open>The count of a full list cannot go up.\<close>

lemma listAdd_full:
  assumes rep: "list_rep h l rs es" and n: "int (length rs) = INT_MAX"
  shows "listAdd l a h = Inl Overflow"
proof -
  have ne: "rs \<noteq> []" using n by (auto simp: INT_MAX_def)
  then obtain p where p: "head l = Some p" using rep by (cases rs; cases es) (auto simp: list_rep_def)
  have rows: "rows_at h (Some p) rs es" using rep p by (simp add: list_rep_def)
  have "last_from (Suc (brk h)) h p = Inr (nod (last rs))"
    using list_rep_fuel [OF rep] by (intro last_from_rows [OF rows]) simp
  moreover obtain nd where "get_node h (Some (nod (last rs))) = Inr nd" using rows_last_node [OF rows ne] by blast
  ultimately show ?thesis
    using p rep n by (simp add: listAdd_def put_next_def list_rep_def del: last_from.simps)
qed

lemma row_holds_ext:
  "cells h' (nod r) = cells h (nod r) \<Longrightarrow> cells h' (fst (snd r)) = cells h (fst (snd r)) \<Longrightarrow>
   cells h' (snd (snd r)) = cells h (snd (snd r)) \<Longrightarrow> row_holds h' r q e = row_holds h r q e"
  by (simp add: row_holds_def)

lemma listAdd_rep:
  assumes rep: "list_rep h l rs es" and r: "row_holds h r None e" and d: "distinct (owned (rs @ [r]))"
    and n: "int (length rs) < INT_MAX"
  obtains l' h' where "listAdd l (nod r) h = Inr (l', h')" "list_rep h' l' (rs @ [r]) (es @ [e])"
    "brk h' = brk h" "room h' = room h" "\<And>x. x \<notin> nod ` set rs \<Longrightarrow> cells h' x = cells h x"
proof (cases "rs = []")
  case True
  then have "head l = None" "es = []" "len l = 0" using rep by (auto simp: list_rep_def)
  then show ?thesis
    using True r d rep n
    by (intro that [of "l\<lparr>head := Some (nod r), len := 1\<rparr>" h])
      (auto simp: listAdd_def list_rep_def INT_MAX_def)
next
  case False
  then obtain p where p: "head l = Some p" using rep by (cases rs; cases es) (auto simp: list_rep_def)
  have rows: "rows_at h (Some p) rs es" using rep p by (simp add: list_rep_def)
  have last: "last_from (Suc (brk h)) h p = Inr (nod (last rs))"
    using list_rep_fuel [OF rep] by (intro last_from_rows [OF rows]) simp
  have "cells h (nod (last rs)) \<noteq> None"
    using rows_owned_alloc [OF rows] nod_in_owned [of "last rs" rs] False by simp
  obtain nd where nd: "get_node h (Some (nod (last rs))) = Inr nd" using rows_last_node [OF rows False] by blast
  let ?h = "h\<lparr>cells := (cells h)(nod (last rs) \<mapsto> Node_cell (nd\<lparr>next_node := Some (nod r)\<rparr>))\<rparr>"
  have "listAdd l (nod r) h = Inr (l\<lparr>len := len l + 1\<rparr>, ?h)"
    using p last nd rep n by (simp add: listAdd_def put_next_def list_rep_def)
  moreover have "heap_ok ?h"
    using rep \<open>cells h (nod (last rs)) \<noteq> None\<close> by (auto simp: list_rep_def heap_ok_def)
  moreover have "rows_at ?h (Some p) (rs @ [r]) (es @ [e])"
    by (rule rows_snoc [OF rows False d r nd])
  ultimately show ?thesis
    using rep p d False by (intro that [of "l\<lparr>len := len l + 1\<rparr>" ?h]) (auto simp: list_rep_def)
qed

lemma heap_fresh: "heap_ok h \<Longrightarrow> cells h (brk h) = None"
  by (auto simp: heap_ok_def)

lemma insert_rep:
  assumes rep: "list_rep h l rs es" and k: "cells h k = Some (Str_cell s)" and d: "cells h d = Some c"
    and own: "k \<noteq> d" "k \<notin> set (owned rs)" "d \<notin> set (owned rs)"
    and n: "int (length rs) < INT_MAX" "0 < room h"
  obtains l' h' where "insert_c l k d h = Inr (l', h')"
    "list_rep h' l' (rs @ [(brk h, k, d)]) (es @ [(s, c)])"
    "brk h' = Suc (brk h)" "room h' = room h - 1"
    "\<And>x. x \<notin> nod ` set rs \<Longrightarrow> x \<noteq> brk h \<Longrightarrow> cells h' x = cells h x"
proof -
  let ?nd = "Node_cell \<lparr>key = Some k, data = Some d, next_node = None\<rparr>"
  define h1 where "h1 = h\<lparr>cells := (cells h)(brk h \<mapsto> ?nd), brk := Suc (brk h), room := room h - 1\<rparr>"
  have h1: "cells h1 = (cells h)(brk h \<mapsto> ?nd)" "brk h1 = Suc (brk h)" "room h1 = room h - 1"
    by (simp_all add: h1_def)
  have ok: "heap_ok h" using rep by (simp add: list_rep_def)
  note fr = heap_fresh [OF ok]
  have nk: "k \<noteq> brk h" "d \<noteq> brk h" using fr k d by auto
  have no: "brk h \<notin> set (owned rs)" using rows_owned_alloc fr rep by (fastforce simp: list_rep_def)
  have "heap_ok h1" using ok by (auto simp: heap_ok_def h1 less_Suc_eq)
  moreover have "rows_at h1 (head l) rs es"
    using rep no by (subst rows_at_cong [of _ _ h]) (auto simp: list_rep_def h1)
  ultimately have rep1: "list_rep h1 l rs es" using rep by (simp add: list_rep_def)
  have r: "row_holds h1 (brk h, k, d) None (s, c)" using k d nk by (simp add: row_holds_def h1)
  have dd: "distinct (owned (rs @ [(brk h, k, d)]))"
    using rep own nk no by (auto simp: list_rep_def)
  obtain l' h' where "listAdd l (nod (brk h, k, d)) h1 = Inr (l', h')"
    "list_rep h' l' (rs @ [(brk h, k, d)]) (es @ [(s, c)])" "brk h' = brk h1" "room h' = room h1"
    "\<And>x. x \<notin> nod ` set rs \<Longrightarrow> cells h' x = cells h1 x"
    using listAdd_rep [OF rep1 r dd n(1)] by metis
  moreover have "insert_c l k d h = listAdd l (brk h) h1"
    using n(2) by (simp add: insert_c_def new_cell_def h1_def)
  ultimately show ?thesis using that h1 by simp
qed

section \<open>Searching and freeing\<close>

definition first_with_key :: "string \<Rightarrow> row list \<Rightarrow> (string \<times> cell) list \<Rightarrow> (row \<times> string \<times> cell) option" where
  "first_with_key k rs es = find (\<lambda>(r, s, c). s = k) (zip rs es)"

lemma search_from_rows:
  assumes "rows_at h p rs es" and "length rs \<le> fuel"
  shows "search_from fuel h k p = Inr (map_option (\<lambda>(r, e). snd (snd r)) (first_with_key k rs es))"
  using assms
proof (induction rs arbitrary: p es fuel)
  case Nil
  then show ?case by (simp add: first_with_key_def)
next
  case (Cons r rs)
  obtain e es' q where es: "es = e # es'" "p = Some (nod r)" "row_holds h r q e" "rows_at h q rs es'"
    using Cons.prems(1) by (cases es) auto
  obtain n where n: "fuel = Suc n" "length rs \<le> n" using Cons.prems(2) by (cases fuel) auto
  have "search_from n h k q = Inr (map_option (\<lambda>(r, e). snd (snd r)) (first_with_key k rs es'))"
    by (rule Cons.IH [OF es(4) n(2)])
  then show ?case
    using es n row_node [OF es(3)] row_key [OF es(3)] by (cases e) (auto simp: first_with_key_def)
qed

lemma listSearch_rep:
  assumes "list_rep h l rs es"
  shows "listSearch l k h = Inr (map_option (\<lambda>(r, e). snd (snd r)) (first_with_key k rs es))"
proof (cases "rs = []")
  case True
  then show ?thesis using assms by (simp add: listSearch_def list_rep_def first_with_key_def)
next
  case False
  then show ?thesis
    using assms list_rep_fuel [OF assms] search_from_rows [of h "head l" rs es "Suc (brk h)" k]
    by (simp add: listSearch_def list_rep_def)
qed

lemma destroy_row:
  assumes "row_holds h r q e" and "distinct (owned [r])"
  shows "destroy_from (Suc n) (Some (nod r)) h =
    destroy_from n q (h\<lparr>cells := (cells h)(fst (snd r) := None, snd (snd r) := None, nod r := None)\<rparr>)"
  using assms by (simp add: row_holds_def get_node_def load_def free_cell_def)

lemma destroy_from_rows:
  assumes "rows_at h p rs es" and "distinct (owned rs)" and "length rs \<le> fuel"
  shows "destroy_from fuel p h = Inr (h\<lparr>cells := (\<lambda>a. if a \<in> set (owned rs) then None else cells h a)\<rparr>)"
  using assms
proof (induction rs arbitrary: p es fuel h)
  case Nil
  then show ?case by simp
next
  case (Cons r rs)
  obtain e es' q where es: "es = e # es'" "p = Some (nod r)" "row_holds h r q e" "rows_at h q rs es'"
    using Cons.prems(1) by (cases es) auto
  obtain n where n: "fuel = Suc n" "length rs \<le> n" using Cons.prems(3) by (cases fuel) auto
  define h1 where "h1 = h\<lparr>cells := (cells h)(fst (snd r) := None, snd (snd r) := None, nod r := None)\<rparr>"
  have "rows_at h1 q rs es'"
    using es(4) Cons.prems(2) by (subst rows_at_cong [of _ _ h]) (auto simp: h1_def)
  then have "destroy_from n q h1 = Inr (h1\<lparr>cells := (\<lambda>a. if a \<in> set (owned rs) then None else cells h1 a)\<rparr>)"
    using Cons.prems(2) n(2) by (intro Cons.IH) auto
  moreover have "(\<lambda>a. if a \<in> set (owned rs) then None else cells h1 a) =
      (\<lambda>a. if a \<in> set (owned (r # rs)) then None else cells h a)"
    by (auto simp: h1_def fun_eq_iff)
  moreover have "h1\<lparr>cells := f\<rparr> = h\<lparr>cells := f\<rparr>" for f by (simp add: h1_def)
  moreover have "destroy_from fuel p h = destroy_from n q h1"
    unfolding es(2) n(1) h1_def using Cons.prems(2) by (intro destroy_row [OF es(3)]) auto
  ultimately show ?case by (simp only:)
qed

lemma listDestructor_rep:
  assumes "list_rep h l rs es"
  shows "listDestructor l h =
    Inr (h\<lparr>cells := (\<lambda>a. if a \<in> set (owned rs) then None else cells h a)\<rparr>)"
proof (cases "rs = []")
  case True
  then show ?thesis using assms by (simp add: listDestructor_def list_rep_def)
next
  case False
  then show ?thesis
    using assms list_rep_fuel [OF assms] destroy_from_rows [of h "head l" rs es "Suc (brk h)"]
    by (simp add: listDestructor_def list_rep_def)
qed

end
