(* ===== verification/Thrashing.thy ===== *)
theory Thrashing
  imports Sort_List
begin

text \<open>
  The thrashing demonstration (\<open>Homework/h6/thrashing.c\<close>): four arrays of 4 GB, allocated and then
  filled one after the other.

  An array is \<open>None\<close> when \<open>malloc\<close> failed, and otherwise gives each index its value, or nothing
  while it is uninitialised. Each line printed is an entry of a list; \<open>malloc\<close> is a parameter, the
  answer to the requests in their order. How long a page fault takes is not part of a program's
  meaning and not modelled.
\<close>

section \<open>The program\<close>

type_synonym big_array = "(nat \<rightharpoonup> int) option"

record big =
  d1 :: big_array
  d2 :: big_array
  d3 :: big_array
  d4 :: big_array

definition BIG_N :: nat where "BIG_N = 1073741824"

definition malloc_big :: "(nat \<Rightarrow> bool) \<Rightarrow> nat \<Rightarrow> big_array" where
  "malloc_big malloc_ok i = (if malloc_ok i then Some Map.empty else None)"

text \<open>The loop \<open>for(int i=0;i<1073741824;i++) d[i]=i;\<close> for an array of \<open>n\<close> places.\<close>

definition fill_array :: "nat \<Rightarrow> big_array \<Rightarrow> crash + big_array" where
  "fill_array n d =
     (case d of None \<Rightarrow> if n = 0 then Inr None else Inl Null_access
      | Some m \<Rightarrow> Inr (Some (fold (\<lambda>i m. m(i \<mapsto> int i)) [0..<n] m)))"

text \<open>The result also has what was printed when the program crashes.\<close>

definition initBit :: "nat \<Rightarrow> (nat \<Rightarrow> bool) \<Rightarrow> (crash \<times> string list) + (big \<times> string list)" where
  "initBit n malloc_ok =
     (let a1 = malloc_big malloc_ok 0; out = [''d1 init ok''];
          a2 = malloc_big malloc_ok 1; out = out @ [''d2 init ok''];
          a3 = malloc_big malloc_ok 2; out = out @ [''d3 init ok''];
          a4 = malloc_big malloc_ok 3; out = out @ [''d4 init ok'']
      in case fill_array n a1 of Inl c \<Rightarrow> Inl (c, out) | Inr a1 \<Rightarrow>
         let out = out @ [''d1 calc ok''] in
         case fill_array n a2 of Inl c \<Rightarrow> Inl (c, out) | Inr a2 \<Rightarrow>
         let out = out @ [''d2 calc ok''] in
         case fill_array n a3 of Inl c \<Rightarrow> Inl (c, out) | Inr a3 \<Rightarrow>
         let out = out @ [''d3 calc ok''] in
         case fill_array n a4 of Inl c \<Rightarrow> Inl (c, out) | Inr a4 \<Rightarrow>
         Inr (\<lparr>d1 = a1, d2 = a2, d3 = a3, d4 = a4\<rparr>, out @ [''d4 calc ok'']))"

text \<open>\<open>main\<close> frees the arrays and returns 0.\<close>

definition thrashing_main :: "nat \<Rightarrow> (nat \<Rightarrow> bool) \<Rightarrow> (crash \<times> string list) + (int \<times> string list)" where
  "thrashing_main n malloc_ok = bindE (initBit n malloc_ok) (\<lambda>(_, out). Inr (0, out))"

section \<open>What it does\<close>

lemma fold_fill: "fold (\<lambda>i m. m(i \<mapsto> int i)) [0..<n] m = (\<lambda>i. if i < n then Some (int i) else m i)"
  by (induction n) (auto simp: fun_eq_iff)

lemma fill_array_simps:
  "fill_array n (Some m) = Inr (Some (\<lambda>i. if i < n then Some (int i) else m i))"
  "0 < n \<Longrightarrow> fill_array n None = Inl Null_access"
  by (simp_all add: fill_array_def fold_fill)

text \<open>
  The messages do not say what they seem to. All four \<open>init ok\<close> lines are printed whether or not
  \<open>malloc\<close> succeeded; the program returns 0 after filling every array exactly when all four
  requests were granted, and otherwise crashes at the first array that was not, with the
  \<open>calc ok\<close> lines of those before it printed.
\<close>

theorem thrashing_runs:
  defines "inits \<equiv> [''d1 init ok'', ''d2 init ok'', ''d3 init ok'', ''d4 init ok'']"
    and "calcs \<equiv> [''d1 calc ok'', ''d2 calc ok'', ''d3 calc ok'', ''d4 calc ok'']"
  shows "thrashing_main BIG_N malloc_ok =
    (case find (\<lambda>i. \<not> malloc_ok i) [0, 1, 2, 3] of
       None \<Rightarrow> Inr (0, inits @ calcs) | Some i \<Rightarrow> Inl (Null_access, inits @ take i calcs))"
proof -
  have f: "fill_array BIG_N None = Inl Null_access" by (simp add: fill_array_simps BIG_N_def)
  have "take 2 calcs = [''d1 calc ok'', ''d2 calc ok'']" "take 3 calcs = [''d1 calc ok'', ''d2 calc ok'', ''d3 calc ok'']"
    by (simp_all add: calcs_def)
  then show ?thesis
    by (simp add: thrashing_main_def initBit_def malloc_big_def f fill_array_simps(1) inits_def Let_def)
      (simp add: calcs_def)
qed

lemma initBit_fills:
  assumes "initBit n malloc_ok = Inr (b, out)" and "i < n"
  shows "\<exists>m1 m2 m3 m4. b = \<lparr>d1 = Some m1, d2 = Some m2, d3 = Some m3, d4 = Some m4\<rparr> \<and>
    m1 i = Some (int i) \<and> m2 i = Some (int i) \<and> m3 i = Some (int i) \<and> m4 i = Some (int i)"
  using assms
  by (auto simp: initBit_def malloc_big_def fill_array_simps Let_def split: sum.splits if_splits)

end
