(* ===== verification/Dice.thy ===== *)
theory Dice
  imports C_Strings
begin

text \<open>
  The dice driver of \<open>Lab/Lab 9/dice\<close>: a kernel module with three character devices whose
  \<open>read\<close> throws dice and whose \<open>write\<close> sets how many.

  The state is the array of devices and the module's global variables. The kernel's random
  bytes, the copies from and to user memory, \<open>kstrtol\<close> and the results of the registration
  calls are parameters. A crash is a
  memory access outside an array or a division by zero. The kernel is compiled so that signed
  arithmetic wraps around.
\<close>

section \<open>State\<close>

definition DICE_DEVS :: nat where "DICE_DEVS = 3"
definition DICE_NUM :: int where "DICE_NUM = 2"
definition GEN_SIDES :: int where "GEN_SIDES = 20"
definition TYPE_REGULAR :: int where "TYPE_REGULAR = 11"
definition TYPE_BACKGAMMON :: int where "TYPE_BACKGAMMON = 12"
definition TYPE_GENERIC :: int where "TYPE_GENERIC = 13"
definition MAX_DICE_STR :: nat where "MAX_DICE_STR = 10240"
definition MAX_DICE_IN :: nat where "MAX_DICE_IN = 10"

lemmas dice_consts = DICE_DEVS_def DICE_NUM_def GEN_SIDES_def TYPE_REGULAR_def TYPE_BACKGAMMON_def
  TYPE_GENERIC_def MAX_DICE_STR_def MAX_DICE_IN_def

text \<open>
  The kernel's part of a device: not set up, set up by \<open>cdev_init\<close>, or live under a device
  number. \<open>chrdevs\<close> are the ranges of device numbers that are registered, a major number
  and how many minor numbers from 0.
\<close>

datatype cdev = Cdev_zero | Cdev_ready | Cdev_live int

record dice_dev =
  num :: int
  dice_type :: int
  d_cdev :: cdev

record dice =
  dice_devices :: "dice_dev list"
  dice_num :: int
  gen_sides :: int
  dice_major :: int
  throws :: nat
  chrdevs :: "(int \<times> nat) list"

datatype dice_fault = Buffer_overrun | Division | Bad_size | Outside

text \<open>
  The kernel: the integers \<open>get_random_bytes\<close> yields, whether a copy faults, \<open>kstrtol\<close>
  (its value, or none when it reports an error) and the results of the registration calls.
\<close>

record kernel =
  random_int :: "nat \<Rightarrow> 32 word"
  to_user_fails :: bool
  from_user_fails :: bool
  kstrtol :: "string \<Rightarrow> int option"
  register_region :: "int \<Rightarrow> int"
  alloc_region :: "int \<times> int"
  cdev_add :: "int \<Rightarrow> int"

definition wrap32 :: "int \<Rightarrow> int" where
  "wrap32 v = sint (word_of_int v :: 32 word)"

section \<open>Throwing\<close>

definition roll6 :: "32 word \<Rightarrow> nat" where
  "roll6 r = nat (c_mod (wrap32 (c_mod (sint r) 6 + 12)) 6)"

definition roll_gen :: "int \<Rightarrow> 32 word \<Rightarrow> dice_fault + int" where
  "roll_gen sides r =
     (if sides = 0 \<or> sides = -1 \<and> sint r = - 2147483648 then Inl Division
      else Inr (wrap32 (c_mod (wrap32 (c_mod (sint r) sides + wrap32 (2 * sides))) sides + 1)))"

definition DICE_REG_PATTERN :: "string list list" where
  "DICE_REG_PATTERN =
     [[''|     |  '', ''|     |  '', ''|  o  |  '', ''| o o |  '', ''| o o |  '', ''| o o |  ''],
      [''|  o  |  '', ''| o o |  '', ''|     |  '', ''|     |  '', ''|  o  |  '', ''| o o |  ''],
      [''|     |  '', ''|     |  '', ''| o o |  '', ''| o o |  '', ''| o o |  '', ''| o o |  '']]"

definition DICE_BACKGAMMON :: "string list" where
  "DICE_BACKGAMMON = [''2'', ''4'', ''8'', ''16'', ''32'', ''64'']"

text \<open>
  The calls \<open>err += snprintf(str+err, MAX_DICE_STR, ...)\<close>: the size passed is that of the whole
  array, so a piece that does not fit with its terminating zero is written past the end.
\<close>

fun snprintf_all :: "string list \<Rightarrow> string \<Rightarrow> dice_fault + string" where
  "snprintf_all [] str = Inr str"
| "snprintf_all (p # ps) str =
     (if MAX_DICE_STR \<le> length str + length p then Inl Buffer_overrun
      else snprintf_all ps (str @ p))"

definition regular_pieces :: "nat list \<Rightarrow> string list" where
  "regular_pieces rd =
     map (\<lambda>_. ''-------  '') rd @ [[newline]] @
     map (\<lambda>r. DICE_REG_PATTERN ! 0 ! r) rd @ [[newline]] @
     map (\<lambda>r. DICE_REG_PATTERN ! 1 ! r) rd @ [[newline]] @
     map (\<lambda>r. DICE_REG_PATTERN ! 2 ! r) rd @ [[newline]] @
     map (\<lambda>_. ''-------  '') rd @ [[newline]]"

definition backgammon_pieces :: "nat list \<Rightarrow> string list" where
  "backgammon_pieces rd = map (\<lambda>r. DICE_BACKGAMMON ! r @ '' '') rd @ [[newline]]"

definition generic_pieces :: "int list \<Rightarrow> string list" where
  "generic_pieces rd = map (\<lambda>r. show_int r @ '' '') rd @ [[newline]]"

fun roll_all :: "int \<Rightarrow> 32 word list \<Rightarrow> dice_fault + int list" where
  "roll_all sides [] = Inr []"
| "roll_all sides (r # rs) =
     bindE (roll_gen sides r) (\<lambda>x. bindE (roll_all sides rs) (\<lambda>xs. Inr (x # xs)))"

definition throw_dice :: "kernel \<Rightarrow> dice_dev \<Rightarrow> dice \<Rightarrow> dice_fault + (string \<times> dice)" where
  "throw_dice k dev s =
     (let n = nat (num dev); rs = map (random_int k) [throws s..<throws s + n];
          s' = s\<lparr>throws := throws s + n\<rparr>
      in if dice_type dev = TYPE_REGULAR then
           bindE (snprintf_all (regular_pieces (map roll6 rs)) []) (\<lambda>str. Inr (str, s'))
         else if dice_type dev = TYPE_BACKGAMMON then
           bindE (snprintf_all (backgammon_pieces (map roll6 rs)) []) (\<lambda>str. Inr (str, s'))
         else if dice_type dev = TYPE_GENERIC then
           bindE (roll_all (gen_sides s) rs) (\<lambda>rd.
           bindE (snprintf_all (generic_pieces rd) []) (\<lambda>str. Inr (str, s')))
         else Inr ([], s))"

section \<open>The file operations\<close>

text \<open>
  \<open>dice_open\<close> stores the pointer to the device of the minor number; \<open>f\<close> below is that
  pointer as an index. \<open>dice_release\<close> does nothing.
\<close>

definition dice_open :: "nat \<Rightarrow> int \<times> nat" where
  "dice_open minor = (0, minor)"

definition dice_release :: "dice \<Rightarrow> int \<times> dice" where
  "dice_release s = (0, s)"

definition EFAULT :: int where "EFAULT = 14"
definition EINVAL :: int where "EINVAL = 22"

text \<open>
  \<open>dice_read\<close> returns its result, the bytes copied to the user, the new offset and the new
  state. The offset is signed; its sum with the unsigned \<open>count\<close> is unsigned.
\<close>

definition dice_read ::
  "kernel \<Rightarrow> nat \<Rightarrow> 64 word \<Rightarrow> int \<Rightarrow> dice \<Rightarrow> dice_fault + (int \<times> string \<times> int \<times> dice)" where
  "dice_read k f count offp s =
     (if length (dice_devices s) \<le> f then Inl Outside else
      let dev = dice_devices s ! f; s = s\<lparr>dice_num := num dev\<rparr>
      in if num dev < 0 then Inl Bad_size else
      bindE (throw_dice k dev s) (\<lambda>(str, s).
      let strcount = int (length str) in
      if offp \<ge> strcount then Inr (0, [], offp, s) else
      let count = (if uint (word_of_int offp + count) > strcount then strcount - offp else uint count)
      in if offp < 0 \<and> 0 < count then Inl Outside
         else if to_user_fails k then Inr (- EFAULT, [], offp, s)
         else Inr (count, take (nat count) (drop (nat offp) str), offp + count, s)))"

text \<open>
  \<open>dice_write\<close>: the last byte is replaced by the terminating zero, at index -1 when the
  write is empty; an error of \<open>kstrtol\<close> leaves \<open>tmp_num\<close> at 0.
\<close>

definition dice_write :: "kernel \<Rightarrow> nat \<Rightarrow> string \<Rightarrow> dice \<Rightarrow> dice_fault + (int \<times> dice)" where
  "dice_write k f buff s =
     (if MAX_DICE_IN < length buff then Inr (- EINVAL, s)
      else if from_user_fails k then Inr (- EINVAL, s)
      else if buff = [] then Inl Outside
      else let input_str = takeWhile (\<lambda>c. c \<noteq> CHR 0x00) (butlast buff);
               tmp_num = (case kstrtol k input_str of None \<Rightarrow> 0 | Some v \<Rightarrow> v);
               s = s\<lparr>dice_num := wrap32 tmp_num\<rparr>
           in if length (dice_devices s) \<le> f then Inl Outside
              else Inr (int (length buff),
                    s\<lparr>dice_devices := (dice_devices s)[f := (dice_devices s ! f)\<lparr>num := dice_num s\<rparr>]\<rparr>))"

section \<open>Loading and unloading the module\<close>

definition MKDEV :: "int \<Rightarrow> int \<Rightarrow> int" where
  "MKDEV ma mi = ma * 1048576 + mi"

definition upd_dev :: "nat \<Rightarrow> (dice_dev \<Rightarrow> dice_dev) \<Rightarrow> dice \<Rightarrow> dice" where
  "upd_dev i f s = s\<lparr>dice_devices := (dice_devices s)[i := f (dice_devices s ! i)]\<rparr>"

text \<open>An error of \<open>cdev_add\<close> is only printed.\<close>

definition dice_setup_cdev :: "kernel \<Rightarrow> nat \<Rightarrow> dice \<Rightarrow> dice" where
  "dice_setup_cdev k i s =
     (let devno = MKDEV (dice_major s) (int i);
          s = upd_dev i (\<lambda>d. d\<lparr>d_cdev := Cdev_ready\<rparr>) s;
          err = cdev_add k devno
      in if err \<noteq> 0 then s else upd_dev i (\<lambda>d. d\<lparr>d_cdev := Cdev_live devno\<rparr>) s)"

text \<open>\<open>dice_initialization\<close>: a dynamic major number unless one is set.\<close>

definition dice_initialization :: "kernel \<Rightarrow> dice \<Rightarrow> int \<times> dice" where
  "dice_initialization k s =
     (let (reg_result, s) =
            (if dice_major s \<noteq> 0 then
               let r = register_region k (dice_major s)
               in (r, if r < 0 then s else s\<lparr>chrdevs := (dice_major s, DICE_DEVS) # chrdevs s\<rparr>)
             else
               let (r, ma) = alloc_region k; s = s\<lparr>dice_major := ma\<rparr>
               in (r, if r < 0 then s else s\<lparr>chrdevs := (ma, DICE_DEVS) # chrdevs s\<rparr>))
      in if reg_result < 0 then (reg_result, s)
         else let s = (if dice_major s = 0 then s\<lparr>dice_major := reg_result\<rparr> else s);
                  s = fold (dice_setup_cdev k) [0..<DICE_DEVS] s;
                  s = upd_dev 0 (\<lambda>d. d\<lparr>dice_type := TYPE_REGULAR\<rparr>) s;
                  s = upd_dev 1 (\<lambda>d. d\<lparr>dice_type := TYPE_BACKGAMMON\<rparr>) s;
                  s = upd_dev 2 (\<lambda>d. d\<lparr>dice_type := TYPE_GENERIC\<rparr>) s;
                  s = upd_dev 0 (\<lambda>d. d\<lparr>num := dice_num s\<rparr>) s;
                  s = upd_dev 1 (\<lambda>d. d\<lparr>num := dice_num s\<rparr>) s;
                  s = upd_dev 2 (\<lambda>d. d\<lparr>num := dice_num s\<rparr>) s
              in (0, s))"

text \<open>
  \<open>dice_cleanup\<close>. \<open>unregister_chrdev\<close> gives back a range of 256 numbers, which the module
  never registered; giving back a range that is not registered does nothing.
\<close>

definition cdev_del :: "nat \<Rightarrow> dice \<Rightarrow> dice" where
  "cdev_del i s = upd_dev i (\<lambda>d. d\<lparr>d_cdev := Cdev_ready\<rparr>) s"

definition unregister_region :: "int \<Rightarrow> nat \<Rightarrow> dice \<Rightarrow> dice" where
  "unregister_region ma n s = s\<lparr>chrdevs := remove1 (ma, n) (chrdevs s)\<rparr>"

definition dice_cleanup :: "dice \<Rightarrow> dice" where
  "dice_cleanup s =
     (let s = fold cdev_del [0..<DICE_DEVS] s;
          s = unregister_region (dice_major s) 256 s
      in unregister_region (dice_major s) DICE_DEVS s)"

section \<open>What a throw looks like\<close>

lemma wrap32_id: "- 2147483648 \<le> v \<Longrightarrow> v < 2147483648 \<Longrightarrow> wrap32 v = v"
  by (simp add: wrap32_def sint_sbintrunc' signed_take_bit_int_eq_self)

lemma roll6_less: "roll6 r < 6"
proof -
  have b: "- 6 < c_mod (sint r) 6" "c_mod (sint r) 6 < 6" using c_mod_bounds [of 6] by simp_all
  then have "wrap32 (c_mod (sint r) 6 + 12) = c_mod (sint r) 6 + 12" by (intro wrap32_id) simp_all
  then show ?thesis using b by (simp add: roll6_def c_mod_nonneg)
qed

lemma snprintf_all_fits:
  "length str < MAX_DICE_STR \<Longrightarrow>
   snprintf_all ps str =
     (if length str + length (concat ps) < MAX_DICE_STR then Inr (str @ concat ps) else Inl Buffer_overrun)"
  by (induction ps arbitrary: str) auto

lemma pattern_length: "i < 3 \<Longrightarrow> r < 6 \<Longrightarrow> length (DICE_REG_PATTERN ! i ! r) = 9"
proof -
  assume "i < 3" "r < 6"
  then have "i \<in> {0, 1, 2}" "r \<in> {0, 1, 2, 3, 4, 5}" by auto
  then show ?thesis by (auto simp: DICE_REG_PATTERN_def)
qed

lemma concat_const_length: "(\<And>x. x \<in> set xs \<Longrightarrow> length (f x) = c) \<Longrightarrow> length (concat (map f xs)) = c * length xs"
  by (induction xs) auto

lemma regular_length:
  assumes "\<forall>r \<in> set rd. r < 6"
  shows "length (concat (regular_pieces rd)) = 45 * length rd + 5"
  using assms concat_const_length [of rd "\<lambda>r. DICE_REG_PATTERN ! 0 ! r" 9]
    concat_const_length [of rd "\<lambda>r. DICE_REG_PATTERN ! 1 ! r" 9]
    concat_const_length [of rd "\<lambda>r. DICE_REG_PATTERN ! 2 ! r" 9]
    concat_const_length [of rd "\<lambda>_. ''-------  ''" 9]
  by (simp add: regular_pieces_def pattern_length)

definition rolls :: "kernel \<Rightarrow> nat \<Rightarrow> nat \<Rightarrow> nat list" where
  "rolls k t n = map (\<lambda>i. roll6 (random_int k i)) [t..<t + n]"

lemma rolls_props: "\<forall>r \<in> set (rolls k t n). r < 6" "length (rolls k t n) = n"
  by (auto simp: rolls_def roll6_less)

lemma throw_regular:
  assumes "num dev = int n" and "dice_type dev = TYPE_REGULAR"
  shows "throw_dice k dev s =
    (if n \<le> 227 then Inr (concat (regular_pieces (rolls k (throws s) n)), s\<lparr>throws := throws s + n\<rparr>)
     else Inl Buffer_overrun)"
proof -
  have "snprintf_all (regular_pieces (rolls k (throws s) n)) [] =
      (if n \<le> 227 then Inr (concat (regular_pieces (rolls k (throws s) n))) else Inl Buffer_overrun)"
    using snprintf_all_fits [of "[]" "regular_pieces (rolls k (throws s) n)"]
      regular_length [OF rolls_props(1), of k "throws s" n]
    by (simp add: MAX_DICE_STR_def rolls_props(2))
  then show ?thesis using assms by (simp add: throw_dice_def Let_def rolls_def o_def)
qed

section \<open>Loading\<close>

lemma upd_dev_simps [simp]:
  "length (dice_devices (upd_dev i f s)) = length (dice_devices s)"
  "dice_major (upd_dev i f s) = dice_major s" "dice_num (upd_dev i f s) = dice_num s"
  "gen_sides (upd_dev i f s) = gen_sides s" "chrdevs (upd_dev i f s) = chrdevs s"
  "throws (upd_dev i f s) = throws s"
  by (simp_all add: upd_dev_def)

lemma devs_lists: "[0..<DICE_DEVS] = [0, 1, 2]" "replicate DICE_DEVS x = [x, x, x]"
  by (simp_all add: DICE_DEVS_def upt_rec numeral_3_eq_3)

section \<open>Properties\<close>

text \<open>
  C40. Reading the regular dice. With up to 227 dice a read from the start with a large enough
  buffer returns the picture of the throw, 45 bytes per die and 5 line ends, each face one of
  the six patterns, and the next read, whatever it throws, returns the end of the file. With
  228 dice or more, which a write can ask for, the picture does not fit the array of 10240
  bytes, and \<open>snprintf\<close> writes past its end.
\<close>

theorem dice_read_regular:
  assumes f: "f < length (dice_devices s)" "num (dice_devices s ! f) = int n"
    "dice_type (dice_devices s ! f) = TYPE_REGULAR"
    and u: "\<not> to_user_fails k" and c: "45 * int n + 5 \<le> uint count"
  shows "if n \<le> 227
    then \<exists>rd s'. dice_read k f count 0 s = Inr (45 * int n + 5, concat (regular_pieces rd), 45 * int n + 5, s') \<and>
      length rd = n \<and> (\<forall>r \<in> set rd. r < 6) \<and>
      (\<forall>k' count'. \<exists>s''. dice_read k' f count' (45 * int n + 5) s' = Inr (0, [], 45 * int n + 5, s''))
    else dice_read k f count 0 s = Inl Buffer_overrun"
proof (cases "n \<le> 227")
  case False
  then show ?thesis using f throw_regular [OF f(2,3), of k] by (simp add: dice_read_def Let_def)
next
  case True
  let ?s = "s\<lparr>dice_num := int n\<rparr>" and ?rd = "rolls k (throws s) n"
  let ?s' = "?s\<lparr>throws := throws s + n\<rparr>"
  have len: "length (concat (regular_pieces (rolls k' t n))) = 45 * n + 5" for k' t
    using regular_length [OF rolls_props(1)] by (simp add: rolls_props(2))
  obtain str where str: "str = concat (regular_pieces ?rd)" "length str = 45 * n + 5" using len by blast
  have "throw_dice k (dice_devices s ! f) ?s = Inr (str, ?s')"
    using True throw_regular [OF f(2,3), of k ?s] by (simp add: str(1))
  moreover have "str \<noteq> []" "nat (45 * int n + 5) = 45 * n + 5" using str(2) by (auto simp: nat_eq_iff)
  ultimately have "dice_read k f count 0 s = Inr (45 * int n + 5, str, 45 * int n + 5, ?s')"
    using f u c str(2) by (auto simp: dice_read_def Let_def)
  moreover have "\<exists>s''. dice_read k' f count' (45 * int n + 5) ?s' = Inr (0, [], 45 * int n + 5, s'')" for k' count'
    using f True throw_regular [OF f(2,3), of k' "?s'\<lparr>dice_num := int n\<rparr>"] len [of k' "throws s + n"]
    by (simp add: dice_read_def Let_def)
  ultimately show ?thesis using True rolls_props [of k "throws s" n] unfolding str(1) by (simp only: if_True) blast
qed

definition sample_dice :: dice where
  "sample_dice = \<lparr>dice_devices = [\<lparr>num = 2, dice_type = TYPE_REGULAR, d_cdev = Cdev_zero\<rparr>,
       \<lparr>num = 1, dice_type = TYPE_BACKGAMMON, d_cdev = Cdev_zero\<rparr>],
     dice_num = 2, gen_sides = GEN_SIDES, dice_major = 240, throws = 0, chrdevs = []\<rparr>"

definition sample_kernel :: kernel where
  "sample_kernel = \<lparr>random_int = of_nat, to_user_fails = False, from_user_fails = False,
     kstrtol = (\<lambda>s. if s = ''7'' then Some 7 else None), register_region = (\<lambda>_. 0), alloc_region = (0, 240), cdev_add = (\<lambda>_. 0)\<rparr>"

theorem dice_read_regular_witness:
  "\<exists>rd s'. dice_read sample_kernel 0 4096 0 sample_dice = Inr (95, concat (regular_pieces rd), 95, s') \<and> length rd = 2"
  using dice_read_regular [of 0 sample_dice 2 sample_kernel 4096]
  by (auto simp: sample_dice_def sample_kernel_def)

text \<open>
  Every die shows a face. The reduction of a random \<open>int\<close>, negative ones included, gives a
  regular face number from 0 to 5, and for a number of sides from 1 to 715827882 a generic
  face from 1 to that number, each of them possible.
\<close>

theorem dice_faces_in_range:
  assumes "1 \<le> sides" and "sides \<le> 715827882"
  shows "roll6 r < 6 \<and> (\<exists>x. roll_gen sides r = Inr x \<and> 1 \<le> x \<and> x \<le> sides) \<and>
    (\<forall>x. 1 \<le> x \<and> x \<le> sides \<longrightarrow> roll_gen sides (word_of_int (x - 1)) = Inr x)"
proof -
  have gen: "roll_gen sides q = Inr (c_mod (c_mod (sint q) sides + 2 * sides) sides + 1)"
    "0 \<le> c_mod (sint q) sides + 2 * sides" for q
  proof -
    have b: "- sides < c_mod (sint q) sides" "c_mod (sint q) sides < sides" using c_mod_bounds [of sides] assms by simp_all
    then show n: "0 \<le> c_mod (sint q) sides + 2 * sides" by simp
    have w: "wrap32 (2 * sides) = 2 * sides" "wrap32 (c_mod (sint q) sides + 2 * sides) = c_mod (sint q) sides + 2 * sides"
      using b assms by (auto intro!: wrap32_id)
    have m: "c_mod (c_mod (sint q) sides + 2 * sides) sides = (c_mod (sint q) sides + 2 * sides) mod sides"
      using n assms by (intro c_mod_nonneg) simp_all
    then have "0 \<le> c_mod (c_mod (sint q) sides + 2 * sides) sides" "c_mod (c_mod (sint q) sides + 2 * sides) sides < sides"
      using assms by simp_all
    then have "wrap32 (c_mod (c_mod (sint q) sides + 2 * sides) sides + 1) = c_mod (c_mod (sint q) sides + 2 * sides) sides + 1"
      using assms by (intro wrap32_id) simp_all
    then show "roll_gen sides q = Inr (c_mod (c_mod (sint q) sides + 2 * sides) sides + 1)"
      using w assms by (simp add: roll_gen_def)
  qed
  have m: "c_mod (c_mod (sint q) sides + 2 * sides) sides = (c_mod (sint q) sides + 2 * sides) mod sides" for q :: "32 word"
    using gen(2) [of q] assms by (intro c_mod_nonneg) simp_all
  have "roll_gen sides (word_of_int (x - 1)) = Inr x" if "1 \<le> x" "x \<le> sides" for x
  proof -
    have "sint (word_of_int (x - 1) :: 32 word) = x - 1"
      using that assms wrap32_id [of "x - 1"] by (simp add: wrap32_def)
    then show ?thesis using that assms unfolding gen(1) m by (simp add: c_mod_nonneg)
  qed
  moreover have "0 \<le> (c_mod (sint r) sides + 2 * sides) mod sides" "(c_mod (sint r) sides + 2 * sides) mod sides < sides"
    using assms by simp_all
  ultimately show ?thesis using roll6_less [of r] unfolding gen(1) m by auto
qed

theorem dice_faces_in_range_witness: "roll_gen 20 19 = Inr 20"
  using dice_faces_in_range [of 20 0] by (auto dest!: spec [of _ 20])

text \<open>
  Reading backgammon dice to the end can show two throws. Every read throws again, and
  the lengths of two throws differ, so a program that reads until the end of file, like
  \<open>cat\<close>, can get the end of a longer second throw after the first one.
\<close>

theorem dice_backgammon_mixes_throws:
  "\<exists>s1 s2. dice_read sample_kernel 1 4096 0 (sample_dice\<lparr>throws := 2\<rparr>) = Inr (3, ''8 '' @ [newline], 3, s1) \<and>
     dice_read sample_kernel 1 4096 3 s1 = Inr (1, [newline], 4, s2)"
proof -
  have r: "roll6 2 = 2" "roll6 3 = 3" by (simp_all add: roll6_def c_mod_def c_div_def wrap32_def)
  show ?thesis
    by (simp add: dice_read_def throw_dice_def sample_kernel_def sample_dice_def dice_consts backgammon_pieces_def
        r DICE_BACKGAMMON_def)
qed

text \<open>
  Setting the number of dice. A write of 1 to 10 bytes stores the number its text without
  the last byte stands for, in the device and in the global variable, and nothing else
  changes; text that is not a number stores 0, and is still reported as written.
\<close>

theorem dice_write_sets_number:
  assumes "f < length (dice_devices s)" and "buff \<noteq> []" and "length buff \<le> 10" and "\<not> from_user_fails k"
    and "CHR 0x00 \<notin> set buff"
  shows "let v = wrap32 (case kstrtol k (butlast buff) of None \<Rightarrow> 0 | Some v \<Rightarrow> v) in
    dice_write k f buff s = Inr (int (length buff),
      s\<lparr>dice_num := v, dice_devices := (dice_devices s)[f := (dice_devices s ! f)\<lparr>num := v\<rparr>]\<rparr>)"
proof -
  have "takeWhile (\<lambda>c. c \<noteq> CHR 0x00) (butlast buff) = butlast buff"
    using assms(5) by (auto simp: takeWhile_eq_all_conv dest: in_set_butlastD)
  then show ?thesis
    unfolding dice_write_def Let_def using assms(1-4) by (simp add: MAX_DICE_IN_def del: takeWhile_eq_all_conv)
qed

theorem dice_write_sets_number_witness:
  "\<exists>s'. dice_write sample_kernel 0 (''7'' @ [newline]) sample_dice = Inr (2, s') \<and> num (dice_devices s' ! 0) = 7"
  using dice_write_sets_number [of 0 sample_dice "''7'' @ [newline]" sample_kernel]
  by (simp add: sample_dice_def sample_kernel_def wrap32_def)

text \<open>
  Loading and unloading the module. With a major number free, loading succeeds, gives the
  three devices their types and the initial number of dice, registers one range of numbers,
  and makes exactly the devices live whose \<open>cdev_add\<close> succeeds; that it fails for some, even
  for all of them, is not reported. Unloading makes every device unreachable and gives back
  exactly the range that was registered.
\<close>

theorem dice_load_unload:
  assumes "length (dice_devices s) = DICE_DEVS" and "dice_major s = 0"
    and "alloc_region k = (0, ma)" and "ma \<noteq> 0"
  shows "\<exists>s1. dice_initialization k s = (0, s1) \<and> dice_major s1 = ma \<and>
    chrdevs s1 = (ma, DICE_DEVS) # chrdevs s \<and>
    map dice_type (dice_devices s1) = [TYPE_REGULAR, TYPE_BACKGAMMON, TYPE_GENERIC] \<and>
    map num (dice_devices s1) = replicate DICE_DEVS (dice_num s) \<and>
    map d_cdev (dice_devices s1) =
      map (\<lambda>i. if cdev_add k (MKDEV ma (int i)) = 0 then Cdev_live (MKDEV ma (int i)) else Cdev_ready) [0..<DICE_DEVS] \<and>
    map d_cdev (dice_devices (dice_cleanup s1)) = replicate DICE_DEVS Cdev_ready \<and>
    chrdevs (dice_cleanup s1) = remove1 (ma, 256) (chrdevs s)"
proof -
  obtain a b c where d: "dice_devices s = [a, b, c]"
    using assms(1) by (auto simp: DICE_DEVS_def length_Suc_conv numeral_3_eq_3)
  show ?thesis
    using assms(2-) d
    by (simp add: dice_initialization_def dice_cleanup_def dice_setup_cdev_def cdev_del_def unregister_region_def
        devs_lists upd_dev_def numeral_2_eq_2 Let_def)
qed

theorem dice_load_unload_witness:
  "\<exists>s1. dice_initialization (sample_kernel\<lparr>cdev_add := (\<lambda>n. if n = MKDEV 240 1 then -16 else 0)\<rparr>)
      (sample_dice\<lparr>dice_major := 0, dice_devices := replicate 3 \<lparr>num = 0, dice_type = 0, d_cdev = Cdev_zero\<rparr>\<rparr>) = (0, s1) \<and>
    map d_cdev (dice_devices s1) = [Cdev_live (MKDEV 240 0), Cdev_ready, Cdev_live (MKDEV 240 2)] \<and>
    chrdevs (dice_cleanup s1) = []"
  using dice_load_unload [of "sample_dice\<lparr>dice_major := 0,
      dice_devices := replicate 3 \<lparr>num = 0, dice_type = 0, d_cdev = Cdev_zero\<rparr>\<rparr>"
    "sample_kernel\<lparr>cdev_add := (\<lambda>n. if n = MKDEV 240 1 then -16 else 0)\<rparr>" 240]
  by (auto simp: sample_dice_def sample_kernel_def DICE_DEVS_def upt_rec MKDEV_def)

end
