(* ===== verification/Sort_Cmp.thy ===== *)
theory Sort_Cmp
  imports Sort_List "HOL-Library.List_Lexorder" "HOL-Library.Multiset"
begin

text \<open>
  Sorting the list: \<open>sort\<close> and its comparators, the same code in \<open>Homework/h3/ex2.c\<close>,
  \<open>Lab/Lab 5/code/sort.c\<close> and the two plugins of \<open>Lab/Lab 6/cmplx-sort\<close>.

  A comparator reads the data of two nodes. The integer comparators subtract, and a signed
  overflow is a crash; the double comparators convert a floating point difference to
  \<open>int\<close>; the string comparators return the sign of \<open>strcmp\<close>; \<open>rnd\<close> asks \<open>rand\<close>,
  a parameter that steps a generator state. The locale \<open>comparator\<close> is what \<open>sort\<close>
  needs of a comparator to be a sorting algorithm.
\<close>

section \<open>Floating point subtraction\<close>

text \<open>
  IEEE 754 double precision: the exact difference is rounded to 53 bits, ties to even. A
  difference of two doubles is a multiple of the smallest subnormal, so gradual underflow
  never rounds it.
\<close>

fun bitlen :: "nat \<Rightarrow> nat" where
  "bitlen n = (if n = 0 then 0 else Suc (bitlen (n div 2)))"

declare bitlen.simps [simp del]

definition pow2 :: "int \<Rightarrow> rat" where
  "pow2 k = (if 0 \<le> k then 2 ^ nat k else 1 / 2 ^ nat (- k))"

text \<open>The exponent \<open>k\<close> with \<open>2^k \<le> q < 2^(k+1)\<close> of a positive rational.\<close>

definition rat_exp :: "rat \<Rightarrow> int" where
  "rat_exp q =
     (let (a, b) = quotient_of q; k = int (bitlen (nat a)) - int (bitlen (nat b))
      in if pow2 k \<le> q then k else k - 1)"

definition round_even :: "rat \<Rightarrow> int" where
  "round_even q =
     (let f = \<lfloor>q\<rfloor>; r = q - of_int f
      in if r < 1 / 2 \<or> r = 1 / 2 \<and> even f then f else f + 1)"

definition fround :: "rat \<Rightarrow> rat" where
  "fround q =
     (if q = 0 then 0
      else let e = rat_exp \<bar>q\<bar> - 52 in of_int (round_even (q / pow2 e)) * pow2 e)"

fun double_minus :: "double \<Rightarrow> double \<Rightarrow> double" where
  "double_minus (Finite a) (Finite b) =
     (let r = fround (a - b) in if \<bar>r\<bar> < 2 ^ 1024 then Finite r else Infinite (r < 0))"
| "double_minus (Infinite s) (Finite b) = Infinite s"
| "double_minus (Finite a) (Infinite s) = Infinite (\<not> s)"
| "double_minus (Infinite s) (Infinite t) = (if s = t then Not_a_number else Infinite s)"
| "double_minus _ _ = Not_a_number"

text \<open>Conversion to \<open>int\<close> truncates; outside the range it is undefined.\<close>

definition double_to_int :: "double \<Rightarrow> crash + int" where
  "double_to_int x =
     (case x of
        Finite q \<Rightarrow> let t = (if 0 \<le> q then \<lfloor>q\<rfloor> else \<lceil>q\<rceil>) in if in_int t then Inr t else Inl Overflow
      | _ \<Rightarrow> Inl Overflow)"

section \<open>Comparators\<close>

definition DATA_CHAR :: int where "DATA_CHAR = 0"
definition DATA_INT :: int where "DATA_INT = 1"
definition DATA_DOUBLE :: int where "DATA_DOUBLE = 2"
definition DATA_NULL :: int where "DATA_NULL = -1"
definition SORT_RAND :: int where "SORT_RAND = 0"
definition SORT_INC :: int where "SORT_INC = 1"
definition SORT_DEC :: int where "SORT_DEC = 2"
definition SORT_NULL :: int where "SORT_NULL = -1"

lemmas type_defs = DATA_CHAR_def DATA_INT_def DATA_DOUBLE_def DATA_NULL_def SORT_RAND_def
  SORT_INC_def SORT_DEC_def SORT_NULL_def

record sort_type =
  sortType :: int
  dataType :: int

definition get_int :: "heap \<Rightarrow> ptr \<Rightarrow> crash + int" where
  "get_int h p = bindE (load h p) (\<lambda>c. case c of Int_cell v \<Rightarrow> Inr (sint v) | _ \<Rightarrow> Inl Wild_access)"

definition get_double :: "heap \<Rightarrow> ptr \<Rightarrow> crash + double" where
  "get_double h p = bindE (load h p) (\<lambda>c. case c of Double_cell v \<Rightarrow> Inr v | _ \<Rightarrow> Inl Wild_access)"

definition codes :: "string \<Rightarrow> int list" where
  "codes s = map (\<lambda>c. of_char c) s"

definition strcmp :: "string \<Rightarrow> string \<Rightarrow> int" where
  "strcmp s t = (if codes s < codes t then -1 else if s = t then 0 else 1)"

definition int_minus :: "int \<Rightarrow> int \<Rightarrow> crash + int" where
  "int_minus v w = (if in_int (v - w) then Inr (v - w) else Inl Overflow)"

definition node_data :: "heap \<Rightarrow> nat \<Rightarrow> crash + ptr" where
  "node_data h a = bindE (get_node h (Some a)) (\<lambda>n. Inr (data n))"

definition int_inc :: "heap \<Rightarrow> nat \<Rightarrow> nat \<Rightarrow> crash + int" where
  "int_inc h a b =
     bindE (node_data h a) (\<lambda>p. bindE (get_int h p) (\<lambda>v.
     bindE (node_data h b) (\<lambda>q. bindE (get_int h q) (\<lambda>w. int_minus v w))))"

definition int_dec :: "heap \<Rightarrow> nat \<Rightarrow> nat \<Rightarrow> crash + int" where
  "int_dec h a b =
     bindE (node_data h b) (\<lambda>q. bindE (get_int h q) (\<lambda>w.
     bindE (node_data h a) (\<lambda>p. bindE (get_int h p) (\<lambda>v. int_minus w v))))"

definition double_inc :: "heap \<Rightarrow> nat \<Rightarrow> nat \<Rightarrow> crash + int" where
  "double_inc h a b =
     bindE (node_data h a) (\<lambda>p. bindE (get_double h p) (\<lambda>v.
     bindE (node_data h b) (\<lambda>q. bindE (get_double h q) (\<lambda>w. double_to_int (double_minus v w)))))"

definition double_dec :: "heap \<Rightarrow> nat \<Rightarrow> nat \<Rightarrow> crash + int" where
  "double_dec h a b =
     bindE (node_data h b) (\<lambda>q. bindE (get_double h q) (\<lambda>w.
     bindE (node_data h a) (\<lambda>p. bindE (get_double h p) (\<lambda>v. double_to_int (double_minus w v)))))"

definition char_inc :: "heap \<Rightarrow> nat \<Rightarrow> nat \<Rightarrow> crash + int" where
  "char_inc h a b =
     bindE (node_data h a) (\<lambda>p. bindE (get_str h p) (\<lambda>v.
     bindE (node_data h b) (\<lambda>q. bindE (get_str h q) (\<lambda>w. Inr (strcmp v w)))))"

definition char_dec :: "heap \<Rightarrow> nat \<Rightarrow> nat \<Rightarrow> crash + int" where
  "char_dec h a b =
     bindE (node_data h b) (\<lambda>q. bindE (get_str h q) (\<lambda>w.
     bindE (node_data h a) (\<lambda>p. bindE (get_str h p) (\<lambda>v. Inr (strcmp w v)))))"

definition rnd :: "('g \<Rightarrow> int \<times> 'g) \<Rightarrow> 'g \<Rightarrow> int \<times> 'g" where
  "rnd rand g = (case rand g of (r, g') \<Rightarrow> (c_mod r 2 * 2 - 1, g'))"

text \<open>The table \<open>cmp[3][3]\<close>: one row per data type, one column per sorting type.\<close>

definition cmp ::
  "('g \<Rightarrow> int \<times> 'g) \<Rightarrow> heap \<Rightarrow> sort_type \<Rightarrow> nat \<Rightarrow> nat \<Rightarrow> 'g \<Rightarrow> crash + (int \<times> 'g)" where
  "cmp rand h t a b g =
     (if dataType t \<notin> {0, 1, 2} \<or> sortType t \<notin> {0, 1, 2} then Inl Outside_array
      else if sortType t = SORT_RAND then Inr (rnd rand g)
      else bindE
        (if dataType t = DATA_CHAR
         then (if sortType t = SORT_INC then char_inc h a b else char_dec h a b)
         else if dataType t = DATA_INT
         then (if sortType t = SORT_INC then int_inc h a b else int_dec h a b)
         else (if sortType t = SORT_INC then double_inc h a b else double_dec h a b))
        (\<lambda>r. Inr (r, g)))"

section \<open>The sort\<close>

text \<open>The list copied to the array \<open>src\<close>, which has \<open>n\<close> places.\<close>

fun collect :: "nat \<Rightarrow> heap \<Rightarrow> nat \<Rightarrow> ptr \<Rightarrow> nat list \<Rightarrow> crash + nat list" where
  "collect fuel h n None src = Inr src"
| "collect 0 h n (Some a) src = Inl Endless"
| "collect (Suc fuel) h n (Some a) src =
     (if n \<le> length src then Inl Outside_array
      else bindE (get_node h (Some a)) (\<lambda>x. collect fuel h n (next_node x) (src @ [a])))"

definition src_get :: "nat list \<Rightarrow> nat \<Rightarrow> crash + nat" where
  "src_get src i = (if i < length src then Inr (src ! i) else Inl Wild_access)"

text \<open>The inner loop, with the place after \<open>j\<close> as its argument.\<close>

fun sift ::
  "(nat \<Rightarrow> nat \<Rightarrow> 'g \<Rightarrow> crash + (int \<times> 'g)) \<Rightarrow> nat list \<Rightarrow> nat \<Rightarrow> nat \<Rightarrow> 'g \<Rightarrow> crash + (nat list \<times> 'g)"
where
  "sift c src flag 0 g = Inr (src[0 := flag], g)"
| "sift c src flag (Suc j) g =
     bindE (c (src ! j) flag g) (\<lambda>(r, g).
       if 0 \<le> r then sift c (src[Suc j := src ! j]) flag j g else Inr (src[Suc j := flag], g))"

fun isort ::
  "(nat \<Rightarrow> nat \<Rightarrow> 'g \<Rightarrow> crash + (int \<times> 'g)) \<Rightarrow> nat list \<Rightarrow> nat list \<Rightarrow> 'g \<Rightarrow> crash + (nat list \<times> 'g)"
where
  "isort c [] src g = Inr (src, g)"
| "isort c (i # is) src g =
     bindE (src_get src i) (\<lambda>flag.
     bindE (sift c src flag i g) (\<lambda>(src, g). isort c is src g))"

text \<open>The loop \<open>src[i]->next=src[i+1]\<close>; \<open>put\<close> assigns a \<open>next\<close> field.\<close>

fun relink :: "(nat \<Rightarrow> ptr \<Rightarrow> 'h \<Rightarrow> crash + 'h) \<Rightarrow> nat list \<Rightarrow> nat list \<Rightarrow> 'h \<Rightarrow> crash + 'h" where
  "relink put src [] h = Inr h"
| "relink put src (i # is) h =
     bindE (src_get src i) (\<lambda>a. bindE (src_get src (i + 1)) (\<lambda>b.
     bindE (put a (Some b) h) (\<lambda>h. relink put src is h)))"

definition sort_c ::
  "('g \<Rightarrow> int \<times> 'g) \<Rightarrow> sort_type \<Rightarrow> clist \<Rightarrow> heap \<Rightarrow> 'g \<Rightarrow> crash + (clist \<times> heap \<times> 'g)" where
  "sort_c rand t l h g =
     (if len l = 0 then Inr (l, h, g) else
      let n = nat (len l) in
      bindE (collect (Suc (brk h)) h n (head l) []) (\<lambda>src.
      bindE (isort (cmp rand h t) [1..<n] src g) (\<lambda>(src, g).
      bindE (src_get src 0) (\<lambda>a.
      bindE (relink put_next src [0..<n - 1] h) (\<lambda>h.
      bindE (src_get src (n - 1)) (\<lambda>z.
      bindE (put_next z None h) (\<lambda>h. Inr (l\<lparr>head := Some a\<rparr>, h, g))))))))"

section \<open>What a comparator has to be\<close>

locale comparator =
  fixes c :: "nat \<Rightarrow> nat \<Rightarrow> 'g \<Rightarrow> crash + (int \<times> 'g)" and ord_key :: "nat \<Rightarrow> 'k::linorder" and D :: "nat set"
  assumes result: "a \<in> D \<Longrightarrow> b \<in> D \<Longrightarrow> \<exists>r. c a b g = Inr (r, g) \<and> (0 \<le> r \<longleftrightarrow> ord_key b \<le> ord_key a)"
begin

lemma sift_step:
  assumes "set ys \<subseteq> D" and "x \<in> D"
  shows "sift c (ys @ w # r) x (length ys) g =
    Inr (rev (dropWhile (\<lambda>y. ord_key x \<le> ord_key y) (rev ys)) @
         x # rev (takeWhile (\<lambda>y. ord_key x \<le> ord_key y) (rev ys)) @ r, g)"
  using assms(1)
proof (induction ys arbitrary: w r rule: rev_induct)
  case Nil
  then show ?case by simp
next
  case (snoc y ys)
  obtain v where v: "c y x g = Inr (v, g)" "0 \<le> v \<longleftrightarrow> ord_key x \<le> ord_key y"
    using result [of y x g] snoc.prems assms(2) by auto
  have upd: "(ys @ y # w # r)[Suc (length ys) := z] = ys @ y # z # r" for z
    by (simp add: list_update_append)
  show ?case
    using v snoc.IH [of y "y # r"] snoc.prems by (auto simp: nth_append upd list_update_append)
qed

lemma back_insert:
  "sorted (map ord_key ys) \<Longrightarrow>
   rev (dropWhile (\<lambda>y. ord_key x \<le> ord_key y) (rev ys)) @
   x # rev (takeWhile (\<lambda>y. ord_key x \<le> ord_key y) (rev ys)) = insort_key ord_key x ys"
proof (induction ys)
  case Nil
  then show ?case by simp
next
  case (Cons y ys)
  show ?case
  proof (cases "ord_key x \<le> ord_key y")
    case True
    then have "\<forall>z \<in> set ys. ord_key x \<le> ord_key z" using Cons.prems by auto
    with True have "takeWhile (\<lambda>y. ord_key x \<le> ord_key y) (rev (y # ys)) = rev (y # ys)"
      "dropWhile (\<lambda>y. ord_key x \<le> ord_key y) (rev (y # ys)) = []"
      by (auto simp: takeWhile_eq_all_conv dropWhile_eq_Nil_conv)
    with True show ?thesis by (simp only: rev.simps rev_rev_ident append_Nil insort_key.simps if_True) simp
  next
    case False
    then have "dropWhile (\<lambda>y. ord_key x \<le> ord_key y) (rev ys @ [y]) = dropWhile (\<lambda>y. ord_key x \<le> ord_key y) (rev ys) @ [y]"
      "takeWhile (\<lambda>y. ord_key x \<le> ord_key y) (rev ys @ [y]) = takeWhile (\<lambda>y. ord_key x \<le> ord_key y) (rev ys)"
      by (simp_all add: dropWhile_append3 takeWhile_tail)
    with False Cons show ?thesis by simp
  qed
qed

lemma isort_from:
  assumes "set ys \<subseteq> D" and "set zs \<subseteq> D" and "sorted (map ord_key ys)"
  shows "isort c [length ys..<length ys + length zs] (ys @ zs) g = Inr (fold (insort_key ord_key) zs ys, g)"
  using assms
proof (induction zs arbitrary: ys)
  case Nil
  then show ?case by simp
next
  case (Cons z zs)
  have "sift c (ys @ z # zs) z (length ys) g = Inr (insort_key ord_key z ys @ zs, g)"
    using sift_step [of ys z z zs g] back_insert [OF Cons.prems(3), of z] Cons.prems by simp
  moreover have "isort c [length (insort_key ord_key z ys)..<length (insort_key ord_key z ys) + length zs]
      (insort_key ord_key z ys @ zs) g = Inr (fold (insort_key ord_key) zs (insort_key ord_key z ys), g)"
    using Cons.prems by (intro Cons.IH) (auto simp: set_insort_key sorted_insort_key)
  moreover have "[length ys..<length ys + length (z # zs)] =
      length ys # [length (insort_key ord_key z ys)..<length (insort_key ord_key z ys) + length zs]"
    by (subst upt_conv_Cons) simp_all
  ultimately show ?case
    by (simp only: isort.simps fold.simps) (simp add: src_get_def nth_append)
qed

text \<open>Equal elements end up in the opposite of their original order.\<close>

lemma isort_sorts:
  assumes "set xs \<subseteq> D" and "xs \<noteq> []"
  shows "isort c [1..<length xs] xs g = Inr (sort_key ord_key (rev xs), g)"
proof -
  obtain x zs where xs: "xs = x # zs" using assms(2) by (cases xs) auto
  have "isort c [1..<length xs] xs g = Inr (fold (insort_key ord_key) zs [x], g)"
    using isort_from [of "[x]" zs g] assms(1) xs by simp
  then show ?thesis using xs by (simp add: sort_key_def foldr_conv_fold)
qed

end

section \<open>The comparators are comparators\<close>

text \<open>The value a node's data has under the three data types.\<close>

definition data_cell :: "heap \<Rightarrow> nat \<Rightarrow> cell option" where
  "data_cell h a =
     (case cells h a of Some (Node_cell n) \<Rightarrow> (case data n of Some d \<Rightarrow> cells h d | None \<Rightarrow> None) | _ \<Rightarrow> None)"

definition int_of :: "cell \<Rightarrow> int" where
  "int_of x = (case x of Int_cell v \<Rightarrow> sint v | _ \<Rightarrow> 0)"

definition str_of :: "cell \<Rightarrow> string" where
  "str_of x = (case x of Str_cell s \<Rightarrow> s | _ \<Rightarrow> [])"

definition ints_from :: "int \<Rightarrow> cell \<Rightarrow> bool" where
  "ints_from lo x \<longleftrightarrow> (\<exists>v. x = Int_cell v \<and> lo \<le> sint v \<and> sint v \<le> lo + INT_MAX)"

definition is_str :: "cell \<Rightarrow> bool" where
  "is_str x \<longleftrightarrow> (\<exists>s. x = Str_cell s)"

definition doubles_from :: "rat \<Rightarrow> cell \<Rightarrow> bool" where
  "doubles_from lo x \<longleftrightarrow> (\<exists>q. x = Double_cell (Finite q) \<and> lo \<le> q \<and> q \<le> lo + 1 / 2)"

definition nodes_with :: "heap \<Rightarrow> (cell \<Rightarrow> bool) \<Rightarrow> nat set" where
  "nodes_with h P = {a. \<exists>x. data_cell h a = Some x \<and> P x}"

lemma node_data_cell:
  "data_cell h a = Some x \<Longrightarrow> \<exists>p. node_data h a = Inr p \<and> load h p = Inr x"
  by (auto simp: data_cell_def node_data_def get_node_def load_def split: option.splits cell.splits)

lemma cmp_const:
  "t = \<lparr>sortType = SORT_INC, dataType = DATA_INT\<rparr> \<Longrightarrow> cmp rand h t a b g = bindE (int_inc h a b) (\<lambda>r. Inr (r, g))"
  "t = \<lparr>sortType = SORT_DEC, dataType = DATA_INT\<rparr> \<Longrightarrow> cmp rand h t a b g = bindE (int_dec h a b) (\<lambda>r. Inr (r, g))"
  "t = \<lparr>sortType = SORT_INC, dataType = DATA_CHAR\<rparr> \<Longrightarrow> cmp rand h t a b g = bindE (char_inc h a b) (\<lambda>r. Inr (r, g))"
  "t = \<lparr>sortType = SORT_DEC, dataType = DATA_CHAR\<rparr> \<Longrightarrow> cmp rand h t a b g = bindE (char_dec h a b) (\<lambda>r. Inr (r, g))"
  "t = \<lparr>sortType = SORT_INC, dataType = DATA_DOUBLE\<rparr> \<Longrightarrow> cmp rand h t a b g = bindE (double_inc h a b) (\<lambda>r. Inr (r, g))"
  "t = \<lparr>sortType = SORT_DEC, dataType = DATA_DOUBLE\<rparr> \<Longrightarrow> cmp rand h t a b g = bindE (double_dec h a b) (\<lambda>r. Inr (r, g))"
  by (simp_all add: cmp_def type_defs)

definition node_val :: "(cell \<Rightarrow> 'k) \<Rightarrow> heap \<Rightarrow> nat \<Rightarrow> 'k" where
  "node_val f h a = f (the (data_cell h a))"

lemma int_get:
  assumes "a \<in> nodes_with h (ints_from lo)"
  obtains p where "node_data h a = Inr p" "get_int h p = Inr (node_val int_of h a)"
    "lo \<le> node_val int_of h a" "node_val int_of h a \<le> lo + INT_MAX"
proof -
  obtain v where v: "data_cell h a = Some (Int_cell v)" "lo \<le> sint v" "sint v \<le> lo + INT_MAX"
    using assms by (auto simp: nodes_with_def ints_from_def)
  with node_data_cell [OF v(1)] that show ?thesis
    by (auto simp: get_int_def node_val_def int_of_def)
qed

lemma str_get:
  assumes "a \<in> nodes_with h is_str"
  obtains p where "node_data h a = Inr p" "get_str h p = Inr (node_val str_of h a)"
proof -
  obtain s where s: "data_cell h a = Some (Str_cell s)" using assms by (auto simp: nodes_with_def is_str_def)
  with node_data_cell [OF s] that show ?thesis by (auto simp: get_str_def node_val_def str_of_def)
qed

interpretation int_up: comparator "cmp rand h \<lparr>sortType = SORT_INC, dataType = DATA_INT\<rparr>"
  "node_val int_of h" "nodes_with h (ints_from lo)" for rand :: "'g \<Rightarrow> int \<times> 'g" and h lo
proof
  fix a b and g :: 'g
  assume "a \<in> nodes_with h (ints_from lo)" "b \<in> nodes_with h (ints_from lo)"
  then show "\<exists>r. cmp rand h \<lparr>sortType = SORT_INC, dataType = DATA_INT\<rparr> a b g = Inr (r, g) \<and>
      (0 \<le> r \<longleftrightarrow> node_val int_of h b \<le> node_val int_of h a)"
    by (elim int_get) (simp add: cmp_const int_inc_def int_minus_def in_int_def)
qed

interpretation int_down: comparator "cmp rand h \<lparr>sortType = SORT_DEC, dataType = DATA_INT\<rparr>"
  "\<lambda>a. - node_val int_of h a" "nodes_with h (ints_from lo)" for rand :: "'g \<Rightarrow> int \<times> 'g" and h lo
proof
  fix a b and g :: 'g
  assume "a \<in> nodes_with h (ints_from lo)" "b \<in> nodes_with h (ints_from lo)"
  then show "\<exists>r. cmp rand h \<lparr>sortType = SORT_DEC, dataType = DATA_INT\<rparr> a b g = Inr (r, g) \<and>
      (0 \<le> r \<longleftrightarrow> - node_val int_of h b \<le> - node_val int_of h a)"
    by (elim int_get) (simp add: cmp_const int_dec_def int_minus_def in_int_def)
qed

text \<open>A key whose order is the opposite of the order of strings.\<close>

definition anticodes :: "string \<Rightarrow> int list" where
  "anticodes s = map (\<lambda>c. - of_char c) s @ [1]"

lemma codes_inj: "codes s = codes t \<longleftrightarrow> s = t"
  by (simp add: codes_def inj_eq [OF inj_mapI] inj_def of_char_eq_iff)

lemma of_char_int_nonneg: "0 \<le> (of_char c :: int)"
  by (metis of_nat_0_le_iff of_nat_of_char)

lemma of_char_int_bounds [simp]: "-1 \<le> (of_char c :: int)" "(of_char c :: int) \<noteq> -1" "-1 < (of_char c :: int)"
  "\<not> (of_char c :: int) < -1"
  using of_char_int_nonneg [of c] by linarith+

lemma anticodes_le: "anticodes s \<le> anticodes t \<longleftrightarrow> codes t \<le> codes s"
proof (induction s arbitrary: t)
  case Nil
  then show ?case
    by (cases t) (auto simp: anticodes_def codes_def)
next
  case (Cons c s)
  then show ?case
    by (cases t) (auto simp: anticodes_def codes_def)
qed

lemma strcmp_nonneg: "0 \<le> strcmp s t \<longleftrightarrow> codes t \<le> codes s"
  by (auto simp: strcmp_def not_less codes_inj [symmetric])

interpretation str_up: comparator "cmp rand h \<lparr>sortType = SORT_INC, dataType = DATA_CHAR\<rparr>"
  "\<lambda>a. codes (node_val str_of h a)" "nodes_with h is_str" for rand :: "'g \<Rightarrow> int \<times> 'g" and h
proof
  fix a b and g :: 'g
  assume "a \<in> nodes_with h is_str" "b \<in> nodes_with h is_str"
  then show "\<exists>r. cmp rand h \<lparr>sortType = SORT_INC, dataType = DATA_CHAR\<rparr> a b g = Inr (r, g) \<and>
      (0 \<le> r \<longleftrightarrow> codes (node_val str_of h b) \<le> codes (node_val str_of h a))"
    by (elim str_get) (simp add: cmp_const char_inc_def strcmp_nonneg)
qed

interpretation str_down: comparator "cmp rand h \<lparr>sortType = SORT_DEC, dataType = DATA_CHAR\<rparr>"
  "\<lambda>a. anticodes (node_val str_of h a)" "nodes_with h is_str" for rand :: "'g \<Rightarrow> int \<times> 'g" and h
proof
  fix a b and g :: 'g
  assume "a \<in> nodes_with h is_str" "b \<in> nodes_with h is_str"
  then show "\<exists>r. cmp rand h \<lparr>sortType = SORT_DEC, dataType = DATA_CHAR\<rparr> a b g = Inr (r, g) \<and>
      (0 \<le> r \<longleftrightarrow> anticodes (node_val str_of h b) \<le> anticodes (node_val str_of h a))"
    by (elim str_get) (simp add: cmp_const char_dec_def strcmp_nonneg anticodes_le)
qed

section \<open>Close doubles all compare as equal\<close>

lemma bitlen_bounds: "0 < n \<Longrightarrow> 2 ^ (bitlen n - 1) \<le> n \<and> n < 2 ^ bitlen n"
proof (induction n rule: less_induct)
  case (less n)
  show ?case
  proof (cases "n = 1")
    case True
    then show ?thesis by (simp add: bitlen.simps)
  next
    case False
    then have h: "0 < n div 2" "n div 2 < n" using less.prems by auto
    then have IH: "2 ^ (bitlen (n div 2) - 1) \<le> n div 2" "n div 2 < 2 ^ bitlen (n div 2)"
      using less.IH by auto
    have b: "bitlen n = Suc (bitlen (n div 2))" using less.prems by (subst bitlen.simps) simp
    have "0 < bitlen (n div 2)" using h(1) by (subst bitlen.simps) simp
    then have "2 * 2 ^ (bitlen (n div 2) - 1) = (2::nat) ^ bitlen (n div 2)"
      by (cases "bitlen (n div 2)") auto
    then show ?thesis using IH b by simp linarith
  qed
qed

lemma pow2_pos [simp]: "0 < pow2 k"
  by (simp add: pow2_def)

lemma pow2_simps [simp]: "\<bar>pow2 k\<bar> = pow2 k" "pow2 k \<noteq> 0" "0 \<le> pow2 k" "\<not> pow2 k < 0"
  using pow2_pos [of k] by linarith+

lemma pow2_add: "pow2 (j + k) = pow2 j * pow2 k"
proof -
  have "pow2 k = power_int 2 k" for k
    by (simp add: pow2_def power_int_def inverse_eq_divide power_divide)
  then show ?thesis by (simp add: power_int_add)
qed

lemma pow2_nat: "pow2 (int n) = 2 ^ n"
  by (simp add: pow2_def)

lemma pow2_mono: "j \<le> k \<Longrightarrow> pow2 j \<le> pow2 k"
  using pow2_add [of j "k - j"] mult_left_mono [of 1 "pow2 (k - j)" "pow2 j"]
  by (simp add: pow2_def [of "k - j"])

lemma rat_exp_bounds:
  assumes "0 < q"
  shows "pow2 (rat_exp q) \<le> q" "q < pow2 (rat_exp q + 1)"
proof -
  obtain a b where ab: "quotient_of q = (a, b)" by (cases "quotient_of q") auto
  have b: "0 < b" and q: "q = of_int a / of_int b"
    using ab by (auto simp: quotient_of_denom_pos quotient_of_div)
  then have a: "0 < a" using assms by (simp add: zero_less_divide_iff)
  define m n where "m = bitlen (nat a)" and "n = bitlen (nat b)"
  have m: "2 ^ (m - 1) \<le> nat a" "nat a < 2 ^ m" and n: "2 ^ (n - 1) \<le> nat b" "nat b < 2 ^ n"
    using bitlen_bounds [of "nat a"] bitlen_bounds [of "nat b"] a b by (simp_all add: m_def n_def)
  have pos: "0 < m" "0 < n" using a b by (simp_all add: m_def n_def bitlen.simps [of "nat a"] bitlen.simps [of "nat b"])
  have A: "pow2 (int m - 1) \<le> of_int a" "of_int a < pow2 (int m)"
    and B: "pow2 (int n - 1) \<le> of_int b" "of_int b < pow2 (int n)"
  proof -
    have e: "pow2 (int m - 1) = 2 ^ (m - 1)" "pow2 (int n - 1) = 2 ^ (n - 1)"
      using pos pow2_nat [of "m - 1"] pow2_nat [of "n - 1"] by (simp_all add: of_nat_diff)
    have "(2::int) ^ (m - 1) \<le> a" "a < 2 ^ m" "(2::int) ^ (n - 1) \<le> b" "b < 2 ^ n"
      using m n a b by (simp_all add: le_nat_iff nat_less_iff)
    then have "of_int ((2::int) ^ (m - 1)) \<le> (of_int a :: rat)" "of_int a < (of_int (2 ^ m) :: rat)"
      "of_int ((2::int) ^ (n - 1)) \<le> (of_int b :: rat)" "of_int b < (of_int (2 ^ n) :: rat)"
      by (simp_all only: of_int_le_iff of_int_less_iff)
    then show "pow2 (int m - 1) \<le> of_int a" "of_int a < pow2 (int m)"
      "pow2 (int n - 1) \<le> of_int b" "of_int b < pow2 (int n)"
      by (simp_all add: e pow2_nat)
  qed
  let ?k = "int m - int n"
  have b': "0 < (of_int b :: rat)" using b by simp
  have up: "q < pow2 (?k + 1)"
  proof -
    have "of_int a < pow2 (?k + 1) * pow2 (int n - 1)"
      using A(2) pow2_add [of "?k + 1" "int n - 1"] by simp
    also have "\<dots> \<le> pow2 (?k + 1) * of_int b" using B(1) by (simp add: mult_left_mono less_imp_le)
    finally show ?thesis using b' q by (simp add: divide_less_eq)
  qed
  have lo: "pow2 (?k - 1) \<le> q"
  proof -
    have "pow2 (?k - 1) * of_int b \<le> pow2 (?k - 1) * pow2 (int n)"
      using B(2) by (simp add: mult_left_mono less_imp_le)
    also have "\<dots> \<le> of_int a" using A(1) pow2_add [of "?k - 1" "int n"] by simp
    finally show ?thesis using b' q by (simp add: le_divide_eq)
  qed
  have "rat_exp q = (if pow2 ?k \<le> q then ?k else ?k - 1)"
    by (simp add: rat_exp_def ab m_def n_def Let_def)
  then show "pow2 (rat_exp q) \<le> q" "q < pow2 (rat_exp q + 1)"
    using up lo by (auto split: if_splits)
qed

lemma round_even_int [simp]: "round_even (of_int z) = z"
  by (simp add: round_even_def)

lemma round_even_bounds: "of_int lo \<le> q \<Longrightarrow> q \<le> of_int hi \<Longrightarrow> lo \<le> round_even q \<and> round_even q \<le> hi"
proof -
  assume lo: "of_int lo \<le> q" and hi: "q \<le> of_int hi"
  have "lo \<le> \<lfloor>q\<rfloor>" using lo by (simp add: le_floor_iff)
  moreover have "\<lfloor>q\<rfloor> \<le> hi" using floor_mono [OF hi] by simp
  moreover have "\<lfloor>q\<rfloor> = hi \<Longrightarrow> round_even q = hi"
    using hi floor_correct [of q] by (auto simp: round_even_def Let_def)
  moreover have "round_even q = \<lfloor>q\<rfloor> \<or> round_even q = \<lfloor>q\<rfloor> + 1" by (simp add: round_even_def Let_def)
  ultimately show ?thesis by (cases "\<lfloor>q\<rfloor> = hi") auto
qed

text \<open>Rounding does not leave an interval whose ends are powers of two.\<close>

lemma fround_le_pow2:
  assumes "\<bar>q\<bar> \<le> pow2 k"
  shows "\<bar>fround q\<bar> \<le> pow2 k"
proof (cases "q = 0")
  case True
  then show ?thesis by (simp add: fround_def less_imp_le)
next
  case False
  let ?e = "rat_exp \<bar>q\<bar> - 52"
  have lo: "pow2 (rat_exp \<bar>q\<bar>) \<le> \<bar>q\<bar>" using False by (intro rat_exp_bounds) simp
  then have "pow2 (rat_exp \<bar>q\<bar>) \<le> pow2 k" using assms by linarith
  then have ek: "rat_exp \<bar>q\<bar> \<le> k"
    using pow2_mono [of "k + 1" "rat_exp \<bar>q\<bar>"] pow2_add [of k 1] pow2_pos [of k]
    by (simp add: pow2_def [of 1]) (smt (verit))
  obtain z where z: "pow2 (k - ?e) = of_int z"
    using ek by (intro that [of "2 ^ nat (k - ?e)"]) (simp add: pow2_def)
  have kz: "pow2 k = of_int z * pow2 ?e" using pow2_add [of "k - ?e" ?e] z by simp
  have "\<bar>q / pow2 ?e\<bar> \<le> of_int z" using assms kz pow2_pos [of ?e] by (simp add: abs_divide divide_le_eq)
  then have "of_int (- z) \<le> q / pow2 ?e" "q / pow2 ?e \<le> of_int z" unfolding abs_le_iff of_int_minus by linarith+
  then have "\<bar>round_even (q / pow2 ?e)\<bar> \<le> z" using round_even_bounds by (meson abs_le_iff minus_le_iff)
  then have "\<bar>of_int (round_even (q / pow2 ?e))\<bar> * pow2 ?e \<le> of_int z * pow2 ?e"
    by (intro mult_right_mono) (simp_all add: less_imp_le flip: of_int_abs)
  then show ?thesis using False kz pow2_pos [of ?e] by (simp add: fround_def Let_def abs_mult)
qed

lemma close_double_compare:
  assumes "\<bar>v - w\<bar> \<le> 1 / 2"
  shows "double_to_int (double_minus (Finite v) (Finite w)) = Inr 0"
proof -
  have half: "\<bar>fround (v - w)\<bar> \<le> 1 / 2"
    using fround_le_pow2 [of "v - w" "-1"] assms by (simp add: pow2_def)
  then have "\<bar>fround (v - w)\<bar> < 2 ^ 1024" by (rule order.strict_trans1) simp
  moreover have "0 \<le> fround (v - w) \<Longrightarrow> \<lfloor>fround (v - w)\<rfloor> = 0" using half by (simp add: floor_eq_iff)
  moreover have "fround (v - w) < 0 \<Longrightarrow> \<lceil>fround (v - w)\<rceil> = 0" using half by (simp add: ceiling_eq_iff)
  ultimately show ?thesis
    by (simp add: double_to_int_def Let_def in_int_def INT_MAX_def not_le del: power_numeral)
qed

lemma double_get:
  assumes "a \<in> nodes_with h (doubles_from lo)"
  obtains p v where "node_data h a = Inr p" "get_double h p = Inr (Finite v)" "lo \<le> v" "v \<le> lo + 1 / 2"
proof -
  obtain v where v: "data_cell h a = Some (Double_cell (Finite v))" "lo \<le> v" "v \<le> lo + 1 / 2"
    using assms by (auto simp: nodes_with_def doubles_from_def)
  with node_data_cell [OF v(1)] that show ?thesis by (auto simp: get_double_def)
qed

interpretation close_up: comparator "cmp rand h \<lparr>sortType = SORT_INC, dataType = DATA_DOUBLE\<rparr>"
  "\<lambda>a. 0 :: int" "nodes_with h (doubles_from lo)" for rand :: "'g \<Rightarrow> int \<times> 'g" and h lo
proof
  fix a b and g :: 'g
  assume a: "a \<in> nodes_with h (doubles_from lo)" and b: "b \<in> nodes_with h (doubles_from lo)"
  obtain p v where v: "node_data h a = Inr p" "get_double h p = Inr (Finite v)" "lo \<le> v" "v \<le> lo + 1 / 2"
    by (rule double_get [OF a])
  obtain q w where w: "node_data h b = Inr q" "get_double h q = Inr (Finite w)" "lo \<le> w" "w \<le> lo + 1 / 2"
    by (rule double_get [OF b])
  have "\<bar>v - w\<bar> \<le> 1 / 2" using v(3,4) w(3,4) by linarith
  with v(1,2) w(1,2) have "cmp rand h \<lparr>sortType = SORT_INC, dataType = DATA_DOUBLE\<rparr> a b g = Inr (0, g)"
    using close_double_compare [of v w] by (simp add: cmp_const double_inc_def del: double_minus.simps)
  then show "\<exists>r. cmp rand h \<lparr>sortType = SORT_INC, dataType = DATA_DOUBLE\<rparr> a b g = Inr (r, g) \<and>
      (0 \<le> r \<longleftrightarrow> (0::int) \<le> 0)" by simp
qed

interpretation close_down: comparator "cmp rand h \<lparr>sortType = SORT_DEC, dataType = DATA_DOUBLE\<rparr>"
  "\<lambda>a. 0 :: int" "nodes_with h (doubles_from lo)" for rand :: "'g \<Rightarrow> int \<times> 'g" and h lo
proof
  fix a b and g :: 'g
  assume a: "a \<in> nodes_with h (doubles_from lo)" and b: "b \<in> nodes_with h (doubles_from lo)"
  obtain p v where v: "node_data h a = Inr p" "get_double h p = Inr (Finite v)" "lo \<le> v" "v \<le> lo + 1 / 2"
    by (rule double_get [OF a])
  obtain q w where w: "node_data h b = Inr q" "get_double h q = Inr (Finite w)" "lo \<le> w" "w \<le> lo + 1 / 2"
    by (rule double_get [OF b])
  have "\<bar>w - v\<bar> \<le> 1 / 2" using v(3,4) w(3,4) by linarith
  with v(1,2) w(1,2) have "cmp rand h \<lparr>sortType = SORT_DEC, dataType = DATA_DOUBLE\<rparr> a b g = Inr (0, g)"
    using close_double_compare [of w v] by (simp add: cmp_const double_dec_def del: double_minus.simps)
  then show "\<exists>r. cmp rand h \<lparr>sortType = SORT_DEC, dataType = DATA_DOUBLE\<rparr> a b g = Inr (r, g) \<and>
      (0 \<le> r \<longleftrightarrow> (0::int) \<le> 0)" by simp
qed

section \<open>From the array back to the list\<close>

lemma collect_rows:
  assumes "rows_at h p rs es" and "length src + length rs \<le> n" and "length rs \<le> fuel"
  shows "collect fuel h n p src = Inr (src @ map nod rs)"
  using assms
proof (induction rs arbitrary: p es fuel src)
  case Nil
  then show ?case by simp
next
  case (Cons r rs)
  obtain e es' q where es: "es = e # es'" "p = Some (nod r)" "row_holds h r q e" "rows_at h q rs es'"
    using Cons.prems(1) by (cases es) auto
  obtain m where m: "fuel = Suc m" "length rs \<le> m" using Cons.prems(3) by (cases fuel) auto
  show ?case
    using Cons.IH [OF es(4) _ m(2), of "src @ [nod r]"] Cons.prems(2) es(2) m(1) row_node [OF es(3)] by simp
qed

fun link_all :: "(nat \<Rightarrow> ptr \<Rightarrow> 'h \<Rightarrow> crash + 'h) \<Rightarrow> nat list \<Rightarrow> 'h \<Rightarrow> crash + 'h" where
  "link_all put [] h = Inr h"
| "link_all put [a] h = put a None h"
| "link_all put (a # b # as) h = bindE (put a (Some b) h) (link_all put (b # as))"

lemma relink_link_all:
  assumes "i < length src"
  shows "bindE (relink put src [i..<length src - 1] h)
      (\<lambda>h. bindE (src_get src (length src - 1)) (\<lambda>z. bindE (put z None h) f)) =
    bindE (link_all put (drop i src) h) f"
  using assms
proof (induction "length src - 1 - i" arbitrary: i h)
  case 0
  then have i: "i = length src - 1" "drop i src = [src ! i]"
    by (auto simp: Cons_nth_drop_Suc [symmetric])
  then show ?case using 0 by (simp add: src_get_def)
next
  case (Suc d)
  then have lt: "i < length src - 1" "Suc i < length src" "i < length src" by auto
  then have dr: "drop i src = src ! i # src ! Suc i # drop (Suc (Suc i)) src"
    "drop (Suc i) src = src ! Suc i # drop (Suc (Suc i)) src"
    by (metis Cons_nth_drop_Suc)+
  have IH: "bindE (relink put src [Suc i..<length src - 1] h')
      (\<lambda>h. bindE (src_get src (length src - 1)) (\<lambda>z. bindE (put z None h) f)) =
    bindE (link_all put (drop (Suc i) src) h') f" for h'
    using Suc.hyps(2) lt by (intro Suc.hyps(1)) auto
  show ?case
    using lt IH unfolding dr
    by (cases "put (src ! i) (Some (src ! Suc i)) h") (simp_all add: upt_conv_Cons src_get_def dr(2))
qed

lemma put_next_row:
  assumes "row_holds h r q e" and "nod r \<noteq> fst (snd r)" and "nod r \<noteq> snd (snd r)"
  obtains h' where "put_next (nod r) p h = Inr h'" "row_holds h' r p e"
    "\<And>a. a \<noteq> nod r \<Longrightarrow> cells h' a = cells h a" "brk h' = brk h" "room h' = room h"
    "\<And>a. cells h' a = None \<longleftrightarrow> cells h a = None"
proof -
  let ?n = "\<lparr>key = Some (fst (snd r)), data = Some (snd (snd r)), next_node = p\<rparr>"
  define h' where "h' = h\<lparr>cells := (cells h)(nod r \<mapsto> Node_cell ?n)\<rparr>"
  have c: "cells h' = (cells h)(nod r \<mapsto> Node_cell ?n)" "brk h' = brk h" "room h' = room h"
    by (simp_all add: h'_def)
  have "put_next (nod r) p h = Inr h'"
    using row_node [OF assms(1)] by (simp add: put_next_def h'_def)
  moreover have "row_holds h' r p e" using assms by (simp add: row_holds_def c)
  moreover have "cells h (nod r) \<noteq> None" using assms(1) by (simp add: row_holds_def)
  ultimately show ?thesis using c by (intro that [of h']) (auto simp: c)
qed

lemma link_all_rows:
  assumes "list_all2 (\<lambda>r e. \<exists>q. row_holds h r q e) rs es" and "distinct (owned rs)" and "rs \<noteq> []"
  obtains h' where "link_all put_next (map nod rs) h = Inr h'" "rows_at h' (Some (nod (hd rs))) rs es"
    "\<And>a. a \<notin> nod ` set rs \<Longrightarrow> cells h' a = cells h a" "brk h' = brk h" "room h' = room h"
    "\<And>a. cells h' a = None \<longleftrightarrow> cells h a = None"
  using assms
proof (induction rs arbitrary: h es thesis)
  case Nil
  then show ?case by simp
next
  case (Cons r rs)
  obtain e es' q where es: "es = e # es'" "row_holds h r q e"
    "list_all2 (\<lambda>r e. \<exists>q. row_holds h r q e) rs es'"
    using Cons.prems(2) by (auto simp: list_all2_Cons1)
  let ?p = "case rs of [] \<Rightarrow> None | r' # _ \<Rightarrow> Some (nod r')"
  obtain h1 where h1: "put_next (nod r) ?p h = Inr h1" "row_holds h1 r ?p e"
    "\<And>a. a \<noteq> nod r \<Longrightarrow> cells h1 a = cells h a" "brk h1 = brk h" "room h1 = room h"
    "\<And>a. cells h1 a = None \<longleftrightarrow> cells h a = None"
    using Cons.prems(3) by (elim put_next_row [OF es(2), of ?p, rotated 2]) auto
  show ?case
  proof (cases rs)
    case Nil
    then show ?thesis using es h1 Cons.prems(1) [of h1] by auto
  next
    case (Cons r' rs')
    have "list_all2 (\<lambda>r e. \<exists>q. row_holds h1 r q e) rs es'"
      using es(3)
    proof (rule list.rel_mono_strong)
      fix x y assume "x \<in> set rs" "\<exists>q. row_holds h x q y"
      moreover have "nod r \<notin> set (owned rs)" using Cons.prems(3) by simp
      then have "nod r \<notin> {nod x, fst (snd x), snd (snd x)}" using owned_row [OF \<open>x \<in> set rs\<close>] by blast
      ultimately show "\<exists>q. row_holds h1 x q y" using h1(3) row_holds_ext [of h1 x h] by simp
    qed
    then obtain h' where h': "link_all put_next (map nod rs) h1 = Inr h'" "rows_at h' (Some (nod (hd rs))) rs es'"
      "\<And>a. a \<notin> nod ` set rs \<Longrightarrow> cells h' a = cells h1 a" "brk h' = brk h1" "room h' = room h1"
      "\<And>a. cells h' a = None \<longleftrightarrow> cells h1 a = None"
      using Cons.IH [of h1 es'] Cons.prems(3) Cons by auto
    have "nod ` set rs \<subseteq> set (owned rs)" using nod_in_owned by blast
    then have "row_holds h' r ?p e"
      using h1(2) Cons.prems(3) by (subst row_holds_ext [of _ _ h1]) (auto intro!: h'(3))
    then show ?thesis
      using Cons.prems(1) [of h'] h' h1 es Cons by auto
  qed
qed

lemma mset_map_ex: "mset ys = image_mset f M \<Longrightarrow> \<exists>xs. mset xs = M \<and> map f xs = ys"
proof (induction ys arbitrary: M)
  case Nil
  then show ?case by simp
next
  case (Cons y ys)
  then obtain x where x: "x \<in># M" "f x = y" by (metis imageE in_image_mset list.set_intros(1) set_mset_mset)
  then have "mset ys = image_mset f (M - {#x#})"
    using Cons.prems by (metis add_mset_remove_trivial image_mset_add_mset insert_DiffM mset.simps(2))
  from Cons.IH [OF this] obtain xs where "mset xs = M - {#x#}" "map f xs = ys" by blast
  then show ?case using x by (intro exI [of _ "x # xs"]) simp
qed

lemma owned_concat: "owned rs = concat (map (\<lambda>r. [nod r, fst (snd r), snd (snd r)]) rs)"
  by (induction rs) auto

lemma mset_owned: "mset rs = mset rs' \<Longrightarrow> mset (owned rs) = mset (owned rs')"
  unfolding owned_concat mset_concat map_map sum_mset_sum_list [symmetric] mset_map by simp

lemma rows_at_all2: "rows_at h p rs es \<Longrightarrow> list_all2 (\<lambda>r e. \<exists>q. row_holds h r q e) rs es"
  by (induction h p rs es rule: rows_at.induct) auto

lemma sort_rep:
  assumes rep: "list_rep h l rs es" and ne: "rs \<noteq> []"
    and run: "isort (cmp rand h t) [1..<length rs] (map nod rs) g = Inr (map (\<lambda>z. nod (fst z)) zs, g')"
    and perm: "mset zs = mset (zip rs es)"
  obtains l' h' where "sort_c rand t l h g = Inr (l', h', g')" "list_rep h' l' (map fst zs) (map snd zs)"
    "brk h' = brk h" "room h' = room h" "\<And>a. a \<notin> nod ` set rs \<Longrightarrow> cells h' a = cells h a"
proof -
  let ?rs = "map fst zs" and ?es = "map snd zs"
  have rows: "rows_at h (head l) rs es" using rep by (simp add: list_rep_def)
  note len_eq = rows_at_length [OF rows]
  have "mset ?rs = mset (map fst (zip rs es))" using perm by (simp only: mset_map)
  then have m: "mset ?rs = mset rs" using len_eq by simp
  have mrs: "mset (owned ?rs) = mset (owned rs)" "set ?rs = set rs" "length zs = length rs"
    using mset_owned [OF m] mset_eq_setD [OF m] mset_eq_length [OF m] by simp_all
  have dist: "distinct (owned ?rs)"
    using rep mset_eq_imp_distinct_iff [OF mrs(1)] by (simp add: list_rep_def)
  have all: "list_all2 (\<lambda>r e. \<exists>q. row_holds h r q e) ?rs ?es"
    using rows_at_all2 [OF rows] mset_eq_setD [OF perm]
    by (auto simp: list_all2_iff zip_map_fst_snd) 
  have ne': "?rs \<noteq> []" using ne mrs(3) by auto
  have src: "collect (Suc (brk h)) h (length rs) (head l) [] = Inr (map nod rs)"
    using collect_rows [OF rows, of "[]" "length rs" "Suc (brk h)"] list_rep_fuel [OF rep] by simp
  obtain h' where h': "link_all put_next (map nod ?rs) h = Inr h'" "rows_at h' (Some (nod (hd ?rs))) ?rs ?es"
    "\<And>a. a \<notin> nod ` set ?rs \<Longrightarrow> cells h' a = cells h a" "brk h' = brk h" "room h' = room h"
    "\<And>a. cells h' a = None \<longleftrightarrow> cells h a = None"
    using link_all_rows [OF all dist ne'] by metis
  have sg: "src_get (map nod ?rs) 0 = Inr (nod (hd ?rs))"
    using ne' by (cases zs) (auto simp: src_get_def)
  have lk: "bindE (relink put_next (map nod ?rs) [0..<length rs - 1] h)
      (\<lambda>h. bindE (src_get (map nod ?rs) (length rs - 1)) (\<lambda>z. bindE (put_next z None h) f)) = f h'" for f :: "heap \<Rightarrow> crash + (clist \<times> heap \<times> 'a)"
    using relink_link_all [of 0 "map nod ?rs" put_next h f] mrs(3) ne h'(1) by simp
  have "sort_c rand t l h g = Inr (l\<lparr>head := Some (nod (hd ?rs))\<rparr>, h', g')"
    using rep ne src run sg lk by (simp add: sort_c_def list_rep_def Let_def o_def)
  moreover have "list_rep h' (l\<lparr>head := Some (nod (hd ?rs))\<rparr>) ?rs ?es"
    using rep h' dist mrs(3) by (auto simp: list_rep_def heap_ok_def)
  ultimately show ?thesis using that h' mrs(2) by auto
qed

lemma insort_key_map: "map f (insort_key (\<lambda>x. k (f x)) x xs) = insort_key k (f x) (map f xs)"
  by (induction xs) auto

lemma sort_key_map: "map f (sort_key (\<lambda>x. k (f x)) xs) = sort_key k (map f xs)"
  by (induction xs) (auto simp: insort_key_map)

lemma insort_key_cong:
  "f x = g x \<Longrightarrow> (\<And>y. y \<in> set ys \<Longrightarrow> f y = g y) \<Longrightarrow> insort_key f x ys = insort_key g x ys"
  by (induction ys) auto

lemma sort_key_cong: "(\<And>x. x \<in> set xs \<Longrightarrow> f x = g x) \<Longrightarrow> sort_key f xs = sort_key g xs"
proof (induction xs)
  case (Cons x xs)
  then show ?case using insort_key_cong [of f x g "sort_key g xs"] by simp
qed simp

text \<open>
  The sort on a list whose data the comparator orders by \<open>kv\<close>: the entries come out as the
  stable sort of the reversed list.
\<close>

lemma comparator_sorts:
  assumes c: "comparator (cmp rand h t) K (nodes_with h P)"
    and rep: "list_rep h l rs es" and P: "\<forall>e \<in> set es. P (snd e)"
    and K: "\<And>a x. data_cell h a = Some x \<Longrightarrow> P x \<Longrightarrow> K a = kv x"
  shows "\<exists>l' h' rs'. sort_c rand t l h g = Inr (l', h', g) \<and>
    list_rep h' l' rs' (sort_key (\<lambda>e. kv (snd e)) (rev es)) \<and> mset rs' = mset rs \<and>
    brk h' = brk h \<and> room h' = room h \<and> (\<forall>a. a \<notin> nod ` set rs \<longrightarrow> cells h' a = cells h a)"
proof (cases "rs = []")
  case True
  then have "es = []" "len l = 0" using rep by (auto simp: list_rep_def)
  then show ?thesis using True rep by (intro exI [of _ l] exI [of _ h] exI [of _ "[]"]) (simp add: sort_c_def)
next
  case False
  have rows: "rows_at h (head l) rs es" using rep by (simp add: list_rep_def)
  note len_eq = rows_at_length [OF rows]
  have dc: "data_cell h (nod r) = Some (snd e) \<and> P (snd e)" if "(r, e) \<in> set (zip rs es)" for r e
  proof -
    have "\<exists>q. row_holds h r q e" using rows_at_all2 [OF rows] that by (auto simp: list_all2_iff)
    then show ?thesis using P that by (auto simp: row_holds_def data_cell_def dest: set_zip_rightD)
  qed
  define zs where "zs = sort_key (\<lambda>z. K (nod (fst z))) (rev (zip rs es))"
  have nz: "map (\<lambda>z. nod (fst z)) (zip rs es) = map nod rs"
    using len_eq by (induction rs es rule: list_induct2) simp_all
  have "nod (fst z) \<in> nodes_with h P" if "z \<in> set (zip rs es)" for z
    using dc [of "fst z" "snd z"] that by (simp add: nodes_with_def)
  then have "set (map (\<lambda>z. nod (fst z)) (zip rs es)) \<subseteq> nodes_with h P" by auto
  then have "set (map nod rs) \<subseteq> nodes_with h P" unfolding nz .
  then have "isort (cmp rand h t) [1..<length rs] (map nod rs) g = Inr (sort_key K (rev (map nod rs)), g)"
    using comparator.isort_sorts [OF c, of "map nod rs" g] False by simp
  also have "sort_key K (rev (map nod rs)) = map (\<lambda>z. nod (fst z)) zs"
    unfolding zs_def sort_key_map [of "\<lambda>z. nod (fst z)" K] rev_map [symmetric] nz ..
  finally have run: "isort (cmp rand h t) [1..<length rs] (map nod rs) g = Inr (map (\<lambda>z. nod (fst z)) zs, g)" .
  have perm: "mset zs = mset (zip rs es)" by (simp add: zs_def)
  obtain l' h' where s: "sort_c rand t l h g = Inr (l', h', g)" "list_rep h' l' (map fst zs) (map snd zs)"
    "brk h' = brk h" "room h' = room h" "\<And>a. a \<notin> nod ` set rs \<Longrightarrow> cells h' a = cells h a"
    using sort_rep [OF rep False run perm] by metis
  have "zs = sort_key (\<lambda>z. kv (snd (snd z))) (rev (zip rs es))"
    unfolding zs_def using dc K by (intro sort_key_cong) auto
  then have "map snd zs = sort_key (\<lambda>e. kv (snd e)) (rev es)"
    using len_eq sort_key_map [of snd "\<lambda>e. kv (snd e)" "rev (zip rs es)"] by (simp add: rev_map [symmetric])
  moreover have "mset (map fst zs) = mset (map fst (zip rs es))" by (simp only: zs_def mset_map mset_sort mset_rev)
  ultimately show ?thesis using s len_eq by (intro exI [of _ l'] exI [of _ h'] exI [of _ "map fst zs"]) simp
qed

end
