(* ===== verification/Sort_Props.thy ===== *)
theory Sort_Props
  imports Sort_Cmp
begin

text \<open>
  Properties of the list and of the sort, over the entries a list in memory holds.
\<close>

section \<open>Sorting with any comparator\<close>

text \<open>
  Whatever the comparator answers, the sort permutes the array; it stops only where a comparison
  of two of the elements stops.
\<close>

lemma sift_ends:
  fixes c :: "nat \<Rightarrow> nat \<Rightarrow> 'g \<Rightarrow> crash + (int \<times> 'g)"
  assumes "\<And>a b g. a \<in> D \<Longrightarrow> b \<in> D \<Longrightarrow> ends E (\<lambda>_. True) (c a b g)" and "set ys \<subseteq> D" and "x \<in> D"
  shows "ends E (\<lambda>(xs, g). \<exists>ys1 ys2. ys = ys1 @ ys2 \<and> xs = ys1 @ x # ys2 @ r) (sift c (ys @ w # r) x (length ys) g)"
  using assms(2)
proof (induction ys arbitrary: w r g rule: rev_induct)
  case Nil
  then show ?case by simp
next
  case (snoc y ys)
  have yd: "y \<in> D" "set ys \<subseteq> D" using snoc.prems by simp_all
  consider e where "c y x g = Inl e" "e \<in> E" | v g1 where "c y x g = Inr (v, g1)"
    using assms(1) [OF yd(1) assms(3), of g] by (cases "c y x g") auto
  then show ?case
  proof cases
    case 1
    then show ?thesis by (simp add: nth_append)
  next
    case 2
    show ?thesis
    proof (cases "0 \<le> v")
      case True
      have "ends E (\<lambda>(xs, g). \<exists>ys1 ys2. ys @ [y] = ys1 @ ys2 \<and> xs = ys1 @ x # ys2 @ r)
          (sift c (ys @ y # y # r) x (length ys) g1)"
      proof (rule ends_mono [OF snoc.IH [OF yd(2), where w = y and r = "y # r" and g = g1] subset_refl])
        fix a :: "nat list \<times> 'g"
        assume "case a of (xs, g) \<Rightarrow> \<exists>ys1 ys2. ys = ys1 @ ys2 \<and> xs = ys1 @ x # ys2 @ y # r"
        then obtain ys1 ys2 g2 where a: "a = (ys1 @ x # ys2 @ y # r, g2)" "ys = ys1 @ ys2" by (cases a) auto
        show "case a of (xs, g) \<Rightarrow> \<exists>ys1 ys2. ys @ [y] = ys1 @ ys2 \<and> xs = ys1 @ x # ys2 @ r"
          using a by (simp, intro exI [of _ ys1] exI [of _ "ys2 @ [y]"]) simp
      qed
      then show ?thesis using 2 True by (simp add: nth_append list_update_append)
    next
      case False
      then show ?thesis using 2 by (auto simp: nth_append list_update_append intro: exI [of _ "ys @ [y]"])
    qed
  qed
qed

lemma isort_ends:
  fixes c :: "nat \<Rightarrow> nat \<Rightarrow> 'g \<Rightarrow> crash + (int \<times> 'g)"
  assumes "\<And>a b g. a \<in> D \<Longrightarrow> b \<in> D \<Longrightarrow> ends E (\<lambda>_. True) (c a b g)" and "set ys \<subseteq> D" and "set zs \<subseteq> D"
  shows "ends E (\<lambda>(xs, g). mset xs = mset (ys @ zs)) (isort c [length ys..<length ys + length zs] (ys @ zs) g)"
  using assms(2,3)
proof (induction zs arbitrary: ys g)
  case Nil
  then show ?case by simp
next
  case (Cons z zs)
  have up: "[length ys..<length ys + length (z # zs)] = length ys # [Suc (length ys)..<Suc (length ys) + length zs]"
    by (subst upt_conv_Cons) simp_all
  have get: "src_get (ys @ z # zs) (length ys) = Inr z" by (simp add: src_get_def)
  have zd: "z \<in> D" "set zs \<subseteq> D" using Cons.prems(2) by simp_all
  show ?case
    unfolding up isort.simps get bindE.simps
  proof (rule ends_bind [OF sift_ends [OF assms(1) Cons.prems(1) zd(1)]])
    fix a :: "nat list \<times> 'g"
    assume "case a of (xs, g) \<Rightarrow> \<exists>ys1 ys2. ys = ys1 @ ys2 \<and> xs = ys1 @ z # ys2 @ zs"
    then obtain ys1 ys2 g1 where a: "a = (ys1 @ z # ys2 @ zs, g1)" and ys: "ys = ys1 @ ys2" by (cases a) auto
    have sub: "set (ys1 @ z # ys2) \<subseteq> D" using Cons.prems(1) zd(1) ys by auto
    show "ends E (\<lambda>(xs, g). mset xs = mset (ys @ z # zs))
        (case a of (src, g) \<Rightarrow> isort c [Suc (length ys)..<Suc (length ys) + length zs] src g)"
      using Cons.IH [OF sub zd(2), of g1] by (simp add: a ys ac_simps)
  qed
qed

lemma sort_ends:
  assumes rep: "list_rep h l rs es"
    and c: "\<And>a b g. a \<in> nod ` set rs \<Longrightarrow> b \<in> nod ` set rs \<Longrightarrow> ends E (\<lambda>_. True) (cmp rand h t a b g)"
  shows "ends E (\<lambda>(l', h', g'). \<exists>rs' es'. list_rep h' l' rs' es' \<and> mset (zip rs' es') = mset (zip rs es) \<and>
      length rs' = length es' \<and> (\<forall>a. a \<notin> nod ` set rs \<longrightarrow> cells h' a = cells h a)) (sort_c rand t l h g)"
proof (cases rs)
  case Nil
  then show ?thesis
    using rep by (auto simp: sort_c_def list_rep_def intro!: exI [of _ "[]"])
next
  case (Cons r rs0)
  have rows: "rows_at h (head l) rs es" using rep by (simp add: list_rep_def)
  note len_eq = rows_at_length [OF rows]
  have src: "collect (Suc (brk h)) h (length rs) (head l) [] = Inr (map nod rs)"
    using collect_rows [OF rows, of "[]" "length rs" "Suc (brk h)"] list_rep_fuel [OF rep] by simp
  have "ends E (\<lambda>(xs, g). mset xs = mset ([nod r] @ map nod rs0))
      (isort (cmp rand h t) [length [nod r]..<length [nod r] + length (map nod rs0)] ([nod r] @ map nod rs0) g)"
    using c by (rule isort_ends [where D = "nod ` set rs"]) (auto simp: Cons)
  then have run: "ends E (\<lambda>(xs, g). mset xs = mset (map nod rs)) (isort (cmp rand h t) [1..<length rs] (map nod rs) g)"
    by (simp add: Cons)
  show ?thesis
  proof (cases "isort (cmp rand h t) [1..<length rs] (map nod rs) g")
    case (Inl e)
    have "len l = int (length rs)" "rs \<noteq> []" using rep Cons by (simp_all add: list_rep_def)
    then have "sort_c rand t l h g = Inl e" using Inl src by (simp add: sort_c_def Let_def)
    then show ?thesis using Inl run by simp
  next
    case (Inr xg)
    then obtain xs g' where i: "isort (cmp rand h t) [1..<length rs] (map nod rs) g = Inr (xs, g')"
      "mset xs = mset (map nod rs)" using run by (cases xg) auto
    have "map (\<lambda>z. nod (fst z)) (zip rs es) = map nod rs"
      using len_eq by (induction rs es rule: list_induct2) simp_all
    then have "mset xs = image_mset (\<lambda>z. nod (fst z)) (mset (zip rs es))" using i(2) by (simp only: mset_map [symmetric])
    then obtain zs where zs: "mset zs = mset (zip rs es)" "xs = map (\<lambda>z. nod (fst z)) zs"
      using mset_map_ex by metis
    have ne: "rs \<noteq> []" using Cons by simp
    obtain l' h' where "sort_c rand t l h g = Inr (l', h', g')" "list_rep h' l' (map fst zs) (map snd zs)"
      "\<And>a. a \<notin> nod ` set rs \<Longrightarrow> cells h' a = cells h a"
      using sort_rep [OF rep ne i(1) [unfolded zs(2)] zs(1)] by metis
    moreover have "mset (zip (map fst zs) (map snd zs)) = mset (zip rs es)"
      by (simp only: zip_map_fst_snd zs(1))
    ultimately show ?thesis by (auto intro!: exI [of _ "map fst zs"] exI [of _ "map snd zs"])
  qed
qed

lemma rand_cmp:
  assumes "dt \<in> {DATA_CHAR, DATA_INT, DATA_DOUBLE}"
  shows "\<exists>r g'. cmp rand h \<lparr>sortType = SORT_RAND, dataType = dt\<rparr> a b g = Inr (r, g')"
  using assms by (cases "rand g") (auto simp: cmp_def type_defs rnd_def)

section \<open>Sorting downwards\<close>

lemma sort_key_opposite:
  fixes f :: "'a \<Rightarrow> 'k::linorder" and g :: "'a \<Rightarrow> 'l::linorder"
  assumes anti: "\<And>x y. g x \<le> g y \<longleftrightarrow> f y \<le> f x"
  shows "sort_key g (rev xs) = rev (sort_key f xs)"
proof (rule properties_for_sort_key)
  show "mset (rev (sort_key f xs)) = mset (rev xs)" by simp
  have eq: "g k = g x \<longleftrightarrow> f x = f k" for k x using anti [of k x] anti [of x k] by (auto simp: antisym)
  show "filter (\<lambda>x. g k = g x) (rev (sort_key f xs)) = filter (\<lambda>x. g k = g x) (rev xs)" for k
    unfolding eq rev_filter [symmetric] by (simp add: sort_key_stable)
  have "sorted_wrt (\<lambda>x y. f x \<le> f y) (sort_key f xs)" using sorted_sort_key [of f xs] by (simp add: sorted_map)
  then show "sorted (map g (rev (sort_key f xs)))"
    by (simp add: sorted_map sorted_wrt_rev anti)
qed

section \<open>Integers and strings\<close>

lemma int_list_sorts:
  assumes rep: "list_rep h l rs es" and "\<forall>e \<in> set es. ints_from lo (snd e)"
    and st: "st = SORT_INC \<or> st = SORT_DEC"
  shows "\<exists>l' h' rs'. sort_c rand \<lparr>sortType = st, dataType = DATA_INT\<rparr> l h g = Inr (l', h', g) \<and>
    list_rep h' l' rs' (if st = SORT_INC then sort_key (\<lambda>e. int_of (snd e)) (rev es)
                        else rev (sort_key (\<lambda>e. int_of (snd e)) es)) \<and>
    mset rs' = mset rs \<and> (\<forall>a. a \<notin> nod ` set rs \<longrightarrow> cells h' a = cells h a)"
proof -
  note c = int_up.comparator_axioms [of rand h lo] int_down.comparator_axioms [of rand h lo]
  have K: "data_cell h a = Some x \<Longrightarrow> node_val int_of h a = int_of x" for a x by (simp add: node_val_def)
  show ?thesis
  proof (cases "st = SORT_INC")
    case True
    show ?thesis
      using comparator_sorts [OF c(1) rep assms(2), of int_of g] K unfolding True by auto
  next
    case False
    then have st: "st = SORT_DEC" using st by simp
    have "sort_key (\<lambda>e. - int_of (snd e)) (rev es) = rev (sort_key (\<lambda>e. int_of (snd e)) es)"
      by (rule sort_key_opposite) simp
    then show ?thesis
      using comparator_sorts [OF c(2) rep assms(2), of "\<lambda>x. - int_of x" g] K False unfolding st by auto
  qed
qed

lemma char_list_sorts:
  assumes rep: "list_rep h l rs es" and "\<forall>e \<in> set es. is_str (snd e)"
    and st: "st = SORT_INC \<or> st = SORT_DEC"
  shows "\<exists>l' h' rs'. sort_c rand \<lparr>sortType = st, dataType = DATA_CHAR\<rparr> l h g = Inr (l', h', g) \<and>
    list_rep h' l' rs' (if st = SORT_INC then sort_key (\<lambda>e. codes (str_of (snd e))) (rev es)
                        else rev (sort_key (\<lambda>e. codes (str_of (snd e))) es)) \<and>
    mset rs' = mset rs \<and> (\<forall>a. a \<notin> nod ` set rs \<longrightarrow> cells h' a = cells h a)"
proof -
  note c = str_up.comparator_axioms [of rand h] str_down.comparator_axioms [of rand h]
  have K: "data_cell h a = Some x \<Longrightarrow> node_val str_of h a = str_of x" for a x by (simp add: node_val_def)
  show ?thesis
  proof (cases "st = SORT_INC")
    case True
    show ?thesis
      using comparator_sorts [OF c(1) rep assms(2), of "\<lambda>x. codes (str_of x)" g] K unfolding True by auto
  next
    case False
    then have st: "st = SORT_DEC" using st by simp
    have "sort_key (\<lambda>e. anticodes (str_of (snd e))) (rev es) = rev (sort_key (\<lambda>e. codes (str_of (snd e))) es)"
      by (rule sort_key_opposite) (rule anticodes_le)
    then show ?thesis
      using comparator_sorts [OF c(2) rep assms(2), of "\<lambda>x. anticodes (str_of x)" g] K False unfolding st by auto
  qed
qed

section \<open>A list of two entries\<close>

definition sample :: "cell \<Rightarrow> cell \<Rightarrow> heap" where
  "sample x y =
     \<lparr>cells = [0 \<mapsto> Str_cell ''a'', 1 \<mapsto> x, 2 \<mapsto> Node_cell \<lparr>key = Some 0, data = Some 1, next_node = Some 5\<rparr>,
               3 \<mapsto> Str_cell ''b'', 4 \<mapsto> y, 5 \<mapsto> Node_cell \<lparr>key = Some 3, data = Some 4, next_node = None\<rparr>,
               6 \<mapsto> Str_cell ''c'', 7 \<mapsto> Int_cell 9],
      brk = 8, room = 3\<rparr>"

definition sample_list :: clist where
  "sample_list = \<lparr>head = Some 2, len = 2\<rparr>"

lemma doubles_from_Finite: "doubles_from lo (Double_cell (Finite q)) \<longleftrightarrow> lo \<le> q \<and> q \<le> lo + 1 / 2"
  by (auto simp: doubles_from_def)

lemma sample_rep: "list_rep (sample x y) sample_list [(2, 0, 1), (5, 3, 4)] [(''a'', x), (''b'', y)]"
  by (simp add: list_rep_def heap_ok_def sample_def sample_list_def row_holds_def)

section \<open>Properties\<close>

text \<open>
  C33. Integers are sorted. On a list whose integers lie within a window of \<open>INT_MAX\<close>, so that
  no difference overflows, \<open>sort\<close> returns a well-formed list of the same nodes; its entries
  are the stable sort of the reversed list by value for \<open>inc\<close>, and the reverse of the
  stable sort for \<open>dec\<close>: sorted, a permutation, and with entries of equal value in the
  opposite of their original order. Nothing but the \<open>next\<close> fields changes.
\<close>

theorem sort_int_sorts:
  assumes rep: "list_rep h l rs es" and "\<forall>e \<in> set es. ints_from lo (snd e)"
    and st: "st = SORT_INC \<or> st = SORT_DEC"
  shows "\<exists>l' h' rs'. sort_c rand \<lparr>sortType = st, dataType = DATA_INT\<rparr> l h g = Inr (l', h', g) \<and>
    list_rep h' l' rs' (if st = SORT_INC then sort_key (\<lambda>e. int_of (snd e)) (rev es)
                        else rev (sort_key (\<lambda>e. int_of (snd e)) es)) \<and>
    mset rs' = mset rs \<and> (\<forall>a. a \<notin> nod ` set rs \<longrightarrow> cells h' a = cells h a)"
  using assms by (rule int_list_sorts)

theorem sort_int_sorts_witness:
  "\<exists>l' h' rs'. sort_c (\<lambda>g. (g, g)) \<lparr>sortType = SORT_INC, dataType = DATA_INT\<rparr> sample_list
     (sample (Int_cell 5) (Int_cell 3)) (0::int) = Inr (l', h', 0) \<and>
   list_rep h' l' rs' [(''b'', Int_cell 3), (''a'', Int_cell 5)]"
  using sort_int_sorts [OF sample_rep, of "Int_cell 5" "Int_cell 3" 0 SORT_INC "\<lambda>g. (g, g)" 0]
  by (auto simp: ints_from_def int_of_def INT_MAX_def)

text \<open>
  Strings are sorted. On a list of strings \<open>sort\<close> orders the entries by the unsigned
  lexicographic order of \<open>strcmp\<close>, upwards for \<open>inc\<close> and downwards for \<open>dec\<close>, entries with
  equal strings in the opposite of their original order, with no condition on the strings.
\<close>

theorem sort_char_sorts:
  assumes rep: "list_rep h l rs es" and "\<forall>e \<in> set es. is_str (snd e)"
    and st: "st = SORT_INC \<or> st = SORT_DEC"
  shows "\<exists>l' h' rs'. sort_c rand \<lparr>sortType = st, dataType = DATA_CHAR\<rparr> l h g = Inr (l', h', g) \<and>
    list_rep h' l' rs' (if st = SORT_INC then sort_key (\<lambda>e. codes (str_of (snd e))) (rev es)
                        else rev (sort_key (\<lambda>e. codes (str_of (snd e))) es)) \<and>
    mset rs' = mset rs \<and> (\<forall>a. a \<notin> nod ` set rs \<longrightarrow> cells h' a = cells h a)"
  using assms by (rule char_list_sorts)

theorem sort_char_sorts_witness:
  "\<exists>l' h' rs'. sort_c (\<lambda>g. (g, g)) \<lparr>sortType = SORT_INC, dataType = DATA_CHAR\<rparr> sample_list
     (sample (Str_cell ''x'') (Str_cell ''ab'')) (0::int) = Inr (l', h', 0) \<and>
   list_rep h' l' rs' [(''b'', Str_cell ''ab''), (''a'', Str_cell ''x'')]"
  using sort_char_sorts [OF sample_rep, of "Str_cell ''x''" "Str_cell ''ab''" SORT_INC "\<lambda>g. (g, g)" 0]
  by (auto simp: is_str_def str_of_def codes_def of_char_def)

text \<open>
  Close doubles are not sorted. The comparators convert the difference of two doubles to
  \<open>int\<close>, so doubles within a half of each other all compare as equal, and \<open>sort\<close> just
  reverses the list, whatever the values are, for \<open>inc\<close> and for \<open>dec\<close>.
\<close>

theorem sort_close_doubles_reverses:
  assumes rep: "list_rep h l rs es" and "\<forall>e \<in> set es. doubles_from lo (snd e)"
    and st: "st = SORT_INC \<or> st = SORT_DEC"
  shows "\<exists>l' h' rs'. sort_c rand \<lparr>sortType = st, dataType = DATA_DOUBLE\<rparr> l h g = Inr (l', h', g) \<and>
    list_rep h' l' rs' (rev es)"
proof -
  have id: "sort_key (\<lambda>e. 0 :: int) xs = xs" for xs :: "(string \<times> cell) list"
    by (induction xs) (simp_all add: insort_is_Cons)
  have "comparator (cmp rand h \<lparr>sortType = st, dataType = DATA_DOUBLE\<rparr>) (\<lambda>a. 0 :: int) (nodes_with h (doubles_from lo))"
    using st close_up.comparator_axioms [of rand h lo] close_down.comparator_axioms [of rand h lo] by auto
  from comparator_sorts [OF this rep assms(2), of "\<lambda>x. 0" g] show ?thesis by (auto simp: id)
qed

theorem sort_close_doubles_reverses_witness:
  "\<exists>l' h' rs'. sort_c (\<lambda>g. (g, g)) \<lparr>sortType = SORT_INC, dataType = DATA_DOUBLE\<rparr> sample_list
     (sample (Double_cell (Finite (1 / 4))) (Double_cell (Finite (1 / 2)))) (0::int) = Inr (l', h', 0) \<and>
   list_rep h' l' rs' [(''b'', Double_cell (Finite (1 / 2))), (''a'', Double_cell (Finite (1 / 4)))]"
  using sort_close_doubles_reverses [OF sample_rep,
      of "Double_cell (Finite (1 / 4))" "Double_cell (Finite (1 / 2))" 0 SORT_INC "\<lambda>g. (g, g)" 0]
  by (auto simp: doubles_from_Finite)

text \<open>
  Sorting at random shuffles. With \<open>rand\<close>, for every data type and whatever \<open>rand\<close>
  returns, \<open>sort\<close> ends, and the result is a well-formed list with the same nodes and the
  same entries in some order.
\<close>

theorem sort_rand_permutes:
  assumes rep: "list_rep h l rs es" and dt: "dt \<in> {DATA_CHAR, DATA_INT, DATA_DOUBLE}"
  shows "\<exists>l' h' g' rs' es'. sort_c rand \<lparr>sortType = SORT_RAND, dataType = dt\<rparr> l h g = Inr (l', h', g') \<and>
    list_rep h' l' rs' es' \<and> mset (zip rs' es') = mset (zip rs es)"
proof -
  have "ends {} (\<lambda>(l', h', g'). \<exists>rs' es'. list_rep h' l' rs' es' \<and> mset (zip rs' es') = mset (zip rs es) \<and>
      length rs' = length es' \<and> (\<forall>a. a \<notin> nod ` set rs \<longrightarrow> cells h' a = cells h a))
      (sort_c rand \<lparr>sortType = SORT_RAND, dataType = dt\<rparr> l h g)"
    using rand_cmp [OF dt, of rand h] by (intro sort_ends [OF rep]) (force simp: ends_none)
  then show ?thesis by (auto simp: ends_none)
qed

theorem sort_rand_permutes_witness:
  "\<exists>l' h' g' rs' es'. sort_c (\<lambda>g. (g, g + 1)) \<lparr>sortType = SORT_RAND, dataType = DATA_INT\<rparr> sample_list
     (sample (Int_cell 5) (Int_cell 3)) (0::int) = Inr (l', h', g') \<and> list_rep h' l' rs' es' \<and> length es' = 2"
proof -
  obtain l' h' g' rs' es' where s: "sort_c (\<lambda>g. (g, g + 1)) \<lparr>sortType = SORT_RAND, dataType = DATA_INT\<rparr> sample_list
     (sample (Int_cell 5) (Int_cell 3)) (0::int) = Inr (l', h', g')" "list_rep h' l' rs' es'"
    "mset (zip rs' es') = mset (zip [(2, 0, 1), (5, 3, 4)] [(''a'', Int_cell 5), (''b'', Int_cell 3)])"
    using sort_rand_permutes [OF sample_rep, of DATA_INT "\<lambda>g. (g, g + 1)" "Int_cell 5" "Int_cell 3" "0::int"] by auto
  have "length rs' = length es'" using s(2) rows_at_length by (auto simp: list_rep_def)
  then have "length es' = 2" using mset_eq_length [OF s(3)] by simp
  with s show ?thesis by blast
qed

text \<open>
  Adding and searching. \<open>insert\<close> appends the entry, and afterwards \<open>listSearch\<close> finds
  the data of the first entry with the key: an earlier one when the key was present, the new
  one otherwise, and the answers for other keys are as before.
\<close>

theorem list_insert_then_search:
  assumes rep: "list_rep h l rs es" and k: "cells h k = Some (Str_cell s)" "cells h d = Some x"
    and own: "k \<noteq> d" "k \<notin> set (owned rs)" "d \<notin> set (owned rs)"
    and n: "int (length rs) < INT_MAX" "0 < room h"
  shows "\<exists>l' h' rs'. insert_c l k d h = Inr (l', h') \<and> list_rep h' l' rs' (es @ [(s, x)]) \<and>
    (\<forall>s'. listSearch l' s' h' =
       (case listSearch l s' h of Inr None \<Rightarrow> Inr (if s' = s then Some d else None) | r \<Rightarrow> r))"
proof -
  obtain l' h' where i: "insert_c l k d h = Inr (l', h')"
    "list_rep h' l' (rs @ [(brk h, k, d)]) (es @ [(s, x)])"
    by (rule insert_rep [OF rep k own n])
  have len: "length rs = length es" using rep rows_at_length by (auto simp: list_rep_def)
  have "listSearch l' s' h' =
      (case listSearch l s' h of Inr None \<Rightarrow> Inr (if s' = s then Some d else None) | r \<Rightarrow> r)" for s'
    using listSearch_rep [OF rep, of s'] listSearch_rep [OF i(2), of s'] len
    by (cases "first_with_key s' rs es") (auto simp: first_with_key_def find_append)
  with i show ?thesis by blast
qed

theorem list_insert_then_search_witness:
  "\<exists>l' h' rs'. insert_c sample_list 6 7 (sample (Int_cell 5) (Int_cell 3)) = Inr (l', h') \<and>
     list_rep h' l' rs' [(''a'', Int_cell 5), (''b'', Int_cell 3), (''c'', Int_cell 9)]"
  using list_insert_then_search [OF sample_rep, of "Int_cell 5" "Int_cell 3" 6 "''c''" 7 "Int_cell 9"]
  by (auto simp: sample_def INT_MAX_def)

text \<open>
  The destructor frees the list. On a well-formed list \<open>listDestructor\<close> ends without a
  double free or a use after free, and afterwards exactly the nodes, keys and data of the
  list are gone from memory.
\<close>

theorem listDestructor_frees_exactly:
  assumes "list_rep h l rs es"
  shows "\<exists>h'. listDestructor l h = Inr h' \<and>
    (\<forall>a. cells h' a = (if a \<in> set (owned rs) then None else cells h a))"
  using listDestructor_rep [OF assms] by simp

theorem listDestructor_frees_exactly_witness:
  "\<exists>h'. listDestructor sample_list (sample (Int_cell 5) (Int_cell 3)) = Inr h' \<and> cells h' 3 = None \<and>
     cells h' 7 = Some (Int_cell 9)"
  using listDestructor_frees_exactly [OF sample_rep, of "Int_cell 5" "Int_cell 3"] by (auto simp: sample_def)

end
