(* ===== verification/Sort_Ui.thy ===== *)
theory Sort_Ui
  imports Sort_Props C_Strings
begin

text \<open>
  The programs around the sort: \<open>getType\<close>, the reading loop, \<open>print\<close> and \<open>main\<close> of
  \<open>Homework/h3/ex2.c\<close> (the same code is in \<open>Lab/Lab 5/code/ui.c\<close> and the txt plugin of
  Lab 6); the menu of Lab 5 is in \<open>Sort_Menu\<close>.

  Strings are lists of characters without their terminating zero byte; a file is the list of
  its bytes, \<open>None\<close> when it cannot be opened. \<open>atof\<close> and the conversion \<open>%lf\<close> are
  parameters: no property here depends on which decimal notation they use.
\<close>

section \<open>The C library's string functions\<close>

definition MAX_STR :: nat where "MAX_STR = 1024"
definition MAX_KEY :: nat where "MAX_KEY = 1024"
definition DELIM :: "char set" where "DELIM = {CHR ''_'', CHR ''.''}"

definition c_str :: "string \<Rightarrow> string" where
  "c_str s = takeWhile (\<lambda>c. c \<noteq> CHR 0x00) s"

text \<open>One call of \<open>strtok\<close>: the token, if there is one, and what the next call goes on with.\<close>

definition strtok :: "char set \<Rightarrow> string \<Rightarrow> string option \<times> string" where
  "strtok d s =
     (let s = dropWhile (\<lambda>c. c \<in> d) s
      in if s = [] then (None, [])
         else (Some (takeWhile (\<lambda>c. c \<notin> d) s), drop 1 (dropWhile (\<lambda>c. c \<notin> d) s)))"

text \<open>\<open>fgets\<close> with room for \<open>n\<close> characters.\<close>

fun fgets :: "nat \<Rightarrow> string \<Rightarrow> string \<times> string" where
  "fgets 0 s = ([], s)"
| "fgets (Suc n) [] = ([], [])"
| "fgets (Suc n) (c # s) =
     (if c = newline then ([c], s) else case fgets n s of (l, r) \<Rightarrow> (c # l, r))"

text \<open>\<open>atoi\<close>: a value that \<open>int\<close> cannot hold is undefined behaviour.\<close>

definition atoi :: "string \<Rightarrow> crash + int" where
  "atoi s =
     (let s = dropWhile is_space s;
          v = (case s of
                 [] \<Rightarrow> 0
               | c # s' \<Rightarrow> if c = CHR ''-'' then - digits_val 0 s'
                            else if c = CHR ''+'' then digits_val 0 s' else digits_val 0 s)
      in if in_int v then Inr v else Inl Overflow)"

section \<open>The program\<close>

definition getType :: "string \<Rightarrow> string \<Rightarrow> crash + sort_type" where
  "getType a1 a2 =
     (if MAX_STR \<le> length a1 then Inl Outside_array else
      case fst (strtok DELIM (snd (strtok DELIM a1))) of
        None \<Rightarrow> Inl Null_access
      | Some token \<Rightarrow>
          let dt = (if token = ''int'' then DATA_INT else if token = ''char'' then DATA_CHAR
                    else if token = ''double'' then DATA_DOUBLE else DATA_NULL);
              st = (if a2 = ''rand'' then SORT_RAND else if a2 = ''inc'' then SORT_INC
                    else if a2 = ''dec'' then SORT_DEC else SORT_NULL)
          in if dt \<noteq> DATA_NULL \<and> st \<noteq> SORT_NULL then Inr \<lparr>sortType = st, dataType = dt\<rparr>
             else Inl Failed_assert)"

text \<open>
  One line: the value is converted before the key is copied. A string goes into an object of
  \<open>n\<close> bytes, from \<open>malloc\<close>, and has to fit there with its zero byte.
\<close>

definition new_str :: "nat \<Rightarrow> string \<Rightarrow> heap \<Rightarrow> crash + (nat \<times> heap)" where
  "new_str n s h =
     bindE (new_cell (Str_cell s) h) (\<lambda>r. if n \<le> length s then Inl Outside_array else Inr r)"

definition new_data :: "cell \<Rightarrow> heap \<Rightarrow> crash + (nat \<times> heap)" where
  "new_data x h = (case x of Str_cell s \<Rightarrow> new_str MAX_STR s h | _ \<Rightarrow> new_cell x h)"

definition parse_value :: "(string \<Rightarrow> double) \<Rightarrow> sort_type \<Rightarrow> string option \<Rightarrow> crash + cell" where
  "parse_value atof t d =
     (case d of
        None \<Rightarrow> Inl Null_access
      | Some s \<Rightarrow>
          if dataType t = DATA_INT then bindE (atoi s) (\<lambda>v. Inr (Int_cell (word_of_int v)))
          else if dataType t = DATA_DOUBLE then Inr (Double_cell (atof s))
          else Inr (Str_cell s))"

definition read_line ::
  "(string \<Rightarrow> double) \<Rightarrow> sort_type \<Rightarrow> string \<Rightarrow> clist \<Rightarrow> heap \<Rightarrow> crash + (clist \<times> heap)" where
  "read_line atof t raw l h =
     (let (tmpKey, r) = strtok {CHR ''=''} (c_str raw); (tmpData, _) = strtok {CHR '' '', newline} r in
      bindE (parse_value atof t tmpData) (\<lambda>x.
      bindE (new_data x h) (\<lambda>(d, h).
      case tmpKey of None \<Rightarrow> Inl Null_access | Some s \<Rightarrow>
      bindE (new_str MAX_KEY s h) (\<lambda>(k, h). insert_c l k d h))))"

lemma fgets_shorter: "s \<noteq> [] \<Longrightarrow> length (snd (fgets (Suc n) s)) < length s"
proof (induction n arbitrary: s)
  case 0
  then show ?case by (cases s) auto
next
  case (Suc n)
  then obtain c s' where s: "s = c # s'" by (cases s) auto
  show ?case
  proof (cases "s' = []")
    case False
    then show ?thesis using Suc.IH [of s'] s by (auto split: prod.splits)
  qed (use s in simp)
qed

text \<open>
  What the string functions give is never longer than what they are given, so that one line of
  the file fits every buffer it is taken apart into.
\<close>

lemma fgets_length: "length (fst (fgets n s)) \<le> n"
  by (induction n s rule: fgets.induct) (auto split: prod.splits)

lemma fgets_fits: "length (fst (fgets (MAX_STR - 1) s)) < MAX_STR"
  using fgets_length [of "MAX_STR - 1" s] by (simp add: MAX_STR_def)

lemma c_str_length: "length (c_str s) \<le> length s"
  by (simp add: c_str_def length_takeWhile_le)

lemma strtok_length:
  assumes "strtok d s = (k, r)"
  shows "length r \<le> length s" "k = Some u \<Longrightarrow> length u \<le> length s"
proof -
  let ?s = "dropWhile (\<lambda>c. c \<in> d) s"
  have le: "length ?s \<le> length s" by (rule length_dropWhile_le)
  have "length (takeWhile (\<lambda>c. c \<notin> d) ?s) \<le> length ?s" "length (dropWhile (\<lambda>c. c \<notin> d) ?s) \<le> length ?s"
    by (rule length_takeWhile_le, rule length_dropWhile_le)
  then show "length r \<le> length s" "k = Some u \<Longrightarrow> length u \<le> length s"
    using assms le by (auto simp: strtok_def Let_def split: if_splits)
qed

text \<open>The tokens of a line that fits the line buffer fit the buffers for the key and the value.\<close>

lemma tokens_fit:
  assumes "strtok {CHR ''=''} (c_str raw) = (k, r)" and "strtok {CHR '' '', newline} r = (d, r')"
    and "length raw < MAX_STR"
  shows "k = Some s \<Longrightarrow> length s < MAX_KEY" "d = Some u \<Longrightarrow> length u < MAX_STR"
  using strtok_length [OF assms(1)] strtok_length [OF assms(2)] c_str_length [of raw] assms(3)
  by (fastforce simp: MAX_KEY_def MAX_STR_def)+

lemma new_str_fits: "length s < n \<Longrightarrow> new_str n s h = new_cell (Str_cell s) h"
  by (simp add: new_str_def new_cell_def)

lemma new_data_fits:
  assumes "parse_value atof t d = Inr x" and "\<And>u. d = Some u \<Longrightarrow> length u < MAX_STR"
  shows "new_data x h = new_cell x h"
proof (cases x)
  case (Str_cell s)
  then have "d = Some s" using assms(1) by (auto simp: parse_value_def bindE_convs split: option.splits if_splits)
  then show ?thesis using assms(2) new_str_fits Str_cell by (simp add: new_data_def)
qed (simp_all add: new_data_def)

function read_file ::
  "(string \<Rightarrow> double) \<Rightarrow> sort_type \<Rightarrow> string \<Rightarrow> clist \<Rightarrow> heap \<Rightarrow> crash + (clist \<times> heap)" where
  "read_file atof t file l h =
     (if file = [] then Inr (l, h)
      else if MAX_STR \<le> length (fst (fgets (MAX_STR - 1) file)) then Inl Outside_array
      else bindE (read_line atof t (fst (fgets (MAX_STR - 1) file)) l h) (\<lambda>(l, h).
             read_file atof t (snd (fgets (MAX_STR - 1) file)) l h))"
  by pat_completeness auto
termination
  by (relation "measure (\<lambda>(atof, t, file, l, h). length file)")
    (use fgets_shorter [of _ 1022] in \<open>auto simp: MAX_STR_def numeral_eq_Suc\<close>)

declare read_file.simps [simp del]

lemma read_file_unfold:
  "read_file atof t file l h =
     (if file = [] then Inr (l, h)
      else bindE (read_line atof t (fst (fgets (MAX_STR - 1) file)) l h) (\<lambda>(l, h).
             read_file atof t (snd (fgets (MAX_STR - 1) file)) l h))"
  using fgets_fits [of "file"] by (subst read_file.simps) simp

definition out_name :: "sort_type \<Rightarrow> string" where
  "out_name t =
     (if sortType t = SORT_INC then ''inc_'' else if sortType t = SORT_DEC then ''dec_'' else ''rand_'') @
     (if dataType t = DATA_INT then ''int.txt'' else if dataType t = DATA_DOUBLE then ''double.txt''
      else ''char.txt'')"

definition print_data :: "(double \<Rightarrow> string) \<Rightarrow> sort_type \<Rightarrow> heap \<Rightarrow> ptr \<Rightarrow> crash + string" where
  "print_data lf t h p =
     (if dataType t = DATA_INT then bindE (get_int h p) (\<lambda>v. Inr (show_int v))
      else if dataType t = DATA_DOUBLE then bindE (get_double h p) (\<lambda>v. Inr (lf v))
      else get_str h p)"

fun print_from :: "(double \<Rightarrow> string) \<Rightarrow> sort_type \<Rightarrow> nat \<Rightarrow> heap \<Rightarrow> ptr \<Rightarrow> crash + string" where
  "print_from lf t fuel h None = Inr []"
| "print_from lf t 0 h (Some a) = Inl Endless"
| "print_from lf t (Suc fuel) h (Some a) =
     bindE (get_node h (Some a)) (\<lambda>n.
     bindE (get_str h (key n)) (\<lambda>k.
     bindE (print_data lf t h (data n)) (\<lambda>d.
     bindE (print_from lf t fuel h (next_node n)) (\<lambda>s. Inr (k @ ''='' @ d @ [newline] @ s)))))"

text \<open>
  \<open>print\<close>: the name of the file it creates, put together in an array of 100 bytes, and what it
  writes there.
\<close>

definition OUT_STR :: nat where "OUT_STR = 100"

definition print_list ::
  "(double \<Rightarrow> string) \<Rightarrow> bool \<Rightarrow> sort_type \<Rightarrow> clist \<Rightarrow> heap \<Rightarrow> crash + (string \<times> string)" where
  "print_list lf opens t l h =
     (if OUT_STR \<le> length (out_name t) then Inl Outside_array
      else if len l = 0 then Inr (out_name t, [])
      else if \<not> opens then Inl Null_access
      else bindE (print_from lf t (Suc (brk h)) h (head l)) (\<lambda>s. Inr (out_name t, s)))"

text \<open>
  What the process is given: the input file, whether the output can be opened, the random
  generator and the two floating point conversions.
\<close>

record 'g os =
  input_file :: "string \<Rightarrow> string option"
  can_write :: "string \<Rightarrow> bool"
  os_rand :: "'g \<Rightarrow> int \<times> 'g"
  os_atof :: "string \<Rightarrow> double"
  os_lf :: "double \<Rightarrow> string"

definition driver ::
  "'g os \<Rightarrow> sort_type \<Rightarrow> string \<Rightarrow> heap \<Rightarrow> 'g \<Rightarrow> crash + ((string \<times> string) \<times> heap \<times> 'g)" where
  "driver e t a1 h g =
     bindE (new_cell (Str_cell []) h) (\<lambda>(raw, h).
     case input_file e a1 of None \<Rightarrow> Inl Null_access | Some file \<Rightarrow>
     bindE (read_file (os_atof e) t file listConstructor h) (\<lambda>(l, h).
     bindE (free_cell (Some raw) h) (\<lambda>h.
     bindE (sort_c (os_rand e) t l h g) (\<lambda>(l, h, g).
     bindE (print_list (os_lf e) (can_write e (out_name t)) t l h) (\<lambda>out.
     bindE (listDestructor l h) (\<lambda>h. Inr (out, h, g)))))))"

definition main_c ::
  "'g os \<Rightarrow> string list \<Rightarrow> heap \<Rightarrow> 'g \<Rightarrow> crash + (int \<times> (string \<times> string) option \<times> heap \<times> 'g)" where
  "main_c e argv h g =
     (if length argv \<noteq> 3 then Inr (-1, None, h, g)
      else bindE (getType (argv ! 1) (argv ! 2)) (\<lambda>t.
           bindE (driver e t (argv ! 1) h g) (\<lambda>(out, h, g). Inr (0, Some out, h, g))))"

section \<open>Reading\<close>

text \<open>What a line and a file mean, without memory.\<close>

definition parse_line :: "(string \<Rightarrow> double) \<Rightarrow> sort_type \<Rightarrow> string \<Rightarrow> crash + (string \<times> cell)" where
  "parse_line atof t raw =
     (let (k, r) = strtok {CHR ''=''} (c_str raw); (d, _) = strtok {CHR '' '', newline} r in
      bindE (parse_value atof t d) (\<lambda>x. case k of None \<Rightarrow> Inl Null_access | Some s \<Rightarrow> Inr (s, x)))"

function parse_file :: "(string \<Rightarrow> double) \<Rightarrow> sort_type \<Rightarrow> string \<Rightarrow> crash + (string \<times> cell) list" where
  "parse_file atof t file =
     (if file = [] then Inr []
      else bindE (parse_line atof t (fst (fgets (MAX_STR - 1) file))) (\<lambda>x.
           bindE (parse_file atof t (snd (fgets (MAX_STR - 1) file))) (\<lambda>xs. Inr (x # xs))))"
  by pat_completeness auto
termination
  by (relation "measure (\<lambda>(atof, t, file). length file)")
    (use fgets_shorter [of _ 1022] in \<open>auto simp: MAX_STR_def numeral_eq_Suc\<close>)

declare parse_file.simps [simp del]

text \<open>A list over a memory \<open>h0\<close>: besides the list's own objects nothing was touched.\<close>

definition rep_over :: "heap \<Rightarrow> heap \<Rightarrow> clist \<Rightarrow> row list \<Rightarrow> (string \<times> cell) list \<Rightarrow> bool" where
  "rep_over h0 h l rs es \<longleftrightarrow>
     list_rep h l rs es \<and> (\<forall>a. if a \<in> set (owned rs) then cells h0 a = None else cells h a = cells h0 a)"

lemma read_line_rep:
  assumes rep: "rep_over h0 h l rs es" and p: "parse_line atof t raw = Inr (s, x)"
    and n: "int (length rs) < INT_MAX" "3 \<le> room h" and fits: "length raw < MAX_STR"
  shows "\<exists>l' h'. read_line atof t raw l h = Inr (l', h') \<and>
    rep_over h0 h' l' (rs @ [(brk h + 2, brk h + 1, brk h)]) (es @ [(s, x)]) \<and> room h' = room h - 3"
proof -
  have lr: "list_rep h l rs es" and ok: "heap_ok h" using rep by (simp_all add: rep_over_def list_rep_def)
  obtain k r d r' where st: "strtok {CHR ''=''} (c_str raw) = (k, r)" "strtok {CHR '' '', newline} r = (d, r')"
    by fastforce
  have pv: "parse_value atof t d = Inr x" "k = Some s"
    using p st by (auto simp: parse_line_def bindE_convs split: option.splits)
  define h1 where "h1 = h\<lparr>cells := (cells h)(brk h \<mapsto> x), brk := Suc (brk h), room := room h - 1\<rparr>"
  define h2 where "h2 = h1\<lparr>cells := (cells h1)(brk h1 \<mapsto> Str_cell s), brk := Suc (brk h1), room := room h1 - 1\<rparr>"
  have c2: "cells h2 = (cells h)(brk h \<mapsto> x, brk h + 1 \<mapsto> Str_cell s)" "brk h2 = brk h + 2" "room h2 = room h - 2"
    by (simp_all add: h2_def h1_def)
  have run: "read_line atof t raw l h = insert_c l (brk h + 1) (brk h) h2"
    using st pv n(2) new_data_fits [OF pv(1) tokens_fit(2) [OF st fits]] new_str_fits [OF tokens_fit(1) [OF st fits pv(2)]]
    by (simp add: read_line_def new_cell_def h1_def h2_def)
  have lt: "a < brk h" if "a \<in> set (owned rs)" for a
    using rows_owned_alloc [of h "head l" rs es a] lr that ok by (auto simp: list_rep_def heap_ok_def)
  have "heap_ok h2" using ok by (auto simp: heap_ok_def c2 less_SucI)
  moreover have "rows_at h2 (head l) rs es"
    using lr lt by (subst rows_at_cong [of _ _ h]) (fastforce simp: list_rep_def c2)+
  ultimately have lr2: "list_rep h2 l rs es" using lr by (simp add: list_rep_def)
  obtain l' h' where i: "insert_c l (brk h + 1) (brk h) h2 = Inr (l', h')"
    "list_rep h' l' (rs @ [(brk h2, brk h + 1, brk h)]) (es @ [(s, x)])" "room h' = room h2 - 1"
    "\<And>a. a \<notin> nod ` set rs \<Longrightarrow> a \<noteq> brk h2 \<Longrightarrow> cells h' a = cells h2 a"
  proof (rule insert_rep [OF lr2, of "brk h + 1" s "brk h" x])
    show "brk h + 1 \<notin> set (owned rs)" "brk h \<notin> set (owned rs)" using lt by force+
  qed (use n that in \<open>auto simp: c2\<close>)
  have nod: "nod ` set rs \<subseteq> set (owned rs)" using nod_in_owned by blast
  have fresh: "cells h0 a = None" if "brk h \<le> a" for a
  proof -
    have "cells h a = None" using ok that by (auto simp: heap_ok_def not_le [symmetric])
    moreover have "a \<notin> set (owned rs)" using lt that by (meson leD)
    moreover have "if a \<in> set (owned rs) then cells h0 a = None else cells h a = cells h0 a"
      using rep unfolding rep_over_def by blast
    ultimately show ?thesis by simp
  qed
  have "rep_over h0 h' l' (rs @ [(brk h + 2, brk h + 1, brk h)]) (es @ [(s, x)])"
    unfolding rep_over_def
  proof (intro conjI allI)
    show "list_rep h' l' (rs @ [(brk h + 2, brk h + 1, brk h)]) (es @ [(s, x)])" using i(2) by (simp add: c2)
    fix a
    show "if a \<in> set (owned (rs @ [(brk h + 2, brk h + 1, brk h)])) then cells h0 a = None else cells h' a = cells h0 a"
    proof (cases "a \<in> set (owned rs) \<or> a \<in> {brk h, brk h + 1, brk h + 2}")
      case True
      then show ?thesis using rep fresh by (auto simp: rep_over_def split: if_splits)
    next
      case False
      then have "cells h' a = cells h a" using i(4) [of a] nod by (auto simp: c2)
      moreover have "cells h a = cells h0 a" using rep False unfolding rep_over_def by metis
      ultimately show ?thesis using False by simp
    qed
  qed
  with run i show ?thesis by (simp add: c2)
qed

lemma read_file_rep:
  assumes "rep_over h0 h l rs es" and "parse_file atof t bytes = Inr fs"
    and "int (length rs + length fs) \<le> INT_MAX" and "3 * length fs \<le> room h"
  shows "\<exists>l' h' rs'. read_file atof t bytes l h = Inr (l', h') \<and> rep_over h0 h' l' rs' (es @ fs)"
  using assms
proof (induction "length bytes" arbitrary: bytes l h rs es fs rule: less_induct)
  case less
  show ?case
  proof (cases "bytes = []")
    case True
    then show ?thesis using less.prems by (auto simp: parse_file.simps read_file_unfold)
  next
    case False
    let ?l = "fst (fgets (MAX_STR - 1) bytes)" and ?r = "snd (fgets (MAX_STR - 1) bytes)"
    obtain s x gs where f: "parse_line atof t ?l = Inr (s, x)" "parse_file atof t ?r = Inr gs" "fs = (s, x) # gs"
      using less.prems(2) False by (subst (asm) parse_file.simps) (auto simp: bindE_convs)
    obtain l1 h1 where s: "read_line atof t ?l l h = Inr (l1, h1)"
      "rep_over h0 h1 l1 (rs @ [(brk h + 2, brk h + 1, brk h)]) (es @ [(s, x)])" "room h1 = room h - 3"
      using read_line_rep [OF less.prems(1) f(1)] less.prems(3,4) f(3) fgets_fits [of bytes] by auto
    have "length ?r < length bytes" using fgets_shorter [OF False, of 1022] by (simp add: MAX_STR_def)
    then obtain l' h' rs' where "read_file atof t ?r l1 h1 = Inr (l', h')" "rep_over h0 h' l' rs' ((es @ [(s, x)]) @ gs)"
    proof -
      have "int (length (rs @ [(brk h + 2, brk h + 1, brk h)]) + length gs) \<le> INT_MAX" "3 * length gs \<le> room h1"
        using less.prems(3,4) f(3) s(3) by auto
      from less.hyps [OF \<open>length ?r < length bytes\<close> s(2) f(2) this] that show ?thesis by blast
    qed
    then show ?thesis using False s(1) f(3) by (subst read_file_unfold) auto
  qed
qed

section \<open>Printing\<close>

definition show_cell :: "(double \<Rightarrow> string) \<Rightarrow> cell \<Rightarrow> string" where
  "show_cell lf x =
     (case x of Int_cell v \<Rightarrow> show_int (sint v) | Double_cell v \<Rightarrow> lf v | Str_cell s \<Rightarrow> s | Node_cell n \<Rightarrow> [])"

definition entry_line :: "(double \<Rightarrow> string) \<Rightarrow> string \<times> cell \<Rightarrow> string" where
  "entry_line lf e = fst e @ ''='' @ show_cell lf (snd e) @ [newline]"

definition fits :: "sort_type \<Rightarrow> cell \<Rightarrow> bool" where
  "fits t x =
     (if dataType t = DATA_INT then \<exists>v. x = Int_cell v
      else if dataType t = DATA_DOUBLE then \<exists>v. x = Double_cell v else is_str x)"

lemma print_from_rows:
  assumes "rows_at h p rs es" and "\<forall>e \<in> set es. fits t (snd e)" and "length rs \<le> fuel"
  shows "print_from lf t fuel h p = Inr (concat (map (entry_line lf) es))"
  using assms
proof (induction rs arbitrary: p es fuel)
  case Nil
  then show ?case by simp
next
  case (Cons r rs)
  obtain e es' q where es: "es = e # es'" "p = Some (nod r)" "row_holds h r q e" "rows_at h q rs es'"
    using Cons.prems(1) by (cases es) auto
  obtain n where n: "fuel = Suc n" "length rs \<le> n" using Cons.prems(3) by (cases fuel) auto
  have "print_from lf t n h q = Inr (concat (map (entry_line lf) es'))"
    using Cons.prems(2) es(1) by (intro Cons.IH [OF es(4) _ n(2)]) simp
  moreover have "print_data lf t h (Some (snd (snd r))) = Inr (show_cell lf (snd e))"
    using Cons.prems(2) es(1,3)
    by (auto simp: fits_def is_str_def print_data_def get_int_def get_double_def get_str_def load_def row_holds_def
        show_cell_def split: if_splits)
  ultimately show ?case
    using es n row_node [OF es(3)] row_key [OF es(3)] by (simp add: entry_line_def [of lf e])
qed

lemma out_name_fits: "\<not> OUT_STR \<le> length (out_name t)"
  by (simp add: out_name_def OUT_STR_def)

lemma print_list_rep:
  assumes "list_rep h l rs es" and "\<forall>e \<in> set es. fits t (snd e)"
  shows "print_list lf True t l h = Inr (out_name t, concat (map (entry_line lf) es))"
proof (cases "rs = []")
  case True
  then show ?thesis using assms by (simp add: print_list_def out_name_fits list_rep_def)
next
  case False
  then show ?thesis
    using assms list_rep_fuel [OF assms(1)] print_from_rows [of h "head l" rs es t "Suc (brk h)" lf]
    by (simp add: print_list_def out_name_fits list_rep_def del: print_from.simps)
qed

section \<open>The whole run\<close>

lemma rep_over_perm:
  assumes rep: "rep_over h0 h l rs es" and l: "list_rep h' l' rs' es'" "mset rs' = mset rs"
    and eq: "\<forall>a. a \<notin> nod ` set rs \<longrightarrow> cells h' a = cells h a"
  shows "rep_over h0 h' l' rs' es'"
proof -
  have o: "set (owned rs') = set (owned rs)" using mset_eq_setD [OF mset_owned [OF l(2)]] .
  have nod: "nod ` set rs \<subseteq> set (owned rs)" using nod_in_owned by blast
  have "if a \<in> set (owned rs') then cells h0 a = None else cells h' a = cells h0 a" for a
  proof (cases "a \<in> set (owned rs)")
    case True
    then show ?thesis using rep o by (simp add: rep_over_def)
  next
    case False
    then have "cells h' a = cells h a" using eq nod by blast
    moreover have "cells h a = cells h0 a" using rep False unfolding rep_over_def by metis
    ultimately show ?thesis using False o by simp
  qed
  with l(1) show ?thesis unfolding rep_over_def by blast
qed

lemma rep_over_sort:
  assumes "rep_over h0 h l rs es"
    and "\<exists>l' h' rs'. sort_c rand t l h g = Inr (l', h', g) \<and> list_rep h' l' rs' es' \<and> mset rs' = mset rs \<and>
      (\<forall>a. a \<notin> nod ` set rs \<longrightarrow> cells h' a = cells h a)"
  shows "\<exists>l' h' rs'. sort_c rand t l h g = Inr (l', h', g) \<and> rep_over h0 h' l' rs' es'"
  using assms rep_over_perm by metis

lemma rep_over_destroy:
  assumes "rep_over h0 h l rs es"
  shows "\<exists>h'. listDestructor l h = Inr h' \<and> cells h' = cells h0"
proof -
  have "(\<lambda>a. if a \<in> set (owned rs) then None else cells h a) = cells h0"
  proof
    fix a
    show "(if a \<in> set (owned rs) then None else cells h a) = cells h0 a"
      using assms unfolding rep_over_def by metis
  qed
  moreover have "list_rep h l rs es" using assms by (simp add: rep_over_def)
  ultimately show ?thesis using listDestructor_rep [of h l rs es] by simp
qed

lemma rep_over_free:
  assumes rep: "rep_over (h0\<lparr>cells := (cells h0)(a \<mapsto> x)\<rparr>) h l rs es" and a: "cells h0 a = None"
  shows "\<exists>h'. free_cell (Some a) h = Inr h' \<and> rep_over h0 h' l rs es"
proof -
  let ?h = "h\<lparr>cells := (cells h)(a := None)\<rparr>"
  have no: "a \<notin> set (owned rs)" and ca: "cells h a = Some x"
    using rep unfolding rep_over_def by (auto split: if_splits)
  have "rows_at ?h (head l) rs es"
    using rep no by (subst rows_at_cong [of _ _ h]) (auto simp: rep_over_def list_rep_def)
  then have "list_rep ?h l rs es" using rep by (auto simp: rep_over_def list_rep_def heap_ok_def)
  moreover have "if b \<in> set (owned rs) then cells h0 b = None else cells ?h b = cells h0 b" for b
    using rep no a unfolding rep_over_def by (cases "b = a") (auto split: if_splits dest: spec [of _ b])
  moreover have "free_cell (Some a) h = Inr ?h" using ca by (simp add: free_cell_def)
  ultimately show ?thesis unfolding rep_over_def by blast
qed

definition sorted_as :: "sort_type \<Rightarrow> (string \<times> cell) list \<Rightarrow> (string \<times> cell) list" where
  "sorted_as t es =
     (if dataType t = DATA_INT
      then (if sortType t = SORT_INC then sort_key (\<lambda>e. int_of (snd e)) (rev es)
            else rev (sort_key (\<lambda>e. int_of (snd e)) es))
      else (if sortType t = SORT_INC then sort_key (\<lambda>e. codes (str_of (snd e))) (rev es)
            else rev (sort_key (\<lambda>e. codes (str_of (snd e))) es)))"

lemma mset_sorted_as: "mset (sorted_as t es) = mset es"
  by (simp add: sorted_as_def)

definition sortable :: "sort_type \<Rightarrow> int \<Rightarrow> (string \<times> cell) list \<Rightarrow> bool" where
  "sortable t lo es \<longleftrightarrow>
     (sortType t = SORT_INC \<or> sortType t = SORT_DEC) \<and>
     (dataType t = DATA_INT \<and> (\<forall>e \<in> set es. ints_from lo (snd e)) \<or>
      dataType t = DATA_CHAR \<and> (\<forall>e \<in> set es. is_str (snd e)))"

lemma sortable_sorts:
  assumes "list_rep h l rs es" and "sortable t lo es"
  shows "\<exists>l' h' rs'. sort_c rand t l h g = Inr (l', h', g) \<and> list_rep h' l' rs' (sorted_as t es) \<and>
    mset rs' = mset rs \<and> (\<forall>a. a \<notin> nod ` set rs \<longrightarrow> cells h' a = cells h a)"
proof -
  have st: "sortType t = SORT_INC \<or> sortType t = SORT_DEC" using assms(2) by (simp add: sortable_def)
  have t: "\<lparr>sortType = sortType t, dataType = d\<rparr> = t" if "dataType t = d" for d using that by simp
  show ?thesis
  proof (cases "dataType t = DATA_INT")
    case True
    then have "\<forall>e \<in> set es. ints_from lo (snd e)" using assms(2) by (auto simp: sortable_def type_defs)
    from int_list_sorts [OF assms(1) this st, of rand g] show ?thesis
      unfolding t [OF True] sorted_as_def using True by simp
  next
    case False
    then have d: "dataType t = DATA_CHAR" and "\<forall>e \<in> set es. is_str (snd e)"
      using assms(2) by (auto simp: sortable_def)
    from char_list_sorts [OF assms(1) this(2) st, of rand g] show ?thesis
      unfolding t [OF d] sorted_as_def using False by simp
  qed
qed

lemma sortable_fits: "sortable t lo es \<Longrightarrow> e \<in> set (sorted_as t es) \<Longrightarrow> fits t (snd e)"
  using mset_eq_setD [OF mset_sorted_as [of t es]]
  by (auto simp: sortable_def fits_def ints_from_def type_defs)

lemma driver_run:
  assumes ok: "heap_ok h" and f: "input_file e a1 = Some bytes" "parse_file (os_atof e) t bytes = Inr es"
    and s: "sortable t lo es" and n: "3 * length es < room h" "int (length es) \<le> INT_MAX"
    and w: "can_write e (out_name t)"
  shows "\<exists>h'. driver e t a1 h g = Inr ((out_name t, concat (map (entry_line (os_lf e)) (sorted_as t es))), h', g) \<and>
    cells h' = cells h"
proof -
  let ?h0 = "h\<lparr>cells := (cells h)(brk h \<mapsto> Str_cell [])\<rparr>"
  define h1 where "h1 = h\<lparr>cells := (cells h)(brk h \<mapsto> Str_cell []), brk := Suc (brk h), room := room h - 1\<rparr>"
  have "rep_over ?h0 h1 listConstructor [] []"
    using ok by (auto simp: rep_over_def list_rep_def listConstructor_def heap_ok_def h1_def less_SucI)
  moreover have "3 * length es \<le> room h1" "int (length ([] :: row list) + length es) \<le> INT_MAX"
    using n by (simp_all add: h1_def)
  ultimately obtain l2 h2 rs where r: "read_file (os_atof e) t bytes listConstructor h1 = Inr (l2, h2)" "rep_over ?h0 h2 l2 rs es"
    using read_file_rep [of ?h0 h1 listConstructor "[]" "[]" "os_atof e" t bytes es] f(2) by auto
  obtain h3 where fr: "free_cell (Some (brk h)) h2 = Inr h3" "rep_over h h3 l2 rs es"
    using rep_over_free [OF r(2) heap_fresh [OF ok]] by blast
  have "list_rep h3 l2 rs es" using fr(2) by (simp add: rep_over_def)
  from rep_over_sort [OF fr(2) sortable_sorts [OF this s, of "os_rand e" g]]
  obtain l4 h4 rs4 where so: "sort_c (os_rand e) t l2 h3 g = Inr (l4, h4, g)" "rep_over h h4 l4 rs4 (sorted_as t es)"
    by blast
  have p: "print_list (os_lf e) True t l4 h4 = Inr (out_name t, concat (map (entry_line (os_lf e)) (sorted_as t es)))"
    using so(2) sortable_fits [OF s] by (intro print_list_rep) (auto simp: rep_over_def)
  obtain h5 where "listDestructor l4 h4 = Inr h5" "cells h5 = cells h" using rep_over_destroy [OF so(2)] by blast
  then show ?thesis
    using n(1) f(1) r(1) fr(1) so(1) p w by (simp add: driver_def new_cell_def h1_def)
qed

section \<open>Reading back what was printed\<close>

lemma atoi_show:
  assumes "in_int v"
  shows "atoi (show_int v) = Inr v"
proof (cases "v < 0")
  case True
  then have "dropWhile is_space (show_int v) = show_int v" by (simp add: show_int_def is_space_def)
  then show ?thesis using True assms by (simp add: atoi_def show_int_def digits_val_show)
next
  case False
  obtain c s where cs: "show_nat (nat v) = c # s" by (cases "show_nat (nat v)") auto
  then obtain d where "d < 10" "c = digit_char d" using show_nat_digits [of c "nat v"] by auto
  then have "dropWhile is_space (show_int v) = show_int v" "c \<noteq> CHR ''-''" "c \<noteq> CHR ''+''"
    using False cs by (simp_all add: show_int_def digit_char_props)
  then show ?thesis using False assms cs digits_val_show [of "nat v"] by (simp add: atoi_def show_int_def)
qed

text \<open>An entry that survives being written to a file and read again.\<close>

definition clean :: "char set \<Rightarrow> string \<Rightarrow> bool" where
  "clean d s \<longleftrightarrow> s \<noteq> [] \<and> set s \<inter> d = {} \<and> CHR 0x00 \<notin> set s \<and> newline \<notin> set s"

definition printable :: "sort_type \<Rightarrow> string \<times> cell \<Rightarrow> bool" where
  "printable t e \<longleftrightarrow>
     clean {CHR ''=''} (fst e) \<and> length (entry_line (\<lambda>_. []) e) < MAX_STR \<and>
     (dataType t = DATA_INT \<and> (\<exists>v. snd e = Int_cell v) \<or>
      dataType t = DATA_CHAR \<and> (\<exists>s. snd e = Str_cell s \<and> clean {CHR '' ''} s))"

lemma takeWhile_stop: "\<forall>c \<in> set s. P c \<Longrightarrow> \<not> P d \<Longrightarrow> takeWhile P (s @ d # r) = s"
  by (induction s) auto

lemma dropWhile_stop: "\<forall>c \<in> set s. P c \<Longrightarrow> \<not> P d \<Longrightarrow> dropWhile P (s @ d # r) = d # r"
  by (induction s) auto

lemma strtok_token:
  assumes "s \<noteq> []" and "set s \<inter> ds = {}" and "d \<in> ds"
  shows "strtok ds (s @ d # r) = (Some s, r)"
proof -
  have "dropWhile (\<lambda>c. c \<in> ds) (s @ d # r) = s @ d # r" using assms by (cases s) auto
  moreover have "takeWhile (\<lambda>c. c \<notin> ds) (s @ d # r) = s" "dropWhile (\<lambda>c. c \<notin> ds) (s @ d # r) = d # r"
    using assms by (auto intro!: takeWhile_stop dropWhile_stop)
  ultimately show ?thesis by (simp add: strtok_def Let_def)
qed

lemma fgets_line: "newline \<notin> set s \<Longrightarrow> length s < n \<Longrightarrow> fgets n (s @ newline # r) = (s @ [newline], r)"
proof (induction s arbitrary: n)
  case Nil
  then show ?case by (cases n) auto
next
  case (Cons c s)
  then show ?case by (cases n) auto
qed

lemma printable_data:
  assumes "printable t e"
  shows "clean {CHR '' ''} (show_cell lf (snd e)) \<and> parse_value atof t (Some (show_cell lf (snd e))) = Inr (snd e)"
proof (cases "dataType t = DATA_INT")
  case True
  then obtain v where v: "snd e = Int_cell v" using assms by (auto simp: printable_def type_defs)
  have "sint v = signed (v :: 32 word)" "in_int (sint v)"
    using sint_ge [of v] sint_lt [of v] by (simp_all add: in_int_def INT_MAX_def)
  then have "parse_value atof t (Some (show_int (sint v))) = Inr (Int_cell v)"
    using True by (simp add: parse_value_def atoi_show)
  moreover have "clean {CHR '' ''} (show_int (sint v))"
    using show_int_chars [of _ "sint v"] digit_char_props by (fastforce simp: clean_def)
  ultimately show ?thesis using v by (simp add: show_cell_def)
next
  case False
  then obtain s where "snd e = Str_cell s" "clean {CHR '' ''} s" "dataType t = DATA_CHAR"
    using assms by (auto simp: printable_def)
  then show ?thesis by (simp add: show_cell_def parse_value_def type_defs)
qed

lemma parse_printed_line:
  assumes "printable t e"
  shows "parse_line atof t (entry_line lf e) = Inr e"
proof -
  let ?d = "show_cell lf (snd e)"
  have k: "clean {CHR ''=''} (fst e)" and d: "clean {CHR '' ''} ?d" "parse_value atof t (Some ?d) = Inr (snd e)"
    using assms printable_data [OF assms] by (simp_all add: printable_def)
  have "c_str (entry_line lf e) = fst e @ CHR ''='' # ?d @ [newline]"
    using k d(1) by (auto simp: c_str_def entry_line_def clean_def takeWhile_eq_all_conv)
  moreover have "strtok {CHR ''=''} (fst e @ CHR ''='' # ?d @ [newline]) = (Some (fst e), ?d @ [newline])"
    using k by (intro strtok_token) (auto simp: clean_def)
  moreover have "strtok {CHR '' '', newline} (?d @ [newline]) = (Some ?d, [])"
    using d(1) by (intro strtok_token) (auto simp: clean_def)
  ultimately show ?thesis using d(2) by (simp add: parse_line_def)
qed

lemma parse_printed:
  assumes "\<forall>e \<in> set es. printable t e"
  shows "parse_file atof t (concat (map (entry_line lf) es)) = Inr es"
  using assms
proof (induction es)
  case Nil
  then show ?case by (simp add: parse_file.simps)
next
  case (Cons e es)
  let ?s = "fst e @ CHR ''='' # show_cell lf (snd e)" and ?r = "concat (map (entry_line lf) es)"
  have pr: "printable t e" using Cons.prems by simp
  have el: "entry_line lf e = ?s @ [newline]" by (simp add: entry_line_def)
  have nl: "newline \<notin> set ?s" using pr printable_data [OF pr, of lf] by (auto simp: printable_def clean_def)
  have "show_cell lf (snd e) = show_cell (\<lambda>_. []) (snd e)"
    using pr by (auto simp: printable_def show_cell_def)
  then have "length ?s < MAX_STR - 1" using pr by (simp add: printable_def entry_line_def MAX_STR_def)
  with nl have "fgets (MAX_STR - 1) (?s @ newline # ?r) = (entry_line lf e, ?r)" unfolding el by (rule fgets_line)
  then show ?case
    using Cons parse_printed_line [OF pr, of atof lf]
    by (subst parse_file.simps) (simp add: el)
qed

section \<open>Properties\<close>

text \<open>
  C30. The sorting program sorts its file. Given the name of a readable file whose lines parse,
  of integers without overflowing differences or of strings, with enough memory, the program
  ends with status 0; the output file named after the sorting and the data type holds one
  line per entry, in sorted order; and every object it allocated is freed.
\<close>

theorem sort_program_sorts_file:
  assumes "heap_ok h" and "getType a1 a2 = Inr t"
    and "input_file e a1 = Some bytes" and "parse_file (os_atof e) t bytes = Inr es"
    and "sortable t lo es" and "3 * length es < room h" and "int (length es) \<le> INT_MAX"
    and "can_write e (out_name t)"
  shows "\<exists>h'. main_c e [a0, a1, a2] h g =
      Inr (0, Some (out_name t, concat (map (entry_line (os_lf e)) (sorted_as t es))), h', g) \<and>
    cells h' = cells h"
  using driver_run [OF assms(1,3-8), of g] assms(2) by (auto simp: main_c_def)

definition sample_os :: "int os" where
  "sample_os =
     \<lparr>input_file = (\<lambda>_. Some (concat (map (entry_line (\<lambda>_. [])) [(''a'', Int_cell 5), (''b'', Int_cell 3)]))),
      can_write = (\<lambda>_. True), os_rand = (\<lambda>g. (g, g)), os_atof = (\<lambda>_. Finite 0), os_lf = (\<lambda>_. [])\<rparr>"

lemma show_int_sample: "show_int 5 = ''5''" "show_int 3 = ''3''"
  by (simp_all add: show_int_def show_nat.simps digit_char_def char_of_def bit_Suc_0_iff)

lemma sample_printable:
  "e \<in> set [(''a'', Int_cell 5), (''b'', Int_cell 3)] \<Longrightarrow> printable \<lparr>sortType = st, dataType = DATA_INT\<rparr> e"
  by (auto simp: printable_def clean_def entry_line_def show_cell_def show_int_sample MAX_STR_def)

lemma sample_getType: "getType ''rand_int.txt'' ''inc'' = Inr \<lparr>sortType = SORT_INC, dataType = DATA_INT\<rparr>"
  by (simp add: getType_def strtok_def DELIM_def MAX_STR_def type_defs)

theorem sort_program_sorts_file_witness:
  "\<exists>h'. main_c sample_os [''ex2'', ''rand_int.txt'', ''inc''] \<lparr>cells = (\<lambda>_. None), brk = 0, room = 7\<rparr> 1 =
      Inr (0, Some (''inc_int.txt'', ''b=3'' @ [newline] @ ''a=5'' @ [newline]), h', 1) \<and> cells h' = (\<lambda>_. None)"
proof -
  let ?t = "\<lparr>sortType = SORT_INC, dataType = DATA_INT\<rparr>" and ?es = "[(''a'', Int_cell 5), (''b'', Int_cell 3)]"
  have p: "parse_file (os_atof sample_os) ?t (concat (map (entry_line (\<lambda>_. [])) ?es)) = Inr ?es"
    using sample_printable by (intro parse_printed) blast
  have s: "sortable ?t 0 ?es" by (simp add: sortable_def ints_from_def INT_MAX_def)
  have o: "out_name ?t = ''inc_int.txt''" "sorted_as ?t ?es = [(''b'', Int_cell 3), (''a'', Int_cell 5)]"
    by (simp_all add: out_name_def sorted_as_def int_of_def type_defs)
  show ?thesis
    using sort_program_sorts_file [of "\<lparr>cells = (\<lambda>_. None), brk = 0, room = 7\<rparr>" "''rand_int.txt''" "''inc''" ?t
        sample_os _ ?es 0 "''ex2''" 1] p s o sample_getType
    by (simp add: heap_ok_def sample_os_def INT_MAX_def entry_line_def show_cell_def show_int_sample)
qed

text \<open>
  C34. What \<open>print\<close> writes, the program reads back. For entries with non-empty keys and data
  free of the separators, and lines that fit the buffer, parsing the printed file gives the
  same entries in the same order; in particular \<open>atoi\<close> inverts \<open>%d\<close> on every \<open>int\<close>.
\<close>

theorem print_then_parse:
  assumes "\<forall>e \<in> set es. printable t e"
  shows "parse_file atof t (concat (map (entry_line lf) es)) = Inr es \<and>
    (\<forall>v. in_int v \<longrightarrow> atoi (show_int v) = Inr v)"
  using parse_printed [OF assms] atoi_show by blast

theorem print_then_parse_witness:
  "parse_file (\<lambda>_. Finite 0) \<lparr>sortType = SORT_DEC, dataType = DATA_INT\<rparr>
     (concat (map (entry_line (\<lambda>_. [])) [(''a'', Int_cell 5), (''b'', Int_cell 3)])) =
   Inr [(''a'', Int_cell 5), (''b'', Int_cell 3)]"
  using print_then_parse [of "[(''a'', Int_cell 5), (''b'', Int_cell 3)]" "\<lparr>sortType = SORT_DEC, dataType = DATA_INT\<rparr>"
      "\<lambda>_. Finite 0" "\<lambda>_. []"] sample_printable by blast

end
