(* ===== verification/Sort_Safe.thy ===== *)
theory Sort_Safe
  imports Sort_Ui
begin

text \<open>
  Type and memory safety of the sorting program: a discipline that every operation keeps, and the
  list of the ways in which a run can stop early. It covers every input, malformed files and
  overflowing differences included.
\<close>

text \<open>A type that \<open>getType\<close> accepts, and a list over \<open>h0\<close> whose data all have the type's constructor.\<close>

definition valid_type :: "sort_type \<Rightarrow> bool" where
  "valid_type t \<longleftrightarrow> sortType t \<in> {SORT_RAND, SORT_INC, SORT_DEC} \<and> dataType t \<in> {DATA_CHAR, DATA_INT, DATA_DOUBLE}"

definition typed_list :: "sort_type \<Rightarrow> heap \<Rightarrow> clist \<Rightarrow> heap \<Rightarrow> bool" where
  "typed_list t h0 l h \<longleftrightarrow> (\<exists>rs es. rep_over h0 h l rs es \<and> (\<forall>e \<in> set es. fits t (snd e)) \<and> int (length rs) \<le> INT_MAX)"

abbreviation stops :: "crash set" where "stops \<equiv> {Null_access, Overflow}"

lemma getType_valid: "getType a1 a2 = Inr t \<Longrightarrow> valid_type t"
  by (auto simp: getType_def valid_type_def type_defs Let_def split: option.splits if_splits)

lemma getType_stops:
  assumes "getType a1 a2 = Inl c"
  shows "c \<in> {Outside_array, Null_access, Failed_assert}" "c = Outside_array \<longleftrightarrow> MAX_STR \<le> length a1"
  using assms by (auto simp: getType_def Let_def split: option.splits if_splits)

section \<open>Reading\<close>

lemma parse_value_ends: "ends stops (fits t) (parse_value atof t d)"
  by (auto simp: parse_value_def atoi_def fits_def is_str_def Let_def type_defs split: option.splits)

lemma read_line_typed:
  assumes "typed_list t h0 l h" and fits: "length raw < MAX_STR"
  shows "ends stops (\<lambda>(l, h). typed_list t h0 l h) (read_line atof t raw l h)"
proof -
  obtain rs es where rep: "rep_over h0 h l rs es" and f: "\<forall>e \<in> set es. fits t (snd e)" and n: "int (length rs) \<le> INT_MAX"
    using assms(1) by (auto simp: typed_list_def)
  obtain k r d r' where st: "strtok {CHR ''=''} (c_str raw) = (k, r)" "strtok {CHR '' '', newline} r = (d, r')"
    by fastforce
  have dat: "new_data x h' = new_cell x h'" if "parse_value atof t d = Inr x" for x h'
    by (rule new_data_fits [OF that]) (rule tokens_fit(2) [OF st fits])
  have str: "new_str MAX_KEY s h' = new_cell (Str_cell s) h'" if "k = Some s" for s h'
    by (rule new_str_fits [OF tokens_fit(1) [OF st fits that]])
  show ?thesis
  proof (cases "parse_line atof t raw")
    case (Inl c)
    then consider "parse_value atof t d = Inl c" | x where "parse_value atof t d = Inr x" "k = None"
      using st by (auto simp: parse_line_def bindE_convs split: option.splits)
    then show ?thesis
    proof cases
      case 1
      then show ?thesis using parse_value_ends [of t atof d] st by (simp add: read_line_def)
    next
      case 2
      then show ?thesis using st by (simp add: read_line_def dat new_cell_def)
    qed
  next
    case (Inr sx)
    then obtain s x where p: "parse_line atof t raw = Inr (s, x)" by (cases sx) simp
    then have pv: "parse_value atof t d = Inr x" "k = Some s"
      using st by (auto simp: parse_line_def bindE_convs split: option.splits)
    show ?thesis
    proof (cases "room h < 3")
      case True
      then have "room h = 0 \<or> room h = 1 \<or> room h = 2" by linarith
      then show ?thesis using st pv by (auto simp: read_line_def dat str new_cell_def insert_c_def)
    next
      case room: False
      show ?thesis
      proof (cases "int (length rs) = INT_MAX")
        case True
        define h3 where "h3 = h\<lparr>cells := (cells h)(brk h \<mapsto> x, brk h + 1 \<mapsto> Str_cell s,
            brk h + 2 \<mapsto> Node_cell \<lparr>key = Some (brk h + 1), data = Some (brk h), next_node = None\<rparr>),
          brk := brk h + 3, room := room h - 3\<rparr>"
        have lr: "list_rep h l rs es" using rep by (simp add: rep_over_def)
        have lt: "a < brk h" if "a \<in> set (owned rs)" for a
          using rows_owned_alloc [of h "head l" rs es a] lr that by (auto simp: list_rep_def heap_ok_def)
        have "rows_at h3 (head l) rs es"
          using lr lt by (subst rows_at_cong [of _ _ h]) (fastforce simp: list_rep_def h3_def)+
        moreover have "heap_ok h3" using lr by (auto simp: list_rep_def heap_ok_def h3_def less_SucI)
        ultimately have "list_rep h3 l rs es" using lr by (simp add: list_rep_def)
        from listAdd_full [OF this True, of "brk h + 2"] show ?thesis
          using st pv room by (simp add: read_line_def dat str new_cell_def insert_c_def h3_def numeral_3_eq_3)
      next
        case False
        have "int (length rs) < INT_MAX" "3 \<le> room h" using False n room by simp_all
        from read_line_rep [OF rep p this fits] obtain l' h' where i: "read_line atof t raw l h = Inr (l', h')"
          "rep_over h0 h' l' (rs @ [(brk h + 2, brk h + 1, brk h)]) (es @ [(s, x)])" by blast
        have "fits t x" using parse_value_ends [of t atof d] pv by simp
        then have "typed_list t h0 l' h'"
          using i(2) f False n unfolding typed_list_def by (intro exI [of _ "rs @ [(brk h + 2, brk h + 1, brk h)]"] exI [of _ "es @ [(s, x)]"]) auto
        then show ?thesis using i(1) by simp
      qed
    qed
  qed
qed

lemma read_file_typed:
  assumes "typed_list t h0 l h"
  shows "ends stops (\<lambda>(l, h). typed_list t h0 l h) (read_file atof t bytes l h)"
  using assms
proof (induction "length bytes" arbitrary: bytes l h rule: less_induct)
  case less
  show ?case
  proof (cases "bytes = []")
    case True
    then show ?thesis using less.prems by (simp add: read_file_unfold)
  next
    case False
    then have sh: "length (snd (fgets (MAX_STR - 1) bytes)) < length bytes"
      using fgets_shorter [of bytes 1022] by (simp add: MAX_STR_def)
    have "read_file atof t bytes l h =
        bindE (read_line atof t (fst (fgets (MAX_STR - 1) bytes)) l h) (\<lambda>(l, h).
          read_file atof t (snd (fgets (MAX_STR - 1) bytes)) l h)"
      using False by (subst read_file_unfold) simp
    moreover have "ends stops (\<lambda>(l, h). typed_list t h0 l h)
        (bindE (read_line atof t (fst (fgets (MAX_STR - 1) bytes)) l h) (\<lambda>(l, h).
          read_file atof t (snd (fgets (MAX_STR - 1) bytes)) l h))"
      by (rule ends_bind [OF read_line_typed [OF less.prems fgets_fits]]) (use less.hyps [OF sh] in auto)
    ultimately show ?thesis by simp
  qed
qed

section \<open>Sorting and printing\<close>

lemma cmp_ends:
  assumes t: "valid_type t" and a: "a \<in> nodes_with h (fits t)" and b: "b \<in> nodes_with h (fits t)"
  shows "ends {Overflow} (\<lambda>_. True) (cmp rand h t a b g)"
proof -
  have get: "\<exists>x p. fits t x \<and> node_data h a = Inr p \<and> load h p = Inr x" if "a \<in> nodes_with h (fits t)" for a
    using that node_data_cell unfolding nodes_with_def by blast
  obtain x p where x: "fits t x" "node_data h a = Inr p" "load h p = Inr x" using get [OF a] by blast
  obtain y q where y: "fits t y" "node_data h b = Inr q" "load h q = Inr y" using get [OF b] by blast
  have im: "ends {Overflow} (\<lambda>_. True) (int_minus v w)" for v w by (simp add: int_minus_def)
  have di: "ends {Overflow} (\<lambda>_. True) (double_to_int v)" for v
    by (auto simp: double_to_int_def Let_def split: double.splits)
  have "ends {Overflow} (\<lambda>_. True) (bindE m (\<lambda>r. Inr (r, g)))" if "ends {Overflow} (\<lambda>_. True) m" for m :: "crash + int"
    using that by (cases m) auto
  then show ?thesis
    using t x y im di
    by (auto simp: cmp_def valid_type_def type_defs fits_def is_str_def int_inc_def int_dec_def double_inc_def double_dec_def
        char_inc_def char_dec_def get_int_def get_double_def get_str_def)
qed

lemma sort_typed:
  assumes "valid_type t" and "typed_list t h0 l h"
  shows "ends {Overflow} (\<lambda>(l, h, g). typed_list t h0 l h) (sort_c rand t l h g)"
proof -
  obtain rs es where rep: "rep_over h0 h l rs es" and f: "\<forall>e \<in> set es. fits t (snd e)" and n: "int (length rs) \<le> INT_MAX"
    using assms(2) by (auto simp: typed_list_def)
  have lr: "list_rep h l rs es" using rep by (simp add: rep_over_def)
  then have rows: "rows_at h (head l) rs es" by (simp add: list_rep_def)
  note len_eq = rows_at_length [OF rows]
  have node: "nod r \<in> nodes_with h (fits t)" if mem: "r \<in> set rs" for r
  proof -
    obtain e where e: "(r, e) \<in> set (zip rs es)" using in_set_impl_in_set_zip1 [OF len_eq mem] by blast
    then obtain q where "row_holds h r q e" using rows_at_all2 [OF rows] by (auto simp: list_all2_iff)
    then show ?thesis using f set_zip_rightD [OF e] by (auto simp: row_holds_def data_cell_def nodes_with_def)
  qed
  have c: "\<And>a b g. a \<in> nod ` set rs \<Longrightarrow> b \<in> nod ` set rs \<Longrightarrow> ends {Overflow} (\<lambda>_. True) (cmp rand h t a b g)"
    by (rule cmp_ends [OF assms(1)]) (use node in auto)
  show ?thesis
  proof (rule ends_mono [OF sort_ends [OF lr c] subset_refl])
    fix a :: "clist \<times> heap \<times> 'a"
    assume "case a of (l', h', g') \<Rightarrow> \<exists>rs' es'. list_rep h' l' rs' es' \<and> mset (zip rs' es') = mset (zip rs es) \<and>
      length rs' = length es' \<and> (\<forall>a. a \<notin> nod ` set rs \<longrightarrow> cells h' a = cells h a)"
    then obtain l' h' g' rs' es' where a: "a = (l', h', g')" "list_rep h' l' rs' es'" "mset (zip rs' es') = mset (zip rs es)"
      "length rs' = length es'" "\<forall>a. a \<notin> nod ` set rs \<longrightarrow> cells h' a = cells h a" by (cases a) blast
    have "mset (map fst (zip rs' es')) = mset (map fst (zip rs es))" "mset (map snd (zip rs' es')) = mset (map snd (zip rs es))"
      using a(3) by (simp_all only: mset_map)
    then have m: "mset rs' = mset rs" "mset es' = mset es" using a(4) len_eq by simp_all
    have "rep_over h0 h' l' rs' es'" by (rule rep_over_perm [OF rep a(2) m(1) a(5)])
    moreover have "\<forall>e \<in> set es'. fits t (snd e)" "int (length rs') \<le> INT_MAX"
      using f n mset_eq_setD [OF m(2)] mset_eq_length [OF m(1)] by simp_all
    ultimately have "typed_list t h0 l' h'" unfolding typed_list_def by blast
    then show "case a of (l, h, g) \<Rightarrow> typed_list t h0 l h" by (simp add: a(1))
  qed
qed

lemma print_typed:
  assumes "typed_list t h0 l h"
  shows "ends {Null_access} (\<lambda>_. True) (print_list lf opens t l h)"
proof (cases opens)
  case True
  then show ?thesis using assms print_list_rep [of h l _ _ t lf] by (auto simp: typed_list_def rep_over_def)
next
  case False
  then show ?thesis by (simp add: print_list_def out_name_fits)
qed

section \<open>The programs\<close>

lemma driver_safe:
  assumes ok: "heap_ok h" and t: "valid_type t"
  shows "ends stops (\<lambda>(out, h', g'). cells h' = cells h) (driver e t a1 h g)"
proof (cases "room h = 0")
  case True
  then show ?thesis by (simp add: driver_def new_cell_def)
next
  case room: False
  show ?thesis
  proof (cases "input_file e a1")
    case None
    then show ?thesis using room by (simp add: driver_def new_cell_def)
  next
    case (Some bytes)
    let ?b = "h\<lparr>cells := (cells h)(brk h \<mapsto> Str_cell [])\<rparr>"
    define h1 where "h1 = h\<lparr>cells := (cells h)(brk h \<mapsto> Str_cell []), brk := Suc (brk h), room := room h - 1\<rparr>"
    have "rep_over ?b h1 listConstructor [] []"
      using ok by (auto simp: rep_over_def list_rep_def listConstructor_def heap_ok_def h1_def less_SucI)
    then have ty: "typed_list t ?b listConstructor h1"
      unfolding typed_list_def by (intro exI [of _ "[]"]) (simp add: INT_MAX_def)
    have run: "driver e t a1 h g =
        bindE (read_file (os_atof e) t bytes listConstructor h1) (\<lambda>(l, h3).
        bindE (free_cell (Some (brk h)) h3) (\<lambda>h.
        bindE (sort_c (os_rand e) t l h g) (\<lambda>(l, h, g).
        bindE (print_list (os_lf e) (can_write e (out_name t)) t l h) (\<lambda>out.
        bindE (listDestructor l h) (\<lambda>h. Inr (out, h, g))))))"
      using Some room by (simp add: driver_def new_cell_def h1_def)
    have fin: "ends stops (\<lambda>(out, h', g'). cells h' = cells h) (bindE (listDestructor l h5) (\<lambda>h. Inr (out, h, g)))"
      if "typed_list t h l h5" for l h5 out and g :: 'a
    proof -
      have "\<exists>h6. listDestructor l h5 = Inr h6 \<and> cells h6 = cells h"
        using that rep_over_destroy unfolding typed_list_def by blast
      then show ?thesis by auto
    qed
    have pr: "ends stops (\<lambda>(out, h', g'). cells h' = cells h)
        (bindE (print_list (os_lf e) opens t l h5) (\<lambda>out. bindE (listDestructor l h5) (\<lambda>h. Inr (out, h, g))))"
      if "typed_list t h l h5" for l h5 opens and g :: 'a
      by (rule ends_bind [OF ends_mono [OF print_typed [OF that]]]) (use fin [OF that] in auto)
    have so: "ends stops (\<lambda>(out, h', g'). cells h' = cells h)
        (bindE (sort_c (os_rand e) t l h4 g) (\<lambda>(l, h, g).
         bindE (print_list (os_lf e) (can_write e (out_name t)) t l h) (\<lambda>out.
         bindE (listDestructor l h) (\<lambda>h. Inr (out, h, g)))))"
      if "typed_list t h l h4" for l h4
      by (rule ends_bind [OF ends_mono [OF sort_typed [OF t that]]]) (use pr in auto)
    have fr: "\<exists>h4. free_cell (Some (brk h)) h3 = Inr h4 \<and> typed_list t h l h4" if "typed_list t ?b l h3" for l h3
      using that rep_over_free [of h "brk h" "Str_cell []" h3 l] heap_fresh [OF ok] unfolding typed_list_def by blast
    show ?thesis
      unfolding run
    proof (rule ends_bind [OF read_file_typed [OF ty]])
      fix a
      assume "case a of (l, h3) \<Rightarrow> typed_list t ?b l h3"
      then obtain l h3 where a: "a = (l, h3)" "typed_list t ?b l h3" by (cases a) auto
      from fr [OF a(2)] obtain h4 where "free_cell (Some (brk h)) h3 = Inr h4" "typed_list t h l h4" by blast
      then show "ends stops (\<lambda>(out, h', g'). cells h' = cells h) (case a of (l, h3) \<Rightarrow>
          bindE (free_cell (Some (brk h)) h3) (\<lambda>h. bindE (sort_c (os_rand e) t l h g) (\<lambda>(l, h, g).
          bindE (print_list (os_lf e) (can_write e (out_name t)) t l h) (\<lambda>out.
          bindE (listDestructor l h) (\<lambda>h. Inr (out, h, g))))))"
        using so [of l h4] by (simp add: a(1))
    qed
  qed
qed

section \<open>Properties\<close>

text \<open>
  C31. The sorting program is type and memory safe. Whatever the arguments, the file, the memory
  left and the random numbers are, a run that stops early stops either in \<open>getType\<close>, outside an
  array exactly when the file name does not fit its buffer, at a null token or at the assertion on
  the types; or later, and then only at a null pointer (a missing file, a line without a value, no
  memory, an output that cannot be opened) or at an integer that overflows. So after \<open>getType\<close> no
  string is copied past the end of its buffer and no place outside an array is used; no object is
  accessed with another type or after it was freed, none is freed twice, and no loop goes on for
  ever. A run that ends leaves exactly the objects in memory that were there before.
\<close>

theorem sort_program_safe:
  assumes "heap_ok h"
  shows "case main_c e argv h g of
      Inl c \<Rightarrow> length argv = 3 \<and>
        (case getType (argv ! 1) (argv ! 2) of
           Inl c' \<Rightarrow> c = c' \<and> c \<in> {Outside_array, Null_access, Failed_assert} \<and>
             (c = Outside_array \<longleftrightarrow> MAX_STR \<le> length (argv ! 1))
         | Inr t \<Rightarrow> c \<in> {Null_access, Overflow})
    | Inr (status, out, h', g') \<Rightarrow> cells h' = cells h"
proof (cases "length argv = 3")
  case False
  then show ?thesis by (simp add: main_c_def)
next
  case True
  show ?thesis
  proof (cases "getType (argv ! 1) (argv ! 2)")
    case (Inl c)
    then show ?thesis using True getType_stops [OF Inl] by (simp add: main_c_def)
  next
    case (Inr t)
    have "ends stops (\<lambda>(out, h', g'). cells h' = cells h) (driver e t (argv ! 1) h g)"
      by (rule driver_safe [OF assms getType_valid [OF Inr]])
    then show ?thesis using True Inr by (cases "driver e t (argv ! 1) h g") (auto simp: main_c_def)
  qed
qed

theorem sort_program_safe_witness:
  "case main_c \<lparr>input_file = (\<lambda>_. Some ''a=1, garbled''), can_write = (\<lambda>_. True), os_rand = (\<lambda>g. (g, g)),
      os_atof = (\<lambda>_. Finite 0), os_lf = (\<lambda>_. [])\<rparr> [''ex2'', ''rand_int.txt'', ''inc''] \<lparr>cells = (\<lambda>_. None), brk = 0, room = 2\<rparr> (7::int) of
    Inl c \<Rightarrow> c \<in> {Null_access, Overflow}
  | Inr (status, out, h', g') \<Rightarrow> cells h' = (\<lambda>_. None)"
  using sort_program_safe [where h = "\<lparr>cells = (\<lambda>_. None), brk = 0, room = 2\<rparr>"
      and argv = "[''ex2'', ''rand_int.txt'', ''inc'']"]
  by (simp add: heap_ok_def sample_getType cong: sum.case_cong)

end
