(* ===== verification/Sort_Menu.thy ===== *)
theory Sort_Menu
  imports Sort_Ui
begin

text \<open>
  The two programs of Lab 5: \<open>driver_cmd.c\<close>, with arguments, and \<open>driver_menu.c\<close>, with the
  menu of \<open>ui.c\<close>. \<open>print\<close> never closes the file it writes, so while the menu goes on the file
  holds only what the library has flushed of the output, the parameter \<open>flushed\<close>; a later
  command that reads the file sees that.
\<close>

section \<open>The programs\<close>

text \<open>\<open>ui_cmd\<close> of Lab 5 has the body of \<open>driver\<close>.\<close>

definition ui_cmd ::
  "'g os \<Rightarrow> sort_type \<Rightarrow> string \<Rightarrow> heap \<Rightarrow> 'g \<Rightarrow> crash + ((string \<times> string) \<times> heap \<times> 'g)" where
  "ui_cmd e t a1 h g = driver e t a1 h g"

definition free3 :: "nat \<times> nat \<times> nat \<Rightarrow> heap \<Rightarrow> crash + heap" where
  "free3 p h =
     bindE (free_cell (Some (fst p)) h) (\<lambda>h. bindE (free_cell (Some (fst (snd p))) h) (\<lambda>h.
     free_cell (Some (snd (snd p))) h))"

definition alloc3 :: "heap \<Rightarrow> crash + ((nat \<times> nat \<times> nat) \<times> heap)" where
  "alloc3 h =
     bindE (new_cell (Str_cell []) h) (\<lambda>(a, h). bindE (new_cell (Str_cell []) h) (\<lambda>(b, h).
     bindE (new_cell (Str_cell []) h) (\<lambda>(c, h). Inr ((a, b, c), h))))"

definition wrote :: "(string \<Rightarrow> string) \<Rightarrow> string \<times> string \<Rightarrow> 'g os \<Rightarrow> 'g os" where
  "wrote flushed out e =
     (if can_write e (fst out)
      then e\<lparr>input_file := (input_file e)(fst out := Some (flushed (snd out)))\<rparr> else e)"

text \<open>
  The menu on the lines of standard input. At the end of input \<open>fgets\<close> leaves the array
  \<open>tmp\<close> without a string, which the code then takes apart.
\<close>

function ui_menu ::
  "(string \<Rightarrow> string) \<Rightarrow> 'g os \<Rightarrow> string \<Rightarrow> heap \<Rightarrow> 'g \<Rightarrow>
   crash + ((string \<times> string) list \<times> heap \<times> 'g)" where
  "ui_menu flushed e stdin h g =
     bindE (alloc3 h) (\<lambda>(keys, h).
     if stdin = [] then Inl Wild_access else
     let (tok, r) = strtok {CHR '' '', newline} (c_str (fst (fgets (MAX_STR - 1) stdin))) in
     case tok of None \<Rightarrow> Inl Null_access | Some k1 \<Rightarrow>
     if MAX_STR \<le> length k1 then Inl Outside_array else
     if k1 = ''exit'' then bindE (free3 keys h) (\<lambda>h. Inr ([], h, g)) else
     case fst (strtok {CHR '' '', newline} r) of None \<Rightarrow> Inl Null_access | Some k2 \<Rightarrow>
     if MAX_STR \<le> length k2 then Inl Outside_array else
     bindE (getType k1 k2) (\<lambda>t.
     bindE (ui_cmd e t k1 h g) (\<lambda>(out, h, g).
     bindE (free3 keys h) (\<lambda>h.
     bindE (ui_menu flushed (wrote flushed out e) (snd (fgets (MAX_STR - 1) stdin)) h g) (\<lambda>(outs, h, g).
     Inr (out # outs, h, g))))))"
  by pat_completeness auto
termination
  by (relation "measure (\<lambda>(flushed, e, stdin, h, g). length stdin)")
    (use fgets_shorter [of _ 1022] in \<open>auto simp: MAX_STR_def numeral_eq_Suc\<close>)

declare ui_menu.simps [simp del]

definition main_cmd ::
  "'g os \<Rightarrow> string list \<Rightarrow> heap \<Rightarrow> 'g \<Rightarrow> crash + (int \<times> (string \<times> string) option \<times> heap \<times> 'g)" where
  "main_cmd e argv h g =
     (if length argv \<noteq> 3 then Inr (-1, None, h, g)
      else bindE (getType (argv ! 1) (argv ! 2)) (\<lambda>t.
           bindE (ui_cmd e t (argv ! 1) h g) (\<lambda>(out, h, g). Inr (0, Some out, h, g))))"

definition main_menu ::
  "(string \<Rightarrow> string) \<Rightarrow> 'g os \<Rightarrow> string \<Rightarrow> heap \<Rightarrow> 'g \<Rightarrow>
   crash + (int \<times> (string \<times> string) list \<times> heap \<times> 'g)" where
  "main_menu flushed e stdin h g =
     bindE (ui_menu flushed e stdin h g) (\<lambda>(outs, h, g). Inr (0, outs, h, g))"

lemma main_cmd_is_main: "main_cmd e argv h g = main_c e argv h g"
  by (simp add: main_cmd_def main_c_def ui_cmd_def)

section \<open>How much memory a run takes\<close>

text \<open>Between two states of the memory there were \<open>n\<close> allocations.\<close>

definition mallocs :: "nat \<Rightarrow> heap \<Rightarrow> heap \<Rightarrow> bool" where
  "mallocs n h h' \<longleftrightarrow> brk h' = brk h + n \<and> room h = room h' + n"

lemma mallocs_refl [simp]: "mallocs 0 h h"
  by (simp add: mallocs_def)

lemma mallocs_trans: "mallocs m h h1 \<Longrightarrow> mallocs n h1 h2 \<Longrightarrow> mallocs (m + n) h h2"
  by (simp add: mallocs_def)

lemma mallocs_new: "new_cell c h = Inr (a, h') \<Longrightarrow> mallocs 1 h h'"
  by (auto simp: new_cell_def mallocs_def split: if_splits)

lemma mallocs_str: "new_str n s h = Inr (a, h') \<Longrightarrow> mallocs 1 h h'"
  by (auto simp: new_str_def bindE_convs dest: mallocs_new split: if_splits)

lemma mallocs_data: "new_data x h = Inr (a, h') \<Longrightarrow> mallocs 1 h h'"
  by (cases x) (auto simp: new_data_def dest: mallocs_new mallocs_str)

lemma mallocs_free: "free_cell p h = Inr h' \<Longrightarrow> mallocs 0 h h'"
  by (auto simp: free_cell_def mallocs_def split: option.splits if_splits)

lemma mallocs_put: "put_next a p h = Inr h' \<Longrightarrow> mallocs 0 h h'"
  by (auto simp: put_next_def mallocs_def bindE_convs)

lemma mallocs_add: "listAdd l a h = Inr (l', h') \<Longrightarrow> mallocs 0 h h'"
  by (auto simp: listAdd_def bindE_convs dest!: mallocs_put split: option.splits if_splits)

lemma mallocs_line:
  assumes "read_line atof t raw l h = Inr (l', h')"
  shows "mallocs 3 h h'"
proof -
  obtain x d h1 s k h2 a h3 where "new_data x h = Inr (d, h1)" "new_str MAX_KEY s h1 = Inr (k, h2)"
    "new_cell (Node_cell \<lparr>key = Some k, data = Some d, next_node = None\<rparr>) h2 = Inr (a, h3)"
    "listAdd l a h3 = Inr (l', h')"
    using assms by (auto simp: read_line_def insert_c_def bindE_convs split: prod.splits option.splits)
  then have "mallocs 1 h h1" "mallocs 1 h1 h2" "mallocs 1 h2 h3" "mallocs 0 h3 h'"
    using mallocs_new mallocs_str mallocs_data mallocs_add by blast+
  then show ?thesis by (simp add: mallocs_def)
qed

lemma mallocs_file:
  assumes "read_file atof t bytes l h = Inr (l', h')" and "parse_file atof t bytes = Inr es"
  shows "mallocs (3 * length es) h h'"
  using assms
proof (induction "length bytes" arbitrary: bytes l h es rule: less_induct)
  case less
  show ?case
  proof (cases "bytes = []")
    case True
    then show ?thesis using less.prems by (simp add: read_file_unfold parse_file.simps)
  next
    case False
    let ?r = "snd (fgets (MAX_STR - 1) bytes)"
    obtain l1 h1 where s: "read_line atof t (fst (fgets (MAX_STR - 1) bytes)) l h = Inr (l1, h1)"
      "read_file atof t ?r l1 h1 = Inr (l', h')"
      using less.prems(1) False by (subst (asm) read_file_unfold) (auto simp: bindE_convs)
    obtain x es' where f: "parse_file atof t ?r = Inr es'" "es = x # es'"
      using less.prems(2) False by (subst (asm) parse_file.simps) (auto simp: bindE_convs)
    have "length ?r < length bytes" using fgets_shorter [OF False, of 1022] by (simp add: MAX_STR_def)
    from mallocs_trans [OF mallocs_line [OF s(1)] less.hyps [OF this s(2) f(1)]] show ?thesis
      by (simp add: f(2))
  qed
qed

lemma mallocs_relink: "relink put_next src is h = Inr h' \<Longrightarrow> mallocs 0 h h'"
  by (induction "is" arbitrary: h) (fastforce simp: bindE_convs mallocs_def dest!: mallocs_put)+

lemma mallocs_sort: "sort_c rand t l h g = Inr (l', h', g') \<Longrightarrow> mallocs 0 h h'"
  by (auto simp: sort_c_def Let_def bindE_convs mallocs_def dest!: mallocs_put mallocs_relink split: if_splits)

lemma mallocs_destroy_from: "destroy_from fuel p h = Inr h' \<Longrightarrow> mallocs 0 h h'"
proof (induction fuel arbitrary: p h)
  case 0
  then show ?case by (cases p) simp_all
next
  case (Suc fuel)
  show ?case
  proof (cases p)
    case (Some a)
    then obtain p1 p2 q h1 h2 h3 where f: "free_cell p1 h = Inr h1" "free_cell p2 h1 = Inr h2"
      "free_cell (Some a) h2 = Inr h3" "destroy_from fuel q h3 = Inr h'"
      using Suc.prems by (auto simp: bindE_convs)
    from mallocs_free [OF f(1)] mallocs_free [OF f(2)] mallocs_free [OF f(3)] Suc.IH [OF f(4)] show ?thesis
      by (simp add: mallocs_def)
  qed (use Suc.prems in simp)
qed

lemma mallocs_destroy: "listDestructor l h = Inr h' \<Longrightarrow> mallocs 0 h h'"
  by (auto simp: listDestructor_def dest: mallocs_destroy_from split: if_splits)

lemma mallocs_driver:
  assumes "driver e t a1 h g = Inr (out, h', g')" and "input_file e a1 = Some bytes"
    and "parse_file (os_atof e) t bytes = Inr es"
  shows "mallocs (1 + 3 * length es) h h'"
proof -
  obtain raw h1 l2 h2 h3 l4 h4 g4 where r: "new_cell (Str_cell []) h = Inr (raw, h1)"
    "read_file (os_atof e) t bytes listConstructor h1 = Inr (l2, h2)" "free_cell (Some raw) h2 = Inr h3"
    "sort_c (os_rand e) t l2 h3 g = Inr (l4, h4, g4)" "listDestructor l4 h4 = Inr h'"
    using assms(1,2) by (auto simp: driver_def bindE_convs)
  note mallocs_new [OF r(1)] mallocs_file [OF r(2) assms(3)] mallocs_free [OF r(3)] mallocs_sort [OF r(4)]
    mallocs_destroy [OF r(5)]
  then show ?thesis by (simp add: mallocs_def)
qed

section \<open>A session\<close>

text \<open>A command that \<open>driver\<close> can do, and what it writes.\<close>

record job =
  job_file :: string
  job_sort :: string
  job_type :: sort_type
  job_entries :: "(string \<times> cell) list"

definition job_line :: "job \<Rightarrow> string" where
  "job_line j = job_file j @ CHR '' '' # job_sort j @ [newline]"

definition job_out :: "(double \<Rightarrow> string) \<Rightarrow> job \<Rightarrow> string \<times> string" where
  "job_out lf j =
     (out_name (job_type j), concat (map (entry_line lf) (sorted_as (job_type j) (job_entries j))))"

definition doable :: "'g os \<Rightarrow> int \<Rightarrow> job \<Rightarrow> bool" where
  "doable e lo j \<longleftrightarrow>
     getType (job_file j) (job_sort j) = Inr (job_type j) \<and>
     clean {CHR '' ''} (job_file j) \<and> clean {CHR '' ''} (job_sort j) \<and> length (job_line j) < MAX_STR \<and>
     (\<exists>bytes. input_file e (job_file j) = Some bytes \<and>
       parse_file (os_atof e) (job_type j) bytes = Inr (job_entries j)) \<and>
     sortable (job_type j) lo (job_entries j) \<and> int (length (job_entries j)) \<le> INT_MAX \<and>
     can_write e (out_name (job_type j))"

lemma alloc_free3:
  assumes "heap_ok h" and "3 \<le> room h"
  shows "\<exists>keys h1. alloc3 h = Inr (keys, h1) \<and> mallocs 3 h h1 \<and> heap_ok h1 \<and>
    (\<forall>h2. cells h2 = cells h1 \<longrightarrow> (\<exists>h3. free3 keys h2 = Inr h3 \<and> mallocs 0 h2 h3 \<and> cells h3 = cells h))"
proof -
  let ?b = "brk h"
  let ?h1 = "h\<lparr>cells := (cells h)(?b \<mapsto> Str_cell [], Suc ?b \<mapsto> Str_cell [], Suc (Suc ?b) \<mapsto> Str_cell []),
    brk := Suc (Suc (Suc ?b)), room := room h - 3\<rparr>"
  have none: "cells h a = None" if "?b \<le> a" for a
    using assms(1) that by (meson heap_ok_def leD)
  have "\<exists>h3. free3 (?b, Suc ?b, Suc (Suc ?b)) h2 = Inr h3 \<and> mallocs 0 h2 h3 \<and> cells h3 = cells h"
    if "cells h2 = cells ?h1" for h2
    using that none by (auto simp: free3_def free_cell_def mallocs_def)
  moreover have "alloc3 h = Inr ((?b, Suc ?b, Suc (Suc ?b)), ?h1)"
    using assms(2) by (simp add: alloc3_def new_cell_def)
  moreover have "heap_ok ?h1" using assms(1) by (auto simp: heap_ok_def less_SucI)
  moreover have "mallocs 3 h ?h1" using assms(2) by (simp add: mallocs_def)
  ultimately show ?thesis by blast
qed

lemma heap_ok_mallocs: "heap_ok h \<Longrightarrow> mallocs n h h' \<Longrightarrow> cells h' = cells h \<Longrightarrow> heap_ok h'"
  by (auto simp: heap_ok_def mallocs_def trans_less_add1)

lemma c_str_id: "CHR 0x00 \<notin> set s \<Longrightarrow> c_str s = s"
  by (auto simp: c_str_def takeWhile_eq_all_conv)

lemma job_tokens:
  assumes "doable e lo j"
  shows "fgets (MAX_STR - 1) (job_line j @ r) = (job_line j, r)"
    and "strtok {CHR '' '', newline} (c_str (job_line j)) = (Some (job_file j), job_sort j @ [newline])"
    and "strtok {CHR '' '', newline} (job_sort j @ [newline]) = (Some (job_sort j), [])"
    and "job_file j \<noteq> ''exit''" and "length (job_file j) < MAX_STR" and "length (job_sort j) < MAX_STR"
proof -
  let ?s = "job_file j @ CHR '' '' # job_sort j"
  have c: "clean {CHR '' ''} (job_file j)" "clean {CHR '' ''} (job_sort j)"
    using assms by (simp_all add: doable_def)
  have line: "job_line j = ?s @ [newline]" by (simp add: job_line_def)
  have "newline \<notin> set ?s" using c by (auto simp: clean_def)
  moreover have "length ?s < MAX_STR - 1" using assms by (simp add: doable_def job_line_def MAX_STR_def)
  ultimately show "fgets (MAX_STR - 1) (job_line j @ r) = (job_line j, r)"
    using fgets_line [of ?s "MAX_STR - 1" r] by (simp add: line)
  have "c_str (job_line j) = job_line j" using c by (intro c_str_id) (auto simp: job_line_def clean_def)
  then show "strtok {CHR '' '', newline} (c_str (job_line j)) = (Some (job_file j), job_sort j @ [newline])"
    using c strtok_token [of "job_file j" "{CHR '' '', newline}" "CHR '' ''" "job_sort j @ [newline]"]
    by (auto simp: job_line_def clean_def)
  show "strtok {CHR '' '', newline} (job_sort j @ [newline]) = (Some (job_sort j), [])"
    using c strtok_token [of "job_sort j" "{CHR '' '', newline}" newline "[]"] by (auto simp: clean_def)
  show "length (job_file j) < MAX_STR" "length (job_sort j) < MAX_STR"
    using assms by (simp_all add: doable_def job_line_def)
  show "job_file j \<noteq> ''exit''"
    using assms by (auto simp: doable_def getType_def strtok_def DELIM_def MAX_STR_def)
qed

lemma menu_exit:
  assumes "heap_ok h" and "3 \<le> room h"
  shows "\<exists>h'. ui_menu flushed e (''exit'' @ [newline]) h g = Inr ([], h', g) \<and> cells h' = cells h"
proof -
  obtain keys h1 where a: "alloc3 h = Inr (keys, h1)" "\<exists>h3. free3 keys h1 = Inr h3 \<and> mallocs 0 h1 h3 \<and> cells h3 = cells h"
    using alloc_free3 [OF assms] by blast
  have "fst (fgets (MAX_STR - 1) (''exit'' @ [newline])) = ''exit'' @ [newline]"
    using fgets_line [of "''exit''" "MAX_STR - 1" "[]"] by (simp add: MAX_STR_def)
  moreover have "strtok {CHR '' '', newline} (c_str (''exit'' @ [newline])) = (Some ''exit'', [])"
    using strtok_token [of "''exit''" "{CHR '' '', newline}" newline "[]"] by (simp add: c_str_def)
  ultimately show ?thesis using a by (subst ui_menu.simps) (auto simp: MAX_STR_def)
qed

lemma menu_run:
  assumes "heap_ok h" and "\<forall>j \<in> set js. doable e lo j"
    and "\<forall>j \<in> set js. \<forall>k \<in> set js. job_file j \<noteq> out_name (job_type k)"
    and "sum_list (map (\<lambda>j. 4 + 3 * length (job_entries j)) js) + 3 \<le> room h"
  shows "\<exists>h'. ui_menu flushed e (concat (map job_line js) @ ''exit'' @ [newline]) h g =
      Inr (map (job_out (os_lf e)) js, h', g) \<and> cells h' = cells h"
  using assms
proof (induction js arbitrary: e h)
  case Nil
  then show ?case using menu_exit [of h] by simp
next
  case (Cons j js)
  let ?r = "concat (map job_line js) @ ''exit'' @ [newline]" and ?n = "length (job_entries j)"
  let ?e = "wrote flushed (job_out (os_lf e) j) e"
  have d: "doable e lo j" and room: "7 + 3 * ?n + sum_list (map (\<lambda>j. 4 + 3 * length (job_entries j)) js) \<le> room h"
    using Cons.prems(2,4) by simp_all
  obtain keys h1 where a: "alloc3 h = Inr (keys, h1)" "mallocs 3 h h1" "heap_ok h1"
    and fr: "\<And>h2. cells h2 = cells h1 \<Longrightarrow> \<exists>h3. free3 keys h2 = Inr h3 \<and> mallocs 0 h2 h3 \<and> cells h3 = cells h"
    using alloc_free3 [OF Cons.prems(1)] room by auto
  obtain bytes where b: "input_file e (job_file j) = Some bytes"
    "parse_file (os_atof e) (job_type j) bytes = Inr (job_entries j)"
    using d by (auto simp: doable_def)
  have "3 * ?n < room h1" using a(2) room by (simp add: mallocs_def)
  then obtain h2 where r: "driver e (job_type j) (job_file j) h1 g = Inr (job_out (os_lf e) j, h2, g)" "cells h2 = cells h1"
    using driver_run [OF a(3) b, where lo = lo and g = g] d by (auto simp: doable_def job_out_def)
  obtain h3 where f: "free3 keys h2 = Inr h3" "mallocs 0 h2 h3" "cells h3 = cells h" using fr [OF r(2)] by blast
  have m: "mallocs (4 + 3 * ?n) h h3"
    using a(2) mallocs_driver [OF r(1) b] f(2) by (simp add: mallocs_def)
  have e: "os_lf ?e = os_lf e" "\<And>k. k \<in> set js \<Longrightarrow> doable ?e lo k"
    using Cons.prems(2,3) by (auto simp: wrote_def doable_def job_out_def)
  have "sum_list (map (\<lambda>j. 4 + 3 * length (job_entries j)) js) + 3 \<le> room h3"
    using room m by (simp add: mallocs_def)
  then obtain h' where rest: "ui_menu flushed ?e ?r h3 g = Inr (map (job_out (os_lf e)) js, h', g)" "cells h' = cells h"
    using Cons.IH [OF heap_ok_mallocs [OF Cons.prems(1) m f(3)], of ?e] e Cons.prems(3) f(3) by auto
  have "concat (map job_line (j # js)) @ ''exit'' @ [newline] = job_line j @ ?r" by simp
  moreover have "job_line j \<noteq> []" by (simp add: job_line_def)
  moreover have "getType (job_file j) (job_sort j) = Inr (job_type j)" using d by (simp add: doable_def)
  ultimately show ?case
    using a(1) r(1) f(1) rest job_tokens(1) [OF d, of ?r] job_tokens(2-6) [OF d]
    by (subst ui_menu.simps) (simp add: ui_cmd_def)
qed

section \<open>Properties\<close>

text \<open>
  C32. A session of the menu. On the commands of a session, each for a file whose lines parse and
  can be sorted and which no command of the session writes, and \<open>exit\<close> at the end, the menu program
  writes for every command, in their order, the sorted entries of its file, whatever part of its
  output the library has flushed; it ends with status 0 and has freed every object it allocated.
\<close>

theorem menu_session_sorts_files:
  assumes "heap_ok h" and "\<forall>j \<in> set js. doable e lo j"
    and "\<forall>j \<in> set js. \<forall>k \<in> set js. job_file j \<noteq> out_name (job_type k)"
    and "sum_list (map (\<lambda>j. 4 + 3 * length (job_entries j)) js) + 3 \<le> room h"
  shows "\<exists>h'. main_menu flushed e (concat (map job_line js) @ ''exit'' @ [newline]) h g =
      Inr (0, map (job_out (os_lf e)) js, h', g) \<and> cells h' = cells h"
  using menu_run [OF assms, of flushed g] by (auto simp: main_menu_def)

definition sample_job :: "string \<Rightarrow> int \<Rightarrow> job" where
  "sample_job a2 st =
     \<lparr>job_file = ''rand_int.txt'', job_sort = a2, job_type = \<lparr>sortType = st, dataType = DATA_INT\<rparr>,
      job_entries = [(''a'', Int_cell 5), (''b'', Int_cell 3)]\<rparr>"

lemma sample_doable:
  assumes "(a2, st) \<in> {(''inc'', SORT_INC), (''dec'', SORT_DEC)}"
  shows "doable sample_os 0 (sample_job a2 st)"
proof -
  have "parse_file (os_atof sample_os) \<lparr>sortType = st, dataType = DATA_INT\<rparr>
      (concat (map (entry_line (\<lambda>_. [])) [(''a'', Int_cell 5), (''b'', Int_cell 3)])) =
    Inr [(''a'', Int_cell 5), (''b'', Int_cell 3)]"
    using sample_printable by (intro parse_printed) blast
  moreover have "getType ''rand_int.txt'' a2 = Inr \<lparr>sortType = st, dataType = DATA_INT\<rparr>"
    using assms by (auto simp: getType_def strtok_def DELIM_def MAX_STR_def type_defs)
  moreover have "sortable \<lparr>sortType = st, dataType = DATA_INT\<rparr> 0 [(''a'', Int_cell 5), (''b'', Int_cell 3)]"
    using assms by (auto simp: sortable_def ints_from_def INT_MAX_def)
  ultimately show ?thesis
    using assms
    by (auto simp: doable_def sample_job_def sample_os_def clean_def job_line_def MAX_STR_def INT_MAX_def)
qed

theorem menu_session_sorts_files_witness:
  "\<exists>h'. main_menu (\<lambda>_. []) sample_os
       (''rand_int.txt inc'' @ newline # ''rand_int.txt dec'' @ newline # ''exit'' @ [newline])
       \<lparr>cells = (\<lambda>_. None), brk = 0, room = 23\<rparr> 1 =
     Inr (0, [(''inc_int.txt'', ''b=3'' @ [newline] @ ''a=5'' @ [newline]),
              (''dec_int.txt'', ''a=5'' @ [newline] @ ''b=3'' @ [newline])], h', 1) \<and> cells h' = (\<lambda>_. None)"
proof -
  let ?js = "[sample_job ''inc'' SORT_INC, sample_job ''dec'' SORT_DEC]"
  have out: "map (job_out (os_lf sample_os)) ?js =
      [(''inc_int.txt'', ''b=3'' @ [newline] @ ''a=5'' @ [newline]),
       (''dec_int.txt'', ''a=5'' @ [newline] @ ''b=3'' @ [newline])]"
    by (simp add: job_out_def sample_job_def out_name_def sorted_as_def int_of_def type_defs
        entry_line_def show_cell_def show_int_sample)
  have line: "concat (map job_line ?js) @ ''exit'' @ [newline] =
      ''rand_int.txt inc'' @ newline # ''rand_int.txt dec'' @ newline # ''exit'' @ [newline]"
    by (simp add: job_line_def sample_job_def)
  have "\<forall>j \<in> set ?js. doable sample_os 0 j" using sample_doable by simp
  moreover have "\<forall>j \<in> set ?js. \<forall>k \<in> set ?js. job_file j \<noteq> out_name (job_type k)"
    by (simp add: sample_job_def out_name_def type_defs)
  ultimately show ?thesis
    using menu_session_sorts_files [of "\<lparr>cells = (\<lambda>_. None), brk = 0, room = 23\<rparr>" ?js sample_os 0 "\<lambda>_. []" 1]
    unfolding out line by (simp add: heap_ok_def sample_job_def)
qed

end
