(* ===== verification/Sort_Csv.thy ===== *)
theory Sort_Csv
  imports Sort_Ui
begin

text \<open>
  The csv plugin of Lab 6 (\<open>cmplx-sort/src-plugin-csv/ui.c\<close>): a table whose columns are sorted
  one by one. The list and the sort are those of \<open>Sort_List\<close> and \<open>Sort_Cmp\<close>; one cell of the
  table is read by the code that reads a line in the txt plugin, \<open>read_line\<close>.

  The arrays \<open>type[36]\<close> and \<open>list[36]\<close> are the list of the columns that were given values, the
  first \<open>columnCnt\<close> places; the use of a later place is \<open>Indeterminate\<close>. The text in the two line
  buffers is a value beside the memory; their objects are in memory, since the second one is
  allocated for every line and never freed.
\<close>

section \<open>The plugin\<close>

definition MAX_COLUMN :: nat where "MAX_COLUMN = 36"
definition SEP :: "char set" where "SEP = {CHR '','', newline}"

text \<open>
  One call of \<open>strsep\<close>: the field, and where the pointer is left. A field may be empty; the
  pointer is null after the last field.
\<close>

definition strsep :: "char set \<Rightarrow> string \<Rightarrow> string \<times> string option" where
  "strsep d s =
     (takeWhile (\<lambda>c. c \<notin> d) s, case dropWhile (\<lambda>c. c \<notin> d) s of [] \<Rightarrow> None | _ # r \<Rightarrow> Some r)"

definition csv_getType :: "string \<Rightarrow> crash + sort_type" where
  "csv_getType argv =
     (if MAX_STR \<le> length argv then Inl Outside_array else
      let d = {CHR ''_'', CHR '' '', newline}; (tok1, r) = strtok d argv in
      case tok1 of None \<Rightarrow> Inl Null_access | Some token \<Rightarrow>
      let st = (if token = ''rand'' then SORT_RAND else if token = ''inc'' then SORT_INC
                else if token = ''dec'' then SORT_DEC else SORT_NULL) in
      case fst (strtok d r) of None \<Rightarrow> Inl Null_access | Some token \<Rightarrow>
      let dt = (if token = ''int'' then DATA_INT else if token = ''char'' then DATA_CHAR
                else if token = ''double'' then DATA_DOUBLE else DATA_NULL)
      in if dt \<noteq> DATA_NULL \<and> st \<noteq> SORT_NULL then Inr \<lparr>sortType = st, dataType = dt\<rparr>
         else Inl Failed_assert)"

text \<open>
  The loop over the fields of the first line. \<open>tmpKeyI != "\0"\<close> compares pointers and always
  holds, so the loop ends when the pointer \<open>raww\<close> is null.
\<close>

type_synonym columns = "(sort_type \<times> clist) list"

lemma strsep_shorter: "snd (strsep d s) = Some r \<Longrightarrow> length r < length s"
  using length_dropWhile_le [of "\<lambda>c. c \<notin> d" s] by (auto simp: strsep_def split: list.splits)

abbreviation left :: "string option \<Rightarrow> nat" where
  "left p \<equiv> (case p of None \<Rightarrow> 0 | Some s \<Rightarrow> Suc (length s))"

function csv_header :: "string option \<Rightarrow> string \<Rightarrow> columns \<Rightarrow> crash + columns" where
  "csv_header raww tok cols =
     (case raww of None \<Rightarrow> Inr cols | Some s \<Rightarrow>
      if MAX_COLUMN \<le> length cols then Inl Outside_array else
      bindE (csv_getType tok) (\<lambda>t.
        csv_header (snd (strsep SEP s)) (fst (strsep SEP s)) (cols @ [(t, listConstructor)])))"
  by pat_completeness auto
termination
  by (relation "measure (\<lambda>(raww, tok, cols). left raww)") (auto dest: strsep_shorter split: option.splits)

declare csv_header.simps [simp del]

text \<open>
  The first field is taken through the copy \<open>rawww\<close> of the pointer. The zero byte that \<open>strsep\<close>
  writes at its end also ends the string at \<open>raww\<close>, with which the loop goes on.
\<close>

definition csv_first :: "string \<Rightarrow> crash + columns" where
  "csv_first raw = (let tok = fst (strsep SEP raw) in csv_header (Some tok) tok [])"

text \<open>The loop over the fields of a later line.\<close>

function csv_row ::
  "(string \<Rightarrow> double) \<Rightarrow> string option \<Rightarrow> string \<Rightarrow> nat \<Rightarrow> columns \<Rightarrow> heap \<Rightarrow> crash + (columns \<times> heap)" where
  "csv_row atof raww tok i cols h =
     (case raww of None \<Rightarrow> Inr (cols, h) | Some s \<Rightarrow>
      if MAX_COLUMN \<le> i then Inl Outside_array else
      if length cols \<le> i then Inl Indeterminate else
      bindE (read_line atof (fst (cols ! i)) tok (snd (cols ! i)) h) (\<lambda>(l, h).
        csv_row atof (snd (strsep SEP s)) (fst (strsep SEP s)) (Suc i) (cols[i := (fst (cols ! i), l)]) h))"
  by pat_completeness auto
termination
  by (relation "measure (\<lambda>(atof, raww, tok, i, cols, h). left raww)") (auto dest: strsep_shorter split: option.splits)

declare csv_row.simps [simp del]

text \<open>The loop over the lines: the count of lines after the first, \<open>FIRST\<close> and the columns.\<close>

function csv_lines ::
  "(string \<Rightarrow> double) \<Rightarrow> string \<Rightarrow> int \<Rightarrow> string option \<Rightarrow> columns \<Rightarrow> heap \<Rightarrow>
   crash + (int \<times> string option \<times> columns \<times> heap)" where
  "csv_lines atof file lineCnt first cols h =
     (if file = [] then Inr (lineCnt, first, cols, h) else
      let raw = c_str (fst (fgets (MAX_STR - 1) file)) in
      if MAX_STR \<le> length (fst (fgets (MAX_STR - 1) file)) then Inl Outside_array else
      bindE (new_cell (Str_cell []) h) (\<lambda>(_, h).
      if MAX_STR \<le> length raw then Inl Outside_array else
      bindE (if lineCnt = -1 then bindE (csv_first raw) (\<lambda>cols. Inr (Some raw, cols, h))
             else bindE (csv_row atof (snd (strsep SEP raw)) (fst (strsep SEP raw)) 0 cols h)
                    (\<lambda>(cols, h). Inr (first, cols, h)))
        (\<lambda>(first, cols, h).
      if lineCnt = INT_MAX then Inl Overflow
      else csv_lines atof (snd (fgets (MAX_STR - 1) file)) (lineCnt + 1) first cols h)))"
  by pat_completeness auto
termination
  by (relation "measure (\<lambda>(atof, file, lineCnt, first, cols, h). length file)")
    (use fgets_shorter [of _ 1022] in \<open>auto simp: MAX_STR_def numeral_eq_Suc\<close>)

declare csv_lines.simps [simp del]

text \<open>A line fits the buffer it is read into, and those it is copied to.\<close>

lemma csv_lines_unfold:
  "csv_lines atof file lineCnt first cols h =
     (if file = [] then Inr (lineCnt, first, cols, h) else
      let raw = c_str (fst (fgets (MAX_STR - 1) file)) in
      bindE (new_cell (Str_cell []) h) (\<lambda>(_, h).
      bindE (if lineCnt = -1 then bindE (csv_first raw) (\<lambda>cols. Inr (Some raw, cols, h))
             else bindE (csv_row atof (snd (strsep SEP raw)) (fst (strsep SEP raw)) 0 cols h)
                    (\<lambda>(cols, h). Inr (first, cols, h)))
        (\<lambda>(first, cols, h).
      if lineCnt = INT_MAX then Inl Overflow
      else csv_lines atof (snd (fgets (MAX_STR - 1) file)) (lineCnt + 1) first cols h)))"
proof -
  have "\<not> MAX_STR \<le> length (fst (fgets (MAX_STR - 1) file))"
    "\<not> MAX_STR \<le> length (c_str (fst (fgets (MAX_STR - 1) file)))"
    using fgets_fits [of "file"] c_str_length [of "fst (fgets (MAX_STR - 1) file)"] by simp_all
  then show ?thesis by (subst csv_lines.simps) (simp only: if_False Let_def)
qed

fun csv_sort ::
  "('g \<Rightarrow> int \<times> 'g) \<Rightarrow> columns \<Rightarrow> heap \<Rightarrow> 'g \<Rightarrow> crash + (columns \<times> heap \<times> 'g)" where
  "csv_sort rand [] h g = Inr ([], h, g)"
| "csv_sort rand ((t, l) # cols) h g =
     bindE (sort_c rand t l h g) (\<lambda>(l, h, g).
     bindE (csv_sort rand cols h g) (\<lambda>(cols, h, g). Inr ((t, l) # cols, h, g)))"

text \<open>One line of the output and the pointers \<open>nodeIndex\<close> it leaves.\<close>

fun csv_print_row ::
  "(double \<Rightarrow> string) \<Rightarrow> heap \<Rightarrow> (sort_type \<times> ptr) list \<Rightarrow> crash + (string \<times> (sort_type \<times> ptr) list)" where
  "csv_print_row lf h [] = Inr ([], [])"
| "csv_print_row lf h ((t, p) # ps) =
     bindE (get_node h p) (\<lambda>n.
     bindE (get_str h (key n)) (\<lambda>k.
     bindE (print_data lf t h (data n)) (\<lambda>d.
     bindE (csv_print_row lf h ps) (\<lambda>(s, qs).
       Inr (k @ ''='' @ d @ (if ps = [] then [] else '','') @ s, (t, next_node n) # qs)))))"

fun csv_print ::
  "(double \<Rightarrow> string) \<Rightarrow> heap \<Rightarrow> nat \<Rightarrow> (sort_type \<times> ptr) list \<Rightarrow> crash + string" where
  "csv_print lf h 0 ps = Inr []"
| "csv_print lf h (Suc n) ps =
     bindE (csv_print_row lf h ps) (\<lambda>(s, ps).
     bindE (csv_print lf h n ps) (\<lambda>r. Inr (s @ [newline] @ r)))"

fun csv_destroy :: "columns \<Rightarrow> heap \<Rightarrow> crash + heap" where
  "csv_destroy [] h = Inr h"
| "csv_destroy ((t, l) # cols) h = bindE (listDestructor l h) (\<lambda>h. csv_destroy cols h)"

definition csv_ui_cmd ::
  "'g os \<Rightarrow> string \<Rightarrow> heap \<Rightarrow> 'g \<Rightarrow> crash + ((string \<times> string) \<times> heap \<times> 'g)" where
  "csv_ui_cmd e a1 h g =
     bindE (new_cell (Str_cell []) h) (\<lambda>(raw, h).
     case input_file e a1 of None \<Rightarrow> Inl Null_access | Some file \<Rightarrow>
     bindE (csv_lines (os_atof e) file (-1) None [] h) (\<lambda>(lineCnt, first, cols, h).
     bindE (free_cell (Some raw) h) (\<lambda>h.
     bindE (csv_sort (os_rand e) cols h g) (\<lambda>(cols, h, g).
     if \<not> can_write e ''export.csv'' then Inl Null_access else
     case first of None \<Rightarrow> Inl Indeterminate | Some FIRST \<Rightarrow>
     bindE (csv_print (os_lf e) h (nat lineCnt) (map (\<lambda>(t, l). (t, head l)) cols)) (\<lambda>s.
     bindE (csv_destroy cols h) (\<lambda>h. Inr ((''export.csv'', FIRST @ s), h, g)))))))"

end
