(* ===== verification/Sort_Csv_Props.thy ===== *)
theory Sort_Csv_Props
  imports Sort_Csv
begin

text \<open>
  What the csv plugin does with a table: with one column it works; a second column, a last line
  without its newline and an empty file are errors it runs into.
\<close>

section \<open>Fields\<close>

text \<open>A field or a line without separators, and the entries that fit in a table.\<close>

definition plain :: "string \<Rightarrow> bool" where
  "plain s \<longleftrightarrow> set s \<inter> {CHR '','', newline, CHR 0x00} = {}"

lemma plain_strsep [simp]:
  "plain s \<Longrightarrow> strsep SEP s = (s, None)"
  "plain s \<Longrightarrow> d \<in> SEP \<Longrightarrow> strsep SEP (s @ d # r) = (s, Some r)"
proof -
  assume p: "plain s"
  then have a: "\<forall>c \<in> set s. c \<notin> SEP" by (auto simp: plain_def SEP_def)
  then show "strsep SEP s = (s, None)" by (simp add: strsep_def takeWhile_eq_all_conv dropWhile_eq_Nil_conv [THEN iffD2])
  show "strsep SEP (s @ d # r) = (s, Some r)" if "d \<in> SEP"
    using a that by (simp add: strsep_def takeWhile_stop dropWhile_stop)
qed

lemma newline_SEP [simp]: "newline \<in> SEP" and comma_SEP [simp]: "CHR '','' \<in> SEP"
  by (simp_all add: SEP_def)

lemma plain_c_str [simp]: "plain s \<Longrightarrow> c_str s = s" "plain s \<Longrightarrow> d \<noteq> CHR 0x00 \<Longrightarrow> c_str (s @ d # r) = s @ d # c_str r"
proof -
  assume "plain s"
  then have "\<forall>c \<in> set s. c \<noteq> CHR 0x00" by (auto simp: plain_def)
  then show "c_str s = s" "d \<noteq> CHR 0x00 \<Longrightarrow> c_str (s @ d # r) = s @ d # c_str r"
    by (simp_all add: c_str_def takeWhile_eq_all_conv)
qed

lemma c_str_sep [simp]: "c_str [] = []" "c_str (newline # r) = newline # c_str r"
  by (simp_all add: c_str_def)

lemma plain_fgets:
  "plain s \<Longrightarrow> length s < MAX_STR - 1 \<Longrightarrow> fgets (MAX_STR - 1) (s @ newline # r) = (s @ [newline], r)"
  by (rule fgets_line) (auto simp: plain_def)

lemma fgets_rest: "newline \<notin> set s \<Longrightarrow> length s \<le> n \<Longrightarrow> fgets n s = (s, [])"
proof (induction s arbitrary: n)
  case (Cons c s)
  then show ?case by (cases n) auto
qed (case_tac n; simp)

text \<open>Whatever the first line is, the plugin sees one column: its first field.\<close>

lemma csv_first_one_column:
  "csv_first raw = bindE (csv_getType (fst (strsep SEP raw))) (\<lambda>t. Inr [(t, listConstructor)])"
proof -
  have "\<forall>c \<in> set (takeWhile (\<lambda>c. c \<notin> SEP) raw). c \<notin> SEP" by (blast dest: set_takeWhileD)
  then have "dropWhile (\<lambda>c. c \<notin> SEP) (takeWhile (\<lambda>c. c \<notin> SEP) raw) = []"
    by (simp only: dropWhile_eq_Nil_conv)
  then have "strsep SEP (fst (strsep SEP raw)) = (fst (strsep SEP raw), None)"
    by (simp only: strsep_def fst_conv takeWhile_idem list.case)
  then show ?thesis
    by (simp add: csv_first_def csv_header.simps [of "Some _"] csv_header.simps [of None] MAX_COLUMN_def Let_def)
qed

section \<open>The memory beside the list\<close>

text \<open>A memory with line buffers at the addresses \<open>A\<close> that it did not have before.\<close>

definition with_bufs :: "heap \<Rightarrow> nat set \<Rightarrow> heap" where
  "with_bufs h A = h\<lparr>cells := (\<lambda>a. if a \<in> A then Some (Str_cell []) else cells h a)\<rparr>"

lemma with_bufs_cells [simp]: "cells (with_bufs h A) a = (if a \<in> A then Some (Str_cell []) else cells h a)"
  by (simp add: with_bufs_def)

lemma with_bufs_insert: "(with_bufs h A)\<lparr>cells := (cells (with_bufs h A))(a \<mapsto> Str_cell [])\<rparr> = with_bufs h (insert a A)"
  by (auto simp: with_bufs_def fun_eq_iff)

lemma with_bufs_none: "with_bufs h {} = h"
  by (simp add: with_bufs_def)

text \<open>\<open>rep_over\<close> looks only at the cells of the memory below.\<close>

lemma rep_over_cells: "cells h1 = cells h2 \<Longrightarrow> rep_over h1 h l rs es = rep_over h2 h l rs es"
  by (simp add: rep_over_def)

lemma rep_over_alloc:
  assumes "rep_over h0 h l rs es" and "0 < room h"
  shows "\<exists>h'. new_cell (Str_cell []) h = Inr (brk h, h') \<and>
    rep_over (h0\<lparr>cells := (cells h0)(brk h \<mapsto> Str_cell [])\<rparr>) h' l rs es \<and> room h' = room h - 1 \<and> cells h0 (brk h) = None"
proof -
  let ?h = "h\<lparr>cells := (cells h)(brk h \<mapsto> Str_cell []), brk := Suc (brk h), room := room h - 1\<rparr>"
    and ?base = "h0\<lparr>cells := (cells h0)(brk h \<mapsto> Str_cell [])\<rparr>"
  have lr: "list_rep h l rs es" using assms(1) by (simp add: rep_over_def)
  then have f: "cells h (brk h) = None" by (auto simp: list_rep_def dest: heap_fresh)
  then have n: "brk h \<notin> set (owned rs)" using rows_owned_alloc lr by (fastforce simp: list_rep_def)
  have "rows_at ?h (head l) rs es = rows_at h (head l) rs es" using n by (intro rows_at_cong) auto
  then have "list_rep ?h l rs es" using lr by (auto simp: list_rep_def heap_ok_def less_SucI)
  moreover have "cells h0 (brk h) = None" using assms(1) f n unfolding rep_over_def by metis
  moreover have "if b \<in> set (owned rs) then cells ?base b = None else cells ?h b = cells ?base b" for b
  proof -
    have "if b \<in> set (owned rs) then cells h0 b = None else cells h b = cells h0 b"
      using assms(1) unfolding rep_over_def by blast
    then show ?thesis using n by auto
  qed
  ultimately have "rep_over (h0\<lparr>cells := (cells h0)(brk h \<mapsto> Str_cell [])\<rparr>) ?h l rs es" "cells h0 (brk h) = None"
    unfolding rep_over_def by blast+
  then show ?thesis using assms(2) by (simp add: new_cell_def)
qed

section \<open>Rows of one column\<close>

definition field :: "(double \<Rightarrow> string) \<Rightarrow> string \<times> cell \<Rightarrow> string" where
  "field lf e = fst e @ ''='' @ show_cell lf (snd e)"

definition csv_entry :: "sort_type \<Rightarrow> string \<times> cell \<Rightarrow> bool" where
  "csv_entry t e \<longleftrightarrow> printable t e \<and> CHR '','' \<notin> set (field (\<lambda>_. []) e)"

lemma entry_line_field: "entry_line lf e = field lf e @ [newline]"
  by (simp add: entry_line_def field_def)

lemma printable_cell: "printable t e \<Longrightarrow> show_cell lf (snd e) = show_cell (\<lambda>_. []) (snd e)"
  by (auto simp: printable_def show_cell_def)

lemma csv_entry_plain:
  assumes "csv_entry t e"
  shows "plain (field lf e)" "length (field lf e) < MAX_STR - 1"
proof -
  have p: "printable t e" using assms by (simp add: csv_entry_def)
  note eq = printable_cell [OF p, of lf]
  show "plain (field lf e)"
    using assms printable_data [OF p, of "\<lambda>_. []"] p
    by (auto simp: plain_def field_def eq csv_entry_def clean_def printable_def [of t e])
  show "length (field lf e) < MAX_STR - 1"
    using p by (simp add: printable_def entry_line_def field_def eq MAX_STR_def)
qed

lemma strtok_all:
  assumes "s \<noteq> []" and "set s \<inter> ds = {}"
  shows "strtok ds s = (Some s, [])"
proof -
  have a: "\<forall>c \<in> set s. c \<notin> ds" using assms(2) by auto
  then have "takeWhile (\<lambda>c. c \<notin> ds) s = s" "dropWhile (\<lambda>c. c \<notin> ds) s = []"
    by (simp_all only: takeWhile_eq_all_conv dropWhile_eq_Nil_conv)
  moreover have "dropWhile (\<lambda>c. c \<in> ds) s = s" using assms by (cases s) auto
  ultimately show ?thesis using assms(1) by (simp only: strtok_def Let_def if_False drop_Nil)
qed

lemma parse_field:
  assumes "csv_entry t e"
  shows "parse_line atof t (field lf e) = Inr e"
proof -
  let ?d = "show_cell lf (snd e)"
  have p: "printable t e" using assms by (simp add: csv_entry_def)
  have d: "clean {CHR '' ''} ?d" "parse_value atof t (Some ?d) = Inr (snd e)" using printable_data [OF p] by simp_all
  have "strtok {CHR ''=''} (fst e @ CHR ''='' # ?d) = (Some (fst e), ?d)"
    using p by (intro strtok_token) (auto simp: clean_def printable_def)
  moreover have "strtok {CHR '' '', newline} ?d = (Some ?d, [])"
    using d(1) by (intro strtok_all) (auto simp: clean_def)
  moreover have "c_str (field lf e) = fst e @ CHR ''='' # ?d"
    using plain_c_str(1) [OF csv_entry_plain(1) [OF assms, of lf]] by (simp add: field_def)
  ultimately show ?thesis using d(2) by (simp add: parse_line_def)
qed

lemma csv_field_fits: "csv_entry t e \<Longrightarrow> length (field lf e) < MAX_STR"
  using csv_entry_plain [of t e lf] by (simp add: MAX_STR_def)

lemma csv_row_one:
  assumes "csv_entry t e" and "rep_over h0 h l rs es" and "int (length rs) < INT_MAX" "3 \<le> room h"
  shows "\<exists>l' h' rs'. csv_row atof (Some []) (field lf e) 0 [(t, l)] h = Inr ([(t, l')], h') \<and>
    rep_over h0 h' l' rs' (es @ [e]) \<and> room h' = room h - 3 \<and> length rs' = Suc (length rs)"
proof -
  obtain s x where e: "e = (s, x)" by fastforce
  have "parse_line atof t (field lf e) = Inr (s, x)" using parse_field [OF assms(1)] e by simp
  from read_line_rep [OF assms(2) this assms(3,4) csv_field_fits [OF assms(1)]] obtain l' h' where
    "read_line atof t (field lf e) l h = Inr (l', h')"
    "rep_over h0 h' l' (rs @ [(brk h + 2, brk h + 1, brk h)]) (es @ [(s, x)])" "room h' = room h - 3" by blast
  moreover have "strsep SEP [] = ([], None)" by (simp add: strsep_def)
  ultimately show ?thesis
    unfolding e
    by (intro exI [of _ l'] exI [of _ h'] exI [of _ "rs @ [(brk h + 2, brk h + 1, brk h)]"])
      (simp add: csv_row.simps [of _ "Some _"] csv_row.simps [of _ None] MAX_COLUMN_def)
qed

text \<open>The state of the reading loop: one list over a memory with the line buffers.\<close>

definition one_column ::
  "heap \<Rightarrow> nat set \<Rightarrow> heap \<Rightarrow> clist \<Rightarrow> row list \<Rightarrow> (string \<times> cell) list \<Rightarrow> bool" where
  "one_column h0 A h l rs es \<longleftrightarrow>
     rep_over (with_bufs h0 A) h l rs es \<and> finite A \<and> (\<forall>a \<in> A. cells h0 a = None)"

lemma one_column_alloc:
  assumes "one_column h0 A h l rs es" and "0 < room h"
  shows "\<exists>h'. new_cell (Str_cell []) h = Inr (brk h, h') \<and> one_column h0 (insert (brk h) A) h' l rs es \<and>
    room h' = room h - 1 \<and> brk h \<notin> A"
proof -
  obtain h' where "new_cell (Str_cell []) h = Inr (brk h, h')" "room h' = room h - 1"
    "rep_over (with_bufs h0 (insert (brk h) A)) h' l rs es" "cells (with_bufs h0 A) (brk h) = None"
    using rep_over_alloc [of "with_bufs h0 A" h l rs es] assms unfolding one_column_def with_bufs_insert by blast
  then show ?thesis using assms(1) by (auto simp: one_column_def split: if_splits)
qed

lemma csv_lines_rows:
  assumes "\<forall>e \<in> set fs. csv_entry t e" and "one_column h0 A h l rs es" and "0 \<le> n"
    and "n + int (length fs) \<le> INT_MAX" and "int (length rs + length fs) \<le> INT_MAX" and "4 * length fs \<le> room h"
  shows "\<exists>l' h' rs' A'. csv_lines atof (concat (map (entry_line lf) fs) @ r) n first [(t, l)] h =
      csv_lines atof r (n + int (length fs)) first [(t, l')] h' \<and>
    one_column h0 A' h' l' rs' (es @ fs) \<and> A \<subseteq> A' \<and> card A' = card A + length fs \<and>
    room h' = room h - 4 * length fs \<and> length rs' = length rs + length fs"
  using assms
proof (induction fs arbitrary: A h l rs es n)
  case Nil
  then show ?case by (intro exI [of _ l] exI [of _ h] exI [of _ rs] exI [of _ A]) simp
next
  case (Cons e fs)
  let ?f = "field lf e" and ?r = "concat (map (entry_line lf) fs) @ r"
  have ce: "csv_entry t e" using Cons.prems(1) by simp
  note pl = csv_entry_plain [OF ce, of lf]
  have rm: "0 < room h" using Cons.prems(6) by simp
  obtain h1 where h1: "new_cell (Str_cell []) h = Inr (brk h, h1)" "one_column h0 (insert (brk h) A) h1 l rs es"
    "room h1 = room h - 1" "brk h \<notin> A"
    using one_column_alloc [OF Cons.prems(2) rm] by blast
  have "rep_over (with_bufs h0 (insert (brk h) A)) h1 l rs es" using h1(2) by (simp add: one_column_def)
  moreover have "int (length rs) < INT_MAX" "3 \<le> room h1" using Cons.prems(5,6) h1(3) by simp_all
  ultimately obtain l2 h2 rs2 where r2: "csv_row atof (Some []) ?f 0 [(t, l)] h1 = Inr ([(t, l2)], h2)"
    "rep_over (with_bufs h0 (insert (brk h) A)) h2 l2 rs2 (es @ [e])" "room h2 = room h1 - 3" "length rs2 = Suc (length rs)"
    using csv_row_one [OF ce] by blast
  have o2: "one_column h0 (insert (brk h) A) h2 l2 rs2 (es @ [e])" using r2(2) h1(2) by (simp add: one_column_def)
  have "\<exists>l' h' rs' A'. csv_lines atof ?r (n + 1) first [(t, l2)] h2 =
      csv_lines atof r (n + 1 + int (length fs)) first [(t, l')] h' \<and>
    one_column h0 A' h' l' rs' ((es @ [e]) @ fs) \<and> insert (brk h) A \<subseteq> A' \<and>
    card A' = card (insert (brk h) A) + length fs \<and> room h' = room h2 - 4 * length fs \<and> length rs' = length rs2 + length fs"
    using Cons.prems(1,3-6) h1(3) r2(3,4) by (intro Cons.IH [OF _ o2]) simp_all
  then obtain l' h' rs' A' where x: "csv_lines atof ?r (n + 1) first [(t, l2)] h2 =
      csv_lines atof r (n + 1 + int (length fs)) first [(t, l')] h'" "one_column h0 A' h' l' rs' ((es @ [e]) @ fs)"
    "insert (brk h) A \<subseteq> A'" "card A' = card (insert (brk h) A) + length fs" "room h' = room h2 - 4 * length fs"
    "length rs' = length rs2 + length fs" by blast
  have "csv_lines atof (concat (map (entry_line lf) (e # fs)) @ r) n first [(t, l)] h =
      csv_lines atof ?r (n + 1) first [(t, l2)] h2"
    using Cons.prems(3,4) pl h1(1) r2(1) plain_fgets [OF pl, of ?r]
    by (subst csv_lines_unfold) (simp add: entry_line_field Let_def)
  moreover have "finite A" using Cons.prems(2) by (simp add: one_column_def)
  ultimately show ?case
    using x h1(3,4) r2(3,4)
    by (intro exI [of _ l'] exI [of _ h'] exI [of _ rs'] exI [of _ A']) (simp add: add.assoc)
qed

text \<open>The first line, up to the state in which the rows are read.\<close>

definition csv_head_ok :: "string \<Rightarrow> sort_type \<Rightarrow> bool" where
  "csv_head_ok hdr t \<longleftrightarrow> set hdr \<inter> {newline, CHR 0x00} = {} \<and> length hdr < MAX_STR - 1 \<and>
     csv_getType (fst (strsep SEP hdr)) = Inr t"

lemma csv_head_lines:
  assumes "csv_head_ok hdr t" and "one_column h0 A h listConstructor [] []" and "0 < room h"
  shows "\<exists>h' A'. csv_lines atof (hdr @ newline # r) (-1) None [] h =
      csv_lines atof r 0 (Some (hdr @ [newline])) [(t, listConstructor)] h' \<and>
    one_column h0 A' h' listConstructor [] [] \<and> A \<subseteq> A' \<and> card A' = Suc (card A) \<and> room h' = room h - 1"
proof -
  have nl: "newline \<notin> set hdr" "CHR 0x00 \<notin> set hdr" and len: "length hdr < MAX_STR - 1"
    using assms(1) by (auto simp: csv_head_ok_def)
  have f: "fgets (MAX_STR - 1) (hdr @ newline # r) = (hdr @ [newline], r)" using nl(1) len by (rule fgets_line)
  have c: "c_str (hdr @ [newline]) = hdr @ [newline]" using nl(2) by (auto simp: c_str_def takeWhile_eq_all_conv)
  have s: "fst (strsep SEP (hdr @ [newline])) = fst (strsep SEP hdr)"
    by (simp add: strsep_def takeWhile_tail)
  obtain h' where h': "new_cell (Str_cell []) h = Inr (brk h, h')"
    "one_column h0 (insert (brk h) A) h' listConstructor [] []" "room h' = room h - 1" "brk h \<notin> A"
    using one_column_alloc [OF assms(2,3)] by blast
  have "finite A" using assms(2) by (simp add: one_column_def)
  moreover have "csv_lines atof (hdr @ newline # r) (-1) None [] h =
      csv_lines atof r 0 (Some (hdr @ [newline])) [(t, listConstructor)] h'"
    using h'(1) assms(1) by (subst csv_lines_unfold) (simp add: f [simplified] c s csv_first_one_column csv_head_ok_def INT_MAX_def Let_def)
  ultimately show ?thesis using h' by (intro exI [of _ h'] exI [of _ "insert (brk h) A"]) auto
qed

lemma csv_reads:
  assumes ok: "heap_ok h" and hdr: "csv_head_ok hdr t" and es: "\<forall>e \<in> set es. csv_entry t e"
    and n: "4 * length es + 2 \<le> room h" "int (length es) \<le> INT_MAX"
  obtains h1 l' h' rs' A' where "new_cell (Str_cell []) h = Inr (brk h, h1)"
    "csv_lines atof (hdr @ newline # concat (map (entry_line lf) es) @ r) (-1) None [] h1 =
      csv_lines atof r (int (length es)) (Some (hdr @ [newline])) [(t, l')] h'"
    "one_column h A' h' l' rs' es" "brk h \<in> A'" "card A' = length es + 2" "room h' = room h - (4 * length es + 2)"
    "length rs' = length es"
proof -
  have "one_column h {} h listConstructor [] []"
    using ok by (simp add: one_column_def with_bufs_none rep_over_def list_rep_def listConstructor_def)
  moreover have "0 < room h" using n(1) by simp
  ultimately obtain h1 where h1: "new_cell (Str_cell []) h = Inr (brk h, h1)"
    "one_column h {brk h} h1 listConstructor [] []" "room h1 = room h - 1"
    using one_column_alloc by blast
  have "0 < room h1" using h1(3) n(1) by simp
  from csv_head_lines [OF hdr h1(2) this, of atof "concat (map (entry_line lf) es) @ r"] obtain h2 A2
    where h2: "csv_lines atof (hdr @ newline # concat (map (entry_line lf) es) @ r) (-1) None [] h1 =
      csv_lines atof (concat (map (entry_line lf) es) @ r) 0 (Some (hdr @ [newline])) [(t, listConstructor)] h2"
    "one_column h A2 h2 listConstructor [] []" "{brk h} \<subseteq> A2" "card A2 = Suc (card {brk h})" "room h2 = room h1 - 1"
    by blast
  have "\<exists>l' h' rs' A'. csv_lines atof (concat (map (entry_line lf) es) @ r) 0 (Some (hdr @ [newline])) [(t, listConstructor)] h2 =
      csv_lines atof r (0 + int (length es)) (Some (hdr @ [newline])) [(t, l')] h' \<and>
    one_column h A' h' l' rs' ([] @ es) \<and> A2 \<subseteq> A' \<and> card A' = card A2 + length es \<and>
    room h' = room h2 - 4 * length es \<and> length rs' = length ([] :: row list) + length es"
    using n h1(3) h2(5) by (intro csv_lines_rows [OF es h2(2)]) simp_all
  then obtain l' h' rs' A' where x: "csv_lines atof (concat (map (entry_line lf) es) @ r) 0 (Some (hdr @ [newline])) [(t, listConstructor)] h2 =
      csv_lines atof r (0 + int (length es)) (Some (hdr @ [newline])) [(t, l')] h'"
    "one_column h A' h' l' rs' ([] @ es)" "A2 \<subseteq> A'" "card A' = card A2 + length es"
    "room h' = room h2 - 4 * length es" "length rs' = length ([] :: row list) + length es" by blast
  have "room h' = room h - (4 * length es + 2)" using x(5) h2(5) h1(3) by simp
  moreover have "brk h \<in> A'" "card A' = length es + 2" using x(3,4) h2(3,4) by auto
  moreover have "csv_lines atof (hdr @ newline # concat (map (entry_line lf) es) @ r) (-1) None [] h1 =
      csv_lines atof r (int (length es)) (Some (hdr @ [newline])) [(t, l')] h'" using x(1) h2(1) by simp
  ultimately show ?thesis using h1(1) x(2,6) that by simp
qed

section \<open>Printing\<close>

lemma print_data_fits:
  assumes "row_holds h r q e" and "fits t (snd e)"
  shows "print_data lf t h (Some (snd (snd r))) = Inr (show_cell lf (snd e))"
  using assms
  by (auto simp: fits_def is_str_def print_data_def get_int_def get_double_def get_str_def load_def row_holds_def
      show_cell_def split: if_splits)

lemma csv_print_rows:
  assumes "rows_at h p rs es" and "\<forall>e \<in> set es. fits t (snd e)"
  shows "csv_print lf h (length rs + k) [(t, p)] =
    bindE (csv_print lf h k [(t, None)]) (\<lambda>s. Inr (concat (map (entry_line lf) es) @ s))"
  using assms
proof (induction rs arbitrary: p es)
  case Nil
  then show ?case by (cases "csv_print lf h k [(t, None)]") auto
next
  case (Cons r rs)
  obtain e es' q where es: "es = e # es'" "p = Some (nod r)" "row_holds h r q e" "rows_at h q rs es'"
    using Cons.prems(1) by (cases es) auto
  have "csv_print_row lf h [(t, p)] = Inr (field lf e, [(t, q)])"
    using Cons.prems(2) es row_node [OF es(3)] row_key [OF es(3)] print_data_fits [OF es(3), of t lf] by (simp add: field_def)
  moreover have "csv_print lf h (length rs + k) [(t, q)] =
      bindE (csv_print lf h k [(t, None)]) (\<lambda>s. Inr (concat (map (entry_line lf) es') @ s))"
    using Cons.IH [OF es(4)] Cons.prems(2) es(1) by simp
  ultimately show ?case
    using es(1) by (cases "csv_print lf h k [(t, None)]") (simp_all add: entry_line_field [of lf e])
qed

lemma csv_print_null: "csv_print lf h (Suc k) [(t, None)] = Inl Null_access"
  by (simp add: get_node_def load_def)

lemma csv_sorted_state:
  assumes "one_column h0 A h l rs es" and "a \<in> A" and "sortable t lo es"
  obtains h1 l' h' rs' where "free_cell (Some a) h = Inr h1" "sort_c rand t l h1 g = Inr (l', h', g)"
    "rep_over (with_bufs h0 (A - {a})) h' l' rs' (sorted_as t es)"
proof -
  have eq: "(with_bufs h0 (A - {a}))\<lparr>cells := (cells (with_bufs h0 (A - {a})))(a \<mapsto> Str_cell [])\<rparr> = with_bufs h0 A"
    using assms(2) unfolding with_bufs_insert by (simp add: insert_absorb)
  have "cells (with_bufs h0 (A - {a})) a = None" using assms(1,2) by (simp add: one_column_def)
  moreover have "rep_over ((with_bufs h0 (A - {a}))\<lparr>cells := (cells (with_bufs h0 (A - {a})))(a \<mapsto> Str_cell [])\<rparr>) h l rs es"
    using assms(1) unfolding eq one_column_def by blast
  ultimately obtain h1 where h1: "free_cell (Some a) h = Inr h1" "rep_over (with_bufs h0 (A - {a})) h1 l rs es"
    using rep_over_free by blast
  then have "list_rep h1 l rs es" by (simp add: rep_over_def)
  from rep_over_sort [OF h1(2) sortable_sorts [OF this assms(3), of rand g]] h1(1) that show ?thesis by blast
qed

section \<open>Properties\<close>

text \<open>
  C36. A table of one column is sorted. Given a first line that names a sorting and a data type
  and rows whose integers stay within a window of \<open>INT_MAX\<close> or that hold strings, the plugin
  writes \<open>export.csv\<close>: the first line unchanged, then the rows in sorted order. Every object of
  the list and the input buffer are freed, but one buffer per line of the file, the first
  included, is left allocated; nothing else in memory changed.
\<close>

theorem csv_one_column_sorted:
  assumes "heap_ok h" and "csv_head_ok hdr t" and "\<forall>r \<in> set es. csv_entry t r" and "sortable t lo es"
    and "4 * length es + 2 \<le> room h" and "int (length es) \<le> INT_MAX"
    and "input_file e a1 = Some (hdr @ newline # concat (map (entry_line (os_lf e)) es))"
    and "can_write e ''export.csv''"
  shows "\<exists>h' A. csv_ui_cmd e a1 h g =
      Inr ((''export.csv'', hdr @ newline # concat (map (entry_line (os_lf e)) (sorted_as t es))), h', g) \<and>
    card A = Suc (length es) \<and> (\<forall>a \<in> A. cells h a = None) \<and>
    cells h' = (\<lambda>a. if a \<in> A then Some (Str_cell []) else cells h a)"
proof -
  obtain h1 l2 h2 rs2 A2 where r: "new_cell (Str_cell []) h = Inr (brk h, h1)"
    "csv_lines (os_atof e) (hdr @ newline # concat (map (entry_line (os_lf e)) es) @ []) (-1) None [] h1 =
      csv_lines (os_atof e) [] (int (length es)) (Some (hdr @ [newline])) [(t, l2)] h2"
    "one_column h A2 h2 l2 rs2 es" "brk h \<in> A2" "card A2 = length es + 2" "length rs2 = length es"
    by (rule csv_reads [OF assms(1-3,5,6)])
  obtain h3 l4 h4 rs4 where s: "free_cell (Some (brk h)) h2 = Inr h3" "sort_c (os_rand e) t l2 h3 g = Inr (l4, h4, g)"
    "rep_over (with_bufs h (A2 - {brk h})) h4 l4 rs4 (sorted_as t es)"
    by (rule csv_sorted_state [OF r(3,4) assms(4)])
  have rows: "rows_at h4 (head l4) rs4 (sorted_as t es)" using s(3) by (simp add: rep_over_def list_rep_def)
  have "length rs4 = length es"
    using rows_at_length [OF rows] mset_eq_length [OF mset_sorted_as, of t es] by simp
  then have p: "csv_print (os_lf e) h4 (length es) [(t, head l4)] = Inr (concat (map (entry_line (os_lf e)) (sorted_as t es)))"
    using csv_print_rows [OF rows, of t "os_lf e" 0] sortable_fits [OF assms(4)] by simp
  obtain h5 where d: "listDestructor l4 h4 = Inr h5" "cells h5 = cells (with_bufs h (A2 - {brk h}))"
    using rep_over_destroy [OF s(3)] by blast
  have "csv_ui_cmd e a1 h g =
      Inr ((''export.csv'', hdr @ newline # concat (map (entry_line (os_lf e)) (sorted_as t es))), h5, g)"
    using r(1,2) s(1,2) p d(1) assms(7,8) by (simp add: csv_ui_cmd_def csv_lines_unfold [of _ "[]"])
  moreover have "card (A2 - {brk h}) = Suc (length es)" "\<forall>a \<in> A2 - {brk h}. cells h a = None"
    using r(3-5) by (auto simp: one_column_def)
  ultimately show ?thesis using d(2) by (intro exI [of _ h5] exI [of _ "A2 - {brk h}"]) (auto simp: fun_eq_iff)
qed

definition csv_os :: "string \<Rightarrow> int os" where
  "csv_os s = \<lparr>input_file = (\<lambda>_. Some s), can_write = (\<lambda>_. True), os_rand = (\<lambda>g. (g, g)),
               os_atof = (\<lambda>_. Finite 0), os_lf = (\<lambda>_. [])\<rparr>"

definition empty_heap :: heap where
  "empty_heap = \<lparr>cells = (\<lambda>_. None), brk = 0, room = 20\<rparr>"

lemma sample_head: "csv_head_ok ''inc_int'' \<lparr>sortType = SORT_INC, dataType = DATA_INT\<rparr>"
  by (simp add: csv_head_ok_def csv_getType_def strtok_def strsep_def SEP_def MAX_STR_def type_defs)

lemma sample_csv_entry:
  "e \<in> set [(''a'', Int_cell 5), (''b'', Int_cell 3)] \<Longrightarrow> csv_entry \<lparr>sortType = st, dataType = DATA_INT\<rparr> e"
  using sample_printable [of e st] by (auto simp: csv_entry_def field_def show_cell_def show_int_sample)

theorem csv_one_column_sorted_witness:
  "\<exists>h' A. csv_ui_cmd (csv_os (''inc_int'' @ newline # ''a=5'' @ newline # ''b=3'' @ [newline])) ''t.csv'' empty_heap 1 =
      Inr ((''export.csv'', ''inc_int'' @ newline # ''b=3'' @ newline # ''a=5'' @ [newline]), h', 1) \<and>
    card A = (3 :: nat) \<and> cells h' = (\<lambda>a. if a \<in> A then Some (Str_cell []) else None)"
proof -
  let ?t = "\<lparr>sortType = SORT_INC, dataType = DATA_INT\<rparr>" and ?es = "[(''a'', Int_cell 5), (''b'', Int_cell 3)]"
  let ?e = "csv_os (''inc_int'' @ newline # ''a=5'' @ newline # ''b=3'' @ [newline])"
  have s: "sortable ?t 0 ?es" by (simp add: sortable_def ints_from_def INT_MAX_def)
  have o: "sorted_as ?t ?es = [(''b'', Int_cell 3), (''a'', Int_cell 5)]"
    by (simp add: sorted_as_def int_of_def type_defs)
  show ?thesis
    using csv_one_column_sorted [OF _ sample_head _ s, of empty_heap ?e "''t.csv''" 1] o sample_csv_entry
    by (simp add: heap_ok_def empty_heap_def csv_os_def INT_MAX_def entry_line_def show_cell_def show_int_sample
        numeral_3_eq_3 cong: if_cong)
qed

text \<open>
  C37. The last line needs its newline. When the file ends inside a row, \<open>strsep\<close> finds no
  delimiter and leaves a null pointer, so the loop over the fields skips the row, but the line is
  counted; printing then runs past the end of the list through a null pointer, and the program
  crashes with the output incomplete.
\<close>

theorem csv_no_final_newline_crashes:
  assumes "heap_ok h" and "csv_head_ok hdr t" and "\<forall>r \<in> set es. csv_entry t r" and "sortable t lo es"
    and "4 * length es + 3 \<le> room h" and "int (length es) < INT_MAX"
    and "plain last_row" "last_row \<noteq> []" "length last_row < MAX_STR"
    and "input_file e a1 = Some (hdr @ newline # concat (map (entry_line (os_lf e)) es) @ last_row)"
  shows "csv_ui_cmd e a1 h g = Inl Null_access"
proof -
  have n: "4 * length es + 2 \<le> room h" "int (length es) \<le> INT_MAX" using assms(5,6) by simp_all
  obtain h1 l2 h2 rs2 A2 where r: "new_cell (Str_cell []) h = Inr (brk h, h1)"
    "csv_lines (os_atof e) (hdr @ newline # concat (map (entry_line (os_lf e)) es) @ last_row) (-1) None [] h1 =
      csv_lines (os_atof e) last_row (int (length es)) (Some (hdr @ [newline])) [(t, l2)] h2"
    "one_column h A2 h2 l2 rs2 es" "brk h \<in> A2" "room h2 = room h - (4 * length es + 2)" "length rs2 = length es"
    by (rule csv_reads [OF assms(1-3) n])
  have "0 < room h2" using r(5) assms(5) by simp
  from one_column_alloc [OF r(3) this] obtain h3 where h3: "new_cell (Str_cell []) h2 = Inr (brk h2, h3)"
    "one_column h (insert (brk h2) A2) h3 l2 rs2 es" by blast
  have "fgets (MAX_STR - 1) last_row = (last_row, [])" using assms(7,9) by (intro fgets_rest) (auto simp: plain_def)
  then have l: "csv_lines (os_atof e) last_row (int (length es)) (Some (hdr @ [newline])) [(t, l2)] h2 =
      Inr (int (length es) + 1, Some (hdr @ [newline]), [(t, l2)], h3)"
    using assms(6-8) h3(1)
    by (subst csv_lines_unfold) (simp add: csv_row.simps [of _ None] csv_lines_unfold [of _ "[]"] Let_def)
  have "brk h \<in> insert (brk h2) A2" using r(4) by simp
  from csv_sorted_state [OF h3(2) this assms(4), of "os_rand e" g] obtain h4 l5 h5 rs5 where
    s: "free_cell (Some (brk h)) h3 = Inr h4" "sort_c (os_rand e) t l2 h4 g = Inr (l5, h5, g)"
    "rep_over (with_bufs h (insert (brk h2) A2 - {brk h})) h5 l5 rs5 (sorted_as t es)" by metis
  have rows: "rows_at h5 (head l5) rs5 (sorted_as t es)" using s(3) by (simp add: rep_over_def list_rep_def)
  have "length rs5 = length es"
    using rows_at_length [OF rows] mset_eq_length [OF mset_sorted_as, of t es] by simp
  then have "csv_print (os_lf e) h5 (length es + 1) [(t, head l5)] = Inl Null_access"
    using csv_print_rows [OF rows, of t "os_lf e" 1] sortable_fits [OF assms(4)] csv_print_null [of "os_lf e" h5 0 t] by simp
  moreover have "nat (int (length es) + 1) = length es + 1" by simp
  ultimately show ?thesis
    using r(1,2) l s(1,2) assms(10) by (simp add: csv_ui_cmd_def del: csv_print.simps)
qed

theorem csv_no_final_newline_crashes_witness:
  "csv_ui_cmd (csv_os (''inc_int'' @ newline # ''a=5'' @ newline # ''b=3'')) ''t.csv'' empty_heap 1 = Inl Null_access"
proof -
  let ?t = "\<lparr>sortType = SORT_INC, dataType = DATA_INT\<rparr>" and ?es = "[(''a'', Int_cell 5)]"
  have s: "sortable ?t 0 ?es" by (simp add: sortable_def ints_from_def INT_MAX_def)
  show ?thesis
    using csv_no_final_newline_crashes [OF _ sample_head _ s, of empty_heap "''b=3''"
        "csv_os (''inc_int'' @ newline # ''a=5'' @ newline # ''b=3'')" "''t.csv''" 1] sample_csv_entry
    by (simp add: heap_ok_def empty_heap_def csv_os_def INT_MAX_def MAX_STR_def plain_def entry_line_def show_cell_def
        show_int_sample)
qed

text \<open>
  Tables have one column at most. The first line is split by two different pointers, and the
  loop over its fields stops after the first: whatever it is, one column gets a type and a list.
  The first row with a second field then uses the type and the list of a column that were never
  initialised, as in the repository's own test table.
\<close>

theorem csv_second_column_indeterminate:
  assumes "heap_ok h" and "csv_head_ok hdr t" and "\<forall>r \<in> set es. csv_entry t r"
    and "4 * length es + 6 \<le> room h" and "int (length es) < INT_MAX"
    and "csv_entry t r" "newline \<notin> set others" "CHR 0x00 \<notin> set others"
    and "length (field (os_lf e) r @ CHR '','' # others) < MAX_STR - 1"
    and "input_file e a1 =
      Some (hdr @ newline # concat (map (entry_line (os_lf e)) es) @ field (os_lf e) r @ CHR '','' # others @ newline # rst)"
  shows "csv_ui_cmd e a1 h g = Inl Indeterminate"
proof -
  let ?f = "field (os_lf e) r" and ?r = "field (os_lf e) r @ CHR '','' # others @ newline # rst"
  have n: "4 * length es + 2 \<le> room h" "int (length es) \<le> INT_MAX" using assms(4,5) by simp_all
  obtain h1 l2 h2 rs2 A2 where x: "new_cell (Str_cell []) h = Inr (brk h, h1)"
    "csv_lines (os_atof e) (hdr @ newline # concat (map (entry_line (os_lf e)) es) @ ?r) (-1) None [] h1 =
      csv_lines (os_atof e) ?r (int (length es)) (Some (hdr @ [newline])) [(t, l2)] h2"
    "one_column h A2 h2 l2 rs2 es" "room h2 = room h - (4 * length es + 2)" "length rs2 = length es"
    by (rule csv_reads [OF assms(1-3) n])
  have "0 < room h2" using x(4) assms(4) by simp
  from one_column_alloc [OF x(3) this] obtain h3 where h3: "new_cell (Str_cell []) h2 = Inr (brk h2, h3)"
    "one_column h (insert (brk h2) A2) h3 l2 rs2 es" "room h3 = room h2 - 1" by blast
  have pl: "plain ?f" by (rule csv_entry_plain [OF assms(6)])
  have "parse_line (os_atof e) t ?f = Inr (fst r, snd r)" using parse_field [OF assms(6)] by simp
  moreover have "rep_over (with_bufs h (insert (brk h2) A2)) h3 l2 rs2 es" using h3(2) by (simp add: one_column_def)
  moreover have "int (length rs2) < INT_MAX" "3 \<le> room h3" using x(4,5) h3(3) assms(4,5) by simp_all
  ultimately obtain l4 h4 where r4: "read_line (os_atof e) t ?f l2 h3 = Inr (l4, h4)"
    using read_line_rep csv_field_fits [OF assms(6)] by blast
  have "newline \<notin> set (?f @ CHR '','' # others)" using pl assms(7) by (auto simp: plain_def)
  from fgets_line [OF this assms(9), of rst]
  have fg: "fgets (MAX_STR - 1) ?r = ((?f @ CHR '','' # others) @ [newline], rst)" by simp
  have c: "c_str (?f @ CHR '','' # others @ [newline]) = ?f @ CHR '','' # others @ [newline]"
    using pl assms(8) by (auto simp: c_str_def takeWhile_eq_all_conv plain_def)
  have sp: "strsep SEP (?f @ CHR '','' # others @ [newline]) = (?f, Some (others @ [newline]))"
    using pl by simp
  obtain f2 r2 where f2: "strsep SEP (others @ [newline]) = (f2, Some r2)"
  proof -
    have "\<not> (\<forall>c \<in> set (others @ [newline]). c \<notin> SEP)" by simp
    then have "dropWhile (\<lambda>c. c \<notin> SEP) (others @ [newline]) \<noteq> []" by (metis dropWhile_eq_Nil_conv)
    then show ?thesis using that by (cases "dropWhile (\<lambda>c. c \<notin> SEP) (others @ [newline])") (simp_all add: strsep_def)
  qed
  have "csv_lines (os_atof e) ?r (int (length es)) (Some (hdr @ [newline])) [(t, l2)] h2 = Inl Indeterminate"
    using h3(1) r4
    by (subst csv_lines_unfold)
      (simp add: fg [simplified] c sp f2 Let_def MAX_COLUMN_def csv_row.simps [of _ "Some _"])
  then show ?thesis using x(1,2) assms(10) by (simp add: csv_ui_cmd_def)
qed

theorem csv_second_column_indeterminate_witness:
  "csv_ui_cmd (csv_os (''inc_int,inc_char'' @ newline # ''a=5,aa=cat'' @ [newline])) ''t.csv'' empty_heap 1 = Inl Indeterminate"
proof -
  have hdr: "csv_head_ok ''inc_int,inc_char'' \<lparr>sortType = SORT_INC, dataType = DATA_INT\<rparr>"
    by (simp add: csv_head_ok_def csv_getType_def strtok_def strsep_def SEP_def MAX_STR_def type_defs)
  show ?thesis
    using csv_second_column_indeterminate [OF _ hdr, of empty_heap "[]" "(''a'', Int_cell 5)" "''aa=cat''"
        "csv_os (''inc_int,inc_char'' @ newline # ''a=5,aa=cat'' @ [newline])" "''t.csv''" "[]" 1] sample_csv_entry
    by (simp add: heap_ok_def empty_heap_def csv_os_def INT_MAX_def MAX_STR_def field_def show_cell_def show_int_sample)
qed

text \<open>
  An empty file is an error: no first line was copied to \<open>FIRST\<close>, which is printed all the same.
\<close>

lemma csv_empty_file:
  assumes "heap_ok h" and "0 < room h" and "input_file e a1 = Some []" and "can_write e ''export.csv''"
  shows "csv_ui_cmd e a1 h g = Inl Indeterminate"
  using assms by (simp add: csv_ui_cmd_def new_cell_def free_cell_def csv_lines_unfold)

end
