(* ===== verification/Plugins.thy ===== *)
theory Plugins
  imports Sort_Csv_Props
begin

text \<open>
  The program of Lab 6: the plugin manager (\<open>cmplx-sort/src-kernel/plugin.c\<close>), the driver
  (\<open>src-kernel/main.c\<close>) and the txt plugin's \<open>ui_cmd\<close>.

  The directory, \<open>dlopen\<close> and \<open>dlsym\<close> are parameters: the names \<open>readdir\<close> returns, the room its
  record has from \<open>d_name\<close> on (only the name and its zero byte are sure to fit), the library a path
  opens, whether \<open>dlerror\<close> stays null after looking up \<open>ui_cmd\<close>, and the
  function the symbol stands for. A program run ends with an exit status; \<open>None\<close> is
  \<open>exit(-1)\<close> within \<open>pluginInit\<close>.
\<close>

section \<open>The plugin manager\<close>

definition MAX_PLUGIN :: nat where "MAX_PLUGIN = 20"
definition TYPE_SIZE :: nat where "TYPE_SIZE = 36"

record plugin_handle =
  hd_lib :: nat
  hd_type :: string

type_synonym 'g ui = "string \<Rightarrow> string \<Rightarrow> heap \<Rightarrow> 'g \<Rightarrow> crash + ((string \<times> string) \<times> heap \<times> 'g)"

record 'g loader =
  plugin_dir :: "string list option"
  d_room :: "string \<Rightarrow> nat"
  dlopen :: "string \<Rightarrow> nat option"
  dlsym_ok :: "nat \<Rightarrow> bool"
  dl_ui_cmd :: "nat \<Rightarrow> 'g ui"
  malloc_ok :: "nat \<Rightarrow> bool"

definition plugin_path :: "string \<Rightarrow> string" where
  "plugin_path name = ''./plugins/'' @ name"

text \<open>
  The path is put together in the array \<open>tmpStr\<close> and copied over the name in the record that
  \<open>readdir\<close> returned.
\<close>

definition set_d_name :: "'g loader \<Rightarrow> string \<Rightarrow> crash + string" where
  "set_d_name L name =
     (if 256 \<le> length (plugin_path name) then Inl Outside_array else
      if d_room L name \<le> length (plugin_path name) then Inl Outside_array else Inr (plugin_path name))"

text \<open>The type of a plugin: what follows the directory in its path, up to the first dot.\<close>

definition plugin_type :: "string \<Rightarrow> crash + string" where
  "plugin_type path =
     (if TYPE_SIZE \<le> length path then Inl Outside_array else
      case fst (strtok {CHR ''.''} path) of None \<Rightarrow> Inl Null_access | Some token \<Rightarrow>
      case fst (strtok {CHR ''/''} (snd (strtok {CHR ''/''} token))) of None \<Rightarrow> Inl Null_access
      | Some token \<Rightarrow> Inr token)"

text \<open>
  The loop over the directory. \<open>handles\<close> are the first \<open>pluginCnt\<close> places of the array;
  \<open>n\<close> counts the handles allocated so far, one for every entry.
\<close>

fun plugin_loop ::
  "'g loader \<Rightarrow> string list \<Rightarrow> plugin_handle list \<Rightarrow> nat \<Rightarrow> crash + (plugin_handle list \<times> nat) option" where
  "plugin_loop L [] handles n = Inr (Some (handles, n))"
| "plugin_loop L (name # names) handles n =
     (if MAX_PLUGIN \<le> length handles then Inl Outside_array else
      bindE (set_d_name L name) (\<lambda>d_name.
      case dlopen L d_name of
        None \<Rightarrow> plugin_loop L names handles (Suc n)
      | Some lib \<Rightarrow>
          if d_name = ''./plugins/.'' \<or> d_name = ''./plugins/..'' then plugin_loop L names handles (Suc n) else
          if \<not> malloc_ok L n then Inl Null_access else
          if \<not> dlsym_ok L lib then Inr None else
          bindE (plugin_type d_name) (\<lambda>t.
            plugin_loop L names (handles @ [\<lparr>hd_lib = lib, hd_type = t\<rparr>]) (Suc n))))"

definition pluginInit :: "'g loader \<Rightarrow> crash + (plugin_handle list \<times> nat) option" where
  "pluginInit L = (case plugin_dir L of None \<Rightarrow> Inr None | Some names \<Rightarrow> plugin_loop L names [] 0)"

section \<open>The driver\<close>

text \<open>The loop \<open>for(int i=0;i<pluginCnt;i++)\<close>; after it the function ends without a value.\<close>

fun find_handle :: "string option \<Rightarrow> nat \<Rightarrow> plugin_handle list \<Rightarrow> crash + nat" where
  "find_handle token i [] = Inl Indeterminate"
| "find_handle token i (x # xs) =
     (case token of None \<Rightarrow> Inl Null_access
      | Some s \<Rightarrow> if s = hd_type x then Inr i else find_handle token (Suc i) xs)"

definition getPluginType :: "string \<Rightarrow> plugin_handle list \<Rightarrow> crash + nat" where
  "getPluginType a1 handles =
     (if MAX_STR \<le> length a1 then Inl Outside_array
      else find_handle (fst (strtok {CHR '' '', newline} (snd (strtok {CHR ''.''} a1)))) 0 handles)"

text \<open>The result also has the number of handles left allocated.\<close>

definition cmplxsort ::
  "'g loader \<Rightarrow> string list \<Rightarrow> heap \<Rightarrow> 'g \<Rightarrow> crash + (int \<times> ((string \<times> string) \<times> nat \<times> heap \<times> 'g) option)" where
  "cmplxsort L argv h g =
     (if length argv \<noteq> 3 then Inr (-1, None)
      else bindE (pluginInit L) (\<lambda>r. case r of None \<Rightarrow> Inr (-1, None) | Some (handles, n) \<Rightarrow>
           bindE (getPluginType (argv ! 1) handles) (\<lambda>i.
           bindE (dl_ui_cmd L (hd_lib (handles ! i)) (argv ! 1) (argv ! 2) h g) (\<lambda>(out, h, g).
             Inr (0, Some (out, n - length handles, h, g))))))"

section \<open>The txt plugin\<close>

definition txt_ui_cmd :: "'g os \<Rightarrow> 'g ui" where
  "txt_ui_cmd e a1 a2 h g = bindE (getType a1 a2) (\<lambda>t. driver e t a1 h g)"

section \<open>Loading\<close>

text \<open>What loading an entry should give: a handle named after the file, or nothing.\<close>

definition plugin_of :: "'g loader \<Rightarrow> string \<Rightarrow> plugin_handle option" where
  "plugin_of L name =
     (if name = ''.'' \<or> name = ''..'' then None
      else map_option (\<lambda>lib. \<lparr>hd_lib = lib, hd_type = takeWhile (\<lambda>c. c \<noteq> CHR ''.'') name\<rparr>) (dlopen L (plugin_path name)))"

definition plugins :: "'g loader \<Rightarrow> string list \<Rightarrow> plugin_handle list" where
  "plugins L names = List.map_filter (plugin_of L) names"

text \<open>An entry that \<open>pluginInit\<close> can handle.\<close>

definition loadable :: "'g loader \<Rightarrow> string \<Rightarrow> bool" where
  "loadable L name \<longleftrightarrow> length (plugin_path name) < 256 \<and>
     (case plugin_of L name of None \<Rightarrow> True
      | Some x \<Rightarrow> dlsym_ok L (hd_lib x) \<and> length (plugin_path name) < TYPE_SIZE \<and> name \<noteq> [] \<and>
          hd name \<noteq> CHR ''.'' \<and> CHR ''/'' \<notin> set name)"

lemma strtok_skip: "c \<in> d \<Longrightarrow> strtok d (c # s) = strtok d s"
  by (simp add: strtok_def)

lemma strtok_split:
  assumes "s \<noteq> []" and "set s \<inter> d = {}"
  shows "strtok d (s @ r) = (Some (s @ takeWhile (\<lambda>c. c \<notin> d) r), drop 1 (dropWhile (\<lambda>c. c \<notin> d) r))"
proof -
  have a: "\<forall>c \<in> set s. c \<notin> d" using assms(2) by auto
  then have "dropWhile (\<lambda>c. c \<in> d) (s @ r) = s @ r" using assms(1) by (cases s) auto
  moreover have "takeWhile (\<lambda>c. c \<notin> d) (s @ r) = s @ takeWhile (\<lambda>c. c \<notin> d) r"
    "dropWhile (\<lambda>c. c \<notin> d) (s @ r) = dropWhile (\<lambda>c. c \<notin> d) r" using a by simp_all
  ultimately show ?thesis using assms(1) by (simp only: strtok_def Let_def append_is_Nil_conv if_False simp_thms)
qed

lemma plugin_type_name:
  assumes "length (plugin_path name) < TYPE_SIZE" and "name \<noteq> []" and "hd name \<noteq> CHR ''.''" and "CHR ''/'' \<notin> set name"
  shows "plugin_type (plugin_path name) = Inr (takeWhile (\<lambda>c. c \<noteq> CHR ''.'') name)"
proof -
  let ?t = "takeWhile (\<lambda>c. c \<noteq> CHR ''.'') name"
  have "plugin_path name = CHR ''.'' # ''/plugins/'' @ name" by (simp add: plugin_path_def)
  then have "strtok {CHR ''.''} (plugin_path name) = strtok {CHR ''.''} (''/plugins/'' @ name)"
    by (simp only: strtok_skip singletonI)
  moreover have "fst (strtok {CHR ''.''} (''/plugins/'' @ name)) = Some (''/plugins/'' @ ?t)"
    by (subst strtok_split) simp_all
  ultimately have 1: "fst (strtok {CHR ''.''} (plugin_path name)) = Some (''/plugins/'' @ ?t)" by simp
  have "''/plugins/'' @ ?t = CHR ''/'' # ''plugins'' @ CHR ''/'' # ?t" by simp
  then have "strtok {CHR ''/''} (''/plugins/'' @ ?t) = strtok {CHR ''/''} (''plugins'' @ CHR ''/'' # ?t)"
    by (simp only: strtok_skip singletonI)
  also have "\<dots> = (Some ''plugins'', ?t)" by (rule strtok_token) simp_all
  finally have 2: "snd (strtok {CHR ''/''} (''/plugins/'' @ ?t)) = ?t" by simp
  have "?t \<noteq> []" using assms(2,3) by (cases name) auto
  moreover have "set ?t \<inter> {CHR ''/''} = {}" using assms(4) by (auto dest: set_takeWhileD)
  ultimately have 3: "strtok {CHR ''/''} ?t = (Some ?t, [])" by (rule strtok_all)
  show ?thesis using assms(1) unfolding plugin_type_def 1 option.case 2 3 by simp
qed

definition roomy :: "'g loader \<Rightarrow> string \<Rightarrow> bool" where
  "roomy L name \<longleftrightarrow> length (plugin_path name) < d_room L name"

lemma plugin_path_dots:
  "plugin_path name = ''./plugins/.'' \<longleftrightarrow> name = ''.''" "plugin_path name = ''./plugins/..'' \<longleftrightarrow> name = ''..''"
  by (auto simp: plugin_path_def)

lemma set_d_name_path: "loadable L name \<Longrightarrow> roomy L name \<Longrightarrow> set_d_name L name = Inr (plugin_path name)"
  by (simp add: set_d_name_def loadable_def roomy_def)

lemma plugin_loop_step:
  assumes "loadable L name" and "roomy L name" and "\<forall>i. malloc_ok L i" and "length hs < MAX_PLUGIN"
  shows "plugin_loop L (name # names) hs n =
    plugin_loop L names (case plugin_of L name of None \<Rightarrow> hs | Some x \<Rightarrow> hs @ [x]) (Suc n)"
proof (cases "plugin_of L name")
  case None
  then have "name = ''.'' \<or> name = ''..'' \<or> dlopen L (plugin_path name) = None"
    by (auto simp: plugin_of_def split: if_splits)
  then show ?thesis
    using None assms(4) set_d_name_path [OF assms(1,2)] by (auto simp: plugin_path_dots split: option.splits)
next
  case (Some x)
  then obtain lib where lib: "dlopen L (plugin_path name) = Some lib" "name \<noteq> ''.''" "name \<noteq> ''..''"
    "x = \<lparr>hd_lib = lib, hd_type = takeWhile (\<lambda>c. c \<noteq> CHR ''.'') name\<rparr>"
    by (auto simp: plugin_of_def split: if_splits)
  have o: "dlsym_ok L lib" "length (plugin_path name) < TYPE_SIZE" "name \<noteq> []"
    "hd name \<noteq> CHR ''.''" "CHR ''/'' \<notin> set name"
    using assms(1) Some lib(4) by (auto simp: loadable_def)
  show ?thesis
    using Some assms(3,4) lib o(1) plugin_type_name [OF o(2-5)] set_d_name_path [OF assms(1,2)]
    by (simp add: plugin_path_dots)
qed

lemma plugins_Cons:
  "plugins L (name # names) = (case plugin_of L name of None \<Rightarrow> plugins L names | Some x \<Rightarrow> x # plugins L names)"
  by (simp add: plugins_def List.map_filter_simps split: option.split)

lemma plugin_loop_loads:
  assumes "\<forall>name \<in> set names. loadable L name" and "\<forall>i. malloc_ok L i"
    and "length hs + length (plugins L names) < MAX_PLUGIN"
  shows "plugin_loop L names hs n =
    (if \<forall>name \<in> set names. roomy L name then Inr (Some (hs @ plugins L names, n + length names))
     else Inl Outside_array)"
  using assms
proof (induction names arbitrary: hs n)
  case Nil
  then show ?case by (simp add: plugins_def List.map_filter_simps)
next
  case (Cons name names)
  have hs: "length hs < MAX_PLUGIN" using Cons.prems(3) by simp
  show ?case
  proof (cases "roomy L name")
    case False
    then show ?thesis using hs by (simp add: set_d_name_def roomy_def)
  next
    case True
    then show ?thesis
      using plugin_loop_step [of L name hs names n] hs Cons.prems Cons.IH
      by (simp add: plugins_Cons split: option.splits)
  qed
qed

section \<open>Choosing the plugin\<close>

lemma find_handle_find:
  "find_handle (Some s) i xs =
     (case find (\<lambda>j. hd_type (xs ! j) = s) [0..<length xs] of None \<Rightarrow> Inl Indeterminate | Some j \<Rightarrow> Inr (i + j))"
proof (induction xs arbitrary: i)
  case Nil
  then show ?case by simp
next
  case (Cons x xs)
  have "[0..<length (x # xs)] = 0 # map Suc [0..<length xs]" by (simp add: map_Suc_upt upt_conv_Cons del: upt_Suc)
  then show ?case
    using Cons [of "Suc i"] by (auto simp: find_map o_def simp del: upt_Suc split: option.splits)
qed

text \<open>A file name with the extension \<open>ext\<close>; dots in front of the name do not matter.\<close>

definition has_ext :: "string \<Rightarrow> string \<Rightarrow> bool" where
  "has_ext a1 ext \<longleftrightarrow> length a1 < MAX_STR \<and> ext \<noteq> [] \<and> set ext \<inter> {CHR '' '', newline} = {} \<and>
     (\<exists>b. dropWhile (\<lambda>c. c = CHR ''.'') a1 = b @ CHR ''.'' # ext \<and> b \<noteq> [] \<and> CHR ''.'' \<notin> set b)"

lemma has_ext_token:
  assumes "has_ext a1 ext"
  shows "fst (strtok {CHR '' '', newline} (snd (strtok {CHR ''.''} a1))) = Some ext"
proof -
  obtain b where b: "dropWhile (\<lambda>c. c = CHR ''.'') a1 = b @ CHR ''.'' # ext" "b \<noteq> []" "CHR ''.'' \<notin> set b"
    using assms by (auto simp: has_ext_def)
  have d: "dropWhile (\<lambda>c. c = CHR ''.'') (b @ CHR ''.'' # ext) = b @ CHR ''.'' # ext"
    using b(2,3) by (cases b) auto
  have "strtok {CHR ''.''} a1 = strtok {CHR ''.''} (b @ CHR ''.'' # ext)"
    by (simp only: strtok_def singleton_iff b(1) d)
  also have "\<dots> = (Some b, ext)" using b(2,3) by (intro strtok_token) auto
  finally show ?thesis using assms strtok_all [of ext "{CHR '' '', newline}"] by (simp add: has_ext_def)
qed

lemma getPluginType_ext:
  assumes "has_ext a1 ext"
  shows "getPluginType a1 hs =
    (case find (\<lambda>j. hd_type (hs ! j) = ext) [0..<length hs] of None \<Rightarrow> Inl Indeterminate | Some j \<Rightarrow> Inr j)"
proof -
  have "length a1 < MAX_STR" using assms by (simp add: has_ext_def)
  then show ?thesis
    using has_ext_token [OF assms] find_handle_find [of ext 0 hs] by (simp add: getPluginType_def cong: option.case_cong)
qed

definition installed :: "'g loader \<Rightarrow> string list \<Rightarrow> bool" where
  "installed L names \<longleftrightarrow> plugin_dir L = Some names \<and> (\<forall>name \<in> set names. loadable L name) \<and>
     (\<forall>i. malloc_ok L i) \<and> length (plugins L names) < MAX_PLUGIN"

lemma installed_init:
  "installed L names \<Longrightarrow> pluginInit L =
     (if \<forall>name \<in> set names. roomy L name then Inr (Some (plugins L names, length names)) else Inl Outside_array)"
  using plugin_loop_loads [of names L "[]" 0] by (simp add: installed_def pluginInit_def)

text \<open>
  The records of Linux: 19 bytes come before the name, and the whole is padded to a multiple of 8.
  They never have room for the path.
\<close>

definition linux_room :: "string \<Rightarrow> nat" where
  "linux_room name = (length name + 27) div 8 * 8 - 19"

lemma linux_room_overrun: "d_room L = linux_room \<Longrightarrow> \<not> roomy L name"
  using div_times_less_eq_dividend [of "length name + 27" 8] by (auto simp: roomy_def linux_room_def plugin_path_def)

section \<open>Properties\<close>

text \<open>
  The program runs the plugin of the file's type. With a directory whose plugins load and whose
  records have room for the paths, the
  program hands its arguments to the first plugin whose name up to the first dot is the
  extension of the file, ends with status 0 and leaves one handle allocated for each
  directory entry that is not a plugin; when no plugin matches, it goes on with an
  index that was never returned.
\<close>

theorem cmplxsort_runs_matching_plugin:
  assumes "installed L names" and "\<forall>name \<in> set names. roomy L name" and "has_ext a1 ext"
  shows "cmplxsort L [a0, a1, a2] h g =
    (case find (\<lambda>j. hd_type (plugins L names ! j) = ext) [0..<length (plugins L names)] of
       None \<Rightarrow> Inl Indeterminate
     | Some j \<Rightarrow> bindE (dl_ui_cmd L (hd_lib (plugins L names ! j)) a1 a2 h g) (\<lambda>(out, h, g).
         Inr (0, Some (out, length names - length (plugins L names), h, g))))"
  using installed_init [OF assms(1)] assms(2) getPluginType_ext [OF assms(3), of "plugins L names"]
  by (simp add: cmplxsort_def split: option.splits)

definition sample_loader :: "(string \<Rightarrow> nat) \<Rightarrow> int os \<Rightarrow> int loader" where
  "sample_loader rm e =
     \<lparr>plugin_dir = Some [''.'', ''csv.plugin'', ''..'', ''notes'', ''txt.plugin''], d_room = rm,
      dlopen = (\<lambda>s. if s = ''./plugins/csv.plugin'' then Some 1 else if s = ''./plugins/txt.plugin'' then Some 2 else None),
      dlsym_ok = (\<lambda>_. True), dl_ui_cmd = (\<lambda>i. if i = 1 then (\<lambda>a1 a2. csv_ui_cmd e a1) else txt_ui_cmd e), malloc_ok = (\<lambda>_. True)\<rparr>"

lemma sample_plugins:
  "plugins (sample_loader rm e) [''.'', ''csv.plugin'', ''..'', ''notes'', ''txt.plugin''] =
     [\<lparr>hd_lib = 1, hd_type = ''csv''\<rparr>, \<lparr>hd_lib = 2, hd_type = ''txt''\<rparr>]"
  by (simp add: plugins_def List.map_filter_simps plugin_of_def sample_loader_def plugin_path_def)

lemma sample_installed: "installed (sample_loader rm e) [''.'', ''csv.plugin'', ''..'', ''notes'', ''txt.plugin'']"
  unfolding installed_def sample_plugins
  by (simp add: sample_loader_def loadable_def plugin_of_def plugin_path_def TYPE_SIZE_def MAX_PLUGIN_def)

lemma sample_roomy: "\<forall>name \<in> set [''.'', ''csv.plugin'', ''..'', ''notes'', ''txt.plugin'']. roomy (sample_loader (\<lambda>_. 256) e) name"
  by (simp add: sample_loader_def roomy_def plugin_path_def)

lemma sample_ext: "has_ext ''rand_int.txt'' ''txt''" "has_ext ''./t.csv'' ''csv''" "has_ext ''t.dat'' ''dat''"
  unfolding has_ext_def MAX_STR_def
  by (auto intro: exI [of _ "''rand_int''"] exI [of _ "''/t''"] exI [of _ "''t''"])

theorem cmplxsort_runs_matching_plugin_witness:
  "cmplxsort (sample_loader (\<lambda>_. 256) (csv_os [])) [''s'', ''t.dat'', ''inc''] h g = Inl Indeterminate"
  using cmplxsort_runs_matching_plugin [OF sample_installed sample_roomy sample_ext(3), of "csv_os []" "''s''" "''inc''" h g]
  by (simp add: sample_plugins numeral_2_eq_2)

text \<open>
  C35. The whole program sorts a text file exactly when the records of the directory have room for
  the paths. With the txt plugin installed and a file with the extension \<open>txt\<close> and a type in its
  name, of integers within a window or of strings: if the record of every entry has room for the
  path that \<open>pluginInit\<close> copies over the name, the program ends with status 0 and the sorted lines in
  the output file, and the plugin frees everything it allocated; if the record of some entry has
  not, as no record of Linux has, the program writes outside the record.
\<close>

theorem cmplxsort_sorts_txt:
  assumes "installed L names" and "has_ext a1 ''txt''"
    and "find (\<lambda>j. hd_type (plugins L names ! j) = ''txt'') [0..<length (plugins L names)] = Some j"
    and "dl_ui_cmd L (hd_lib (plugins L names ! j)) = txt_ui_cmd e"
    and "heap_ok h" and "getType a1 a2 = Inr t"
    and "input_file e a1 = Some bytes" and "parse_file (os_atof e) t bytes = Inr es"
    and "sortable t lo es" and "3 * length es < room h" and "int (length es) \<le> INT_MAX"
    and "can_write e (out_name t)"
  shows "if \<forall>name \<in> set names. length (plugin_path name) < d_room L name
    then \<exists>h'. cmplxsort L [a0, a1, a2] h g =
      Inr (0, Some ((out_name t, concat (map (entry_line (os_lf e)) (sorted_as t es))),
                    length names - length (plugins L names), h', g)) \<and> cells h' = cells h
    else cmplxsort L [a0, a1, a2] h g = Inl Outside_array"
proof -
  have "\<exists>h'. driver e t a1 h g = Inr ((out_name t, concat (map (entry_line (os_lf e)) (sorted_as t es))), h', g) \<and>
      cells h' = cells h"
    by (rule driver_run [OF assms(5,7-12)])
  then show ?thesis
    using installed_init [OF assms(1), unfolded roomy_def] getPluginType_ext [OF assms(2), of "plugins L names"] assms(3,4,6)
    by (auto simp: cmplxsort_def txt_ui_cmd_def)
qed

text \<open>The same directory with records of 256 bytes for the name, and with those of Linux.\<close>

theorem cmplxsort_sorts_txt_witness:
  "(\<exists>h'. cmplxsort (sample_loader (\<lambda>_. 256) sample_os) [''cmplxsort'', ''rand_int.txt'', ''inc''] \<lparr>cells = (\<lambda>_. None), brk = 0, room = 7\<rparr> 1 =
      Inr (0, Some ((''inc_int.txt'', ''b=3'' @ [newline] @ ''a=5'' @ [newline]), 3, h', 1)) \<and> cells h' = (\<lambda>_. None)) \<and>
   cmplxsort (sample_loader linux_room sample_os) [''cmplxsort'', ''rand_int.txt'', ''inc''] \<lparr>cells = (\<lambda>_. None), brk = 0, room = 7\<rparr> 1 =
      Inl Outside_array"
proof -
  let ?t = "\<lparr>sortType = SORT_INC, dataType = DATA_INT\<rparr>" and ?es = "[(''a'', Int_cell 5), (''b'', Int_cell 3)]"
  have p: "parse_file (os_atof sample_os) ?t (concat (map (entry_line (\<lambda>_. [])) ?es)) = Inr ?es"
    using sample_printable by (intro parse_printed) blast
  have s: "sortable ?t 0 ?es" by (simp add: sortable_def ints_from_def INT_MAX_def)
  have o: "out_name ?t = ''inc_int.txt''" "sorted_as ?t ?es = [(''b'', Int_cell 3), (''a'', Int_cell 5)]"
    by (simp_all add: out_name_def sorted_as_def int_of_def type_defs)
  have f: "find (\<lambda>j. hd_type ([\<lparr>hd_lib = 1, hd_type = ''csv''\<rparr>, \<lparr>hd_lib = 2, hd_type = ''txt''\<rparr>] ! j) = ''txt'') [0..<2] = Some 1"
    by (simp add: numeral_2_eq_2)
  let ?N = "[''.'', ''csv.plugin'', ''..'', ''notes'', ''txt.plugin'']" and ?h = "\<lparr>cells = (\<lambda>_. None), brk = 0, room = 7\<rparr>"
  have run: "if \<forall>name \<in> set ?N. length (plugin_path name) < d_room (sample_loader r sample_os) name
    then \<exists>h'. cmplxsort (sample_loader r sample_os) [''cmplxsort'', ''rand_int.txt'', ''inc''] ?h 1 =
      Inr (0, Some ((out_name ?t, concat (map (entry_line (os_lf sample_os)) (sorted_as ?t ?es))),
                    length ?N - length (plugins (sample_loader r sample_os) ?N), h', 1)) \<and> cells h' = cells ?h
    else cmplxsort (sample_loader r sample_os) [''cmplxsort'', ''rand_int.txt'', ''inc''] ?h 1 = Inl Outside_array" for r
  proof (rule cmplxsort_sorts_txt [OF sample_installed sample_ext(1)])
    show "find (\<lambda>j. hd_type (plugins (sample_loader r sample_os) ?N ! j) = ''txt'')
        [0..<length (plugins (sample_loader r sample_os) ?N)] = Some 1"
      unfolding sample_plugins using f by (simp add: numeral_2_eq_2)
    show "dl_ui_cmd (sample_loader r sample_os) (hd_lib (plugins (sample_loader r sample_os) ?N ! 1)) = txt_ui_cmd sample_os"
      unfolding sample_plugins by (simp add: sample_loader_def)
  qed (use p s in \<open>simp_all add: sample_getType heap_ok_def sample_os_def INT_MAX_def\<close>)
  have "\<forall>name \<in> set ?N. length (plugin_path name) < d_room (sample_loader (\<lambda>_. 256) sample_os) name"
    using sample_roomy by (simp only: roomy_def)
  moreover have "\<not> (\<forall>name \<in> set ?N. length (plugin_path name) < d_room (sample_loader linux_room sample_os) name)"
    by (simp add: sample_loader_def linux_room_def plugin_path_def)
  ultimately show ?thesis
    using run [of "\<lambda>_. 256"] run [of linux_room]
    unfolding sample_plugins by (simp only: if_True if_False) (simp add: o sample_os_def entry_line_def show_cell_def show_int_sample numeral_3_eq_3)
qed

end
