(* ===== verification/Lab5_Dlist.thy ===== *)
theory Lab5_Dlist
  imports Sort_Props
begin

text \<open>
  The typed list of Lab 5 (\<open>Lab/Lab 5/lab5_dlist.c\<close>). The values are a union kept in the node;
  keys and strings belong to the caller and are only pointed to.

  Memory holds nodes, list objects and strings. The value is the member that was stored last. What
  \<open>printf\<close> makes of a whole union passed for \<open>%d\<close>, \<open>%lf\<close> or \<open>%s\<close> depends on the
  calling convention of the machine and is a parameter.
\<close>

section \<open>Memory\<close>

datatype dlistValue = Int_value "32 word" | Double_value double | Str_value ptr

record dnode =
  dkey :: ptr
  dvalue :: dlistValue
  dnext :: ptr

record dlist_obj =
  dhead :: ptr
  dtype :: int
  dlength :: int

datatype dcell = Dnode dnode | Dlist dlist_obj | Dstr string

record dheap =
  dcells :: "nat \<Rightarrow> dcell option"
  dbrk :: nat
  droom :: nat

definition DLIST_UNKOWN :: int where "DLIST_UNKOWN = 0"
definition DLIST_INT :: int where "DLIST_INT = 1"
definition DLIST_STR :: int where "DLIST_STR = 2"
definition DLIST_DOUBLE :: int where "DLIST_DOUBLE = 3"

lemmas dlist_types = DLIST_UNKOWN_def DLIST_INT_def DLIST_STR_def DLIST_DOUBLE_def

definition dnew :: "dcell \<Rightarrow> dheap \<Rightarrow> crash + (nat \<times> dheap)" where
  "dnew c h =
     (if droom h = 0 then Inl Null_access
      else Inr (dbrk h, h\<lparr>dcells := (dcells h)(dbrk h \<mapsto> c), dbrk := Suc (dbrk h), droom := droom h - 1\<rparr>))"

definition dload :: "dheap \<Rightarrow> ptr \<Rightarrow> crash + dcell" where
  "dload h p =
     (case p of None \<Rightarrow> Inl Null_access
      | Some a \<Rightarrow> (case dcells h a of None \<Rightarrow> Inl Wild_access | Some c \<Rightarrow> Inr c))"

definition get_dnode :: "dheap \<Rightarrow> ptr \<Rightarrow> crash + dnode" where
  "get_dnode h p = bindE (dload h p) (\<lambda>c. case c of Dnode n \<Rightarrow> Inr n | _ \<Rightarrow> Inl Wild_access)"

definition get_dlist :: "dheap \<Rightarrow> ptr \<Rightarrow> crash + dlist_obj" where
  "get_dlist h p = bindE (dload h p) (\<lambda>c. case c of Dlist l \<Rightarrow> Inr l | _ \<Rightarrow> Inl Wild_access)"

definition get_dstr :: "dheap \<Rightarrow> ptr \<Rightarrow> crash + string" where
  "get_dstr h p = bindE (dload h p) (\<lambda>c. case c of Dstr s \<Rightarrow> Inr s | _ \<Rightarrow> Inl Wild_access)"

definition put_dcell :: "nat \<Rightarrow> dcell \<Rightarrow> dheap \<Rightarrow> dheap" where
  "put_dcell a c h = h\<lparr>dcells := (dcells h)(a \<mapsto> c)\<rparr>"

definition put_dnext :: "nat \<Rightarrow> ptr \<Rightarrow> dheap \<Rightarrow> crash + dheap" where
  "put_dnext a p h = bindE (get_dnode h (Some a)) (\<lambda>n. Inr (put_dcell a (Dnode (n\<lparr>dnext := p\<rparr>)) h))"

section \<open>The operations\<close>

definition createDlist :: "int \<Rightarrow> dheap \<Rightarrow> crash + (ptr \<times> dheap)" where
  "createDlist ty h =
     bindE (dnew (Dlist \<lparr>dhead = None, dtype = ty, dlength = 0\<rparr>) h) (\<lambda>(a, h).
       Inr (if ty = DLIST_UNKOWN then None else Some a, h))"

definition dlistIsEmpty :: "ptr \<Rightarrow> dheap \<Rightarrow> crash + bool" where
  "dlistIsEmpty this h = bindE (get_dlist h this) (\<lambda>l. Inr (dlength l = 0))"

fun dlast_from :: "nat \<Rightarrow> dheap \<Rightarrow> ptr \<Rightarrow> crash + nat" where
  "dlast_from 0 h p = Inl Endless"
| "dlast_from (Suc fuel) h p =
     bindE (get_dnode h p) (\<lambda>n.
       case dnext n of None \<Rightarrow> Inr (the p) | Some b \<Rightarrow> dlast_from fuel h (Some b))"

definition dlistAppend :: "ptr \<Rightarrow> ptr \<Rightarrow> dlistValue \<Rightarrow> dheap \<Rightarrow> crash + dheap" where
  "dlistAppend this k v h =
     bindE (dnew (Dnode \<lparr>dkey = k, dvalue = v, dnext = None\<rparr>) h) (\<lambda>(a, h).
     bindE (dlistIsEmpty this h) (\<lambda>empty.
     bindE (get_dlist h this) (\<lambda>l.
     bindE (if empty then Inr (put_dcell (the this) (Dlist (l\<lparr>dhead := Some a\<rparr>)) h)
            else bindE (dlast_from (Suc (dbrk h)) h (dhead l)) (\<lambda>z. put_dnext z (Some a) h)) (\<lambda>h.
     bindE (get_dlist h this) (\<lambda>l.
       if dlength l = INT_MAX then Inl Overflow
       else Inr (put_dcell (the this) (Dlist (l\<lparr>dlength := dlength l + 1\<rparr>)) h))))))"

text \<open>The table \<open>cmp\<close>: nine times \<open>rnd\<close>, with three rows and columns for four types.\<close>

definition dcmp :: "('g \<Rightarrow> int \<times> 'g) \<Rightarrow> int \<Rightarrow> nat \<Rightarrow> nat \<Rightarrow> 'g \<Rightarrow> crash + (int \<times> 'g)" where
  "dcmp rand ty a b g = (if ty \<notin> {0, 1, 2} then Inl Outside_array else Inr (rnd rand g))"

fun dcollect :: "nat \<Rightarrow> dheap \<Rightarrow> nat \<Rightarrow> ptr \<Rightarrow> nat list \<Rightarrow> crash + nat list" where
  "dcollect fuel h n None src = Inr src"
| "dcollect 0 h n (Some a) src = Inl Endless"
| "dcollect (Suc fuel) h n (Some a) src =
     (if n \<le> length src then Inl Outside_array
      else bindE (get_dnode h (Some a)) (\<lambda>x. dcollect fuel h n (dnext x) (src @ [a])))"

text \<open>The arguments \<open>listDst\<close> and \<open>method\<close> are not used.\<close>

definition dlistSort ::
  "('g \<Rightarrow> int \<times> 'g) \<Rightarrow> ptr \<Rightarrow> ptr \<Rightarrow> int \<Rightarrow> dheap \<Rightarrow> 'g \<Rightarrow> crash + (dheap \<times> 'g)" where
  "dlistSort rand this listDst method h g =
     bindE (get_dlist h this) (\<lambda>l. if dlength l = 0 then Inr (h, g) else
     let n = nat (dlength l) in
     bindE (dcollect (Suc (dbrk h)) h n (dhead l) []) (\<lambda>src.
     bindE (isort (dcmp rand (dtype l)) [1..<n] src g) (\<lambda>(src, g).
     bindE (src_get src 0) (\<lambda>a.
     bindE (relink put_dnext src [0..<n - 1] (put_dcell (the this) (Dlist (l\<lparr>dhead := Some a\<rparr>)) h)) (\<lambda>h.
     bindE (src_get src (n - 1)) (\<lambda>z.
     bindE (put_dnext z None h) (\<lambda>h. Inr (h, g))))))))"

text \<open>\<open>vararg ty v h\<close> is what \<open>printf\<close> prints for the union \<open>v\<close> under the conversion of the type.\<close>

fun dprint_from ::
  "(int \<Rightarrow> dlistValue \<Rightarrow> dheap \<Rightarrow> crash + string) \<Rightarrow> int \<Rightarrow> nat \<Rightarrow> dheap \<Rightarrow> ptr \<Rightarrow> crash + string" where
  "dprint_from vararg ty fuel h None = Inr []"
| "dprint_from vararg ty 0 h (Some a) = Inl Endless"
| "dprint_from vararg ty (Suc fuel) h (Some a) =
     bindE (get_dnode h (Some a)) (\<lambda>n.
     bindE (get_dstr h (dkey n)) (\<lambda>k.
     bindE (vararg (if ty = DLIST_INT \<or> ty = DLIST_DOUBLE then ty else DLIST_STR) (dvalue n) h) (\<lambda>d.
     bindE (dprint_from vararg ty fuel h (dnext n)) (\<lambda>s. Inr (k @ ''='' @ d @ CHR 0x0A # s)))))"

definition dlistPrint ::
  "(int \<Rightarrow> dlistValue \<Rightarrow> dheap \<Rightarrow> crash + string) \<Rightarrow> ptr \<Rightarrow> dheap \<Rightarrow> crash + string" where
  "dlistPrint vararg this h =
     bindE (get_dlist h this) (\<lambda>l. if dlength l = 0 then Inr []
       else dprint_from vararg (dtype l) (Suc (dbrk h)) h (dhead l))"

fun dfree_from :: "nat \<Rightarrow> dheap \<Rightarrow> ptr \<Rightarrow> crash + dheap" where
  "dfree_from fuel h None = Inr h"
| "dfree_from 0 h (Some a) = Inl Endless"
| "dfree_from (Suc fuel) h (Some a) =
     bindE (get_dnode h (Some a)) (\<lambda>n. dfree_from fuel (h\<lparr>dcells := (dcells h)(a := None)\<rparr>) (dnext n))"

definition dlistFree :: "ptr \<Rightarrow> dheap \<Rightarrow> crash + dheap" where
  "dlistFree this h =
     bindE (get_dlist h this) (\<lambda>l. if dlength l = 0 then Inr h
       else dfree_from (Suc (dbrk h)) h (dhead l))"

section \<open>What a list in memory holds\<close>

definition is_dnode :: "dheap \<Rightarrow> nat \<Rightarrow> ptr \<times> dlistValue \<Rightarrow> bool" where
  "is_dnode h x e \<longleftrightarrow> (\<exists>q. dcells h x = Some (Dnode \<lparr>dkey = fst e, dvalue = snd e, dnext = q\<rparr>))"

definition dnx :: "dheap \<Rightarrow> nat \<Rightarrow> ptr" where
  "dnx h x = (case dcells h x of Some (Dnode n) \<Rightarrow> dnext n | _ \<Rightarrow> None)"

definition dheap_ok :: "dheap \<Rightarrow> bool" where
  "dheap_ok h \<longleftrightarrow> (\<forall>a. dcells h a \<noteq> None \<longrightarrow> a < dbrk h)"

definition dlist_at :: "dheap \<Rightarrow> nat \<Rightarrow> int \<Rightarrow> nat list \<Rightarrow> (ptr \<times> dlistValue) list \<Rightarrow> bool" where
  "dlist_at h a ty xs es \<longleftrightarrow> dheap_ok h \<and>
     (\<exists>p. dcells h a = Some (Dlist \<lparr>dhead = p, dtype = ty, dlength = int (length xs)\<rparr>) \<and> chain (dnx h) p xs) \<and>
     list_all2 (is_dnode h) xs es"

lemma dnode_get:
  "is_dnode h x e \<Longrightarrow> get_dnode h (Some x) = Inr \<lparr>dkey = fst e, dvalue = snd e, dnext = dnx h x\<rparr>"
  by (auto simp: is_dnode_def get_dnode_def dload_def dnx_def)

lemma all2_member: "list_all2 P xs es \<Longrightarrow> x \<in> set xs \<Longrightarrow> \<exists>e. P x e"
  by (induction xs es rule: list_all2_induct) auto

lemma dnode_fuel:
  assumes "dlist_at h a ty xs es"
  shows "length xs \<le> dbrk h"
proof -
  have "x < dbrk h" if x: "x \<in> set xs" for x
  proof -
    have "\<exists>e. is_dnode h x e" using assms x all2_member unfolding dlist_at_def by metis
    then show ?thesis using assms by (auto simp: dlist_at_def dheap_ok_def is_dnode_def)
  qed
  then have "set xs \<subseteq> {..<dbrk h}" by auto
  moreover have "distinct xs" using assms chain_distinct by (auto simp: dlist_at_def)
  ultimately show ?thesis by (metis card_lessThan card_mono distinct_card finite_lessThan)
qed

text \<open>Setting the \<open>next\<close> field of a node changes that link and nothing else.\<close>

lemma put_dnext_node:
  assumes "is_dnode h x e"
  shows "\<exists>h'. put_dnext x p h = Inr h' \<and> dnx h' = (dnx h)(x := p) \<and> is_dnode h' = is_dnode h \<and>
    (\<forall>y. y \<noteq> x \<longrightarrow> dcells h' y = dcells h y) \<and> dbrk h' = dbrk h \<and> droom h' = droom h \<and> dheap_ok h' = dheap_ok h"
proof -
  obtain q where q: "dcells h x = Some (Dnode \<lparr>dkey = fst e, dvalue = snd e, dnext = q\<rparr>)"
    using assms by (auto simp: is_dnode_def)
  let ?h = "put_dcell x (Dnode \<lparr>dkey = fst e, dvalue = snd e, dnext = p\<rparr>) h"
  have "put_dnext x p h = Inr ?h" using dnode_get [OF assms] by (simp add: put_dnext_def)
  moreover have "dnx ?h = (dnx h)(x := p)" by (auto simp: dnx_def put_dcell_def)
  moreover have "is_dnode ?h = is_dnode h" using q by (auto simp: is_dnode_def put_dcell_def fun_eq_iff)
  moreover have "dheap_ok ?h = dheap_ok h" using q by (auto simp: dheap_ok_def put_dcell_def)
  ultimately show ?thesis by (intro exI [of _ ?h]) (simp add: put_dcell_def)
qed

lemma dlast_chain:
  assumes "chain (dnx h) p xs" and "list_all2 (is_dnode h) xs es" and "xs \<noteq> []" and "length xs \<le> fuel"
  shows "dlast_from fuel h p = Inr (last xs)"
  using assms
proof (induction xs arbitrary: p es fuel)
  case (Cons x xs)
  obtain e es' where es: "es = e # es'" "is_dnode h x e" "list_all2 (is_dnode h) xs es'"
    using Cons.prems(2) by (auto simp: list_all2_Cons1)
  obtain m where m: "fuel = Suc m" "length xs \<le> m" using Cons.prems(4) by (cases fuel) auto
  show ?case
  proof (cases xs)
    case Nil
    then show ?thesis using Cons.prems(1) m(1) dnode_get [OF es(2)] by simp
  next
    case (Cons y ys)
    then have "dnx h x = Some y" "xs \<noteq> []" using Cons.prems(1) by simp_all
    then show ?thesis using Cons.IH [of "dnx h x" es' m] Cons.prems(1) es(3) m dnode_get [OF es(2)] by simp
  qed
qed simp

lemma put_dlist:
  assumes "dcells h a = Some (Dlist l0)"
  shows "dnx (put_dcell a (Dlist l) h) = dnx h" "is_dnode (put_dcell a (Dlist l) h) = is_dnode h"
    "dheap_ok (put_dcell a (Dlist l) h) = dheap_ok h"
  using assms by (auto simp: dnx_def is_dnode_def dheap_ok_def put_dcell_def fun_eq_iff)

lemma dlist_get: "dcells h a = Some (Dlist l) \<Longrightarrow> get_dlist h (Some a) = Inr l"
  by (simp add: get_dlist_def dload_def)

lemma dlist_not_node: "dcells h a = Some (Dlist l) \<Longrightarrow> \<not> is_dnode h a e"
  by (simp add: is_dnode_def)

section \<open>Appending\<close>

text \<open>The middle of \<open>dlistAppend\<close>: the new node \<open>b\<close> becomes the head, or is linked behind the last node.\<close>

lemma dlist_link:
  assumes la: "dcells h a = Some (Dlist \<lparr>dhead = p, dtype = ty, dlength = int (length xs)\<rparr>)"
    and ch: "chain (dnx h) p xs" and all: "list_all2 (is_dnode h) xs es" and ok: "dheap_ok h"
    and b: "is_dnode h b e" "dnx h b = None" "b \<notin> set xs" "a \<notin> set xs" "a \<noteq> b" and fuel: "length xs \<le> n"
  shows "\<exists>h' p'. bindE (dlistIsEmpty (Some a) h) (\<lambda>empty. bindE (get_dlist h (Some a)) (\<lambda>l.
      if empty then Inr (put_dcell a (Dlist (l\<lparr>dhead := Some b\<rparr>)) h)
      else bindE (dlast_from n h (dhead l)) (\<lambda>z. put_dnext z (Some b) h))) = Inr h' \<and>
    chain (dnx h') p' (xs @ [b]) \<and> list_all2 (is_dnode h') (xs @ [b]) (es @ [e]) \<and> dheap_ok h' \<and>
    dcells h' a = Some (Dlist \<lparr>dhead = p', dtype = ty, dlength = int (length xs)\<rparr>) \<and>
    (\<forall>y. y \<noteq> a \<and> y \<notin> set xs \<longrightarrow> dcells h' y = dcells h y)"
proof (cases "xs = []")
  case True
  let ?l = "\<lparr>dhead = Some b, dtype = ty, dlength = 0\<rparr>"
  have "es = []" using all True by simp
  then show ?thesis
    using True put_dlist [OF la, of ?l] dlist_get [OF la] ok b
    by (intro exI [of _ "put_dcell a (Dlist ?l) h"] exI [of _ "Some b"]) (simp add: dlistIsEmpty_def, simp add: put_dcell_def)
next
  case False
  have last: "dlast_from n h p = Inr (last xs)" using dlast_chain [OF ch all False fuel] .
  obtain e' where "is_dnode h (last xs) e'" using all2_member [OF all, of "last xs"] False by auto
  from put_dnext_node [OF this, of "Some b"] obtain h' where h': "put_dnext (last xs) (Some b) h = Inr h'"
    "dnx h' = (dnx h)(last xs := Some b)" "is_dnode h' = is_dnode h"
    "\<forall>y. y \<noteq> last xs \<longrightarrow> dcells h' y = dcells h y" "dheap_ok h' = dheap_ok h" by blast
  have "(dnx h)(b := None) = dnx h" using b(2) by auto
  then have "chain (dnx h') p (xs @ [b])" using chain_push_end [OF ch b(3)] False by (simp add: h'(2))
  moreover have "list_all2 (is_dnode h') (xs @ [b]) (es @ [e])"
    using all b(1) h'(3) list_all2_lengthD [OF all] by (simp add: list_all2_append)
  moreover have "last xs \<noteq> a" using b(4) False by auto
  then have "dcells h' a = dcells h a" using h'(4) by auto
  moreover have "\<forall>y. y \<noteq> a \<and> y \<notin> set xs \<longrightarrow> dcells h' y = dcells h y"
    using h'(4) last_in_set [OF False] by metis
  ultimately show ?thesis
    using False h'(1,5) last la ok dlist_get [OF la]
    by (intro exI [of _ h'] exI [of _ p]) (simp add: dlistIsEmpty_def del: dlast_from.simps)
qed

lemma dlistAppend_at:
  assumes at: "dlist_at h a ty xs es" and n: "int (length xs) < INT_MAX" "0 < droom h"
  shows "\<exists>h'. dlistAppend (Some a) k v h = Inr h' \<and> dlist_at h' a ty (xs @ [dbrk h]) (es @ [(k, v)]) \<and>
    (\<forall>y. y \<noteq> a \<and> y \<noteq> dbrk h \<and> y \<notin> set xs \<longrightarrow> dcells h' y = dcells h y)"
proof -
  let ?b = "dbrk h" and ?nd = "Dnode \<lparr>dkey = k, dvalue = v, dnext = None\<rparr>"
  define h1 where "h1 = h\<lparr>dcells := (dcells h)(?b \<mapsto> ?nd), dbrk := Suc ?b, droom := droom h - 1\<rparr>"
  have c1: "dcells h1 = (dcells h)(?b \<mapsto> ?nd)" "dbrk h1 = Suc ?b" by (simp_all add: h1_def)
  have new: "dnew ?nd h = Inr (?b, h1)" using n(2) by (simp add: dnew_def h1_def)
  obtain p where p: "dcells h a = Some (Dlist \<lparr>dhead = p, dtype = ty, dlength = int (length xs)\<rparr>)" "chain (dnx h) p xs"
    using at by (auto simp: dlist_at_def)
  have all: "list_all2 (is_dnode h) xs es" and ok: "dheap_ok h" using at by (simp_all add: dlist_at_def)
  have fr: "dcells h ?b = None" using ok by (auto simp: dheap_ok_def)
  then have ab: "a \<noteq> ?b" using p(1) by auto
  have bx: "?b \<notin> set xs" using all2_member [OF all, of ?b] fr by (auto simp: is_dnode_def)
  have dn: "dnx h1 = (dnx h)(?b := None)" by (auto simp: dnx_def c1)
  have isn: "is_dnode h1 x e" if "is_dnode h x e" for x e using that fr by (auto simp: is_dnode_def c1)
  have all1: "list_all2 (is_dnode h1) xs es" using all isn by (rule list_all2_mono)
  have nb: "is_dnode h1 ?b (k, v)" by (simp add: is_dnode_def c1)
  have ok1: "dheap_ok h1" using ok by (auto simp: dheap_ok_def c1 less_SucI)
  have la: "dcells h1 a = Some (Dlist \<lparr>dhead = p, dtype = ty, dlength = int (length xs)\<rparr>)" using p(1) ab by (simp add: c1)
  have ch1: "chain (dnx h1) p xs" using p(2) bx by (simp add: dn)
  have ax: "a \<notin> set xs" using all2_member [OF all] dlist_not_node [OF p(1)] by blast
  have fuel: "length xs \<le> Suc (dbrk h1)" using dnode_fuel [OF at] c1(2) by simp
  have end1: "dnx h1 ?b = None" by (simp add: dn)
  obtain h2 p' where h2: "bindE (dlistIsEmpty (Some a) h1) (\<lambda>empty. bindE (get_dlist h1 (Some a)) (\<lambda>l.
      if empty then Inr (put_dcell a (Dlist (l\<lparr>dhead := Some ?b\<rparr>)) h1)
      else bindE (dlast_from (Suc (dbrk h1)) h1 (dhead l)) (\<lambda>z. put_dnext z (Some ?b) h1))) = Inr h2"
    "chain (dnx h2) p' (xs @ [?b])" "list_all2 (is_dnode h2) (xs @ [?b]) (es @ [(k, v)])" "dheap_ok h2"
    "dcells h2 a = Some (Dlist \<lparr>dhead = p', dtype = ty, dlength = int (length xs)\<rparr>)"
    "\<forall>y. y \<noteq> a \<and> y \<notin> set xs \<longrightarrow> dcells h2 y = dcells h1 y"
    using dlist_link [OF la ch1 all1 ok1 nb end1 bx ax ab fuel] by blast
  let ?l = "\<lparr>dhead = p', dtype = ty, dlength = int (length xs) + 1\<rparr>"
  have "dlistAppend (Some a) k v h =
      bindE (bindE (dlistIsEmpty (Some a) h1) (\<lambda>empty. bindE (get_dlist h1 (Some a)) (\<lambda>l.
        if empty then Inr (put_dcell a (Dlist (l\<lparr>dhead := Some ?b\<rparr>)) h1)
        else bindE (dlast_from (Suc (dbrk h1)) h1 (dhead l)) (\<lambda>z. put_dnext z (Some ?b) h1))))
      (\<lambda>h. bindE (get_dlist h (Some a)) (\<lambda>l.
        if dlength l = INT_MAX then Inl Overflow else Inr (put_dcell a (Dlist (l\<lparr>dlength := dlength l + 1\<rparr>)) h)))"
    unfolding dlistAppend_def new bindE.simps prod.case option.sel bindE_assoc by (rule refl)
  then have "dlistAppend (Some a) k v h = Inr (put_dcell a (Dlist ?l) h2)"
    unfolding h2(1) using n(1) dlist_get [OF h2(5)] by simp
  moreover have "dlist_at (put_dcell a (Dlist ?l) h2) a ty (xs @ [?b]) (es @ [(k, v)])"
    using h2(2-4) put_dlist [OF h2(5), of ?l] by (simp add: dlist_at_def put_dcell_def)
  moreover have "dcells (put_dcell a (Dlist ?l) h2) y = dcells h y" if "y \<noteq> a" "y \<noteq> ?b" "y \<notin> set xs" for y
    using h2(6) that by (simp add: put_dcell_def c1)
  ultimately show ?thesis by blast
qed

section \<open>Sorting\<close>

lemma dcollect_chain:
  assumes "chain (dnx h) p xs" and "list_all2 (is_dnode h) xs es" and "length src + length xs \<le> n" and "length xs \<le> fuel"
  shows "dcollect fuel h n p src = Inr (src @ xs)"
  using assms
proof (induction xs arbitrary: p es fuel src)
  case (Cons x xs)
  obtain e es' where es: "is_dnode h x e" "list_all2 (is_dnode h) xs es'"
    using Cons.prems(2) by (auto simp: list_all2_Cons1)
  obtain m where m: "fuel = Suc m" "length xs \<le> m" using Cons.prems(4) by (cases fuel) auto
  show ?case
    using Cons.IH [of "dnx h x" es' "src @ [x]" m] Cons.prems(1,3) es(2) m dnode_get [OF es(1)] by simp
qed simp

lemma link_all_dnodes:
  assumes "\<forall>x \<in> set xs. \<exists>e. is_dnode h x e" and "distinct xs" and "xs \<noteq> []"
  shows "\<exists>h'. link_all put_dnext xs h = Inr h' \<and> chain (dnx h') (Some (hd xs)) xs \<and> is_dnode h' = is_dnode h \<and>
    (\<forall>y. y \<notin> set xs \<longrightarrow> dcells h' y = dcells h y \<and> dnx h' y = dnx h y) \<and> dbrk h' = dbrk h \<and> dheap_ok h' = dheap_ok h"
  using assms
proof (induction xs arbitrary: h rule: induct_list012)
  case (2 x)
  then obtain e where "is_dnode h x e" by auto
  from put_dnext_node [OF this, of None] show ?case by (auto simp: fun_upd_def split: if_splits)
next
  case (3 x y zs)
  then obtain e where "is_dnode h x e" by auto
  from put_dnext_node [OF this, of "Some y"] obtain h1 where h1: "put_dnext x (Some y) h = Inr h1"
    "dnx h1 = (dnx h)(x := Some y)" "is_dnode h1 = is_dnode h" "\<forall>z. z \<noteq> x \<longrightarrow> dcells h1 z = dcells h z"
    "dbrk h1 = dbrk h" "dheap_ok h1 = dheap_ok h" by blast
  have "\<exists>h'. link_all put_dnext (y # zs) h1 = Inr h' \<and> chain (dnx h') (Some (hd (y # zs))) (y # zs) \<and> is_dnode h' = is_dnode h1 \<and>
    (\<forall>z. z \<notin> set (y # zs) \<longrightarrow> dcells h' z = dcells h1 z \<and> dnx h' z = dnx h1 z) \<and> dbrk h' = dbrk h1 \<and> dheap_ok h' = dheap_ok h1"
    using 3(3,4) h1(3) by (intro "3.IH"(2)) auto
  then obtain h' where h': "link_all put_dnext (y # zs) h1 = Inr h'" "chain (dnx h') (Some y) (y # zs)" "is_dnode h' = is_dnode h1"
    "\<forall>z. z \<notin> set (y # zs) \<longrightarrow> dcells h' z = dcells h1 z \<and> dnx h' z = dnx h1 z" "dbrk h' = dbrk h1" "dheap_ok h' = dheap_ok h1"
    by auto
  have "x \<notin> set (y # zs)" using 3(4) by simp
  then have "dnx h' x = Some y" using h'(4) h1(2) by auto
  then show ?case
    using h1 h' by (intro exI [of _ h']) auto
qed simp

text \<open>The array after the loops: some order of the nodes, or a read outside the table.\<close>

lemma dlistSort_run:
  assumes at: "dlist_at h a ty xs es" and ne: "xs \<noteq> []"
    and run: "isort (dcmp rand ty) [1..<length xs] xs g = Inr (map fst zs, g')" and perm: "mset zs = mset (zip xs es)"
  shows "\<exists>h'. dlistSort rand (Some a) dst method h g = Inr (h', g') \<and> dlist_at h' a ty (map fst zs) (map snd zs) \<and>
    (\<forall>y. y \<noteq> a \<and> y \<notin> set xs \<longrightarrow> dcells h' y = dcells h y)"
proof -
  let ?ys = "map fst zs"
  obtain p where p: "dcells h a = Some (Dlist \<lparr>dhead = p, dtype = ty, dlength = int (length xs)\<rparr>)" "chain (dnx h) p xs"
    using at by (auto simp: dlist_at_def)
  have all: "list_all2 (is_dnode h) xs es" and ok: "dheap_ok h" using at by (simp_all add: dlist_at_def)
  have len: "length xs = length es" using list_all2_lengthD [OF all] .
  have "mset ?ys = mset (map fst (zip xs es))" using perm by (simp only: mset_map)
  then have m: "mset ?ys = mset xs" using len by simp
  then have ys: "set ?ys = set xs" "length ?ys = length xs" "distinct ?ys" "?ys \<noteq> []"
    using mset_eq_setD [OF m] mset_eq_length [OF m] mset_eq_imp_distinct_iff [OF m] chain_distinct [OF p(2)] ne
    by (simp_all, auto)
  have ax: "a \<notin> set xs" using all2_member [OF all] dlist_not_node [OF p(1)] by blast
  have coll: "dcollect (Suc (dbrk h)) h (length xs) p [] = Inr xs"
    using dcollect_chain [OF p(2) all, of "[]" "length xs" "Suc (dbrk h)"] dnode_fuel [OF at] by simp
  let ?l = "\<lparr>dhead = Some (hd ?ys), dtype = ty, dlength = int (length xs)\<rparr>"
  define h1 where "h1 = put_dcell a (Dlist ?l) h"
  have h1: "dnx h1 = dnx h" "is_dnode h1 = is_dnode h" "dheap_ok h1 = dheap_ok h" "dcells h1 = (dcells h)(a \<mapsto> Dlist ?l)"
    using put_dlist [OF p(1), of ?l] by (simp_all add: h1_def put_dcell_def)
  have nodes: "\<forall>x \<in> set ?ys. \<exists>e. is_dnode h1 x e" using all2_member [OF all] ys(1) h1(2) by auto
  from link_all_dnodes [OF nodes ys(3,4)] obtain h2 where h2: "link_all put_dnext ?ys h1 = Inr h2"
    "chain (dnx h2) (Some (hd ?ys)) ?ys" "is_dnode h2 = is_dnode h1"
    "\<forall>y. y \<notin> set ?ys \<longrightarrow> dcells h2 y = dcells h1 y \<and> dnx h2 y = dnx h1 y" "dheap_ok h2 = dheap_ok h1" by blast
  have sg: "src_get ?ys 0 = Inr (hd ?ys)" using ys(4) by (cases zs) (auto simp: src_get_def)
  have lk: "bindE (relink put_dnext ?ys [0..<length xs - 1] h1)
      (\<lambda>h. bindE (src_get ?ys (length xs - 1)) (\<lambda>z. bindE (put_dnext z None h) f)) = f h2" for f :: "dheap \<Rightarrow> crash + (dheap \<times> 'a)"
    using relink_link_all [of 0 ?ys put_dnext h1 f] ys(2,4) h2(1) by simp
  have "dlistSort rand (Some a) dst method h g = Inr (h2, g')"
    using ne dlist_get [OF p(1)] coll run sg lk [of "\<lambda>h. Inr (h, g')"]
    by (simp add: dlistSort_def Let_def h1_def del: dcollect.simps)
  moreover have "list_all2 (is_dnode h2) ?ys (map snd zs)"
    using all mset_eq_setD [OF perm] h2(3) h1(2) by (auto simp: list_all2_iff zip_map_fst_snd)
  then have "dlist_at h2 a ty ?ys (map snd zs)"
    using h2(2,4,5) h1(3,4) ok ys(1,2) ax by (simp add: dlist_at_def)
  moreover have "\<forall>y. y \<noteq> a \<and> y \<notin> set xs \<longrightarrow> dcells h2 y = dcells h y" using h2(4) ys(1) h1(4) by simp
  ultimately show ?thesis by blast
qed

lemma dlistSort_any:
  assumes at: "dlist_at h a ty xs es" and ty: "ty \<in> {0, 1, 2}"
  shows "\<exists>h' g' xs' es'. dlistSort rand (Some a) dst method h g = Inr (h', g') \<and> dlist_at h' a ty xs' es' \<and>
    mset (zip xs' es') = mset (zip xs es) \<and> (\<forall>y. y \<noteq> a \<and> y \<notin> set xs \<longrightarrow> dcells h' y = dcells h y)"
proof (cases xs)
  case Nil
  then show ?thesis using at dlist_get by (auto simp: dlistSort_def dlist_at_def)
next
  case (Cons x xs0)
  have len: "length xs = length es" using at by (auto simp: dlist_at_def dest: list_all2_lengthD)
  have "ends {} (\<lambda>(ys, g). mset ys = mset ([x] @ xs0))
      (isort (dcmp rand ty) [length [x]..<length [x] + length xs0] ([x] @ xs0) g)"
    using ty by (intro isort_ends [where D = UNIV]) (auto simp: dcmp_def)
  then obtain ys g' where run: "isort (dcmp rand ty) [1..<length xs] xs g = Inr (ys, g')" "mset ys = mset xs"
    by (auto simp: Cons ends_none)
  have "mset ys = image_mset fst (mset (zip xs es))" using run(2) len by (simp add: mset_map [symmetric] del: mset_map)
  then obtain zs where zs: "mset zs = mset (zip xs es)" "ys = map fst zs" using mset_map_ex by metis
  have "xs \<noteq> []" using Cons by simp
  from dlistSort_run [OF at this run(1) [unfolded zs(2)] zs(1), of dst "method"] obtain h' where
    "dlistSort rand (Some a) dst method h g = Inr (h', g')" "dlist_at h' a ty (map fst zs) (map snd zs)"
    "\<forall>y. y \<noteq> a \<and> y \<notin> set xs \<longrightarrow> dcells h' y = dcells h y" by blast
  moreover have "mset (zip (map fst zs) (map snd zs)) = mset (zip xs es)" by (simp only: zip_map_fst_snd zs(1))
  ultimately show ?thesis by blast
qed

section \<open>Freeing\<close>

lemma dfree_chain:
  assumes "chain (dnx h) p xs" and "list_all2 (is_dnode h) xs es" and "length xs \<le> fuel"
  shows "dfree_from fuel h p = Inr (h\<lparr>dcells := (\<lambda>y. if y \<in> set xs then None else dcells h y)\<rparr>)"
  using assms
proof (induction xs arbitrary: p es fuel h)
  case (Cons x xs)
  obtain e es' where es: "is_dnode h x e" "list_all2 (is_dnode h) xs es'"
    using Cons.prems(2) by (auto simp: list_all2_Cons1)
  obtain m where m: "fuel = Suc m" "length xs \<le> m" using Cons.prems(3) by (cases fuel) auto
  let ?h = "h\<lparr>dcells := (dcells h)(x := None)\<rparr>"
  have x: "x \<notin> set xs" using chain_distinct [OF Cons.prems(1)] by simp
  have same: "is_dnode ?h y f = is_dnode h y f" "dnx ?h y = dnx h y" if "y \<in> set xs" for y f
    using that x by (auto simp: is_dnode_def dnx_def)
  have "list_all2 (is_dnode ?h) xs es'"
    using es(2) same(1) by (fastforce simp: list_all2_iff dest: set_zip_leftD)
  moreover have "chain (dnx ?h) (dnx h x) xs"
    using Cons.prems(1) same(2) chain_cong [of xs "dnx ?h" "dnx h"] by simp
  ultimately have "dfree_from m ?h (dnx h x) = Inr (?h\<lparr>dcells := (\<lambda>y. if y \<in> set xs then None else dcells ?h y)\<rparr>)"
    using Cons.IH m(2) by blast
  moreover have "(\<lambda>y. if y \<in> set xs then None else dcells ?h y) = (\<lambda>y. if y \<in> set (x # xs) then None else dcells h y)"
    by auto
  ultimately show ?case using Cons.prems(1) m(1) dnode_get [OF es(1)] by simp
qed simp

section \<open>Properties\<close>

definition dsample :: dheap where
  "dsample =
     \<lparr>dcells = [0 \<mapsto> Dlist \<lparr>dhead = Some 1, dtype = DLIST_INT, dlength = 2\<rparr>,
                1 \<mapsto> Dnode \<lparr>dkey = Some 5, dvalue = Int_value 7, dnext = Some 2\<rparr>,
                2 \<mapsto> Dnode \<lparr>dkey = Some 6, dvalue = Int_value 4, dnext = None\<rparr>,
                3 \<mapsto> Dlist \<lparr>dhead = Some 4, dtype = DLIST_INT, dlength = 1\<rparr>,
                4 \<mapsto> Dnode \<lparr>dkey = Some 5, dvalue = Int_value 1, dnext = None\<rparr>,
                5 \<mapsto> Dstr ''x'', 6 \<mapsto> Dstr ''y''],
      dbrk = 7, droom = 9\<rparr>"

lemma dsample_at: "dlist_at dsample 0 DLIST_INT [1, 2] [(Some 5, Int_value 7), (Some 6, Int_value 4)]"
  by (auto simp: dlist_at_def dsample_def dheap_ok_def is_dnode_def dnx_def)

text \<open>
  C38. \<open>dlistAppend\<close> adds at the tail. On a well-formed list it returns with the new entry after the
  others, all of them in their order, and changes nothing but the list object, its last node and
  the new node.
\<close>

theorem dlistAppend_appends:
  assumes "dlist_at h a ty xs es" and "int (length xs) < INT_MAX" and "0 < droom h"
  shows "\<exists>h'. dlistAppend (Some a) k v h = Inr h' \<and> dlist_at h' a ty (xs @ [dbrk h]) (es @ [(k, v)]) \<and>
    (\<forall>y. y \<noteq> a \<and> y \<noteq> dbrk h \<and> y \<notin> set xs \<longrightarrow> dcells h' y = dcells h y)"
  using assms by (rule dlistAppend_at)

theorem dlistAppend_appends_witness:
  "\<exists>h'. dlistAppend (Some 0) (Some 5) (Int_value 3) dsample = Inr h' \<and>
     dlist_at h' 0 DLIST_INT [1, 2, 7] [(Some 5, Int_value 7), (Some 6, Int_value 4), (Some 5, Int_value 3)] \<and>
     dcells h' 4 = dcells dsample 4"
  using dlistAppend_appends [OF dsample_at, of "Some 5" "Int_value 3"] by (auto simp: dsample_def INT_MAX_def)

text \<open>
  \<open>dlistSort\<close> shuffles its own argument. Whatever method is asked for and whichever list is to
  receive the result, a list of integers or strings is reordered in place as the random numbers
  have it: same nodes, same entries, and every other object in memory, the list \<open>listDst\<close>
  among them, is as before. A list of two or more doubles reads outside the table of comparators.
\<close>

theorem dlistSort_shuffles_in_place:
  assumes "dlist_at h a ty xs es"
  shows "(ty \<in> {DLIST_INT, DLIST_STR} \<longrightarrow>
     (\<exists>h' g' xs' es'. dlistSort rand (Some a) dst method h g = Inr (h', g') \<and> dlist_at h' a ty xs' es' \<and>
       mset (zip xs' es') = mset (zip xs es) \<and> (\<forall>y. y \<noteq> a \<and> y \<notin> set xs \<longrightarrow> dcells h' y = dcells h y))) \<and>
   (ty = DLIST_DOUBLE \<and> 2 \<le> length xs \<longrightarrow> dlistSort rand (Some a) dst method h g = Inl Outside_array)"
proof (intro conjI impI)
  assume "ty \<in> {DLIST_INT, DLIST_STR}"
  then show "\<exists>h' g' xs' es'. dlistSort rand (Some a) dst method h g = Inr (h', g') \<and> dlist_at h' a ty xs' es' \<and>
      mset (zip xs' es') = mset (zip xs es) \<and> (\<forall>y. y \<noteq> a \<and> y \<notin> set xs \<longrightarrow> dcells h' y = dcells h y)"
    using dlistSort_any [OF assms] by (simp add: dlist_types)
next
  assume t: "ty = DLIST_DOUBLE \<and> 2 \<le> length xs"
  obtain p where p: "dcells h a = Some (Dlist \<lparr>dhead = p, dtype = ty, dlength = int (length xs)\<rparr>)" "chain (dnx h) p xs"
    using assms by (auto simp: dlist_at_def)
  have "dcollect (Suc (dbrk h)) h (length xs) p [] = Inr xs"
    using dcollect_chain [OF p(2), of es "[]" "length xs" "Suc (dbrk h)"] dnode_fuel [OF assms] assms
    by (simp add: dlist_at_def)
  moreover have "[1..<length xs] = 1 # [2..<length xs]" using t by (simp add: upt_conv_Cons numeral_2_eq_2)
  then have "isort (dcmp rand ty) [1..<length xs] xs g = Inl Outside_array"
    using t by (simp add: src_get_def dcmp_def dlist_types)
  moreover have "xs \<noteq> []" using t by auto
  ultimately show "dlistSort rand (Some a) dst method h g = Inl Outside_array"
    using dlist_get [OF p(1)] by (simp add: dlistSort_def Let_def del: dcollect.simps)
qed

theorem dlistSort_shuffles_in_place_witness:
  "\<exists>h' g' xs' es'. dlistSort (\<lambda>g. (g, g + 1)) (Some 0) (Some 3) 2 dsample (0 :: int) = Inr (h', g') \<and>
     dlist_at h' 0 DLIST_INT xs' es' \<and> dcells h' 3 = dcells dsample 3 \<and> dcells h' 4 = dcells dsample 4"
proof -
  have "\<exists>h' g' xs' es'. dlistSort (\<lambda>g. (g, g + 1)) (Some 0) (Some 3) 2 dsample (0 :: int) = Inr (h', g') \<and>
      dlist_at h' 0 DLIST_INT xs' es' \<and>
      mset (zip xs' es') = mset (zip [1, 2] [(Some 5, Int_value 7), (Some 6, Int_value 4)]) \<and>
      (\<forall>y. y \<noteq> 0 \<and> y \<notin> set [1, 2] \<longrightarrow> dcells h' y = dcells dsample y)"
    using conjunct1 [OF dlistSort_shuffles_in_place [OF dsample_at], of "\<lambda>g. (g, g + 1)" "Some 3" 2 "0 :: int"] by blast
  then obtain h' g' xs' es' where r: "dlistSort (\<lambda>g. (g, g + 1)) (Some 0) (Some 3) 2 dsample (0 :: int) = Inr (h', g')"
    "dlist_at h' 0 DLIST_INT xs' es'" "\<forall>y. y \<noteq> 0 \<and> y \<notin> set [1, 2] \<longrightarrow> dcells h' y = dcells dsample y" by blast
  have "dcells h' 3 = dcells dsample 3" "dcells h' 4 = dcells dsample 4" using r(3) by simp_all
  with r(1,2) show ?thesis by blast
qed

text \<open>
  \<open>dlistFree\<close> frees the nodes only. On a well-formed list it ends without touching freed memory
  and exactly the nodes are gone: the list object stays allocated and points to freed nodes, and
  the keys and strings stay; on the null pointer, for which the header promises to do nothing,
  it crashes.
\<close>

theorem dlistFree_frees_nodes:
  assumes "dlist_at h a ty xs es"
  shows "(\<exists>h'. dlistFree (Some a) h = Inr h' \<and> (\<forall>y. dcells h' y = (if y \<in> set xs then None else dcells h y))) \<and>
    dlistFree None h = Inl Null_access"
proof -
  obtain p where p: "dcells h a = Some (Dlist \<lparr>dhead = p, dtype = ty, dlength = int (length xs)\<rparr>)" "chain (dnx h) p xs"
    using assms by (auto simp: dlist_at_def)
  have "dlistFree (Some a) h = Inr (h\<lparr>dcells := (\<lambda>y. if y \<in> set xs then None else dcells h y)\<rparr>)"
  proof (cases "xs = []")
    case True
    then show ?thesis using dlist_get [OF p(1)] by (simp add: dlistFree_def)
  next
    case False
    then show ?thesis
      using dfree_chain [OF p(2), of es "Suc (dbrk h)"] dnode_fuel [OF assms] assms dlist_get [OF p(1)]
      by (simp add: dlistFree_def dlist_at_def del: dfree_from.simps)
  qed
  then show ?thesis by (simp add: dlistFree_def get_dlist_def dload_def)
qed

theorem dlistFree_frees_nodes_witness:
  "\<exists>h'. dlistFree (Some 0) dsample = Inr h' \<and> dcells h' 1 = None \<and> dcells h' 0 = dcells dsample 0 \<and>
     dcells h' 5 = Some (Dstr ''x'')"
  using dlistFree_frees_nodes [OF dsample_at] by (auto simp: dsample_def)

text \<open>An unknown type: the new list object is not returned, so nothing can free it.\<close>

lemma createDlist_leaks:
  "0 < droom h \<Longrightarrow> \<exists>h'. createDlist DLIST_UNKOWN h = Inr (None, h') \<and> dcells h' (dbrk h) \<noteq> None"
  by (simp add: createDlist_def dnew_def)

text \<open>A new list is well formed and empty.\<close>

lemma createDlist_at:
  assumes "dheap_ok h" and "0 < droom h" and "ty \<noteq> DLIST_UNKOWN"
  shows "\<exists>h'. createDlist ty h = Inr (Some (dbrk h), h') \<and> dlist_at h' (dbrk h) ty [] []"
  using assms by (auto simp: createDlist_def dnew_def dlist_at_def dheap_ok_def less_SucI)

text \<open>Printing writes one line for each entry, in order.\<close>

lemma dprint_chain:
  assumes "chain (dnx h) p xs" and "list_all2 (is_dnode h) xs es" and "length xs \<le> fuel"
    and "\<And>e. e \<in> set es \<Longrightarrow> get_dstr h (fst e) = Inr (ks e)"
    and "\<And>e. e \<in> set es \<Longrightarrow> vararg (if ty = DLIST_INT \<or> ty = DLIST_DOUBLE then ty else DLIST_STR) (snd e) h = Inr (vs e)"
  shows "dprint_from vararg ty fuel h p = Inr (concat (map (\<lambda>e. ks e @ ''='' @ vs e @ [CHR 0x0A]) es))"
  using assms
proof (induction xs arbitrary: p es fuel)
  case (Cons x xs)
  obtain e es' where es: "es = e # es'" "is_dnode h x e" "list_all2 (is_dnode h) xs es'"
    using Cons.prems(2) by (auto simp: list_all2_Cons1)
  obtain m where m: "fuel = Suc m" "length xs \<le> m" using Cons.prems(3) by (cases fuel) auto
  have "dprint_from vararg ty m h (dnx h x) = Inr (concat (map (\<lambda>e. ks e @ ''='' @ vs e @ [CHR 0x0A]) es'))"
    using Cons.prems(1,4,5) es(1) by (intro Cons.IH [OF _ es(3) m(2)]) auto
  then show ?case
    using Cons.prems(1) Cons.prems(4,5) [of e] es(1) m(1) dnode_get [OF es(2)] by simp
qed simp

end
