(* ===== verification/Zathura_Txt.thy ===== *)
theory Zathura_Txt
  imports Sort_Ui
begin

text \<open>
  The text plugin for the document viewer zathura
  (\<open>Lab/Lab 6/zathura-txt/zathura-txt/plugin.c\<close>): the life of a document in memory.

  Memory holds the plugin's structures. A slot of the array of lines is \<open>None\<close> while it is
  indeterminate. What zathura keeps of a document and of a page is a record each; drawing gives the
  position and the text handed to cairo. \<open>g_malloc0\<close> stops the program when there is no memory,
  which is \<open>Failed_assert\<close> here.
\<close>

section \<open>Memory\<close>

datatype zcell = Zdoc ptr | Zpages ptr | Zdata "ptr option list" | Ztext string

record zheap =
  zcells :: "nat \<Rightarrow> zcell option"
  zbrk :: nat
  zroom :: nat

definition znew :: "zcell \<Rightarrow> zheap \<Rightarrow> ptr \<times> zheap" where
  "znew c h =
     (if zroom h = 0 then (None, h)
      else (Some (zbrk h), h\<lparr>zcells := (zcells h)(zbrk h \<mapsto> c), zbrk := Suc (zbrk h), zroom := zroom h - 1\<rparr>))"

definition zput :: "nat \<Rightarrow> zcell \<Rightarrow> zheap \<Rightarrow> zheap" where
  "zput a c h = h\<lparr>zcells := (zcells h)(a \<mapsto> c)\<rparr>"

definition zget :: "zheap \<Rightarrow> ptr \<Rightarrow> crash + zcell" where
  "zget h p =
     (case p of None \<Rightarrow> Inl Null_access
      | Some a \<Rightarrow> (case zcells h a of None \<Rightarrow> Inl Wild_access | Some c \<Rightarrow> Inr c))"

definition zfree :: "ptr \<Rightarrow> zheap \<Rightarrow> crash + zheap" where
  "zfree p h =
     (case p of None \<Rightarrow> Inr h
      | Some a \<Rightarrow> if zcells h a = None then Inl Bad_free else Inr (h\<lparr>zcells := (zcells h)(a := None)\<rparr>))"

section \<open>The functions of the plugin\<close>

record zdocument =
  number_of_pages :: nat
  doc_data :: ptr

record zpage =
  page_width :: nat
  page_height :: nat
  page_data :: ptr

definition txt_document_open :: "(string \<Rightarrow> string option) \<Rightarrow> string \<Rightarrow> zheap \<Rightarrow> crash + (zdocument \<times> zheap)" where
  "txt_document_open files path h =
     (let (d, h) = znew (Zdoc None) h in
      case d of None \<Rightarrow> Inl Failed_assert | Some d \<Rightarrow>
      let fin = files path; (pages, h) = znew (Zpages None) h; h = zput d (Zdoc pages) h in
      case pages of None \<Rightarrow> Inl Null_access | Some p \<Rightarrow>
      let (lines, h) = znew (Zdata (replicate 40 None)) h; h = zput p (Zpages lines) h in
      case fin of None \<Rightarrow> Inl Null_access | Some s \<Rightarrow>
      if s = [] then Inl Indeterminate else
      let (copy, h) = znew (Ztext (c_str (fst (fgets 255 s)))) h in
      case lines of None \<Rightarrow> Inl Null_access | Some a \<Rightarrow>
      Inr (\<lparr>number_of_pages = 1, doc_data = Some d\<rparr>, zput a (Zdata (Some copy # replicate 39 None)) h))"

definition txt_document_free :: "ptr \<Rightarrow> zheap \<Rightarrow> crash + zheap" where
  "txt_document_free txt_document h =
     bindE (zget h txt_document) (\<lambda>c. case c of
       Zdoc pages \<Rightarrow> bindE (zfree pages h) (zfree txt_document) | _ \<Rightarrow> Inl Wild_access)"

definition txt_page_render_cairo :: "ptr \<Rightarrow> zheap \<Rightarrow> crash + (nat \<times> nat \<times> string option)" where
  "txt_page_render_cairo txt_page h =
     bindE (zget h txt_page) (\<lambda>c. case c of
       Zpages lines \<Rightarrow> bindE (zget h lines) (\<lambda>c. case c of
         Zdata (x # _) \<Rightarrow> (case x of
             None \<Rightarrow> Inl Indeterminate
           | Some None \<Rightarrow> Inr (20, 30, None)
           | Some copy \<Rightarrow> bindE (zget h copy) (\<lambda>c. case c of Ztext s \<Rightarrow> Inr (20, 30, Some s) | _ \<Rightarrow> Inl Wild_access))
       | _ \<Rightarrow> Inl Wild_access)
     | _ \<Rightarrow> Inl Wild_access)"

definition txt_page_init :: "zdocument \<Rightarrow> zheap \<Rightarrow> crash + zpage" where
  "txt_page_init document h =
     bindE (zget h (doc_data document)) (\<lambda>c. case c of
       Zdoc pages \<Rightarrow> Inr \<lparr>page_width = 500, page_height = 500, page_data = pages\<rparr> | _ \<Rightarrow> Inl Wild_access)"

definition txt_page_clear :: "ptr \<Rightarrow> zheap \<Rightarrow> crash + zheap" where
  "txt_page_clear txt_page h =
     bindE (zget h txt_page) (\<lambda>c. case c of Zpages lines \<Rightarrow> zfree lines h | _ \<Rightarrow> Inl Wild_access)"

text \<open>\<open>get_extension\<close>: the loop from the end of the string down to the last dot, or to 0.\<close>

fun ext_from :: "string \<Rightarrow> nat \<Rightarrow> nat" where
  "ext_from path 0 = 0"
| "ext_from path (Suc i) =
     (if Suc i < length path \<and> path ! Suc i = CHR ''.'' then Suc i else ext_from path i)"

definition get_extension :: "string option \<Rightarrow> string option" where
  "get_extension path =
     (case path of None \<Rightarrow> None
      | Some s \<Rightarrow> let i = ext_from s (length s) in if i = 0 then None else Some (drop (Suc i) s))"

section \<open>The life of a document\<close>

text \<open>
  What zathura does with a document of one page: open it, set up the page, draw it, and close,
  the page first.
\<close>

definition zathura_session ::
  "(string \<Rightarrow> string option) \<Rightarrow> string \<Rightarrow> zheap \<Rightarrow> crash + ((nat \<times> nat \<times> string option) \<times> zheap)" where
  "zathura_session files path h =
     bindE (txt_document_open files path h) (\<lambda>(doc, h).
     bindE (txt_page_init doc h) (\<lambda>page.
     bindE (txt_page_render_cairo (page_data page) h) (\<lambda>drawn.
     bindE (txt_page_clear (page_data page) h) (\<lambda>h.
     bindE (txt_document_free (doc_data doc) h) (\<lambda>h. Inr (drawn, h))))))"

definition zheap_ok :: "zheap \<Rightarrow> bool" where
  "zheap_ok h \<longleftrightarrow> (\<forall>a. zcells h a \<noteq> None \<longrightarrow> a < zbrk h)"

lemma zheap_fresh: "zheap_ok h \<Longrightarrow> zbrk h \<le> a \<Longrightarrow> zcells h a = None"
  by (meson linorder_not_le zheap_ok_def)

lemmas zsteps = znew_def zput_def zget_def zfree_def Let_def

lemma ext_from_dot:
  assumes "a \<noteq> []" and "CHR ''.'' \<notin> set e" and "n \<le> Suc (length e)"
  shows "ext_from (a @ CHR ''.'' # e) (length a + n) = length a"
  using assms(3)
proof (induction n)
  case 0
  then show ?case using assms(1) by (cases a) auto
next
  case (Suc n)
  have "\<not> (Suc (length a + n) < length (a @ CHR ''.'' # e) \<and> (a @ CHR ''.'' # e) ! Suc (length a + n) = CHR ''.'')"
    using assms(2) by (auto simp: nth_append nth_Cons' dest: nth_mem)
  then show ?case using Suc by (simp only: add_Suc_right ext_from.simps if_False Suc_leD)
qed

lemma ext_from_none:
  assumes "CHR ''.'' \<notin> set (tl s)"
  shows "ext_from s n = 0"
proof (induction n)
  case (Suc n)
  have "s ! Suc n \<noteq> CHR ''.''" if "Suc n < length s"
  proof -
    have n: "n < length (tl s)" using that by simp
    show ?thesis using nth_mem [OF n] assms by (auto simp: nth_tl [OF n])
  qed
  then show ?case using Suc by auto
qed simp

section \<open>Properties\<close>

text \<open>
  The viewer shows the first line. A file that is not empty is drawn as the first 255 bytes of its
  first line at most, its line end included, whatever follows; when the document is closed the
  copy of the line stays in memory, everything else the plugin allocated is freed, each object
  once, and nothing else has changed.
\<close>

theorem zathura_shows_first_line:
  assumes "zheap_ok h" and "4 \<le> zroom h" and "files path = Some s" and "s \<noteq> []"
  shows "\<exists>h'. zathura_session files path h = Inr ((20, 30, Some (c_str (fst (fgets 255 s)))), h') \<and>
    zcells h' = (zcells h)(zbrk h + 3 \<mapsto> Ztext (c_str (fst (fgets 255 s))))"
proof -
  have fresh: "zcells h a = None" if "zbrk h \<le> a" for a using zheap_fresh [OF assms(1) that] .
  have "\<not> zroom h \<le> 3" "zroom h \<noteq> 0" using assms(2) by simp_all
  then show ?thesis
    using assms(3,4) fresh
    by (simp add: zathura_session_def txt_document_open_def txt_page_init_def txt_page_render_cairo_def
        txt_page_clear_def txt_document_free_def zsteps numeral_3_eq_3 fun_upd_twist fun_eq_iff)
qed

theorem zathura_shows_first_line_witness:
  "\<exists>h'. zathura_session (\<lambda>_. Some (''one'' @ newline # ''two'')) ''a.txt'' \<lparr>zcells = (\<lambda>_. None), zbrk = 0, zroom = 4\<rparr> =
     Inr ((20, 30, Some (''one'' @ [newline])), h') \<and> zcells h' = [3 \<mapsto> Ztext (''one'' @ [newline])]"
proof -
  have "fst (fgets 255 (''one'' @ newline # ''two'')) = ''one'' @ [newline]" using fgets_line [of "''one''" 255 "''two''"] by simp
  moreover have "c_str (''one'' @ [newline]) = ''one'' @ [newline]" by (simp add: c_str_def)
  ultimately show ?thesis
    using zathura_shows_first_line [of "\<lparr>zcells = (\<lambda>_. None), zbrk = 0, zroom = 4\<rparr>"
        "\<lambda>_. Some (''one'' @ newline # ''two'')" "''a.txt''"]
    by (simp only: zheap_ok_def zheap.simps) auto
qed

text \<open>
  The extension of a path: what follows the last dot, which must not be its first character; a path
  without such a dot has none.
\<close>

theorem get_extension_last_dot:
  assumes "CHR ''.'' \<notin> set e"
  shows "a \<noteq> [] \<longrightarrow> get_extension (Some (a @ CHR ''.'' # e)) = Some e" and
    "get_extension (Some (CHR ''.'' # e)) = None" and "get_extension (Some e) = None"
proof -
  show "a \<noteq> [] \<longrightarrow> get_extension (Some (a @ CHR ''.'' # e)) = Some e"
    using ext_from_dot [of a e "Suc (length e)"] assms by (simp add: get_extension_def Let_def)
  have "CHR ''.'' \<notin> set (tl e)" using assms by (cases e) auto
  then show "get_extension (Some (CHR ''.'' # e)) = None" "get_extension (Some e) = None"
    using ext_from_none [of "CHR ''.'' # e"] ext_from_none [of e] assms by (simp_all add: get_extension_def Let_def del: ext_from.simps)
qed

end
