(* ===== verification/Spec2Isabelle.thy ===== *)
theory Spec2Isabelle
  imports Mkfs Dadfs_Module Dadfs_Locks Cache_Flush Region_Page Region_Exit Region_Sanity
    Cthread Banker Getchpids Thrashing Dice Sort_Safe Sort_Menu Plugins Lab5_Dlist Zathura_Txt
begin

text \<open>
  A verification development for the C and C++ programs of the VE482 course repository.

  \<^bold>\<open>The programs.\<close> The repository holds independent programs. The ones with the most
  logic are the dadfs file system of Lab 7 (a Linux kernel module and the program that formats
  a device for it) and the two parts of Minix of Lab 8, the block cache of its file servers and
  the memory regions of its VM server. Smaller ones are
  the two-thread counter of Homework 4, the banker's algorithm of Homework 5, the thrashing
  demonstration of Homework 6, the child process query of Homework 7, the list sorting programs of Homework 3 and Labs 5 and 6, the
  last one with its plugins, the zathura plugin of Lab 6 and the dice driver of Lab 9.

  \<^bold>\<open>How the code is translated.\<close> A C function is a HOL function from the state it
  touches to a result with the new state. Structures are records, enumerations datatypes,
  64-bit and 32-bit unsigned fields words, pointers into an array optional indices. Where the
  C program stops (a crash, a panic, a failed assertion, undefined behaviour) the result is
  \<open>Inl\<close> with the reason; the returned error codes of the code stay ordinary results.
  What the repository does not contain (block drivers, kernel calls, memory allocation,
  random numbers) is a parameter: a record of functions each component declares, which
  theorems constrain only by named hypotheses. \<open>Prelude\<close> holds the shared vocabulary
  and lemmas, among them the linked lists in a heap.

  \<^bold>\<open>dadfs\<close> (\<open>src/Lab/Lab 7/dadfs\<close>).
  \<^item> \<open>Dadfs_Layout\<close>: \<open>base.h\<close> and \<open>sblock.h\<close>. A block is a list of bytes; the super
    block, the inodes and the directory records are read and written at their byte offsets.
    The locale \<open>slot_array\<close> states what an array of such records in a block promises and is
    interpreted on the inode store and on directory blocks.
  \<^item> \<open>Dadfs_Core\<close>: locks, buffers and the super block, \<open>dadfs_sb_get_a_freeblock\<close>,
    \<open>dadfs_inode_add\<close>, \<open>dadfs_get_inode\<close>, \<open>dadfs_inode_save\<close>. Locks can be interrupted
    at every acquisition. The lemmas show the inode store behaves as a list.
  \<^item> \<open>Dadfs_Dir\<close>: \<open>dadfs_iterate\<close> and the \<open>dadfs_readdir\<close> of kernels before 3.11,
    \<open>dadfs_create_fs_object\<close>, \<open>dadfs_lookup\<close>, \<open>dadfs_iget\<close>.
    Creation refines appending to the inode list and to the parent's entries.
  \<^item> \<open>Dadfs_Locks\<close>: which mutexes each operation needs free and leaves held, on every path, failing
    allocations and reads included; creating leaves none held.
  \<^item> \<open>Dadfs_File\<close>: \<open>dadfs_read\<close> and both versions of \<open>dadfs_write\<close>.
  \<^item> \<open>Dadfs_Mount\<close>: \<open>dadfs_fill_super\<close>, the options and the journal.
  \<^item> \<open>Dadfs_Module\<close>: the tables of operations by kernel version, mounting and unmounting, and
    loading and unloading the module.
  \<^item> \<open>Mkfs\<close>: \<open>mkfs-dadfs.c\<close>, over a byte image of the device.
  This theory composes them: format, mount, look up, read.

  \<^bold>\<open>The block cache\<close> (\<open>src/Lab/Lab 8/src/cache.c\<close>).
  \<^item> \<open>Cache_Sort\<close>: the Shell sort of \<open>lmfs_rw_scattered\<close>, against sortedness.
  \<^item> \<open>Cache\<close>: every function of the file. Loops over the hash and free chains carry fuel
    equal to the number of buffers; \<open>Diverges\<close> is the result when it runs out. A chain
    visits each buffer at most once, so on a well-formed cache it never does, which
    \<open>lmfs_get_block_keeps_invariant\<close> includes.
  \<^item> \<open>Cache_Lru\<close>: the locale \<open>lru_order\<close> for the chain of free buffers, interpreted on
    \<open>rm_lru\<close> and the two ends of \<open>lmfs_put_block\<close>.
  \<^item> \<open>Cache_Inv\<close>, \<open>Cache_Get\<close>, \<open>Cache_Block\<close>: the invariant (free chain, hash chains,
    use counts, unique blocks) and that the operations keep it.
  \<^item> \<open>Cache_Coherence\<close>, \<open>Cache_Props\<close>, \<open>Cache_Flush\<close>: the abstract view of the cache as
    a map from blocks to contents, and the properties over it.

  \<^bold>\<open>The VM regions\<close> (\<open>src/Lab/Lab 8/src/region.c\<close>), over the region tree, the reference counts of
  physical blocks, the page tables and the memory types of the VM server as parameters.
  \<^item> \<open>Region\<close>: the state, the slots of a region, \<open>map_lookup\<close>, the search for a free range
    (\<open>region_find_slot\<close>) and the reports (\<open>get_usage_info\<close>, \<open>get_region_info\<close>). The walk down the
    regions has the address it starts from as fuel: each step reaches a lower one.
  \<^item> \<open>Region_Map\<close>: \<open>region_new\<close>, \<open>map_page_region\<close>, \<open>map_pf\<close>, \<open>map_clone_ph_block\<close>, \<open>map_free\<close>,
    \<open>map_region_extend_upto_v\<close>, \<open>map_unmap_region\<close>, \<open>map_copy_region\<close>.
  \<^item> \<open>Region_Yield\<close>: the blocks a file server yields to VM (\<open>yieldblock\<close>, \<open>getblock\<close>,
    \<open>freeyieldednode\<close> and the requests) and \<open>map_free_proc\<close> and \<open>map_proc_copy\<close>. The loops along the
    list of blocks have the number of blocks ever made as fuel.
  \<^item> \<open>Region_Slot\<close>: what the tree promises (\<open>avl_laws\<close>), the layout of a process (\<open>regions_ok\<close>), and that
    lookups and the search for a free range are right for it.
  \<^item> \<open>Region_Page\<close>: page faults and new regions keep the layout.
  \<^item> \<open>Region_Lru\<close>: the list, the table and the counts of yielded blocks describe the same blocks;
    yielding and getting back, and taking memory back from the oldest blocks (the report of the lab
    says: from the youngest).
  \<^item> \<open>Region_Unmap\<close>: what unmapping does at the end, at the start, and to a whole region.
  \<^item> \<open>Region_Fork\<close>: copying a process's memory: the same blocks in both processes, the counts of
    references, and page table entries that let no write through to private memory.
  \<^item> \<open>Region_Exit\<close>: freeing a process gives back its references, so a copy that exits leaves
    nothing behind.
  \<^item> \<open>Region_Sanity\<close>: the checks compiled with SANITYCHECKS, and that they accept exactly the
    states that the properties of the other theories speak of.

  \<^bold>\<open>The small programs.\<close>
  \<^item> \<open>Cthread\<close> (\<open>src/Homework/h4/cthread.c\<close>) is a step relation over all interleavings; mutual
    exclusion and the final count are an invariant of the reachable states, termination a measure,
    and every execution in which no library call fails prints the complete count within a bound.
  \<^item> \<open>Banker\<close> (\<open>src/Homework/h5/banker.cpp\<close>): the loops over the processes, which find an order in
    which all can run exactly when there is one. Each turn of the outer loop but the last leaves
    fewer processes to run.
  \<^item> \<open>Thrashing\<close> (\<open>src/Homework/h6/thrashing.c\<close>): four large arrays.
  \<^item> \<open>Getchpids\<close> (\<open>src/Homework/h7/getnchpid.c\<close>): the query over the process table and its test.
  \<^item> \<open>Dice\<close> (\<open>src/Lab/Lab 9/dice\<close>): loading, open, read, write and unloading of the driver; the
    random numbers are a parameter, and the bytes \<open>snprintf\<close> leaves and the bound of the array it
    writes to are in the model.
  \<^item> \<open>Zathura_Txt\<close> (\<open>src/Lab/Lab 6/zathura-txt\<close>): the life of a document of the text plugin.

  \<^bold>\<open>The sorting programs\<close> (\<open>src/Homework/h3/ex2.c\<close>, and the same code in \<open>src/Lab/Lab 5/code\<close> and
  \<open>src/Lab/Lab 6/cmplx-sort\<close>).
  \<^item> \<open>Sort_List\<close>: the linked list in a heap and \<open>sort\<close>. Walks along the list have the heap's limit
    as fuel, more than the list can be long.
  \<^item> \<open>Sort_Cmp\<close>: the comparison functions. The locale \<open>comparator\<close> states what \<open>sort\<close> relies on and
    is interpreted on each of them.
  \<^item> \<open>C_Strings\<close>: \<open>%d\<close> and the digits \<open>atoi\<close> reads; \<open>atof\<close>, \<open>%lf\<close> and \<open>rand\<close> are parameters.
  \<^item> \<open>Sort_Props\<close>, \<open>Sort_Ui\<close>: that the list and the sort do what they should, and the whole program.
  \<^item> \<open>Sort_Menu\<close>: the two programs of Lab 5; a session of the menu sorts every file it is asked
    to, with the memory it takes counted command by command.
  \<^item> \<open>Sort_Safe\<close>: whatever it is given, the program overruns no buffer but that of a file name that
    is too long, and has only three other ways to crash. The sizes of the buffers, on the stack and
    from \<open>malloc\<close>, are checked where the code copies a string into them (\<open>new_str\<close>, \<open>read_file\<close>,
    \<open>getType\<close>, \<open>print_list\<close>).
  \<^item> \<open>Sort_Csv\<close>, \<open>Sort_Csv_Props\<close>: the csv plugin of Lab 6, which sorts the columns of a table.
  \<^item> \<open>Plugins\<close>: the plugin manager and \<open>main\<close> of Lab 6, from the directory to the sorted file.
    The room that a directory record has after the name is a parameter, because the code copies a
    longer path over the name; the records of Linux (\<open>linux_room\<close>) never have enough.
  \<^item> \<open>Lab5_Dlist\<close> (\<open>src/Lab/Lab 5/lab5_dlist.c\<close>): the typed list with a union of values; its
    sort uses the one of \<open>Sort_Cmp\<close> with another heap.

  \<^bold>\<open>Not modelled.\<close> Messages for the terminal or the kernel log. In \<open>region.c\<close> the functions that
  only print. The code that occurs more than once (the list, the sort and the user interface of
  Labs 5 and 6 are copies of those of the homework) is modelled once, with the differences. Signals
  other than the interruptions of locks, time, and the races of the kernel modules with other code.
\<close>

section \<open>Lemmas across the file system and its format program\<close>

definition mkfs_env :: mkenv where
  "mkfs_env = \<lparr>open_failed = False, write_ret = (\<lambda>_ n. int n), lseek_fails = (\<lambda>_. False),
               junk = (\<lambda>_ _. 0)\<rparr>"

definition blank_dev :: dev where
  "blank_dev = \<lparr>img = (\<lambda>_. 0), off = 0, dtick = 0\<rparr>"

lemma mkfs_ok_env: "mkfs_ok mkfs_env"
  by (simp add: mkfs_ok_def mkfs_env_def)

lemma mount_env_simps [simp]:
  "\<not> make_root_fails mount_env t" "journal_init_inode mount_env t i \<noteq> 0"
  by (simp_all add: mount_env_defs)

text \<open>Mounting a freshly formatted device only sets the journal pointer and the tick.\<close>

lemma mount_formatted:
  assumes "quiet k" and "\<And>t. \<not> make_root_fails k t" and "\<And>t i. journal_init_inode k t i \<noteq> 0"
  obtains j t where "dadfs_fill_super k None (opened (formatted e d)) =
      Inr (0, Some \<lparr>i_ino = 1, i_fop = Some Dir_operations, i_private = Some root_dir\<rparr>,
           set_journal j ((opened (formatted e d))\<lparr>tick := t\<rparr>))" and "j \<noteq> 0"
proof -
  obtain ji where ji: "inode_list (opened (formatted e d)) = [root_dir, ji, welcome_ino]"
    "inode_no ji = 2" by (rule opened_inodes)
  show ?thesis
  proof (rule quiet_fill_super [OF assms, of "opened (formatted e d)" "Some root_dir" ji])
    show "find (\<lambda>i. inode_no i = 1) (inode_list (opened (formatted e d))) = Some root_dir"
      "find (\<lambda>i. inode_no i = 2) (inode_list (opened (formatted e d))) = Some ji"
      using ji by (simp_all add: root_dir_def)
  qed (use that in \<open>simp_all add: opened_sb\<close>)
qed

lemma dirent_list_set_journal [simp]:
  "unat (data_block_number i) \<noteq> 0 \<Longrightarrow> dirent_list (set_journal j s) i = dirent_list s i"
  by (simp add: dirent_list_def)

lemma file_contents_set_journal [simp]:
  "unat (data_block_number i) \<noteq> 0 \<Longrightarrow> file_contents (set_journal j s) i = file_contents s i"
  by (simp add: file_contents_def)

lemma file_contents_tick [simp]: "file_contents (s\<lparr>tick := t\<rparr>) i = file_contents s i"
  by (simp add: file_contents_def)

text \<open>
  The free map \<open>mkfs-dadfs\<close> writes has only bit 4 cleared, so on a fresh device the first
  object is put in block 3 and the second in block 5.
\<close>

lemma lowest_free_fresh:
  "sb_free_blocks (DADFS_SB s) = NOT 16 \<Longrightarrow> lowest_free s 3"
  "sb_free_blocks (DADFS_SB s) = unset_bit 3 (NOT 16) \<Longrightarrow> lowest_free s 5"
proof -
  show "sb_free_blocks (DADFS_SB s) = NOT 16 \<Longrightarrow> lowest_free s 3"
    by (auto simp: lowest_free_def)
  assume free: "sb_free_blocks (DADFS_SB s) = unset_bit 3 (NOT 16)"
  have "\<not> bit (unset_bit 3 (NOT 16) :: 64 word) j" if "3 \<le> j" "j < 5" for j
  proof -
    from that have "j = 3 \<or> j = 4" by auto
    then show ?thesis by (auto simp: bit_unset_bit_iff)
  qed
  then show "lowest_free s 5"
    by (auto simp: lowest_free_def free bit_unset_bit_iff)
qed

lemma dir_ok_created:
  assumes "dir_ok s dir" and "unat (sb_inodes_count (DADFS_SB s)) < 64"
    and "j < length (inode_list s)" and "unat (dir_children_count dir) < 15"
  shows "dir_ok (created s dir nm md k j t) (one_more_child dir)"
proof -
  have "one_more_child dir \<in> set (inode_list (created s dir nm md k j t))"
    using assms(3) by (simp add: inode_list_created [OF assms(1-3)] set_update_memI)
  then show ?thesis
    using assms(1,4)
    by (simp add: dir_ok_def one_more_child_def dir_children_count_def unat_word_ariths)
qed

text \<open>Two creations in the root of a file system with the fresh free map.\<close>

lemma two_creations:
  assumes "quiet k" and "fs_wf s" and "sb_inodes_count (DADFS_SB s) = 3"
    and "sb_free_blocks (DADFS_SB s) = NOT 16" and "0 < length (inode_list s)"
    and "inode_list s ! 0 = root_dir" and "valid_name n1" and "valid_name n2"
    and "S_ISDIR m1 \<or> S_ISREG m1" and "S_ISDIR m2 \<or> S_ISREG m2"
  obtains d1 d2 i1 i2 s1 s2 where
    "dadfs_create_fs_object k root_dir n1 m1 s =
       Inr (0, d1, Some (iget_inode (inode_no i1) i1), s1)"
    "dadfs_create_fs_object k d1 n2 m2 s1 =
       Inr (0, d2, Some (iget_inode (inode_no i2) i2), s2)"
    "data_block_number i1 = 3" "data_block_number i2 = 5" "i2 \<in> set (inode_list s2)"
    "fs_wf s2" "mode i2 = m2"
proof -
  have root: "dir_ok s root_dir" "unat (dir_children_count root_dir) < 15"
    using nth_mem [OF assms(5)] assms(6)
    by (simp_all add: dir_ok_def dadfs_consts) (simp_all add: root_dir_def dir_children_count_def)
  have c: "unat (sb_inodes_count (DADFS_SB s)) < 64" by (simp add: assms(3))
  define s1 where "s1 = created s root_dir n1 m1 3 0 (tick s + 14)"
  define d1 where "d1 = one_more_child root_dir"
  have il1: "inode_list s1 = (inode_list s)[0 := d1] @ [new_object s m1 3]"
    unfolding s1_def d1_def by (rule inode_list_created [OF root(1) c assms(5)])
  have j1: "0 < length (inode_list s1)" "inode_list s1 ! 0 = d1"
    using assms(5) by (auto simp: il1 nth_append)
  have ok1: "dir_ok s1 d1"
    unfolding s1_def d1_def by (rule dir_ok_created [OF root(1) c assms(5) root(2)])
  have wf1: "fs_wf s1" unfolding s1_def by (rule fs_wf_created [OF assms(2) root(1) c assms(5,6)])
  have c1: "unat (sb_inodes_count (DADFS_SB s1)) < 64"
    unfolding s1_def by (simp add: created_simps(1) [OF root(1) c] assms(3))
  have f1: "lowest_free s1 5"
    unfolding s1_def by (rule lowest_free_fresh(2)) (simp add: created_simps(2) [OF root(1) c] assms(4))
  have ch1: "unat (dir_children_count d1) < 15"
    by (simp add: d1_def one_more_child_def root_dir_def dir_children_count_def)
  define s2 where "s2 = created s1 d1 n2 m2 5 0 (tick s1 + 14)"
  have "new_object s1 m2 5 \<in> set (inode_list s2)"
    unfolding s2_def by (simp add: inode_list_created [OF ok1 c1 j1(1)])
  moreover have "fs_wf s2" unfolding s2_def by (rule fs_wf_created [OF wf1 ok1 c1 j1])
  ultimately show ?thesis
    using that [of d1 "new_object s m1 3" s1 _ "new_object s1 m2 5" s2]
      quiet_create [OF assms(1,2) c root assms(7,9) lowest_free_fresh(1) [OF assms(4)] assms(5,6)]
      quiet_create [OF assms(1) wf1 c1 ok1 ch1 assms(8,10) f1 j1]
    by (simp add: s1_def d1_def s2_def new_object_def)
qed

section \<open>Properties\<close>

text \<open>
  C2. A formatted device mounts and holds the welcome file. When \<open>mkfs-dadfs\<close> meets no
  I/O error it exits with 0; the kernel module then mounts the device without options,
  with the root directory of the image as root and a well-formed file system; looking up
  \<open>awordfromdad\<close> in it attaches the welcome inode, and reading that file returns the 40
  bytes of the message.
\<close>

theorem mkfs_mount_lookup_read:
  assumes "mkfs_ok e" and "quiet k" and "\<forall>t. \<not> make_root_fails k t"
    and "\<forall>t i. journal_init_inode k t i \<noteq> 0"
  shows "\<exists>d' v s1 s2 s3. mkfs_main e 2 d = (0, d') \<and>
    dadfs_fill_super k None (opened d') =
      Inr (0, Some \<lparr>i_ino = 1, i_fop = Some Dir_operations, i_private = Some root_dir\<rparr>, s1) \<and>
    fs_wf s1 \<and> sb_journal (DADFS_SB s1) \<noteq> 0 \<and>
    dadfs_lookup k root_dir (bytes_of ''awordfromdad'') s1 = Inr (Some v, s2) \<and>
    i_private v = Some welcome_ino \<and>
    dadfs_read k welcome_ino 4096 0 s2 = Inr (40, welcomefile_body, 40, s3)"
proof -
  let ?s = "opened (formatted e d)"
  obtain j t where m: "dadfs_fill_super k None ?s =
      Inr (0, Some \<lparr>i_ino = 1, i_fop = Some Dir_operations, i_private = Some root_dir\<rparr>,
           set_journal j (?s\<lparr>tick := t\<rparr>))" and "j \<noteq> 0"
    using mount_formatted [OF assms(2)] assms(3,4) by metis
  let ?s1 = "set_journal j (?s\<lparr>tick := t\<rparr>)"
  let ?r = "\<lparr>filename = bytes_of ''awordfromdad'', rec_inode_no = 3\<rparr>"
  obtain ji where ji: "inode_list ?s = [root_dir, ji, welcome_ino]" "inode_no ji = 2"
    by (rule opened_inodes)
  have blk: "unat (data_block_number root_dir) \<noteq> 0" "unat (data_block_number welcome_ino) \<noteq> 0"
    by (simp_all add: root_dir_def welcome_ino_def)
  have "\<exists>t'. dadfs_lookup k root_dir (bytes_of ''awordfromdad'') ?s1 =
      Inr (Some (iget_inode (rec_inode_no ?r) welcome_ino), ?s1\<lparr>tick := t'\<rparr>)"
  proof (rule lookup_present [OF assms(2) valid_name_awordfromdad])
    show "find (\<lambda>i. inode_no i = rec_inode_no ?r) (inode_list ?s1) = Some welcome_ino"
      using ji by (simp add: root_dir_def welcome_ino_def)
  qed (use blk in \<open>simp_all add: opened_root opened_sb heap_simps\<close>,
       simp add: root_dir_def dir_children_count_def)
  then obtain t' where l: "dadfs_lookup k root_dir (bytes_of ''awordfromdad'') ?s1 =
      Inr (Some (iget_inode 3 welcome_ino), ?s1\<lparr>tick := t'\<rparr>)" by auto
  have "0 < file_size welcome_ino" "unat (file_size welcome_ino) \<le> 4096"
    by (simp_all add: welcome_ino_def file_size_def)
  from read_from_start [OF assms(2) this, of 4096 "?s1\<lparr>tick := t'\<rparr>"]
  have "\<exists>s3. dadfs_read k welcome_ino 4096 0 (?s1\<lparr>tick := t'\<rparr>) = Inr (40, welcomefile_body, 40, s3)"
    using blk by (simp add: opened_welcome Let_def) (simp add: welcome_ino_def file_size_def)
  moreover have "sb_journal (DADFS_SB ?s1) \<noteq> 0" using \<open>j \<noteq> 0\<close> by (simp add: heap_simps)
  moreover have "fs_wf ?s1" by (simp add: fs_wf_opened)
  ultimately show ?thesis
    using m l mkfs_main_ok [OF assms(1), of d] by (fastforce simp: iget_inode_def)
qed

theorem mkfs_mount_lookup_read_witness:
  "\<exists>d' s1 v s2. mkfs_main mkfs_env 2 blank_dev = (0, d') \<and>
     dadfs_fill_super mount_env None (opened d') =
      Inr (0, Some \<lparr>i_ino = 1, i_fop = Some Dir_operations, i_private = Some root_dir\<rparr>, s1) \<and>
     dadfs_lookup mount_env root_dir (bytes_of ''awordfromdad'') s1 = Inr (Some v, s2)"
  using mkfs_mount_lookup_read [OF mkfs_ok_env quiet_mount_env, of blank_dev] by auto

text \<open>
  C8. The second new file overwrites the welcome file. \<open>mkfs-dadfs\<close> leaves the journal's
  second block and the welcome file's block marked free. On a freshly formatted and mounted
  device the first file created in the root gets block 3 of the journal and the second
  block 5, where the welcome file lives: after writing 40 bytes to the second file, these
  bytes are the contents of \<open>awordfromdad\<close>.
\<close>

theorem mkfs_second_file_overwrites_welcome:
  assumes "quiet k" and "\<forall>t. \<not> make_root_fails k t" and "\<forall>t i. journal_init_inode k t i \<noteq> 0"
    and "quiet_journal w" and "valid_name n1" and "valid_name n2" and "length bs = 40"
  shows "\<exists>root s0 d1 v1 s1 d2 v2 s2 i1 i2 i3 s3.
    dadfs_fill_super k None (opened (formatted e d)) = Inr (0, Some root, s0) \<and>
    dadfs_create_fs_object k root_dir n1 S_IFREG s0 = Inr (0, d1, Some v1, s1) \<and>
    dadfs_create_fs_object k d1 n2 S_IFREG s1 = Inr (0, d2, Some v2, s2) \<and>
    i_private v1 = Some i1 \<and> data_block_number i1 = 3 \<and>
    i_private v2 = Some i2 \<and> data_block_number i2 = data_block_number welcome_ino \<and>
    dadfs_write_old w bs 0 i2 s2 = Inr (40, 40, i3, False, s3) \<and>
    file_contents s3 welcome_ino = bs"
proof -
  let ?s = "opened (formatted e d)"
  obtain j t where m: "dadfs_fill_super k None ?s =
      Inr (0, Some \<lparr>i_ino = 1, i_fop = Some Dir_operations, i_private = Some root_dir\<rparr>,
           set_journal j (?s\<lparr>tick := t\<rparr>))"
    using mount_formatted [OF assms(1)] assms(2,3) by metis
  let ?sm = "set_journal j (?s\<lparr>tick := t\<rparr>)"
  obtain ji where ji: "inode_list ?s = [root_dir, ji, welcome_ino]" by (rule opened_inodes)
  have reg: "S_ISDIR S_IFREG \<or> S_ISREG S_IFREG" by (simp add: S_ISREG_def S_IFREG_def S_IFMT_def)
  obtain d1 d2 i1 i2 s1 s2 where c:
    "dadfs_create_fs_object k root_dir n1 S_IFREG ?sm =
       Inr (0, d1, Some (iget_inode (inode_no i1) i1), s1)"
    "dadfs_create_fs_object k d1 n2 S_IFREG s1 =
       Inr (0, d2, Some (iget_inode (inode_no i2) i2), s2)"
    "data_block_number i1 = 3" "data_block_number i2 = 5" "i2 \<in> set (inode_list s2)" "fs_wf s2"
    by (rule two_creations [OF assms(1) _ _ _ _ _ assms(5,6) reg reg, of ?sm])
      (simp_all add: fs_wf_opened opened_sb heap_simps ji)
  obtain i where i: "i < length (inode_list s2)" "inode_list s2 ! i = i2"
    using c(5) by (auto simp: in_set_conv_nth)
  have ok: "file_ok s2 i2" using c(4,5) by (simp add: file_ok_def)
  have w: "dadfs_write_old w bs 0 i2 s2 =
      Inr (40, 40, i2\<lparr>size_or_children := 40\<rparr>, False, written s2 i2 bs 0 i)"
    using quiet_write_old [OF assms(4) c(6) ok i, of 0 bs] assms(7) by simp
  have "file_contents (written s2 i2 bs 0 i) (i2\<lparr>size_or_children := 40\<rparr>) = bs"
    using file_contents_written [OF ok, of 0 bs i] assms(7) by (simp add: get_bytes_def)
  then have "file_contents (written s2 i2 bs 0 i) welcome_ino = bs"
    using c(4) by (simp add: file_contents_def welcome_ino_def file_size_def)
  with m c(1-4) w show ?thesis
    by (fastforce simp: iget_inode_def welcome_ino_def)
qed

theorem mkfs_second_file_overwrites_welcome_witness:
  "\<exists>i2 s2 i3 s3. dadfs_write_old quiet_jenv (replicate 40 65) 0 i2 s2 = Inr (40, 40, i3, False, s3) \<and>
     file_contents s3 welcome_ino = replicate 40 65"
proof -
  have nm: "valid_name (bytes_of ''a'')" "valid_name (bytes_of ''b'')"
    by (simp_all add: valid_name_def) (simp_all add: bytes_of_def)
  show ?thesis
    using mkfs_second_file_overwrites_welcome [OF quiet_mount_env _ _ quiet_quiet_jenv(1) nm,
        of "replicate 40 65" mkfs_env blank_dev]
    by fastforce
qed

end
